(* ===== verification/Prelude.thy ===== *)
theory Prelude
  imports Main "HOL-Library.Word" "HOL-Library.Monad_Syntax"
begin

text \<open>
  Shared ground of the development: the machine types of the C sources, the collections of
  simplification rules the component theories fill and use, and generic facts on lists and
  options that more than one component needs.

  C integers keep their width: \<open>uint8_t\<close>, \<open>uint32_t\<close>, \<open>uint64_t\<close> are words; an \<open>int\<close> that is
  only compared or cast to \<open>uint32_t\<close> (a file descriptor, a system call number) is the
  32-bit word with the same bit pattern.  A C string is the list of its bytes before the
  terminating NUL.
\<close>

unbundle bit_operations_syntax

type_synonym u8 = "8 word"
type_synonym u16 = "16 word"
type_synonym u32 = "32 word"
type_synonym u64 = "64 word"

type_synonym c_string = "u8 list"

named_theorems builder_simps
  \<open>closed forms of the functions that append instructions to a filter program\<close>
named_theorems exec_simps
  \<open>what a filter program does, one block of instructions at a time\<close>
named_theorems mode_simps
  \<open>bit-level facts about file modes\<close>

text \<open>The bytes of an ASCII literal, and the byte of one character.\<close>

definition byte_of :: "char \<Rightarrow> u8" where
  "byte_of c = of_nat (of_char c)"

definition bytes :: "string \<Rightarrow> c_string" where
  "bytes s = map byte_of s"

lemma bytes_simps [simp]:
  "bytes [] = []"
  "bytes (c # s) = byte_of c # bytes s"
  "length (bytes s) = length s"
  "bytes (s @ t) = bytes s @ bytes t"
  by (simp_all add: bytes_def)

text \<open>Character classes in the C locale.\<close>

definition isspace :: "char \<Rightarrow> bool" where
  "isspace c \<longleftrightarrow> (let n = of_char c in n = (32 :: nat) \<or> (9 \<le> n \<and> n \<le> 13))"

definition isdigit :: "char \<Rightarrow> bool" where
  "isdigit c \<longleftrightarrow> (let n = of_char c in 48 \<le> n \<and> n \<le> (57 :: int))"

lemma word_mask_zero_iff:
  fixes x m :: "'a::len word"
  shows "x AND m = 0 \<longleftrightarrow> (\<forall>n. bit x n \<longrightarrow> \<not> bit m n)"
  by (auto simp: bit_eq_iff bit_simps dest: bit_imp_le_length)

lemma and_exp_eq_0: "w AND 2 ^ n = 0 \<longleftrightarrow> \<not> bit w n" for w :: "'a::len word"
  by (simp add: bit_iff_and_push_bit_not_eq_0 push_bit_eq_mult)

lemma take_bit_self_iff: "take_bit n w = w \<longleftrightarrow> uint w < 2 ^ n" for w :: "'a::len word"
  by (simp add: word_uint_eq_iff unsigned_take_bit_eq take_bit_int_eq_self_iff)

lemma uint_of_int_small: "0 \<le> v \<Longrightarrow> v < 2 ^ LENGTH('a) \<Longrightarrow> uint (of_int v :: 'a::len word) = v"
  by (simp add: uint_word_of_int)

text \<open>Equality of bytes, one bit after the other.\<close>

lemma bit_u8_beyond [simp]: "8 \<le> n \<Longrightarrow> \<not> bit b n" for b :: u8
  using bit_imp_le_length [of b n] by auto

lemma u8_eqI:
  fixes v w :: u8
  assumes "bit v 0 = bit w 0" "bit v 1 = bit w 1" "bit v 2 = bit w 2" "bit v 3 = bit w 3"
    "bit v 4 = bit w 4" "bit v 5 = bit w 5" "bit v 6 = bit w 6" "bit v 7 = bit w 7"
  shows "v = w"
proof (rule bit_word_eqI)
  fix n assume "n < LENGTH(8)"
  then consider "n = 0" | "n = 1" | "n = 2" | "n = 3" | "n = 4" | "n = 5" | "n = 6" | "n = 7"
    by fastforce
  then show "bit v n = bit w n" by cases (use assms in simp_all)
qed

lemma u8_all: "(\<forall>c :: u8. P c) \<longleftrightarrow> (\<forall>n \<in> set [0..<256]. P (of_nat n))"
proof
  assume *: "\<forall>n \<in> set [0..<256]. P (of_nat n)"
  show "\<forall>c. P c"
  proof
    fix c :: u8
    have "unat c \<in> set [0..<256]" using unsigned_less [of c, where ?'a = nat] by simp
    with * show "P c" by force
  qed
qed simp

lemma unat_of_nat_u8: "n < 256 \<Longrightarrow> unat (of_nat n :: u8) = n"
  by (simp add: unat_of_nat)

lemma drop_append_exact [simp]:
  "n = length xs \<Longrightarrow> drop n (xs @ ys) = ys"
  by simp

lemma distinct_map_of_single:
  assumes "distinct (map fst xs)" "(k, v) \<in> set xs"
  shows "map_of xs k = Some v"
  using assms by (simp add: map_of_eq_Some_iff)

text \<open>
  Linear search: \<open>find_index P xs\<close> is the index of the first element with \<open>P\<close>, as a C loop
  that returns the address of the first match computes it.
\<close>

fun find_index :: "('a \<Rightarrow> bool) \<Rightarrow> 'a list \<Rightarrow> nat option" where
  "find_index P [] = None"
| "find_index P (x # xs) = (if P x then Some 0 else map_option Suc (find_index P xs))"

lemma find_index_None: "find_index P xs = None \<longleftrightarrow> (\<forall>x \<in> set xs. \<not> P x)"
  by (induction xs) auto

lemma find_index_nth:
  assumes "distinct xs" "i < length xs"
  shows "find_index (\<lambda>x. x = xs ! i) xs = Some i"
  using assms by (induction xs arbitrary: i) (auto simp: nth_Cons split: nat.splits)

lemma find_index_Some:
  assumes "find_index P xs = Some i"
  shows "i < length xs" "P (xs ! i)"
  using assms by (induction xs arbitrary: i) (auto split: if_splits)

text \<open>
  Sequencing of a step that may fail with the rest of the function: the error is passed on, as
  \<open>goto out\<close> and early returns do.
\<close>

definition err_bind :: "'e + 'a \<Rightarrow> ('a \<Rightarrow> 'e + 'b) \<Rightarrow> 'e + 'b" where
  "err_bind r f = (case r of Inl e \<Rightarrow> Inl e | Inr x \<Rightarrow> f x)"

lemma err_bind_simps [simp]:
  "err_bind (Inl e) f = Inl e"
  "err_bind (Inr x) f = f x"
  by (simp_all add: err_bind_def)

lemma err_bind_Inr: "err_bind r f = Inr y \<longleftrightarrow> (\<exists>x. r = Inr x \<and> f x = Inr y)"
  by (cases r) auto

lemma err_bind_Inl: "err_bind r f = Inl e \<longleftrightarrow> r = Inl e \<or> (\<exists>x. r = Inr x \<and> f x = Inl e)"
  by (cases r) auto

lemma err_bind_cong [fundef_cong]:
  "r = r' \<Longrightarrow> (\<And>x. r' = Inr x \<Longrightarrow> f x = g x) \<Longrightarrow> err_bind r f = err_bind r' g"
  by (cases r') auto

end
