(* ===== verification/Bpf.thy ===== *)
theory Bpf
  imports Prelude
begin

text \<open>
  The tiny assembler of \<open>src/src.compat/capsicum.c\<close> (struct \<open>bpf_prog\<close>, \<open>emit\<close> and the
  \<open>E_*\<close>, \<open>LD_*\<close> and \<open>RET_*\<close> macros), and the contract of the machine that runs its programs.

  The programs run in the kernel, which is not part of the sources.  What the shim relies on is
  the locale \<open>bpf_machine\<close>: the documented effect of the four instructions the shim emits, on
  the instructions that remain to be run.  Jump offsets of classic BPF are unsigned, so a
  program only ever moves forward.  \<open>seccomp_stack\<close> adds the documented rule for several
  installed filters: every filter runs, and the result with the strictest action wins.
  Facts about emitted blocks are proved once inside the locales; \<open>bpf_run\<close> and
  \<open>seccomp_verdict\<close> are an executable machine that satisfies the contract.
\<close>

section \<open>Instructions and the assembler\<close>

record sock_filter =
  sf_code :: u16
  sf_jt :: u8
  sf_jf :: u8
  sf_k :: u32

type_synonym bpf_prog = "sock_filter list"

abbreviation BPF_LD_W_ABS :: u16 where "BPF_LD_W_ABS \<equiv> 0x20"
abbreviation BPF_ALU_AND_K :: u16 where "BPF_ALU_AND_K \<equiv> 0x54"
abbreviation BPF_JMP_JEQ_K :: u16 where "BPF_JMP_JEQ_K \<equiv> 0x15"
abbreviation BPF_RET_K :: u16 where "BPF_RET_K \<equiv> 0x06"

abbreviation SECCOMP_RET_KILL_PROCESS :: u32 where "SECCOMP_RET_KILL_PROCESS \<equiv> 0x80000000"
abbreviation SECCOMP_RET_ERRNO :: u32 where "SECCOMP_RET_ERRNO \<equiv> 0x00050000"
abbreviation SECCOMP_RET_ALLOW :: u32 where "SECCOMP_RET_ALLOW \<equiv> 0x7fff0000"
abbreviation SECCOMP_RET_DATA :: u32 where "SECCOMP_RET_DATA \<equiv> 0x0000ffff"
abbreviation EPERM :: u32 where "EPERM \<equiv> 1"

text \<open>The value that denies a system call with \<open>EPERM\<close>.\<close>

definition ret_eperm :: u32 where
  "ret_eperm = SECCOMP_RET_ERRNO OR (EPERM AND SECCOMP_RET_DATA)"

definition insns_max :: nat where
  "insns_max = 512"

text \<open>\<open>None\<close> is the call of \<open>abort()\<close>.\<close>

definition emit :: "u16 \<Rightarrow> u8 \<Rightarrow> u8 \<Rightarrow> u32 \<Rightarrow> bpf_prog \<Rightarrow> bpf_prog option" where
  "emit code jt jf k p =
     (if length p \<ge> insns_max then None
      else Some (p @ [\<lparr>sf_code = code, sf_jt = jt, sf_jf = jf, sf_k = k\<rparr>]))"

definition E_STMT :: "u16 \<Rightarrow> u32 \<Rightarrow> bpf_prog \<Rightarrow> bpf_prog option" where
  "E_STMT c k = emit c 0 0 k"

definition E_JUMP :: "u16 \<Rightarrow> u32 \<Rightarrow> u8 \<Rightarrow> u8 \<Rightarrow> bpf_prog \<Rightarrow> bpf_prog option" where
  "E_JUMP c k t f = emit c t f k"

definition E_LD :: "u32 \<Rightarrow> bpf_prog \<Rightarrow> bpf_prog option" where
  "E_LD off = E_STMT BPF_LD_W_ABS off"

definition E_JEQ :: "u32 \<Rightarrow> u8 \<Rightarrow> u8 \<Rightarrow> bpf_prog \<Rightarrow> bpf_prog option" where
  "E_JEQ v t f = E_JUMP BPF_JMP_JEQ_K v t f"

definition E_AND :: "u32 \<Rightarrow> bpf_prog \<Rightarrow> bpf_prog option" where
  "E_AND v = E_STMT BPF_ALU_AND_K v"

definition E_RET :: "u32 \<Rightarrow> bpf_prog \<Rightarrow> bpf_prog option" where
  "E_RET k = E_STMT BPF_RET_K k"

text \<open>Offsets in \<open>struct seccomp_data\<close>: \<open>nr\<close> at 0, \<open>arch\<close> at 4, \<open>args[n]\<close> at 16 + 8 n.\<close>

definition LD_NR :: "bpf_prog \<Rightarrow> bpf_prog option" where
  "LD_NR = E_LD 0"

definition LD_ARCH :: "bpf_prog \<Rightarrow> bpf_prog option" where
  "LD_ARCH = E_LD 4"

definition args_off :: "nat \<Rightarrow> u32" where
  "args_off n = of_nat (16 + 8 * n)"

definition LD_ARG :: "nat \<Rightarrow> bpf_prog \<Rightarrow> bpf_prog option" where
  "LD_ARG n = E_LD (args_off n)"

definition RET_ALLOW :: "bpf_prog \<Rightarrow> bpf_prog option" where
  "RET_ALLOW = E_RET SECCOMP_RET_ALLOW"

definition RET_EPERM :: "bpf_prog \<Rightarrow> bpf_prog option" where
  "RET_EPERM = E_RET ret_eperm"

definition RET_KILL :: "bpf_prog \<Rightarrow> bpf_prog option" where
  "RET_KILL = E_RET SECCOMP_RET_KILL_PROCESS"

section \<open>Closed forms of program builders\<close>

text \<open>
  Every builder appends a list of instructions unless the buffer is too small, so its whole
  behaviour is \<open>app_code\<close> of that list; the simplifier composes the closed forms.
\<close>

definition app_code :: "sock_filter list \<Rightarrow> bpf_prog \<Rightarrow> bpf_prog option" where
  "app_code is p =
     (if is = [] \<or> length p + length is \<le> insns_max then Some (p @ is) else None)"

abbreviation i_ld :: "u32 \<Rightarrow> sock_filter" where
  "i_ld off \<equiv> \<lparr>sf_code = BPF_LD_W_ABS, sf_jt = 0, sf_jf = 0, sf_k = off\<rparr>"

abbreviation i_nr :: sock_filter where "i_nr \<equiv> i_ld 0"
abbreviation i_arch :: sock_filter where "i_arch \<equiv> i_ld 4"
abbreviation i_arg :: "nat \<Rightarrow> sock_filter" where "i_arg n \<equiv> i_ld (args_off n)"

abbreviation i_and :: "u32 \<Rightarrow> sock_filter" where
  "i_and v \<equiv> \<lparr>sf_code = BPF_ALU_AND_K, sf_jt = 0, sf_jf = 0, sf_k = v\<rparr>"

abbreviation i_jeq :: "u32 \<Rightarrow> u8 \<Rightarrow> u8 \<Rightarrow> sock_filter" where
  "i_jeq v t f \<equiv> \<lparr>sf_code = BPF_JMP_JEQ_K, sf_jt = t, sf_jf = f, sf_k = v\<rparr>"

abbreviation i_ret :: "u32 \<Rightarrow> sock_filter" where
  "i_ret v \<equiv> \<lparr>sf_code = BPF_RET_K, sf_jt = 0, sf_jf = 0, sf_k = v\<rparr>"

lemma emit_app_code [builder_simps]:
  "E_LD off = app_code [i_ld off]"
  "E_JEQ v t f = app_code [i_jeq v t f]"
  "E_AND v = app_code [i_and v]"
  "E_RET v = app_code [i_ret v]"
  "LD_NR = app_code [i_nr]"
  "LD_ARCH = app_code [i_arch]"
  "LD_ARG n = app_code [i_arg n]"
  "RET_ALLOW = app_code [i_ret SECCOMP_RET_ALLOW]"
  "RET_EPERM = app_code [i_ret ret_eperm]"
  "RET_KILL = app_code [i_ret SECCOMP_RET_KILL_PROCESS]"
  by (auto simp: fun_eq_iff app_code_def E_LD_def E_JEQ_def E_AND_def E_RET_def E_STMT_def
      E_JUMP_def LD_NR_def LD_ARCH_def LD_ARG_def RET_ALLOW_def RET_EPERM_def RET_KILL_def
      emit_def insns_max_def)

lemma app_code_bind [builder_simps]:
  "app_code xs p \<bind> app_code ys = app_code (xs @ ys) p"
  "app_code xs p \<bind> (\<lambda>q. app_code ys q) = app_code (xs @ ys) p"
  "app_code xs p \<bind> (\<lambda>q. app_code ys q \<bind> g) = app_code (xs @ ys) p \<bind> g"
  by (auto simp: app_code_def Option.bind_eq_None_conv split: if_splits)

lemma app_code_Nil [builder_simps]: "app_code [] = Some"
  by (simp add: fun_eq_iff app_code_def)

lemma app_code_Some:
  "app_code is p = Some q \<longleftrightarrow> (is = [] \<or> length p + length is \<le> insns_max) \<and> q = p @ is"
  by (auto simp: app_code_def)

lemma app_code_step:
  "length p + length is \<le> insns_max \<Longrightarrow> app_code is p = Some (p @ is)"
  by (simp add: app_code_def)

lemma app_code_empty: "length is \<le> insns_max \<Longrightarrow> app_code is [] = Some is"
  by (simp add: app_code_def)

text \<open>A C loop whose body appends instructions.\<close>

fun emit_loop :: "('a \<Rightarrow> bpf_prog \<Rightarrow> bpf_prog option) \<Rightarrow> 'a list \<Rightarrow> bpf_prog \<Rightarrow> bpf_prog option" where
  "emit_loop f [] p = Some p"
| "emit_loop f (x # xs) p = do { p \<leftarrow> f x p; emit_loop f xs p }"

lemma emit_loop_app_code:
  assumes "\<And>x. x \<in> set xs \<Longrightarrow> f x = app_code (c x)"
  shows "emit_loop f xs = app_code (concat (map c xs))"
proof -
  have "emit_loop f xs p = app_code (concat (map c xs)) p" for p
    using assms
  proof (induction xs arbitrary: p)
    case (Cons x xs)
    then have "emit_loop f xs = app_code (concat (map c xs))" by (simp add: fun_eq_iff)
    with Cons.prems show ?case by (simp add: builder_simps)
  qed (simp add: builder_simps)
  then show ?thesis by (simp add: fun_eq_iff)
qed

section \<open>The machine\<close>

record seccomp_data =
  sd_nr :: u32
  sd_arch :: u32
  sd_ip :: u64
  sd_args :: "u64 list"

text \<open>A 32-bit load: on the little-endian targets an argument's offset holds its low word.\<close>

definition sd_arg :: "seccomp_data \<Rightarrow> nat \<Rightarrow> u32" where
  "sd_arg d n = (if n < length (sd_args d) then ucast (sd_args d ! n) else 0)"

definition sd_load :: "seccomp_data \<Rightarrow> u32 \<Rightarrow> u32" where
  "sd_load d off =
     (if off = 0 then sd_nr d
      else if off = 4 then sd_arch d
      else sd_arg d ((unat off - 16) div 8))"

lemma unat_args_off: "n < 6 \<Longrightarrow> unat (args_off n) = 16 + 8 * n"
  unfolding args_off_def by (subst unat_of_nat) simp

lemma sd_load_simps [simp]:
  "sd_load d 0 = sd_nr d"
  "sd_load d 4 = sd_arch d"
  "n < 6 \<Longrightarrow> sd_load d (args_off n) = sd_arg d n"
  by (auto simp: sd_load_def unat_args_off word_unat_eq_iff)

section \<open>The contract of the machine\<close>

locale bpf_machine =
  fixes run :: "bpf_prog \<Rightarrow> seccomp_data \<Rightarrow> u32 \<Rightarrow> u32 option"
  assumes run_ld: "run (i_ld off # is) d a = run is d (sd_load d off)"
    and run_and: "run (i_and v # is) d a = run is d (a AND v)"
    and run_jeq: "run (i_jeq v t f # is) d a = run (drop (unat (if a = v then t else f)) is) d a"
    and run_ret: "run (i_ret v # is) d a = Some v"
begin

lemmas run_simps [simp] = run_ld run_and run_jeq run_ret

text \<open>The guard on the architecture word that opens every program.\<close>

lemma run_guard:
  "run (i_arch # i_jeq arch 1 0 # i_ret SECCOMP_RET_KILL_PROCESS # is) d a =
     (if sd_arch d = arch then run is d arch else Some SECCOMP_RET_KILL_PROCESS)"
  by simp

text \<open>Denying one system call number with the number in the accumulator.\<close>

lemma run_deny:
  "run (i_jeq nr 0 1 # i_ret e # is) d a = (if a = nr then Some e else run is d a)"
  by simp

text \<open>A row of equality tests that all jump to the same instruction past the row.\<close>

lemma run_jump_row:
  assumes "\<And>j. j < length vs \<Longrightarrow> unat (t j) = length vs - j - 1 + m"
    and "m \<le> length is"
  shows "run (map (\<lambda>j. i_jeq (vs ! j) (t j) 0) [0..<length vs] @ is) d a =
    (if a \<in> set vs then run (drop m is) d a else run is d a)"
  using assms(1)
proof (induction vs arbitrary: t)
  case Nil
  then show ?case by simp
next
  case (Cons v vs)
  have IH: "run (map (\<lambda>j. i_jeq (vs ! j) (t (Suc j)) 0) [0..<length vs] @ is) d a =
    (if a \<in> set vs then run (drop m is) d a else run is d a)"
    by (rule Cons.IH) (use Cons.prems in force)
  have "unat (t 0) = length vs + m"
    using Cons.prems [of 0] by simp
  moreover have "map (\<lambda>j. i_jeq ((v # vs) ! j) (t j) 0) [0..<length (v # vs)] =
    i_jeq v (t 0) 0 # map (\<lambda>j. i_jeq (vs ! j) (t (Suc j)) 0) [0..<length vs]"
    by (simp add: upt_conv_Cons map_Suc_upt [symmetric] del: upt_Suc)
  ultimately show ?case
    using IH by simp
qed

end

text \<open>
  The machine itself, executable: the remaining program, the data and the accumulator.  A
  program that falls off its end has no result (the kernel refuses to load one).
\<close>

function bpf_run :: "bpf_prog \<Rightarrow> seccomp_data \<Rightarrow> u32 \<Rightarrow> u32 option" where
  "bpf_run [] d a = None"
| "bpf_run (i # is) d a =
     (if sf_code i = BPF_LD_W_ABS then bpf_run is d (sd_load d (sf_k i))
      else if sf_code i = BPF_ALU_AND_K then bpf_run is d (a AND sf_k i)
      else if sf_code i = BPF_JMP_JEQ_K
        then bpf_run (drop (unat (if a = sf_k i then sf_jt i else sf_jf i)) is) d a
      else if sf_code i = BPF_RET_K then Some (sf_k i)
      else None)"
  by pat_completeness auto
termination
  by (relation "measure (\<lambda>(is, d, a). length is)") auto

interpretation bpf: bpf_machine bpf_run
  by unfold_locales simp_all

section \<open>Several filters\<close>

text \<open>
  The kernel runs every installed filter and keeps the result whose action, as a signed
  number, is the least: killing the process before \<open>ERRNO\<close> before \<open>ALLOW\<close>.
\<close>

definition ret_action :: "u32 \<Rightarrow> int" where
  "ret_action r = sint (r AND 0xffff0000)"

locale seccomp_stack = bpf_machine +
  fixes verdict :: "bpf_prog list \<Rightarrow> seccomp_data \<Rightarrow> u32"
  assumes verdict_result:
      "verdict fs d = SECCOMP_RET_ALLOW \<or> (\<exists>f \<in> set fs. run f d 0 = Some (verdict fs d))"
    and verdict_strictest:
      "f \<in> set fs \<Longrightarrow> run f d 0 = Some r \<Longrightarrow> ret_action (verdict fs d) \<le> ret_action r"
begin

lemma denied_by_one:
  assumes "f \<in> set fs" "run f d 0 = Some r" "ret_action r < ret_action SECCOMP_RET_ALLOW"
  shows "verdict fs d \<noteq> SECCOMP_RET_ALLOW"
  using verdict_strictest [OF assms(1,2)] assms(3) by auto

lemma allowed_iff:
  assumes "\<And>f. f \<in> set fs \<Longrightarrow> \<exists>r. run f d 0 = Some r \<and>
      (r = SECCOMP_RET_ALLOW \<or> ret_action r < ret_action SECCOMP_RET_ALLOW)"
  shows "verdict fs d = SECCOMP_RET_ALLOW \<longleftrightarrow>
    (\<forall>f \<in> set fs. run f d 0 = Some SECCOMP_RET_ALLOW)"
  using verdict_result [of fs d] denied_by_one assms by force

end

fun strictest :: "u32 list \<Rightarrow> u32 \<Rightarrow> u32" where
  "strictest [] acc = acc"
| "strictest (r # rs) acc = strictest rs (if ret_action r < ret_action acc then r else acc)"

definition seccomp_verdict :: "bpf_prog list \<Rightarrow> seccomp_data \<Rightarrow> u32" where
  "seccomp_verdict fs d = strictest (List.map_filter (\<lambda>f. bpf_run f d 0) fs) SECCOMP_RET_ALLOW"

lemma strictest_in: "strictest rs acc \<in> insert acc (set rs)"
  by (induction rs arbitrary: acc) (auto split: if_splits)

lemma strictest_le_acc: "ret_action (strictest rs acc) \<le> ret_action acc"
proof (induction rs arbitrary: acc)
  case (Cons x rs)
  show ?case
    using Cons.IH [of x] Cons.IH [of acc] by auto
qed simp

lemma strictest_le: "r \<in> set rs \<Longrightarrow> ret_action (strictest rs acc) \<le> ret_action r"
proof (induction rs arbitrary: acc)
  case (Cons x rs)
  then show ?case
    using strictest_le_acc [of rs x] strictest_le_acc [of rs acc] by auto
qed simp

interpretation scmp: seccomp_stack bpf_run seccomp_verdict
proof unfold_locales
  fix fs d
  show "seccomp_verdict fs d = SECCOMP_RET_ALLOW \<or>
    (\<exists>f\<in>set fs. bpf_run f d 0 = Some (seccomp_verdict fs d))"
    using strictest_in [of "List.map_filter (\<lambda>f. bpf_run f d 0) fs" SECCOMP_RET_ALLOW]
    by (auto simp: seccomp_verdict_def map_filter_def)
next
  fix f fs d r
  assume "f \<in> set fs" "bpf_run f d 0 = Some r"
  then show "ret_action (seccomp_verdict fs d) \<le> ret_action r"
    unfolding seccomp_verdict_def by (intro strictest_le) (force simp: map_filter_def)
qed

lemma ret_action_simps [simp]:
  "ret_action SECCOMP_RET_ALLOW = 0x7fff0000"
  "ret_action SECCOMP_RET_KILL_PROCESS = - 0x80000000"
  "ret_action ret_eperm = 0x50000"
  by (simp_all add: ret_action_def ret_eperm_def)

lemma ret_eperm_neq [simp]:
  "ret_eperm \<noteq> SECCOMP_RET_ALLOW" "SECCOMP_RET_ALLOW \<noteq> ret_eperm"
  "ret_eperm \<noteq> SECCOMP_RET_KILL_PROCESS" "SECCOMP_RET_KILL_PROCESS \<noteq> ret_eperm"
  by (simp_all add: ret_eperm_def)

text \<open>A filter of the shim answers with one of three values.\<close>

abbreviation shim_result :: "u32 option \<Rightarrow> bool" where
  "shim_result r \<equiv> r \<in> Some ` {SECCOMP_RET_ALLOW, ret_eperm, SECCOMP_RET_KILL_PROCESS}"

lemma verdict_allow_iff:
  assumes "\<forall>f \<in> set fs. shim_result (bpf_run f d 0)"
  shows "seccomp_verdict fs d = SECCOMP_RET_ALLOW \<longleftrightarrow>
    (\<forall>f \<in> set fs. bpf_run f d 0 = Some SECCOMP_RET_ALLOW)"
  by (rule scmp.allowed_iff) (use assms in force)

lemma verdict_denied_by:
  assumes "f \<in> set fs" "bpf_run f d 0 = Some ret_eperm"
  shows "seccomp_verdict fs d \<noteq> SECCOMP_RET_ALLOW"
  by (rule scmp.denied_by_one [OF assms]) simp

end
