(* ===== verification/Platform.thy ===== *)
theory Platform
  imports Prelude
begin

text \<open>
  The constants of the build target that \<open>src/src.compat/capsicum.c\<close> takes from the system
  headers.  They differ between the supported architectures, so they are a parameter of the
  model: \<open>sysno P x = None\<close> says that the target does not define \<open>SYS_x\<close>, and the
  corresponding \<open>#ifdef\<close> leaves the code for it out.  \<open>x86_64_linux\<close> is one target, used to
  evaluate the definitions.  The rights of \<open>src/include/sys/capsicum.h\<close> and the flags of
  \<open>src/include/capsicum_helpers.h\<close> are the program's own and are defined here.
\<close>

record plat =
  audit_arch :: u32
  sysno :: "string \<Rightarrow> u32 option"
  O_ACCMODE :: u32
  O_RDONLY :: u32
  O_CREAT :: u32
  O_TRUNC :: u32
  O_APPEND :: u32
  O_TMPFILE :: u32
  F_GETFD :: u64
  F_SETFD :: u64
  F_GETFL :: u64
  F_SETFL :: u64
  FIONREAD :: "u64 option"
  FIOCLEX :: "u64 option"
  FIONCLEX :: "u64 option"
  TCGETS :: "u64 option"
  TIOCGWINSZ :: "u64 option"
  has_fs_refer :: bool
  has_fs_truncate :: bool

definition x86_64_fd_sysno :: "(string \<times> nat) list" where
  "x86_64_fd_sysno = [
    (''read'', 0), (''readv'', 19), (''pread64'', 17), (''preadv'', 295), (''preadv2'', 327),
    (''write'', 1), (''writev'', 20), (''pwrite64'', 18), (''pwritev'', 296),
    (''pwritev2'', 328), (''lseek'', 8), (''ftruncate'', 77), (''fsync'', 74),
    (''fdatasync'', 75), (''shutdown'', 48), (''mmap'', 9), (''ioctl'', 16), (''fcntl'', 72),
    (''landlock_create_ruleset'', 444), (''landlock_add_rule'', 445),
    (''landlock_restrict_self'', 446), (''seccomp'', 317)]"

definition x86_64_ns_sysno :: "(string \<times> nat) list" where
  "x86_64_ns_sysno = [
    (''open'', 2), (''openat'', 257), (''newfstatat'', 262), (''statx'', 332),
    (''openat2'', 437), (''creat'', 85), (''link'', 86), (''linkat'', 265), (''symlink'', 88),
    (''symlinkat'', 266), (''rename'', 82), (''renameat'', 264), (''renameat2'', 316),
    (''mkdir'', 83), (''mkdirat'', 258), (''rmdir'', 84), (''unlink'', 87), (''unlinkat'', 263),
    (''mknod'', 133), (''mknodat'', 259), (''chdir'', 80), (''chroot'', 161), (''mount'', 165),
    (''umount2'', 166), (''pivot_root'', 155), (''fsopen'', 430), (''fsmount'', 432),
    (''fsconfig'', 431), (''fspick'', 433), (''move_mount'', 429), (''open_tree'', 428),
    (''mount_setattr'', 442), (''swapon'', 167), (''swapoff'', 168), (''truncate'', 76),
    (''utime'', 132), (''utimes'', 235), (''utimensat'', 280), (''futimesat'', 261),
    (''access'', 21), (''faccessat'', 269), (''faccessat2'', 439), (''stat'', 4), (''lstat'', 6),
    (''readlink'', 89), (''readlinkat'', 267), (''getcwd'', 79), (''inotify_add_watch'', 254),
    (''fanotify_mark'', 301), (''name_to_handle_at'', 303), (''open_by_handle_at'', 304),
    (''execve'', 59), (''execveat'', 322), (''socket'', 41), (''socketpair'', 53),
    (''connect'', 42), (''bind'', 49), (''listen'', 50), (''accept'', 43), (''accept4'', 288),
    (''ptrace'', 101), (''process_vm_readv'', 310), (''process_vm_writev'', 311),
    (''kcmp'', 312), (''kexec_load'', 246), (''kexec_file_load'', 320), (''init_module'', 175),
    (''finit_module'', 313), (''delete_module'', 176), (''bpf'', 321),
    (''perf_event_open'', 298), (''io_uring_setup'', 425), (''setns'', 308), (''unshare'', 272),
    (''acct'', 163), (''add_key'', 248), (''keyctl'', 250), (''request_key'', 249),
    (''quotactl'', 179)]"

definition x86_64_sysno :: "(string \<times> nat) list" where
  "x86_64_sysno = x86_64_fd_sysno @ x86_64_ns_sysno"

lemmas x86_64_sysno_defs = x86_64_sysno_def x86_64_fd_sysno_def x86_64_ns_sysno_def

definition x86_64_linux :: plat where
  "x86_64_linux = \<lparr>
     audit_arch = 0xC000003E, sysno = (\<lambda>x. map_option of_nat (map_of x86_64_sysno x)),
     O_ACCMODE = 3, O_RDONLY = 0, O_CREAT = 0x40, O_TRUNC = 0x200, O_APPEND = 0x400,
     O_TMPFILE = 0x410000,
     F_GETFD = 1, F_SETFD = 2, F_GETFL = 3, F_SETFL = 4,
     FIONREAD = Some 0x541B, FIOCLEX = Some 0x5451, FIONCLEX = Some 0x5450,
     TCGETS = Some 0x5401, TIOCGWINSZ = Some 0x5413,
     has_fs_refer = True, has_fs_truncate = True\<rparr>"

text \<open>Distinct system calls have distinct numbers.\<close>

definition sysno_inj :: "plat \<Rightarrow> bool" where
  "sysno_inj P \<longleftrightarrow> (\<forall>x y n. sysno P x = Some n \<longrightarrow> sysno P y = Some n \<longrightarrow> x = y)"

lemma sysno_injD: "sysno_inj P \<Longrightarrow> sysno P x = Some n \<Longrightarrow> sysno P y = Some n \<Longrightarrow> x = y"
  unfolding sysno_inj_def by blast

lemma map_of_inj:
  assumes "distinct (map snd xs)" "map_of xs a = Some v" "map_of xs b = Some v"
  shows "a = b"
  using assms
proof (induction xs)
  case (Cons y xs)
  then show ?case
    by (cases y) (force split: if_splits dest: map_of_SomeD)
qed simp

lemma x86_64_sysno_bound: "map_of x86_64_sysno x = Some n \<Longrightarrow> n < 1024"
  by (drule map_of_SomeD) (simp add: x86_64_sysno_defs, elim disjE; simp)

lemma x86_64_sysno_inj: "sysno_inj x86_64_linux"
proof -
  have "distinct (map snd x86_64_sysno)"
    by (simp add: x86_64_sysno_defs)
  moreover have "m = n" if "of_nat m = (of_nat n :: u32)" "m < 1024" "n < 1024" for m n
    using that by (simp add: word_of_nat_eq_iff take_bit_nat_eq_self)
  ultimately show ?thesis
    unfolding sysno_inj_def x86_64_linux_def
    by (auto intro: map_of_inj) (metis map_of_inj x86_64_sysno_bound)
qed

lemma x86_64_sysno_unused:
  assumes "unat n \<notin> set (map snd x86_64_sysno)"
  shows "sysno x86_64_linux x \<noteq> Some n"
proof
  assume "sysno x86_64_linux x = Some n"
  then obtain m where m: "map_of x86_64_sysno x = Some m" "n = of_nat m"
    by (auto simp: x86_64_linux_def)
  with x86_64_sysno_bound [OF m(1)] have "unat n = m"
    by (simp add: unat_of_nat)
  with m assms show False
    by (force dest: map_of_SomeD)
qed

text \<open>The numbers of the calls on descriptors.\<close>

lemma x86_64_fd_calls:
  "sysno x86_64_linux ''read'' = Some 0" "sysno x86_64_linux ''readv'' = Some 19"
  "sysno x86_64_linux ''pread64'' = Some 17" "sysno x86_64_linux ''preadv'' = Some 295"
  "sysno x86_64_linux ''preadv2'' = Some 327" "sysno x86_64_linux ''write'' = Some 1"
  "sysno x86_64_linux ''writev'' = Some 20" "sysno x86_64_linux ''pwrite64'' = Some 18"
  "sysno x86_64_linux ''pwritev'' = Some 296" "sysno x86_64_linux ''pwritev2'' = Some 328"
  "sysno x86_64_linux ''lseek'' = Some 8" "sysno x86_64_linux ''ftruncate'' = Some 77"
  "sysno x86_64_linux ''fsync'' = Some 74" "sysno x86_64_linux ''fdatasync'' = Some 75"
  "sysno x86_64_linux ''shutdown'' = Some 48" "sysno x86_64_linux ''mmap'' = Some 9"
  "sysno x86_64_linux ''ioctl'' = Some 16" "sysno x86_64_linux ''fcntl'' = Some 72"
  by (simp_all add: x86_64_linux_def x86_64_sysno_def x86_64_fd_sysno_def map_add_def)

lemma x86_64_no_such_call:
  "sysno x86_64_linux ''_llseek'' = None" "sysno x86_64_linux ''ftruncate64'' = None"
  "sysno x86_64_linux ''mmap2'' = None"
  by (simp_all add: x86_64_linux_def x86_64_sysno_defs)

lemmas x86_64_calls = x86_64_fd_calls x86_64_no_such_call

section \<open>Rights\<close>

abbreviation CAP_READ :: u64 where "CAP_READ \<equiv> 0x1"
abbreviation CAP_WRITE :: u64 where "CAP_WRITE \<equiv> 0x2"
abbreviation CAP_SEEK :: u64 where "CAP_SEEK \<equiv> 0x4"
abbreviation CAP_FSTAT :: u64 where "CAP_FSTAT \<equiv> 0x8"
abbreviation CAP_FSYNC :: u64 where "CAP_FSYNC \<equiv> 0x10"
abbreviation CAP_FCNTL :: u64 where "CAP_FCNTL \<equiv> 0x20"
abbreviation CAP_FTRUNCATE :: u64 where "CAP_FTRUNCATE \<equiv> 0x80"
abbreviation CAP_IOCTL :: u64 where "CAP_IOCTL \<equiv> 0x100"
abbreviation CAP_MMAP :: u64 where "CAP_MMAP \<equiv> 0x200"
abbreviation CAP_LOOKUP :: u64 where "CAP_LOOKUP \<equiv> 0x800"
abbreviation CAP_PWRITE :: u64 where "CAP_PWRITE \<equiv> 0x1000"
abbreviation CAP_SHUTDOWN :: u64 where "CAP_SHUTDOWN \<equiv> 0x4000"
abbreviation CU_CAP_END :: u64 where "CU_CAP_END \<equiv> - 1"

abbreviation CAPH_IGNORE_EBADF :: u32 where "CAPH_IGNORE_EBADF \<equiv> 0x1"
abbreviation CAPH_READ :: u32 where "CAPH_READ \<equiv> 0x2"
abbreviation CAPH_WRITE :: u32 where "CAPH_WRITE \<equiv> 0x4"

definition CAP_FCNTL_GETFL :: "plat \<Rightarrow> u32" where
  "CAP_FCNTL_GETFL P = ucast (F_GETFL P)"

definition CAP_FCNTL_SETFL :: "plat \<Rightarrow> u32" where
  "CAP_FCNTL_SETFL P = ucast (F_SETFL P)"

text \<open>
  The variadic lists of rights: the arguments up to the sentinel.  A call without the sentinel
  reads past its arguments, which has no defined result (\<open>None\<close>).
\<close>

record cap_rights =
  mask :: u64

fun collect_rights :: "u64 \<Rightarrow> u64 list \<Rightarrow> u64 option" where
  "collect_rights m [] = None"
| "collect_rights m (r # ap) = (if r = CU_CAP_END then Some m else collect_rights (m OR r) ap)"

definition cu_cap_rights_init :: "cap_rights \<Rightarrow> u64 list \<Rightarrow> cap_rights option" where
  "cu_cap_rights_init rights ap = do { m \<leftarrow> collect_rights 0 ap; Some (rights\<lparr>mask := m\<rparr>) }"

definition cu_cap_rights_set :: "cap_rights \<Rightarrow> u64 list \<Rightarrow> cap_rights option" where
  "cu_cap_rights_set rights ap =
     do { m \<leftarrow> collect_rights 0 ap; Some (rights\<lparr>mask := mask rights OR m\<rparr>) }"

definition cu_cap_rights_clear :: "cap_rights \<Rightarrow> u64 list \<Rightarrow> cap_rights option" where
  "cu_cap_rights_clear rights ap =
     do { m \<leftarrow> collect_rights 0 ap; Some (rights\<lparr>mask := mask rights AND NOT m\<rparr>) }"

definition cu_cap_rights_is_set :: "cap_rights \<Rightarrow> u64 list \<Rightarrow> bool option" where
  "cu_cap_rights_is_set rights ap =
     do { want \<leftarrow> collect_rights 0 ap; Some (mask rights AND want = want) }"

text \<open>The macros append the sentinel.\<close>

definition args_of :: "u64 list \<Rightarrow> u64 list" where
  "args_of rs = rs @ [CU_CAP_END]"

lemma collect_rights_args:
  assumes "CU_CAP_END \<notin> set rs"
  shows "collect_rights m (args_of rs) = Some (fold (OR) rs m)"
  using assms unfolding args_of_def
  by (induction rs arbitrary: m) (auto simp: or.commute)

lemma bit_fold_or: "bit (fold (OR) rs m) n \<longleftrightarrow> bit (m :: u64) n \<or> (\<exists>r \<in> set rs. bit r n)"
  by (induction rs arbitrary: m) (auto simp: bit_simps)

end
