(* ===== verification/Namespace.thy ===== *)
theory Namespace
  imports Bpf Platform
begin

text \<open>
  The namespace filter of \<open>src/src.compat/capsicum.c\<close>: \<open>emit_arch_guard\<close>,
  \<open>emit_openflags_check\<close>, \<open>emit_lookup_check\<close> and the program that
  \<open>install_namespace_filter\<close> builds for each of the three modes.  An \<open>#ifdef SYS_x\<close> around a
  statement is \<open>if_sys P x\<close>.  \<open>ns_decide\<close> is the policy as a table of rules, and
  \<open>ns_program_run\<close> shows that the program computes it on every system call.
\<close>

datatype mode = MODE_FULL | MODE_CASPER | MODE_PATHS

section \<open>The code\<close>

definition emit_arch_guard :: "plat \<Rightarrow> bpf_prog \<Rightarrow> bpf_prog option" where
  "emit_arch_guard P p = do {
     p \<leftarrow> LD_ARCH p;
     p \<leftarrow> E_JEQ (audit_arch P) 1 0 p;
     RET_KILL p
   }"

definition emit_openflags_check :: "plat \<Rightarrow> u32 \<Rightarrow> nat \<Rightarrow> bpf_prog \<Rightarrow> bpf_prog option" where
  "emit_openflags_check P nr argn p = do {
     p \<leftarrow> E_JEQ nr 0 8 p;
     p \<leftarrow> LD_ARG argn p;
     p \<leftarrow> E_AND (O_ACCMODE P) p;
     p \<leftarrow> E_JEQ (O_RDONLY P) 0 3 p;
     p \<leftarrow> LD_ARG argn p;
     p \<leftarrow> E_AND (O_CREAT P OR O_TRUNC P OR O_APPEND P OR O_TMPFILE P) p;
     p \<leftarrow> E_JEQ 0 1 0 p;
     p \<leftarrow> RET_EPERM p;
     RET_ALLOW p
   }"

definition emit_lookup_check :: "u32 list \<Rightarrow> u32 \<Rightarrow> bpf_prog \<Rightarrow> bpf_prog option" where
  "emit_lookup_check lookup_fds nr p = (let lookup_nfds = length lookup_fds in do {
     p \<leftarrow> E_JEQ nr 0 (of_nat (lookup_nfds + 3)) p;
     p \<leftarrow> LD_ARG 0 p;
     p \<leftarrow> emit_loop (\<lambda>j. E_JEQ (lookup_fds ! j) (of_nat (lookup_nfds - j)) 0) [0..<lookup_nfds] p;
     p \<leftarrow> RET_EPERM p;
     RET_ALLOW p
   })"

definition DENY :: "u32 \<Rightarrow> bpf_prog \<Rightarrow> bpf_prog option" where
  "DENY nr p = do { p \<leftarrow> E_JEQ nr 0 1 p; RET_EPERM p }"

definition if_sys :: "plat \<Rightarrow> string \<Rightarrow> (u32 \<Rightarrow> bpf_prog \<Rightarrow> bpf_prog option) \<Rightarrow>
    bpf_prog \<Rightarrow> bpf_prog option" where
  "if_sys P x f = (case sysno P x of None \<Rightarrow> Some | Some nr \<Rightarrow> f nr)"

definition deny_all :: "plat \<Rightarrow> string list \<Rightarrow> bpf_prog \<Rightarrow> bpf_prog option" where
  "deny_all P = emit_loop (\<lambda>x. if_sys P x DENY)"

text \<open>The statements on the open family: the first part of \<open>install_namespace_filter\<close>.\<close>

definition ns_open_part :: "plat \<Rightarrow> mode \<Rightarrow> u32 list \<Rightarrow> bpf_prog \<Rightarrow> bpf_prog option" where
  "ns_open_part P mode lookup_fds p = do {
     p \<leftarrow> if_sys P ''open''
       (\<lambda>nr. if mode = MODE_CASPER then emit_openflags_check P nr 1
             else if mode = MODE_FULL then DENY nr else Some) p;
     p \<leftarrow> if_sys P ''openat''
       (\<lambda>nr. if mode = MODE_CASPER then emit_openflags_check P nr 2
             else if mode = MODE_FULL then
               (if length lookup_fds > 0 then emit_lookup_check lookup_fds nr else DENY nr)
             else Some) p;
     p \<leftarrow> (if mode = MODE_FULL then
             (\<lambda>p. do {
               p \<leftarrow> if_sys P ''newfstatat''
                 (\<lambda>nr. if length lookup_fds > 0 then emit_lookup_check lookup_fds nr else DENY nr) p;
               if_sys P ''statx''
                 (\<lambda>nr. if length lookup_fds > 0 then emit_lookup_check lookup_fds nr else DENY nr) p
             }) p
           else Some p);
     p \<leftarrow> if_sys P ''openat2'' (\<lambda>nr. if mode \<noteq> MODE_PATHS then DENY nr else Some) p;
     if_sys P ''creat'' (\<lambda>nr. if mode \<noteq> MODE_PATHS then DENY nr else Some) p
   }"

text \<open>The \<open>DENY\<close> statements, in the order of the code.\<close>

definition path_mutation_syscalls :: "string list" where
  "path_mutation_syscalls = [
     ''link'', ''linkat'', ''symlink'', ''symlinkat'', ''rename'', ''renameat'', ''renameat2'',
     ''mkdir'', ''mkdirat'', ''rmdir'', ''unlink'', ''unlinkat'', ''mknod'', ''mknodat'',
     ''chdir'', ''chroot'', ''mount'', ''umount2'', ''pivot_root'', ''fsopen'', ''fsmount'',
     ''fsconfig'', ''fspick'', ''move_mount'', ''open_tree'', ''mount_setattr'', ''swapon'',
     ''swapoff'', ''truncate'', ''utime'', ''utimes'', ''utimensat'', ''futimesat'']"

definition path_read_syscalls :: "string list" where
  "path_read_syscalls = [
     ''access'', ''faccessat'', ''faccessat2'', ''stat'', ''lstat'', ''readlink'',
     ''readlinkat'', ''getcwd'']"

definition always_denied_syscalls :: "string list" where
  "always_denied_syscalls = [
     ''inotify_add_watch'', ''fanotify_mark'', ''name_to_handle_at'', ''open_by_handle_at'',
     ''execve'', ''execveat'', ''socket'', ''socketpair'', ''connect'', ''bind'', ''listen'',
     ''accept'', ''accept4'', ''ptrace'', ''process_vm_readv'', ''process_vm_writev'',
     ''kcmp'', ''kexec_load'', ''kexec_file_load'', ''init_module'', ''finit_module'',
     ''delete_module'', ''bpf'', ''perf_event_open'', ''io_uring_setup'', ''setns'',
     ''unshare'', ''acct'', ''add_key'', ''keyctl'', ''request_key'', ''quotactl'']"

definition ns_program :: "plat \<Rightarrow> mode \<Rightarrow> u32 list \<Rightarrow> bpf_prog option" where
  "ns_program P mode lookup_fds = do {
     p \<leftarrow> emit_arch_guard P [];
     p \<leftarrow> LD_NR p;
     p \<leftarrow> ns_open_part P mode lookup_fds p;
     p \<leftarrow> (if mode \<noteq> MODE_PATHS then deny_all P path_mutation_syscalls p else Some p);
     p \<leftarrow> (if mode = MODE_FULL then deny_all P path_read_syscalls p else Some p);
     p \<leftarrow> deny_all P always_denied_syscalls p;
     RET_ALLOW p
   }"

section \<open>The policy\<close>

text \<open>
  What a rule does with the system call it names: deny it, allow it for read-only open flags
  (the flags are an argument), or allow it on the registered lookup descriptors (argument 0).
\<close>

datatype ns_action = NsDeny | NsReadOnly nat | NsLookup

definition read_only_flags :: "plat \<Rightarrow> u32 \<Rightarrow> bool" where
  "read_only_flags P flags \<longleftrightarrow>
     flags AND O_ACCMODE P = O_RDONLY P \<and>
     flags AND (O_CREAT P OR O_TRUNC P OR O_APPEND P OR O_TMPFILE P) = 0"

fun ns_action_allows :: "plat \<Rightarrow> u32 list \<Rightarrow> ns_action \<Rightarrow> seccomp_data \<Rightarrow> bool" where
  "ns_action_allows P fds NsDeny d = False"
| "ns_action_allows P fds (NsReadOnly n) d = read_only_flags P (sd_arg d n)"
| "ns_action_allows P fds NsLookup d = (sd_arg d 0 \<in> set fds)"

definition ns_rules :: "mode \<Rightarrow> u32 list \<Rightarrow> (string \<times> ns_action) list" where
  "ns_rules mode fds =
     (let lookup = (if fds = [] then NsDeny else NsLookup) in
      (case mode of
         MODE_FULL \<Rightarrow> [(''open'', NsDeny), (''openat'', lookup), (''newfstatat'', lookup),
           (''statx'', lookup), (''openat2'', NsDeny), (''creat'', NsDeny)]
       | MODE_CASPER \<Rightarrow> [(''open'', NsReadOnly 1), (''openat'', NsReadOnly 2),
           (''openat2'', NsDeny), (''creat'', NsDeny)]
       | MODE_PATHS \<Rightarrow> []) @
      map (\<lambda>x. (x, NsDeny))
        ((if mode \<noteq> MODE_PATHS then path_mutation_syscalls else []) @
         (if mode = MODE_FULL then path_read_syscalls else []) @
         always_denied_syscalls))"

fun ns_first_match :: "plat \<Rightarrow> u32 list \<Rightarrow> (string \<times> ns_action) list \<Rightarrow> seccomp_data \<Rightarrow> bool" where
  "ns_first_match P fds [] d = True"
| "ns_first_match P fds ((x, act) # rs) d =
     (if sysno P x = Some (sd_nr d) then ns_action_allows P fds act d
      else ns_first_match P fds rs d)"

definition ns_decide :: "plat \<Rightarrow> mode \<Rightarrow> u32 list \<Rightarrow> seccomp_data \<Rightarrow> u32" where
  "ns_decide P mode fds d =
     (if sd_arch d \<noteq> audit_arch P then SECCOMP_RET_KILL_PROCESS
      else if ns_first_match P fds (ns_rules mode fds) d then SECCOMP_RET_ALLOW
      else ret_eperm)"

section \<open>The program implements the policy\<close>

fun action_code :: "plat \<Rightarrow> u32 list \<Rightarrow> u32 \<Rightarrow> ns_action \<Rightarrow> sock_filter list" where
  "action_code P fds nr NsDeny = [i_jeq nr 0 1, i_ret ret_eperm]"
| "action_code P fds nr (NsReadOnly n) =
     [i_jeq nr 0 8, i_arg n, i_and (O_ACCMODE P), i_jeq (O_RDONLY P) 0 3, i_arg n,
      i_and (O_CREAT P OR O_TRUNC P OR O_APPEND P OR O_TMPFILE P), i_jeq 0 1 0,
      i_ret ret_eperm, i_ret SECCOMP_RET_ALLOW]"
| "action_code P fds nr NsLookup =
     i_jeq nr 0 (of_nat (length fds + 3)) # i_arg 0 #
     map (\<lambda>j. i_jeq (fds ! j) (of_nat (length fds - j)) 0) [0..<length fds] @
     [i_ret ret_eperm, i_ret SECCOMP_RET_ALLOW]"

definition rule_code :: "plat \<Rightarrow> u32 list \<Rightarrow> string \<times> ns_action \<Rightarrow> sock_filter list" where
  "rule_code P fds r =
     (case sysno P (fst r) of None \<Rightarrow> [] | Some nr \<Rightarrow> action_code P fds nr (snd r))"

lemma emit_arch_guard_code [builder_simps]:
  "emit_arch_guard P =
     app_code [i_arch, i_jeq (audit_arch P) 1 0, i_ret SECCOMP_RET_KILL_PROCESS]"
  by (rule ext) (simp add: emit_arch_guard_def builder_simps)

lemma emit_openflags_check_code [builder_simps]:
  "emit_openflags_check P nr n = app_code (action_code P fds nr (NsReadOnly n))"
  by (rule ext) (simp add: emit_openflags_check_def builder_simps)

lemma emit_lookup_check_code [builder_simps]:
  "emit_lookup_check fds nr = app_code (action_code P fds nr NsLookup)"
proof -
  have "emit_loop (\<lambda>j. E_JEQ (fds ! j) (of_nat (length fds - j)) 0) [0..<length fds] =
    app_code (map (\<lambda>j. i_jeq (fds ! j) (of_nat (length fds - j)) 0) [0..<length fds])"
    by (subst emit_loop_app_code
        [where c = "\<lambda>j. [i_jeq (fds ! j) (of_nat (length fds - j)) 0]"])
      (simp_all add: builder_simps concat_map_singleton)
  then show ?thesis
    by (intro ext) (simp add: emit_lookup_check_def Let_def builder_simps)
qed

lemma DENY_code [builder_simps]: "DENY nr = app_code (action_code P fds nr NsDeny)"
  by (rule ext) (simp add: DENY_def builder_simps)

lemma if_sys_code:
  assumes "\<And>nr. f nr = app_code (action_code P fds nr act)"
  shows "if_sys P x f = app_code (rule_code P fds (x, act))"
  by (auto simp: if_sys_def rule_code_def assms builder_simps split: option.splits)

lemma if_sys_Some [builder_simps]: "if_sys P x (\<lambda>nr. Some) = Some"
  by (auto simp: if_sys_def split: option.splits)

lemma deny_all_code:
  "deny_all P xs = app_code (concat (map (rule_code P fds) (map (\<lambda>x. (x, NsDeny)) xs)))"
  unfolding deny_all_def map_map comp_def
  by (rule emit_loop_app_code) (rule if_sys_code, rule DENY_code)

lemmas ns_rule_simps =
  if_sys_code [OF emit_openflags_check_code] if_sys_code [OF DENY_code]
  if_sys_code [OF emit_lookup_check_code]

lemma ns_program_code:
  "ns_program P mode fds =
     app_code ([i_arch, i_jeq (audit_arch P) 1 0, i_ret SECCOMP_RET_KILL_PROCESS, i_nr] @
       concat (map (rule_code P fds) (ns_rules mode fds)) @ [i_ret SECCOMP_RET_ALLOW]) []"
  by (cases mode; cases "fds = []")
    (simp_all add: ns_program_def ns_open_part_def ns_rules_def emit_arch_guard_code
      ns_rule_simps [where fds = fds] deny_all_code [where fds = fds] if_sys_Some emit_app_code
      app_code_bind app_code_Nil del: action_code.simps)

fun action_size :: "u32 list \<Rightarrow> ns_action \<Rightarrow> nat" where
  "action_size fds NsDeny = 2"
| "action_size fds (NsReadOnly n) = 9"
| "action_size fds NsLookup = length fds + 4"

lemma length_rule_code: "length (rule_code P fds r) \<le> action_size fds (snd r)"
  by (cases "(P, fds, undefined :: u32, snd r)" rule: action_code.cases)
    (auto simp: rule_code_def split: option.splits)

lemma length_rules_code:
  "length (concat (map (rule_code P fds) rs)) \<le> (\<Sum>r\<leftarrow>rs. action_size fds (snd r))"
  by (induction rs) (auto intro: add_mono length_rule_code)

lemma ns_rules_size:
  assumes "length fds \<le> 8"
  shows "(\<Sum>r\<leftarrow>ns_rules mode fds. action_size fds (snd r)) \<le> 250"
  using assms
  by (cases mode)
    (auto simp: ns_rules_def Let_def path_mutation_syscalls_def path_read_syscalls_def
      always_denied_syscalls_def)

text \<open>Running one rule, then all of them, with the system call number in the accumulator.\<close>

context bpf_machine
begin

lemma run_lookup_row:
  assumes "length fds \<le> 200"
  shows "run (map (\<lambda>j. i_jeq (fds ! j) (of_nat (length fds - j)) 0) [0..<length fds] @
      i_ret e # i_ret k # is) d a = Some (if a \<in> set fds then k else e)"
proof -
  have "unat (of_nat (length fds - j) :: u8) = length fds - j - 1 + 1" if "j < length fds" for j
    using assms that by (subst unat_of_nat) simp
  from run_jump_row [where t = "\<lambda>j. of_nat (length fds - j)" and m = 1, OF this]
  show ?thesis by simp
qed

lemma run_action_code:
  assumes "length fds \<le> 200" "\<And>n. act = NsReadOnly n \<Longrightarrow> n < 6"
  shows "run (action_code P fds nr act @ is) d a =
    (if a = nr then
       Some (if ns_action_allows P fds act d then SECCOMP_RET_ALLOW else ret_eperm)
     else run is d a)"
proof (cases act)
  case NsLookup
  have "unat (of_nat (length fds + 3) :: u8) = length fds + 3"
    using assms(1) by (subst unat_of_nat) simp
  with NsLookup show ?thesis
    using run_lookup_row [OF assms(1)] by (simp add: drop_Cons')
next
  case (NsReadOnly n)
  with assms(2) have "n < 6" by simp
  with NsReadOnly show ?thesis
    by (auto simp: read_only_flags_def)
qed auto

lemma run_rule_code:
  assumes "length fds \<le> 200" "\<And>n. act = NsReadOnly n \<Longrightarrow> n < 6"
  shows "run (rule_code P fds (x, act) @ is) d a =
    (if sysno P x = Some a then
       Some (if ns_action_allows P fds act d then SECCOMP_RET_ALLOW else ret_eperm)
     else run is d a)"
  using run_action_code [OF assms]
  by (simp add: rule_code_def split: option.splits)

lemma run_rules:
  assumes "length fds \<le> 200" "\<And>x n. (x, NsReadOnly n) \<in> set rs \<Longrightarrow> n < 6"
  shows "run (concat (map (rule_code P fds) rs) @ is) d (sd_nr d) =
    (if \<forall>r \<in> set rs. sysno P (fst r) \<noteq> Some (sd_nr d) then run is d (sd_nr d)
     else Some (if ns_first_match P fds rs d then SECCOMP_RET_ALLOW else ret_eperm))"
  using assms(2)
proof (induction rs)
  case (Cons r rs)
  obtain x act where r: "r = (x, act)" by (cases r)
  have "n < 6" if "act = NsReadOnly n" for n
    using Cons.prems [of x n] r that by simp
  from run_rule_code [OF assms(1) this]
  have "run (concat (map (rule_code P fds) (r # rs)) @ is) d (sd_nr d) =
    (if sysno P x = Some (sd_nr d) then
       Some (if ns_action_allows P fds act d then SECCOMP_RET_ALLOW else ret_eperm)
     else run (concat (map (rule_code P fds) rs) @ is) d (sd_nr d))"
    by (simp add: r)
  also have "run (concat (map (rule_code P fds) rs) @ is) d (sd_nr d) =
    (if \<forall>r \<in> set rs. sysno P (fst r) \<noteq> Some (sd_nr d) then run is d (sd_nr d)
     else Some (if ns_first_match P fds rs d then SECCOMP_RET_ALLOW else ret_eperm))"
    by (rule Cons.IH) (use Cons.prems in auto)
  finally show ?case
    by (simp add: r)
qed simp

end

lemma ns_first_match_unlisted:
  "\<forall>r \<in> set rs. sysno P (fst r) \<noteq> Some (sd_nr d) \<Longrightarrow> ns_first_match P fds rs d"
  by (induction P fds rs d rule: ns_first_match.induct) auto

lemma ns_rules_args: "(x, NsReadOnly n) \<in> set (ns_rules mode fds) \<Longrightarrow> n < 6"
  by (cases mode) (auto simp: ns_rules_def Let_def split: if_splits)

lemma ns_program_Some:
  assumes "length fds \<le> 8"
  shows "\<exists>p. ns_program P mode fds = Some p \<and> length p \<le> 255"
  using length_rules_code [of P fds "ns_rules mode fds"] ns_rules_size [OF assms, of mode]
  by (auto simp: ns_program_code app_code_def insns_max_def)

lemma ns_program_run:
  assumes "length fds \<le> 8" "ns_program P mode fds = Some p"
  shows "bpf_run p d 0 = Some (ns_decide P mode fds d)"
proof -
  let ?rules = "concat (map (rule_code P fds) (ns_rules mode fds))"
  from assms(2) have p: "p = i_arch # i_jeq (audit_arch P) 1 0 #
      i_ret SECCOMP_RET_KILL_PROCESS # i_nr # ?rules @ [i_ret SECCOMP_RET_ALLOW]"
    by (simp add: ns_program_code app_code_Some)
  have "bpf_run (?rules @ [i_ret SECCOMP_RET_ALLOW]) d (sd_nr d) =
      Some (if ns_first_match P fds (ns_rules mode fds) d then SECCOMP_RET_ALLOW else ret_eperm)"
    using assms(1) ns_rules_args
    by (subst bpf.run_rules) (auto simp: ns_first_match_unlisted)
  then show ?thesis
    by (simp add: p ns_decide_def bpf.run_guard del: bpf_run.simps)
qed

section \<open>Consequences for the modes\<close>

lemma ns_first_match_lookup:
  assumes "sysno_inj P" "sysno P x = Some (sd_nr d)"
  shows "ns_first_match P fds rs d =
    (case map_of rs x of None \<Rightarrow> True | Some act \<Rightarrow> ns_action_allows P fds act d)"
proof (induction rs)
  case (Cons r rs)
  show ?case
    by (cases r) (use Cons.IH assms in \<open>auto dest: sysno_injD\<close>)
qed simp

lemma ns_first_match_all_deny:
  assumes "snd ` set rs \<subseteq> {NsDeny}"
  shows "ns_first_match P fds rs d \<longleftrightarrow> (\<forall>r \<in> set rs. sysno P (fst r) \<noteq> Some (sd_nr d))"
proof -
  have "ns_first_match P fds (map (\<lambda>x. (x, NsDeny)) xs) d \<longleftrightarrow>
      (\<forall>x \<in> set xs. sysno P x \<noteq> Some (sd_nr d))" for xs
    by (induction xs) auto
  moreover have "rs = map (\<lambda>x. (x, NsDeny)) (map fst rs)"
    using assms by (intro nth_equalityI) (auto simp: prod_eq_iff image_subset_iff)
  ultimately show ?thesis
    by (metis (mono_tags, lifting) imageE imageI list.set_map)
qed

lemma map_of_all_deny:
  "map_of (map (\<lambda>x. (x, NsDeny)) xs) x = (if x \<in> set xs then Some NsDeny else None)"
  by (induction xs) auto

lemma denied_lists_disjoint:
  "''open'' \<notin> set always_denied_syscalls" "''openat'' \<notin> set always_denied_syscalls"
  "''newfstatat'' \<notin> set always_denied_syscalls" "''statx'' \<notin> set always_denied_syscalls"
  "''open'' \<notin> set path_mutation_syscalls" "''openat'' \<notin> set path_mutation_syscalls"
  "''newfstatat'' \<notin> set path_mutation_syscalls" "''statx'' \<notin> set path_mutation_syscalls"
  by (simp_all add: always_denied_syscalls_def path_mutation_syscalls_def)

lemma ns_rules_denied:
  assumes "x \<in> set always_denied_syscalls \<or>
    mode \<noteq> MODE_PATHS \<and> x \<in> set path_mutation_syscalls"
  shows "map_of (ns_rules mode fds) x = Some NsDeny"
proof -
  have "x \<noteq> ''open'' \<and> x \<noteq> ''openat'' \<and> x \<noteq> ''newfstatat'' \<and> x \<noteq> ''statx''"
    using assms denied_lists_disjoint by metis
  with assms show ?thesis
    by (cases mode) (auto simp: ns_rules_def Let_def map_add_def map_of_all_deny)
qed

lemma ns_rules_full_no_lookup: "snd ` set (ns_rules MODE_FULL []) \<subseteq> {NsDeny}"
  by (auto simp: ns_rules_def)

lemma ns_rules_paths: "ns_rules MODE_PATHS fds = map (\<lambda>x. (x, NsDeny)) always_denied_syscalls"
  by (simp add: ns_rules_def Let_def)

lemma ns_rules_casper_in_full:
  "fst ` set (ns_rules MODE_CASPER fds) \<subseteq> fst ` set (ns_rules MODE_FULL fds')"
  by (auto simp: ns_rules_def Let_def image_image)

lemma ns_decide_denied:
  assumes "sysno_inj P" "sysno P x = Some (sd_nr d)" "sd_arch d = audit_arch P"
    and "x \<in> set always_denied_syscalls \<or> mode \<noteq> MODE_PATHS \<and> x \<in> set path_mutation_syscalls"
  shows "ns_decide P mode fds d = ret_eperm"
  using assms by (simp add: ns_decide_def ns_first_match_lookup ns_rules_denied)

lemma ns_decide_cases:
  "ns_decide P mode fds d \<in> {SECCOMP_RET_ALLOW, ret_eperm, SECCOMP_RET_KILL_PROCESS}"
  by (simp add: ns_decide_def)

section \<open>Properties\<close>

text \<open>
  C1. For every build target, mode and set of at most eight lookup descriptors,
  \<open>install_namespace_filter\<close> builds its program without overrunning the instruction buffer
  (at most 255 instructions), and on every system call the program returns exactly what the
  policy says: it kills the process on a foreign architecture word, denies with \<open>EPERM\<close> what
  the rules of the mode deny and allows the rest.
\<close>

theorem ns_filter_implements_policy:
  assumes "length fds \<le> 8"
  shows "\<exists>p. ns_program P mode fds = Some p \<and> length p \<le> 255 \<and>
    (\<forall>d. bpf_run p d 0 = Some (ns_decide P mode fds d))"
  using ns_program_Some [OF assms] ns_program_run [OF assms] by blast

theorem ns_filter_implements_policy_witness:
  "\<exists>p. ns_program x86_64_linux MODE_FULL [3] = Some p \<and> length p \<le> 255 \<and>
    bpf_run p \<lparr>sd_nr = 257, sd_arch = 0xC000003E, sd_ip = 0, sd_args = [3, 0, 1, 0, 0, 0]\<rparr> 0 =
      Some SECCOMP_RET_ALLOW \<and>
    bpf_run p \<lparr>sd_nr = 257, sd_arch = 0xC000003E, sd_ip = 0, sd_args = [4, 0, 1, 0, 0, 0]\<rparr> 0 =
      Some ret_eperm \<and>
    bpf_run p \<lparr>sd_nr = 257, sd_arch = 0x40000003, sd_ip = 0, sd_args = [3, 0, 1, 0, 0, 0]\<rparr> 0 =
      Some SECCOMP_RET_KILL_PROCESS"
proof -
  have "length [3 :: u32] \<le> 8" by simp
  from ns_filter_implements_policy [OF this, of x86_64_linux MODE_FULL] show ?thesis
    by (elim ex_forward)
      (simp add: ns_decide_def ns_rules_def x86_64_linux_def x86_64_sysno_defs sd_arg_def)
qed

text \<open>
  In all three modes the process-control and network calls of the list (among them
  \<open>execve\<close>, \<open>socket\<close>, \<open>connect\<close>, \<open>ptrace\<close> and \<open>bpf\<close>) are denied with \<open>EPERM\<close>, and outside
  the path-scoped mode so is every path mutation.
\<close>

lemma ns_filter_denies_listed:
  assumes "sysno_inj P" "length fds \<le> 8" "ns_program P mode fds = Some p"
    and "x \<in> set always_denied_syscalls \<or> mode \<noteq> MODE_PATHS \<and> x \<in> set path_mutation_syscalls"
    and "sysno P x = Some (sd_nr d)" "sd_arch d = audit_arch P"
  shows "bpf_run p d 0 = Some ret_eperm"
  using assms by (simp add: ns_program_run ns_decide_denied)

text \<open>
  In casper mode \<open>open\<close> and \<open>openat\<close> are allowed exactly for read-only flags: access mode
  \<open>O_RDONLY\<close> and none of the bits of \<open>O_CREAT\<close>, \<open>O_TRUNC\<close>, \<open>O_APPEND\<close> and \<open>O_TMPFILE\<close>.
\<close>

lemma casper_open_read_only:
  assumes "sysno_inj P" "length fds \<le> 8" "ns_program P MODE_CASPER fds = Some p"
    and "sd_arch d = audit_arch P"
    and "(x, argn) \<in> {(''open'', 1), (''openat'', 2)}" "sysno P x = Some (sd_nr d)"
  shows "bpf_run p d 0 =
    Some (if read_only_flags P (sd_arg d argn) then SECCOMP_RET_ALLOW else ret_eperm)"
proof -
  have "map_of (ns_rules MODE_CASPER fds) x = Some (NsReadOnly argn)"
    using assms(5) by (auto simp: ns_rules_def)
  with assms show ?thesis
    by (simp add: ns_program_run ns_decide_def ns_first_match_lookup)
qed

text \<open>
  The modes are ordered: without lookup descriptors, a system call the full mode lets
  through is let through in casper mode, and what casper mode lets through the path-scoped
  mode does too.
\<close>

lemma ns_modes_ordered:
  assumes "sysno_inj P"
  shows "(ns_decide P MODE_FULL [] d = SECCOMP_RET_ALLOW \<longrightarrow>
      ns_decide P MODE_CASPER fds d = SECCOMP_RET_ALLOW) \<and>
    (ns_decide P MODE_CASPER fds d = SECCOMP_RET_ALLOW \<longrightarrow>
      ns_decide P MODE_PATHS fds' d = SECCOMP_RET_ALLOW)"
proof (intro conjI impI)
  assume "ns_decide P MODE_FULL [] d = SECCOMP_RET_ALLOW"
  then have "\<forall>r \<in> set (ns_rules MODE_FULL []). sysno P (fst r) \<noteq> Some (sd_nr d)"
    and "sd_arch d = audit_arch P"
    using ns_first_match_all_deny [OF ns_rules_full_no_lookup]
    by (auto simp: ns_decide_def split: if_splits)
  moreover have "\<forall>r \<in> set (ns_rules MODE_CASPER fds). sysno P (fst r) \<noteq> Some (sd_nr d)"
    using calculation(1) ns_rules_casper_in_full [of fds "[]"] by force
  ultimately show "ns_decide P MODE_CASPER fds d = SECCOMP_RET_ALLOW"
    by (simp add: ns_decide_def ns_first_match_unlisted)
next
  assume *: "ns_decide P MODE_CASPER fds d = SECCOMP_RET_ALLOW"
  then have arch: "sd_arch d = audit_arch P" by (auto simp: ns_decide_def split: if_splits)
  have "sysno P x \<noteq> Some (sd_nr d)" if "x \<in> set always_denied_syscalls" for x
    using ns_decide_denied [OF assms(1) _ arch, of x MODE_CASPER fds] that * by auto
  then show "ns_decide P MODE_PATHS fds' d = SECCOMP_RET_ALLOW"
    by (simp add: ns_decide_def arch ns_rules_paths ns_first_match_unlisted)
qed

text \<open>
  The filter is a denylist: in every mode, a system call number that no rule of the mode
  names is allowed once the architecture word matches.  In particular the x32 numbers (the
  64-bit number with bit 30 set, under the same architecture word) and the calls that change
  modes, owners and extended attributes by path are let through in full mode.
\<close>

lemma ns_filter_allows_unlisted:
  assumes "length fds \<le> 8" "ns_program P mode fds = Some p" "sd_arch d = audit_arch P"
    and "\<forall>r \<in> set (ns_rules mode fds). sysno P (fst r) \<noteq> Some (sd_nr d)"
  shows "bpf_run p d 0 = Some SECCOMP_RET_ALLOW"
  using assms by (simp add: ns_program_run ns_decide_def ns_first_match_unlisted)

end
