(* ===== verification/Fd_Limits.thy ===== *)
theory Fd_Limits
  imports Namespace "HOL-Library.Sublist"
begin

text \<open>
  Per-descriptor rights of \<open>src/src.compat/capsicum.c\<close>: the registry that collects limits
  before the sandbox is entered (\<open>struct fd_limit\<close>, \<open>lim_find\<close>, \<open>lim_merge\<close>) and the three
  kinds of filter programs built from limits: \<open>emit_fd_deny\<close> (deny listed system calls on a
  descriptor), \<open>limit_fd_arg1\<close> (one allowlist of commands) and \<open>install_arg1_limits\<close> (the
  allowlists of the whole registry).  The lemmas give what each program decides on every
  system call.
\<close>

section \<open>The registry\<close>

text \<open>An allowlist is \<open>None\<close> where the code stores the count -1 (unrestricted).\<close>

record fd_limit =
  lim_fd :: u32
  lim_deny :: u64
  lim_ioctls :: "u64 list option"
  lim_fcntls :: "u64 list option"

abbreviation LDENY_RD :: u64 where "LDENY_RD \<equiv> 0x01"
abbreviation LDENY_WR :: u64 where "LDENY_WR \<equiv> 0x02"
abbreviation LDENY_SEEK :: u64 where "LDENY_SEEK \<equiv> 0x04"
abbreviation LDENY_TRUNC :: u64 where "LDENY_TRUNC \<equiv> 0x08"
abbreviation LDENY_FSYNC :: u64 where "LDENY_FSYNC \<equiv> 0x10"
abbreviation LDENY_SHUT :: u64 where "LDENY_SHUT \<equiv> 0x20"
abbreviation LDENY_MMAP :: u64 where "LDENY_MMAP \<equiv> 0x40"

type_synonym registry = "fd_limit list"

definition fd_limits_max :: nat where
  "fd_limits_max = 32"

text \<open>The index of the entry and the registry with it: \<open>None\<close> is the null pointer.\<close>

definition lim_find :: "u32 \<Rightarrow> registry \<Rightarrow> (nat \<times> registry) option" where
  "lim_find fd reg =
     (case find_index (\<lambda>l. lim_fd l = fd) reg of
        Some i \<Rightarrow> Some (i, reg)
      | None \<Rightarrow>
          if length reg = fd_limits_max then None
          else Some (length reg,
            reg @ [\<lparr>lim_fd = fd, lim_deny = 0, lim_ioctls = None, lim_fcntls = None\<rparr>]))"

definition lim_merge :: "u64 list option \<Rightarrow> u64 list \<Rightarrow> u64 list option" where
  "lim_merge dst src =
     (case dst of
        None \<Rightarrow> Some (take 16 src)
      | Some xs \<Rightarrow> Some (filter (\<lambda>x. x \<in> set src) xs))"

definition lim_ok :: "fd_limit \<Rightarrow> bool" where
  "lim_ok l \<longleftrightarrow>
     (case lim_ioctls l of None \<Rightarrow> True | Some xs \<Rightarrow> length xs \<le> 16) \<and>
     (case lim_fcntls l of None \<Rightarrow> True | Some xs \<Rightarrow> length xs \<le> 6)"

definition reg_ok :: "registry \<Rightarrow> bool" where
  "reg_ok reg \<longleftrightarrow>
     length reg \<le> fd_limits_max \<and> distinct (map lim_fd reg) \<and> list_all lim_ok reg"

lemma lim_find_Some:
  assumes "lim_find fd reg = Some (i, reg')"
  shows "i < length reg'" "lim_fd (reg' ! i) = fd"
    "reg' = reg \<or> reg' = reg @ [\<lparr>lim_fd = fd, lim_deny = 0, lim_ioctls = None, lim_fcntls = None\<rparr>]"
  using assms by (auto simp: lim_find_def dest: find_index_Some split: option.splits if_splits)

lemma lim_find_ok:
  assumes "reg_ok reg" "lim_find fd reg = Some (i, reg')"
  shows "reg_ok reg'"
  using assms
  by (auto simp: lim_find_def reg_ok_def lim_ok_def find_index_None split: option.splits if_splits)

lemma lim_find_None:
  "lim_find fd reg = None \<longleftrightarrow> fd \<notin> lim_fd ` set reg \<and> length reg = fd_limits_max"
proof (cases "find_index (\<lambda>l. lim_fd l = fd) reg")
  case None
  then show ?thesis
    using find_index_None [of "\<lambda>l. lim_fd l = fd" reg] by (auto simp: lim_find_def)
next
  case (Some i)
  from find_index_Some [OF this] have "fd \<in> lim_fd ` set reg" by force
  with Some show ?thesis by (simp add: lim_find_def)
qed

lemma lim_merge_length:
  assumes "lim_merge dst src = Some xs" "\<And>ys. dst = Some ys \<Longrightarrow> length ys \<le> n"
    and "min 16 (length src) \<le> n"
  shows "length xs \<le> n"
  using assms by (auto simp: lim_merge_def intro: order_trans [OF length_filter_le] split: option.splits)

lemma lim_merge_set:
  "lim_merge (Some xs) src = Some ys \<Longrightarrow> set ys = set xs \<inter> set src"
  "length src \<le> 16 \<Longrightarrow> lim_merge None src = Some src"
  by (auto simp: lim_merge_def)

lemma reg_ok_update:
  assumes "reg_ok reg" "i < length reg" "lim_ok l" "lim_fd l = lim_fd (reg ! i)"
  shows "reg_ok (reg[i := l])"
proof -
  have "map lim_fd (reg[i := l]) = map lim_fd reg"
    using assms(2,4) by (simp add: map_update list_update_same_conv)
  with assms show ?thesis
    by (auto simp: reg_ok_def list_all_iff dest!: set_update_subset_insert [THEN subsetD])
qed

section \<open>Denying system calls on a descriptor\<close>

record deny_ent =
  de_nr :: u32
  de_argn :: nat
  de_fd :: u32

definition emit_fd_deny :: "deny_ent list \<Rightarrow> bpf_prog \<Rightarrow> bpf_prog option" where
  "emit_fd_deny ents p = (let n = length ents in do {
     p \<leftarrow> emit_loop (\<lambda>i p. do {
         p \<leftarrow> E_JEQ (de_nr (ents ! i)) 0 2 p;
         p \<leftarrow> LD_ARG (de_argn (ents ! i)) p;
         E_JEQ (de_fd (ents ! i)) (of_nat (3 * (n - i) - 2)) 0 p
       }) [0..<n] p;
     p \<leftarrow> RET_ALLOW p;
     RET_EPERM p
   })"

text \<open>The program of \<open>install_entry_chunk\<close> and, with the descriptor filled in, of \<open>limit_fd_syscalls\<close>.\<close>

definition entry_chunk_program :: "plat \<Rightarrow> deny_ent list \<Rightarrow> bpf_prog option" where
  "entry_chunk_program P ents = do {
     p \<leftarrow> emit_arch_guard P [];
     p \<leftarrow> LD_NR p;
     emit_fd_deny ents p
   }"

definition fd_syscalls_program :: "plat \<Rightarrow> u32 \<Rightarrow> deny_ent list \<Rightarrow> bpf_prog option" where
  "fd_syscalls_program P fd ents =
     (let ents = map (\<lambda>e. e\<lparr>de_fd := fd\<rparr>) ents in do {
       p \<leftarrow> emit_arch_guard P [];
       p \<leftarrow> LD_NR p;
       emit_fd_deny ents p
     })"

text \<open>
  What the row of entries decides, with the accumulator written out: an entry whose number
  matches replaces the number in the accumulator by the descriptor argument, and the entries
  after it compare against that.
\<close>

fun fd_deny_result :: "deny_ent list \<Rightarrow> seccomp_data \<Rightarrow> u32 \<Rightarrow> u32" where
  "fd_deny_result [] d a = SECCOMP_RET_ALLOW"
| "fd_deny_result (e # es) d a =
     (if a = de_nr e then
        (if sd_arg d (de_argn e) = de_fd e then ret_eperm
         else fd_deny_result es d (sd_arg d (de_argn e)))
      else fd_deny_result es d a)"

fun fd_deny_code :: "deny_ent list \<Rightarrow> sock_filter list" where
  "fd_deny_code [] = []"
| "fd_deny_code (e # es) =
     i_jeq (de_nr e) 0 2 # i_arg (de_argn e) #
     i_jeq (de_fd e) (of_nat (3 * length (e # es) - 2)) 0 # fd_deny_code es"

lemma length_fd_deny_code [simp]: "length (fd_deny_code es) = 3 * length es"
  by (induction es) auto

lemma fd_deny_code_upt:
  "fd_deny_code es = concat (map (\<lambda>i. [i_jeq (de_nr (es ! i)) 0 2, i_arg (de_argn (es ! i)),
     i_jeq (de_fd (es ! i)) (of_nat (3 * (length es - i) - 2)) 0]) [0..<length es])"
  by (induction es)
    (simp_all add: upt_conv_Cons map_Suc_upt [symmetric] comp_def del: upt_Suc)

lemma emit_fd_deny_code [builder_simps]:
  "emit_fd_deny es = app_code (fd_deny_code es @ [i_ret SECCOMP_RET_ALLOW, i_ret ret_eperm])"
proof -
  let ?c = "\<lambda>i. [i_jeq (de_nr (es ! i)) 0 2, i_arg (de_argn (es ! i)),
    i_jeq (de_fd (es ! i)) (of_nat (3 * (length es - i) - 2)) 0]"
  have "emit_loop (\<lambda>i p. do {
         p \<leftarrow> E_JEQ (de_nr (es ! i)) 0 2 p;
         p \<leftarrow> LD_ARG (de_argn (es ! i)) p;
         E_JEQ (de_fd (es ! i)) (of_nat (3 * (length es - i) - 2)) 0 p
       }) [0..<length es] = app_code (fd_deny_code es)"
    unfolding fd_deny_code_upt
    by (rule emit_loop_app_code) (rule ext, simp add: builder_simps)
  then show ?thesis
    by (intro ext) (simp add: emit_fd_deny_def Let_def builder_simps)
qed

context bpf_machine
begin

lemma run_fd_deny_code:
  assumes "length es \<le> 80" "\<forall>e \<in> set es. de_argn e < 6"
  shows "run (fd_deny_code es @ [i_ret SECCOMP_RET_ALLOW, i_ret ret_eperm]) d a =
    Some (fd_deny_result es d a)"
  using assms
proof (induction es arbitrary: a)
  case (Cons e es)
  have "unat (of_nat (3 * length (e # es) - 2) :: u8) = 3 * length es + 1"
    using Cons.prems(1) by (subst unat_of_nat) simp
  with Cons show ?case
    by (simp add: drop_Cons')
qed simp

end

lemma entry_chunk_program_code:
  "entry_chunk_program P es = app_code
     (i_arch # i_jeq (audit_arch P) 1 0 # i_ret SECCOMP_RET_KILL_PROCESS # i_nr #
      fd_deny_code es @ [i_ret SECCOMP_RET_ALLOW, i_ret ret_eperm]) []"
  by (simp add: entry_chunk_program_def builder_simps)

lemma entry_chunk_program_Some:
  "length es \<le> 80 \<Longrightarrow> \<exists>p. entry_chunk_program P es = Some p \<and> length p = 3 * length es + 6"
  by (simp add: entry_chunk_program_code app_code_def insns_max_def)

lemma entry_chunk_run:
  assumes "length es \<le> 80" "\<forall>e \<in> set es. de_argn e < 6" "entry_chunk_program P es = Some p"
  shows "bpf_run p d 0 =
    Some (if sd_arch d = audit_arch P then fd_deny_result es d (sd_nr d)
          else SECCOMP_RET_KILL_PROCESS)"
  using assms bpf.run_fd_deny_code [OF assms(1,2), of d "sd_nr d"]
  by (auto simp: entry_chunk_program_code app_code_Some bpf.run_guard simp del: bpf_run.simps)

lemma fd_syscalls_program_eq:
  "fd_syscalls_program P fd es = entry_chunk_program P (map (\<lambda>e. e\<lparr>de_fd := fd\<rparr>) es)"
  by (simp add: fd_syscalls_program_def entry_chunk_program_def Let_def)

subsection \<open>The entries for a set of rights\<close>

text \<open>\<open>ENT\<close> and \<open>ADD\<close> under their \<open>#ifdef\<close>: the entry exists if the target has the system call.\<close>

definition sys_ents :: "plat \<Rightarrow> u32 \<Rightarrow> (string \<times> nat) list \<Rightarrow> deny_ent list" where
  "sys_ents P fd xs = concat (map (\<lambda>(x, argn).
     case sysno P x of None \<Rightarrow> [] | Some nr \<Rightarrow> [\<lparr>de_nr = nr, de_argn = argn, de_fd = fd\<rparr>]) xs)"

definition gated_ents ::
    "plat \<Rightarrow> u32 \<Rightarrow> (bool \<times> (string \<times> nat) list) list \<Rightarrow> deny_ent list" where
  "gated_ents P fd gs = concat (map (\<lambda>(c, xs). if c then sys_ents P fd xs else []) gs)"

definition read_calls :: "(string \<times> nat) list" where
  "read_calls =
     [(''read'', 0), (''readv'', 0), (''pread64'', 0), (''preadv'', 0), (''preadv2'', 0)]"

definition write_calls :: "(string \<times> nat) list" where
  "write_calls =
     [(''write'', 0), (''writev'', 0), (''pwrite64'', 0), (''pwritev'', 0), (''pwritev2'', 0)]"

definition seek_calls :: "(string \<times> nat) list" where
  "seek_calls = [(''lseek'', 0), (''_llseek'', 0)]"

definition trunc_calls :: "(string \<times> nat) list" where
  "trunc_calls = [(''ftruncate'', 0), (''ftruncate64'', 0)]"

definition fsync_calls :: "(string \<times> nat) list" where
  "fsync_calls = [(''fsync'', 0), (''fdatasync'', 0)]"

definition shut_calls :: "(string \<times> nat) list" where
  "shut_calls = [(''shutdown'', 0)]"

definition mmap_calls :: "(string \<times> nat) list" where
  "mmap_calls = [(''mmap'', 4), (''mmap2'', 4)]"

lemmas calls_defs = read_calls_def write_calls_def seek_calls_def trunc_calls_def
  fsync_calls_def shut_calls_def mmap_calls_def

text \<open>The body of the loop of \<open>flush_registered_limits\<close>: the entries of one registered limit.\<close>

definition limit_entries :: "plat \<Rightarrow> fd_limit \<Rightarrow> deny_ent list" where
  "limit_entries P l = (let fd = lim_fd l; d = lim_deny l in
     gated_ents P fd
       [(d AND LDENY_RD \<noteq> 0, read_calls),
        (d AND LDENY_WR \<noteq> 0, write_calls),
        (d AND LDENY_SEEK \<noteq> 0, seek_calls),
        (d AND LDENY_TRUNC \<noteq> 0, trunc_calls),
        (d AND LDENY_FSYNC \<noteq> 0, fsync_calls),
        (d AND LDENY_SHUT \<noteq> 0, shut_calls),
        (d AND LDENY_MMAP \<noteq> 0, mmap_calls)])"

text \<open>
  The entries of \<open>caph_rights_limit\<close> on the path after entering.  The code leaves their
  descriptor unset; \<open>limit_fd_syscalls\<close> fills it in.
\<close>

definition rights_entries :: "plat \<Rightarrow> u64 \<Rightarrow> deny_ent list" where
  "rights_entries P m = gated_ents P 0
     [(m AND CAP_READ = 0, read_calls),
      (m AND (CAP_WRITE OR CAP_PWRITE) = 0, write_calls),
      (m AND CAP_SEEK = 0, seek_calls),
      (m AND CAP_FTRUNCATE = 0, trunc_calls),
      (m AND CAP_FSYNC = 0, fsync_calls),
      (m AND CAP_SHUTDOWN = 0, shut_calls),
      (m AND CAP_MMAP = 0, mmap_calls)]"

lemma in_sys_ents:
  "e \<in> set (sys_ents P fd xs) \<longleftrightarrow>
     (\<exists>x argn nr. (x, argn) \<in> set xs \<and> sysno P x = Some nr \<and>
        e = \<lparr>de_nr = nr, de_argn = argn, de_fd = fd\<rparr>)"
  unfolding sys_ents_def by (force split: option.splits)

lemma in_gated_ents:
  "e \<in> set (gated_ents P fd gs) \<longleftrightarrow> (\<exists>(c, xs) \<in> set gs. c \<and> e \<in> set (sys_ents P fd xs))"
  by (auto simp: gated_ents_def split: if_splits)

lemma gated_ents_sys_ents:
  "gated_ents P fd gs = sys_ents P fd (concat (map (\<lambda>(c, xs). if c then xs else []) gs))"
  by (induction gs) (auto simp: gated_ents_def sys_ents_def)

lemma gated_subseq:
  "subseq (concat (map (\<lambda>(c, xs). if c then xs else []) gs)) (concat (map snd gs))"
  by (induction gs) (auto intro: list_emb_append_mono subseq_drop_many)

lemma distinct_gated:
  assumes "distinct (map f (concat (map snd gs)))"
  shows "distinct (map f (concat (map (\<lambda>(c, xs). if c then xs else []) gs)))"
  using subseq_map [OF gated_subseq, of f gs] assms
  by (metis subseq_conv_nths distinct_nthsI)

lemma distinct_sys_ents:
  assumes "sysno_inj P" "distinct (map fst xs)"
  shows "distinct (map de_nr (sys_ents P fd xs))"
  using assms(2)
proof (induction xs)
  case Nil
  then show ?case by (simp add: sys_ents_def)
next
  case (Cons z xs)
  obtain x argn where z: "z = (x, argn)" by (cases z)
  have *: "sys_ents P fd (z # xs) =
      (case sysno P x of None \<Rightarrow> [] | Some nr \<Rightarrow> [\<lparr>de_nr = nr, de_argn = argn, de_fd = fd\<rparr>]) @
      sys_ents P fd xs"
    by (simp add: sys_ents_def z)
  have "nr \<notin> de_nr ` set (sys_ents P fd xs)" if "sysno P x = Some nr" for nr
  proof
    assume "nr \<in> de_nr ` set (sys_ents P fd xs)"
    then obtain y n where "(y, n) \<in> set xs" "sysno P y = Some nr"
      by (auto simp: in_sys_ents)
    moreover from this(2) have "x = y" by (rule sysno_injD [OF assms(1) that])
    ultimately show False using Cons.prems z by force
  qed
  with Cons show ?case
    by (auto simp: * split: option.splits)
qed

lemma distinct_rights_entries:
  "sysno_inj P \<Longrightarrow> distinct (map de_nr (rights_entries P m))"
  unfolding rights_entries_def gated_ents_sys_ents
  by (rule distinct_sys_ents, assumption, rule distinct_gated) (simp add: calls_defs)

lemma length_sys_ents: "length (sys_ents P fd xs) \<le> length xs"
  by (induction xs) (auto simp: sys_ents_def split: option.splits)

lemma length_gated_ents: "length (gated_ents P fd gs) \<le> length (concat (map snd gs))"
  unfolding gated_ents_sys_ents
  by (rule order_trans [OF length_sys_ents list_emb_length [OF gated_subseq]])

lemma gated_ents_argn:
  "\<forall>(x, n) \<in> set (concat (map snd gs)). n < 6 \<Longrightarrow> \<forall>e \<in> set (gated_ents P fd gs). de_argn e < 6"
  by (fastforce simp: in_gated_ents in_sys_ents)

lemma length_rights_entries: "length (rights_entries P m) \<le> 19"
  unfolding rights_entries_def by (rule order_trans [OF length_gated_ents]) (simp add: calls_defs)

lemma length_limit_entries: "length (limit_entries P l) \<le> 19"
  unfolding limit_entries_def Let_def
  by (rule order_trans [OF length_gated_ents]) (simp add: calls_defs)

lemma entries_argn:
  "\<forall>e \<in> set (rights_entries P m). de_argn e < 6"
  "\<forall>e \<in> set (limit_entries P l). de_argn e < 6"
  unfolding rights_entries_def limit_entries_def Let_def
  by (rule gated_ents_argn, simp add: calls_defs)+

lemma limit_entries_fd: "e \<in> set (limit_entries P l) \<Longrightarrow> de_fd e = lim_fd l"
  by (auto simp: limit_entries_def Let_def gated_ents_sys_ents in_sys_ents)

subsection \<open>What a row of entries enforces\<close>

lemma fd_deny_unlisted: "a \<notin> de_nr ` set es \<Longrightarrow> fd_deny_result es d a = SECCOMP_RET_ALLOW"
  by (induction es) auto

lemma fd_deny_skip: "a \<notin> de_nr ` set xs \<Longrightarrow> fd_deny_result (xs @ es) d a = fd_deny_result es d a"
  by (induction xs) auto

lemma fd_deny_first:
  assumes "de_nr e \<notin> de_nr ` set xs" "sd_arg d (de_argn e) = de_fd e"
  shows "fd_deny_result (xs @ e # ys) d (de_nr e) = ret_eperm"
  using assms by (simp add: fd_deny_skip)

lemma fd_deny_mismatch:
  assumes "de_nr e \<notin> de_nr ` set xs" "sd_arg d (de_argn e) \<noteq> de_fd e"
  shows "fd_deny_result (xs @ e # ys) d (de_nr e) =
    fd_deny_result ys d (sd_arg d (de_argn e))"
  using assms by (simp add: fd_deny_skip)

lemma fd_deny_result_cases: "fd_deny_result es d a \<in> {SECCOMP_RET_ALLOW, ret_eperm}"
  by (induction es d a rule: fd_deny_result.induct) auto

lemma fd_deny_distinct:
  assumes "distinct (map de_nr es)" "e \<in> set es" "sd_arg d (de_argn e) = de_fd e"
  shows "fd_deny_result es d (de_nr e) = ret_eperm"
proof -
  from assms(2) obtain xs ys where es: "es = xs @ e # ys" by (meson split_list)
  with assms(1) have "de_nr e \<notin> de_nr ` set xs" by auto
  with assms(3) show ?thesis by (simp add: es fd_deny_first)
qed

section \<open>Properties\<close>

text \<open>
  C2. After entering, \<open>caph_rights_limit\<close> installs one filter for the system calls whose right
  is missing.  It fits the instruction buffer; it denies each of these calls on the limited
  descriptor; a call that is not on the list is allowed; and a listed call on another
  descriptor is allowed when the number of that descriptor is not itself the number of a
  listed call.
\<close>

theorem fd_syscalls_filter_enforces:
  assumes "sysno_inj P"
  shows "\<exists>p. fd_syscalls_program P fd (rights_entries P m) = Some p \<and> length p \<le> 63 \<and>
    (\<forall>d. sd_arch d = audit_arch P \<longrightarrow>
      (\<forall>e \<in> set (rights_entries P m). sd_nr d = de_nr e \<longrightarrow>
        (sd_arg d (de_argn e) = fd \<longrightarrow> bpf_run p d 0 = Some ret_eperm) \<and>
        (sd_arg d (de_argn e) \<notin> insert fd (de_nr ` set (rights_entries P m)) \<longrightarrow>
          bpf_run p d 0 = Some SECCOMP_RET_ALLOW)) \<and>
      (sd_nr d \<notin> de_nr ` set (rights_entries P m) \<longrightarrow> bpf_run p d 0 = Some SECCOMP_RET_ALLOW))"
proof -
  let ?es = "map (\<lambda>e. e\<lparr>de_fd := fd\<rparr>) (rights_entries P m)"
  have len: "length ?es \<le> 80" and argn: "\<forall>e \<in> set ?es. de_argn e < 6"
    using length_rights_entries [of P m] entries_argn(1) [of P m] by auto
  have nrs: "de_nr ` set ?es = de_nr ` set (rights_entries P m)"
    by (simp add: image_image)
  have dist: "distinct (map de_nr ?es)"
    using distinct_rights_entries [OF assms] by (simp add: comp_def)
  obtain p where p: "fd_syscalls_program P fd (rights_entries P m) = Some p" "length p \<le> 63"
    using entry_chunk_program_Some [OF len, of P] length_rights_entries [of P m]
    by (auto simp: fd_syscalls_program_eq)
  have run: "bpf_run p d 0 = Some (fd_deny_result ?es d (sd_nr d))" if "sd_arch d = audit_arch P" for d
    using entry_chunk_run [OF len argn] p(1) that by (simp add: fd_syscalls_program_eq)
  have deny: "fd_deny_result ?es d (de_nr e) = ret_eperm"
    if "e \<in> set (rights_entries P m)" "sd_arg d (de_argn e) = fd" for d e
    using fd_deny_distinct [OF dist, of "e\<lparr>de_fd := fd\<rparr>" d] that by simp
  have other: "fd_deny_result ?es d (de_nr e) = SECCOMP_RET_ALLOW"
    if e: "e \<in> set (rights_entries P m)"
      and v: "sd_arg d (de_argn e) \<notin> insert fd (de_nr ` set (rights_entries P m))" for d e
  proof -
    from e have "e\<lparr>de_fd := fd\<rparr> \<in> set ?es" by force
    then obtain xs ys where es: "?es = xs @ e\<lparr>de_fd := fd\<rparr> # ys" by (meson split_list)
    with dist have "de_nr (e\<lparr>de_fd := fd\<rparr>) \<notin> de_nr ` set xs" by auto
    then have "fd_deny_result ?es d (de_nr e) = fd_deny_result ys d (sd_arg d (de_argn e))"
      using fd_deny_mismatch [of "e\<lparr>de_fd := fd\<rparr>" xs d ys] v es by simp
    also have "\<dots> = SECCOMP_RET_ALLOW"
      using v nrs es by (intro fd_deny_unlisted) auto
    finally show ?thesis .
  qed
  have "fd_deny_result ?es d a = SECCOMP_RET_ALLOW" if "a \<notin> de_nr ` set (rights_entries P m)" for d a
    using that nrs by (intro fd_deny_unlisted) simp
  with p run deny other show ?thesis
    by (intro exI [of _ p] conjI allI impI ballI) simp_all
qed

theorem fd_syscalls_filter_enforces_witness:
  "\<exists>p. fd_syscalls_program x86_64_linux 7 (rights_entries x86_64_linux CAP_WRITE) = Some p \<and>
    bpf_run p \<lparr>sd_nr = 0, sd_arch = 0xC000003E, sd_ip = 0, sd_args = [7, 0, 0, 0, 0, 0]\<rparr> 0 =
      Some ret_eperm \<and>
    bpf_run p \<lparr>sd_nr = 1, sd_arch = 0xC000003E, sd_ip = 0, sd_args = [7, 0, 0, 0, 0, 0]\<rparr> 0 =
      Some SECCOMP_RET_ALLOW"
proof -
  have *: "\<lparr>de_nr = 0, de_argn = 0, de_fd = 0\<rparr> \<in> set (rights_entries x86_64_linux CAP_WRITE)"
    by (simp add: rights_entries_def gated_ents_def sys_ents_def calls_defs x86_64_calls)
  have "1 \<notin> de_nr ` set (rights_entries x86_64_linux CAP_WRITE)"
    by (simp add: rights_entries_def gated_ents_def sys_ents_def calls_defs x86_64_calls)
  note free = this
  from fd_syscalls_filter_enforces [OF x86_64_sysno_inj, of 7 CAP_WRITE]
  obtain p where p: "fd_syscalls_program x86_64_linux 7 (rights_entries x86_64_linux CAP_WRITE) = Some p"
    and deny: "\<And>d. sd_arch d = audit_arch x86_64_linux \<Longrightarrow> sd_nr d = 0 \<Longrightarrow> sd_arg d 0 = 7 \<Longrightarrow>
      bpf_run p d 0 = Some ret_eperm"
    and allow: "\<And>d. sd_arch d = audit_arch x86_64_linux \<Longrightarrow> sd_nr d = 1 \<Longrightarrow>
      bpf_run p d 0 = Some SECCOMP_RET_ALLOW"
    using * free by (metis deny_ent.select_convs(1,2))
  show ?thesis
    by (intro exI [of _ p] conjI p deny allow) (simp_all add: sd_arg_def x86_64_linux_def)
qed

text \<open>
  A chunk of the flushed registry enforces only the first entry for a system call number.
  On a match of that number the descriptor argument replaces the number in the accumulator, so
  the entries behind it compare the descriptor against system call numbers: with a descriptor
  that is not such a number the call is allowed, even where a later entry names this very call
  and descriptor.
\<close>

lemma entry_chunk_first_entry_only:
  assumes "length (xs @ e # ys) \<le> 80" "\<forall>e \<in> set (xs @ e # ys). de_argn e < 6"
    and "entry_chunk_program P (xs @ e # ys) = Some p"
    and "de_nr e \<notin> de_nr ` set xs" "sd_nr d = de_nr e" "sd_arch d = audit_arch P"
  shows "(sd_arg d (de_argn e) = de_fd e \<longrightarrow> bpf_run p d 0 = Some ret_eperm) \<and>
    (sd_arg d (de_argn e) \<noteq> de_fd e \<and> sd_arg d (de_argn e) \<notin> de_nr ` set ys \<longrightarrow>
      bpf_run p d 0 = Some SECCOMP_RET_ALLOW)"
  using entry_chunk_run [OF assms(1-3), of d] assms(4-6)
  by (auto simp: fd_deny_skip fd_deny_unlisted)

end
