(* ===== verification/Arg1_Limits.thy ===== *)
theory Arg1_Limits
  imports Fd_Limits
begin

text \<open>
  The filters that restrict the command argument of \<open>ioctl\<close> and \<open>fcntl\<close> to an allowlist:
  \<open>limit_fd_arg1\<close> and \<open>install_arg1_limits\<close> of \<open>src/src.compat/capsicum.c\<close>.  Both emit
  their jumps with offset 0 and patch them afterwards; \<open>patch_jt\<close> and \<open>patch_jf\<close> are the
  assignments to \<open>insns[idx]\<close>.  The lemmas give the patched programs in closed form and then
  what they decide.
\<close>

section \<open>The code\<close>

definition patch_jt :: "nat \<Rightarrow> nat \<Rightarrow> bpf_prog \<Rightarrow> bpf_prog" where
  "patch_jt target idx p = p[idx := (p ! idx)\<lparr>sf_jt := of_nat (target - idx - 1)\<rparr>]"

definition patch_jf :: "nat \<Rightarrow> nat \<Rightarrow> bpf_prog \<Rightarrow> bpf_prog" where
  "patch_jf target idx p = p[idx := (p ! idx)\<lparr>sf_jf := of_nat (target - idx - 1)\<rparr>]"

definition fd_arg1_program :: "plat \<Rightarrow> u32 \<Rightarrow> u32 \<Rightarrow> u64 list \<Rightarrow> bpf_prog option" where
  "fd_arg1_program P fd nr allowed = do {
     p \<leftarrow> emit_arch_guard P [];
     p \<leftarrow> LD_NR p;
     let start = length p;
     p \<leftarrow> E_JEQ nr 0 0 p;
     p \<leftarrow> LD_ARG 0 p;
     p \<leftarrow> E_JEQ fd 0 0 p;
     p \<leftarrow> LD_ARG 1 p;
     p \<leftarrow> emit_loop (\<lambda>c. E_JEQ (ucast c) 0 0) allowed p;
     p \<leftarrow> RET_EPERM p;
     let allow_idx = length p;
     p \<leftarrow> RET_ALLOW p;
     let idx = start;
     let p = patch_jf allow_idx idx p;
     let idx = idx + 2;
     let p = patch_jf allow_idx idx p;
     let idx = idx + 2;
     Some (fold (patch_jt allow_idx) [idx..<idx + length allowed] p)
   }"

text \<open>
  \<open>install_arg1_limits\<close> writes the index of every command test into \<open>cmd_idx[96]\<close>; writing
  past that array is undefined behaviour (\<open>A1_overrun\<close>), filling the instruction buffer is
  \<open>abort()\<close>.
\<close>

datatype which = Ioctls | Fcntls

datatype arg1_fail = A1_abort | A1_overrun

definition cmd_idx_max :: nat where
  "cmd_idx_max = 96"

definition which_list :: "which \<Rightarrow> fd_limit \<Rightarrow> u64 list option" where
  "which_list w l = (case w of Ioctls \<Rightarrow> lim_ioctls l | Fcntls \<Rightarrow> lim_fcntls l)"

definition emitted :: "bpf_prog option \<Rightarrow> arg1_fail + bpf_prog" where
  "emitted r = (case r of None \<Rightarrow> Inl A1_abort | Some p \<Rightarrow> Inr p)"

fun arg1_cmds :: "u64 list \<Rightarrow> bpf_prog \<Rightarrow> nat list \<Rightarrow> arg1_fail + bpf_prog \<times> nat list" where
  "arg1_cmds [] p ci = Inr (p, ci)"
| "arg1_cmds (c # cs) p ci =
     (if length ci \<ge> cmd_idx_max then Inl A1_overrun
      else case emitted (E_JEQ (ucast c) 0 0 p) of
        Inl e \<Rightarrow> Inl e
      | Inr p' \<Rightarrow> arg1_cmds cs p' (ci @ [length p]))"

type_synonym arg1_state = "bpf_prog \<times> nat list \<times> nat option"

definition arg1_block :: "u32 \<Rightarrow> u64 list \<Rightarrow> arg1_state \<Rightarrow> arg1_fail + arg1_state" where
  "arg1_block fd list st = (case st of (p, ci, prev) \<Rightarrow>
     let p = (case prev of None \<Rightarrow> p | Some k \<Rightarrow> patch_jf (length p) k p) in
     case emitted (LD_ARG 0 p) of
       Inl e \<Rightarrow> Inl e
     | Inr p \<Rightarrow> let fd_idx = length p in
         (case emitted (do { p \<leftarrow> E_JEQ fd 0 0 p; LD_ARG 1 p }) of
            Inl e \<Rightarrow> Inl e
          | Inr p \<Rightarrow>
              (case arg1_cmds list p ci of
                 Inl e \<Rightarrow> Inl e
               | Inr (p, ci) \<Rightarrow>
                   (case emitted (RET_EPERM p) of
                      Inl e \<Rightarrow> Inl e
                    | Inr p \<Rightarrow> Inr (p, ci, Some fd_idx)))))"

fun arg1_blocks :: "which \<Rightarrow> registry \<Rightarrow> arg1_state \<Rightarrow> arg1_fail + arg1_state" where
  "arg1_blocks w [] st = Inr st"
| "arg1_blocks w (l # ls) st =
     (case which_list w l of
        None \<Rightarrow> arg1_blocks w ls st
      | Some list \<Rightarrow>
          (case arg1_block (lim_fd l) list st of
             Inl e \<Rightarrow> Inl e
           | Inr st \<Rightarrow> arg1_blocks w ls st))"

datatype arg1_result = A1_none | A1_crash arg1_fail | A1_nospace | A1_load bpf_prog

definition arg1_limits_program :: "plat \<Rightarrow> u32 \<Rightarrow> which \<Rightarrow> registry \<Rightarrow> arg1_result" where
  "arg1_limits_program P nr w reg =
     (if filter (\<lambda>l. which_list w l \<noteq> None) reg = [] then A1_none
      else case emitted (do { p \<leftarrow> emit_arch_guard P []; LD_NR p }) of
        Inl e \<Rightarrow> A1_crash e
      | Inr p \<Rightarrow> let nr_idx = length p in
          (case emitted (E_JEQ nr 0 0 p) of
             Inl e \<Rightarrow> A1_crash e
           | Inr p \<Rightarrow>
               (case arg1_blocks w reg (p, [], None) of
                  Inl e \<Rightarrow> A1_crash e
                | Inr (p, ci, prev) \<Rightarrow> let allow_idx = length p in
                    (case emitted (RET_ALLOW p) of
                       Inl e \<Rightarrow> A1_crash e
                     | Inr p \<Rightarrow>
                         let p = (case prev of None \<Rightarrow> p | Some k \<Rightarrow> patch_jf allow_idx k p);
                             p = patch_jf allow_idx nr_idx p;
                             p = fold (patch_jt allow_idx) ci p
                         in if allow_idx > 200 then A1_nospace else A1_load p))))"

section \<open>Patching\<close>

lemma patch_jf_at [simp]:
  "n = length pre \<Longrightarrow> patch_jf t n (pre @ i_jeq v a b # post) =
     pre @ i_jeq v a (of_nat (t - n - 1)) # post"
  by (simp add: patch_jf_def)

lemma patch_jt_at [simp]:
  "n = length pre \<Longrightarrow> patch_jt t n (pre @ i_jeq v a b # post) =
     pre @ i_jeq v (of_nat (t - n - 1)) b # post"
  by (simp add: patch_jt_def)

text \<open>A row of tests on the values \<open>vs\<close> at offset \<open>o\<close> that all jump to \<open>t\<close> on equality.\<close>

definition jump_row :: "nat \<Rightarrow> nat \<Rightarrow> u32 list \<Rightarrow> sock_filter list" where
  "jump_row t k vs = map (\<lambda>j. i_jeq (vs ! j) (of_nat (t - (k + j) - 1)) 0) [0..<length vs]"

lemma jump_row_Cons: "jump_row t k (v # vs) = i_jeq v (of_nat (t - k - 1)) 0 # jump_row t (Suc k) vs"
  by (simp add: jump_row_def upt_conv_Cons map_Suc_upt [symmetric] comp_def del: upt_Suc)

lemma length_jump_row [simp]: "length (jump_row t k vs) = length vs"
  by (simp add: jump_row_def)

lemma patch_row:
  "k = length pre \<Longrightarrow> fold (patch_jt t) [k..<k + length vs] (pre @ map (\<lambda>v. i_jeq v 0 0) vs @ post) =
     pre @ jump_row t k vs @ post"
proof (induction vs arbitrary: k pre)
  case Nil
  then show ?case by (simp add: jump_row_def)
next
  case (Cons v vs)
  let ?i = "i_jeq v (of_nat (t - k - 1)) 0"
  have "fold (patch_jt t) [Suc k..<Suc k + length vs] ((pre @ [?i]) @ map (\<lambda>v. i_jeq v 0 0) vs @ post) =
      (pre @ [?i]) @ jump_row t (Suc k) vs @ post"
    by (rule Cons.IH) (simp add: Cons.prems)
  with Cons.prems show ?case
    by (simp add: upt_conv_Cons jump_row_Cons del: upt_Suc)
qed

context bpf_machine
begin

lemma run_jump_row_to:
  assumes "t = k + length vs + m" "t \<le> 255" "m \<le> length is"
  shows "run (jump_row t k vs @ is) d a =
    (if a \<in> set vs then run (drop m is) d a else run is d a)"
  unfolding jump_row_def
proof (rule run_jump_row)
  fix j
  assume "j < length vs"
  with assms show "unat (of_nat (t - (k + j) - 1) :: u8) = length vs - j - 1 + m"
    by (subst unat_of_nat_u8) auto
qed (rule assms)

end

section \<open>One allowlist\<close>

lemma emit_cmds_code:
  "emit_loop (\<lambda>c. app_code [i_jeq (ucast c) 0 0]) allowed =
     app_code (map (\<lambda>v. i_jeq v 0 0) (map ucast allowed))"
  by (subst emit_loop_app_code [where c = "\<lambda>c. [i_jeq (ucast c) 0 0]"])
    (simp_all add: concat_map_singleton comp_def)

definition arg1_decide :: "(u32 \<times> u64 list) list \<Rightarrow> seccomp_data \<Rightarrow> u32" where
  "arg1_decide bs d =
     (case map_of bs (sd_arg d 0) of
        None \<Rightarrow> SECCOMP_RET_ALLOW
      | Some xs \<Rightarrow> if sd_arg d 1 \<in> ucast ` set xs then SECCOMP_RET_ALLOW else ret_eperm)"

lemma fd_arg1_program_code:
  assumes "length allowed \<le> 200"
  shows "fd_arg1_program P fd nr allowed = Some
    ([i_arch, i_jeq (audit_arch P) 1 0, i_ret SECCOMP_RET_KILL_PROCESS, i_nr,
      i_jeq nr 0 (of_nat (length allowed + 4)), i_arg 0,
      i_jeq fd 0 (of_nat (length allowed + 2)), i_arg 1] @
     jump_row (length allowed + 9) 8 (map ucast allowed) @
     [i_ret ret_eperm, i_ret SECCOMP_RET_ALLOW])"
proof -
  let ?pre = "[i_arch, i_jeq (audit_arch P) 1 0, i_ret SECCOMP_RET_KILL_PROCESS, i_nr,
      i_jeq nr 0 (of_nat (length allowed + 4)), i_arg 0,
      i_jeq fd 0 (of_nat (length allowed + 2)), i_arg 1]"
  have "fd_arg1_program P fd nr allowed = Some
      (fold (patch_jt (length allowed + 9)) [8..<8 + length (map ucast allowed :: u32 list)]
        (?pre @ map (\<lambda>v. i_jeq v 0 0) (map ucast allowed) @
         [i_ret ret_eperm, i_ret SECCOMP_RET_ALLOW]))"
    using assms
    by (simp add: fd_arg1_program_def emit_arch_guard_code emit_app_code emit_cmds_code
        app_code_step insns_max_def Let_def patch_jf_def eval_nat_numeral add_ac del: upt_Suc)
  then show ?thesis
    using patch_row [of 8 ?pre "length allowed + 9" "map ucast allowed"
        "[i_ret ret_eperm, i_ret SECCOMP_RET_ALLOW]"]
    by simp
qed

lemma fd_arg1_run:
  assumes "length allowed \<le> 200" "fd_arg1_program P fd nr allowed = Some p"
  shows "bpf_run p d 0 =
    Some (if sd_arch d \<noteq> audit_arch P then SECCOMP_RET_KILL_PROCESS
          else if sd_nr d = nr then arg1_decide [(fd, allowed)] d else SECCOMP_RET_ALLOW)"
proof -
  have "unat (of_nat (length allowed + 4) :: u8) = length allowed + 4"
    "unat (of_nat (length allowed + 2) :: u8) = length allowed + 2"
    by (rule unat_of_nat_u8, use assms(1) in simp)+
  moreover have "bpf_run (jump_row (length allowed + 9) 8 (map ucast allowed) @
      [i_ret ret_eperm, i_ret SECCOMP_RET_ALLOW]) d a =
      Some (if a \<in> ucast ` set allowed then SECCOMP_RET_ALLOW else ret_eperm)" for a
    using assms(1) by (subst bpf.run_jump_row_to [where m = 1]) auto
  ultimately show ?thesis
    using assms
    by (auto simp: fd_arg1_program_code bpf.run_guard arg1_decide_def drop_Cons'
        simp del: bpf_run.simps)
qed

section \<open>The allowlists of the registry\<close>

definition reg_lists :: "which \<Rightarrow> registry \<Rightarrow> (u32 \<times> u64 list) list" where
  "reg_lists w reg = List.map_filter (\<lambda>l. map_option (Pair (lim_fd l)) (which_list w l)) reg"

lemma reg_lists_simps:
  "reg_lists w [] = []"
  "reg_lists w (l # ls) =
     (case which_list w l of None \<Rightarrow> reg_lists w ls | Some xs \<Rightarrow> (lim_fd l, xs) # reg_lists w ls)"
  by (simp_all add: reg_lists_def map_filter_def split: option.splits)

text \<open>A block with its jump to the next block, first with the command tests still unpatched.\<close>

fun half_block :: "u32 \<times> u64 list \<Rightarrow> sock_filter list" where
  "half_block (fd, xs) = [i_arg 0, i_jeq fd 0 (of_nat (length xs + 2)), i_arg 1] @
     map (\<lambda>v. i_jeq v 0 0) (map ucast xs) @ [i_ret ret_eperm]"

fun full_blocks :: "nat \<Rightarrow> nat \<Rightarrow> (u32 \<times> u64 list) list \<Rightarrow> sock_filter list" where
  "full_blocks t k [] = []"
| "full_blocks t k ((fd, xs) # bs) =
     [i_arg 0, i_jeq fd 0 (of_nat (length xs + 2)), i_arg 1] @
     jump_row t (k + 3) (map ucast xs) @ [i_ret ret_eperm] @
     full_blocks t (k + length xs + 4) bs"

fun blocks_length :: "(u32 \<times> u64 list) list \<Rightarrow> nat" where
  "blocks_length [] = 0"
| "blocks_length ((fd, xs) # bs) = length xs + 4 + blocks_length bs"

fun cmd_indices :: "nat \<Rightarrow> (u32 \<times> u64 list) list \<Rightarrow> nat list" where
  "cmd_indices k [] = []"
| "cmd_indices k ((fd, xs) # bs) =
     [k + 3..<k + 3 + length xs] @ cmd_indices (k + length xs + 4) bs"

lemma length_blocks [simp]:
  "length (concat (map half_block bs)) = blocks_length bs"
  "length (full_blocks t k bs) = blocks_length bs"
proof -
  show "length (concat (map half_block bs)) = blocks_length bs"
    by (induction bs rule: blocks_length.induct) auto
  show "length (full_blocks t k bs) = blocks_length bs"
    by (induction t k bs rule: full_blocks.induct) auto
qed

lemma patch_blocks:
  "k = length pre \<Longrightarrow>
   fold (patch_jt t) (cmd_indices k bs) (pre @ concat (map half_block bs) @ post) =
     pre @ full_blocks t k bs @ post"
proof (induction k bs arbitrary: pre rule: cmd_indices.induct)
  case (2 k fd xs bs)
  let ?hd = "[i_arg 0, i_jeq fd 0 (of_nat (length xs + 2)), i_arg 1]"
  let ?row = "jump_row t (k + 3) (map ucast xs)"
  have row: "fold (patch_jt t) [k + 3..<k + 3 + length (map ucast xs :: u32 list)]
      ((pre @ ?hd) @ map (\<lambda>v. i_jeq v 0 0) (map ucast xs) @
       (i_ret ret_eperm # concat (map half_block bs) @ post)) =
      (pre @ ?hd) @ ?row @ (i_ret ret_eperm # concat (map half_block bs) @ post)"
    by (rule patch_row) (simp add: "2.prems")
  have "fold (patch_jt t) (cmd_indices (k + length xs + 4) bs)
      ((pre @ ?hd @ ?row @ [i_ret ret_eperm]) @ concat (map half_block bs) @ post) =
      (pre @ ?hd @ ?row @ [i_ret ret_eperm]) @ full_blocks t (k + length xs + 4) bs @ post"
    by (rule "2.IH") (simp add: "2.prems")
  with row show ?case by simp
qed simp

context bpf_machine
begin

lemma run_blocks:
  assumes "t = k + blocks_length bs" "t \<le> 255"
  shows "run (full_blocks t k bs @ [i_ret SECCOMP_RET_ALLOW]) d a = Some (arg1_decide bs d)"
  using assms
proof (induction t k bs arbitrary: a rule: full_blocks.induct)
  case (2 t k fd xs bs)
  let ?rest = "full_blocks t (k + length xs + 4) bs"
  have IH: "run (?rest @ [i_ret SECCOMP_RET_ALLOW]) d a = Some (arg1_decide bs d)" for a
    by (rule "2.IH") (use "2.prems" in auto)
  have "unat (of_nat (length xs + 2) :: u8) = length xs + 2"
    using "2.prems" by (intro unat_of_nat_u8) simp
  moreover have "run (jump_row t (k + 3) (map ucast xs) @ i_ret ret_eperm # ?rest @
      [i_ret SECCOMP_RET_ALLOW]) d a =
      Some (if a \<in> ucast ` set xs then SECCOMP_RET_ALLOW else ret_eperm)" for a
    using "2.prems"
    by (subst run_jump_row_to [where m = "Suc (blocks_length bs)"]) auto
  ultimately show ?case
    using IH by (auto simp: arg1_decide_def drop_Cons')
qed (simp add: arg1_decide_def)

end

fun n_cmds :: "(u32 \<times> u64 list) list \<Rightarrow> nat" where
  "n_cmds [] = 0"
| "n_cmds ((fd, xs) # bs) = length xs + n_cmds bs"

lemma n_cmds_append [simp]: "n_cmds (as @ bs) = n_cmds as + n_cmds bs"
  by (induction as rule: n_cmds.induct) auto

lemma blocks_length_eq: "blocks_length bs = n_cmds bs + 4 * length bs"
  by (induction bs rule: n_cmds.induct) auto

lemma length_cmd_indices [simp]: "length (cmd_indices k bs) = n_cmds bs"
  by (induction k bs rule: cmd_indices.induct) auto

lemma cmd_indices_snoc:
  "cmd_indices k (bs @ [(fd, xs)]) =
     cmd_indices k bs @ [k + blocks_length bs + 3..<k + blocks_length bs + 3 + length xs]"
  by (induction k bs rule: cmd_indices.induct) (auto simp: add_ac)

lemma arg1_cmds_eq:
  assumes "length ci \<le> cmd_idx_max" "length p + (cmd_idx_max - length ci) \<le> insns_max"
  shows "arg1_cmds xs p ci =
    (if length ci + length xs \<le> cmd_idx_max
     then Inr (p @ map (\<lambda>v. i_jeq v 0 0) (map ucast xs), ci @ [length p..<length p + length xs])
     else Inl A1_overrun)"
  using assms
proof (induction xs arbitrary: p ci)
  case (Cons x xs)
  show ?case
  proof (cases "length ci \<ge> cmd_idx_max")
    case False
    then have "arg1_cmds (x # xs) p ci =
        arg1_cmds xs (p @ [i_jeq (ucast x) 0 0]) (ci @ [length p])"
      using Cons.prems(2) by (simp add: emitted_def emit_app_code app_code_step)
    also have "\<dots> = (if length (ci @ [length p]) + length xs \<le> cmd_idx_max
       then Inr ((p @ [i_jeq (ucast x) 0 0]) @ map (\<lambda>v. i_jeq v 0 0) (map ucast xs),
         (ci @ [length p]) @
         [length (p @ [i_jeq (ucast x) 0 0])..<length (p @ [i_jeq (ucast x) 0 0]) + length xs])
       else Inl A1_overrun)"
      by (rule Cons.IH) (use False Cons.prems in auto)
    finally show ?thesis
      by (simp add: upt_conv_Cons del: upt_Suc)
  qed (use Cons.prems in simp)
qed simp

text \<open>
  The loop over the registry: closing the open jump of the last block gives the half-patched
  blocks, and \<open>cmd_idx\<close> holds the indices of their command tests.
\<close>

definition close_last :: "bpf_prog \<Rightarrow> nat option \<Rightarrow> bpf_prog" where
  "close_last p prev = (case prev of None \<Rightarrow> p | Some k \<Rightarrow> patch_jf (length p) k p)"

definition blocks_inv :: "bpf_prog \<Rightarrow> (u32 \<times> u64 list) list \<Rightarrow> arg1_state \<Rightarrow> bool" where
  "blocks_inv base bs st \<longleftrightarrow> (case st of (p, ci, prev) \<Rightarrow>
     close_last p prev = base @ concat (map half_block bs) \<and>
     ci = cmd_indices (length base) bs \<and>
     (\<forall>k. prev = Some k \<longrightarrow> k < length p))"

lemma length_close_last [simp]: "length (close_last p prev) = length p"
  by (simp add: close_last_def patch_jf_def split: option.splits)

lemma blocks_inv_length:
  assumes "blocks_inv base bs (p, ci, prev)"
  shows "length p = length base + blocks_length bs"
proof -
  from assms have "length (close_last p prev) = length (base @ concat (map half_block bs))"
    by (simp add: blocks_inv_def)
  then show ?thesis by (simp del: half_block.simps)
qed

lemma arg1_block_step:
  assumes inv: "blocks_inv base bs st" and cmds: "n_cmds bs \<le> cmd_idx_max"
    and len: "length base + 4 * length bs + cmd_idx_max + 4 \<le> insns_max"
  shows "if n_cmds bs + length xs \<le> cmd_idx_max
    then \<exists>st'. arg1_block fd xs st = Inr st' \<and> blocks_inv base (bs @ [(fd, xs)]) st'
    else arg1_block fd xs st = Inl A1_overrun"
proof -
  obtain p ci prev where st: "st = (p, ci, prev)" by (cases st)
  let ?q = "base @ concat (map half_block bs)"
  let ?q3 = "?q @ [i_arg 0, i_jeq fd 0 0, i_arg 1]"
  let ?row = "map (\<lambda>v. i_jeq v 0 0) (map ucast xs)"
  from inv st have q: "close_last p prev = ?q" and ci: "ci = cmd_indices (length base) bs"
    by (auto simp: blocks_inv_def)
  have room: "length ?q3 + (cmd_idx_max - length ci) \<le> insns_max - 1"
    using cmds len by (simp add: blocks_length_eq ci insns_max_def)
  then have "arg1_block fd xs st =
      (case arg1_cmds xs ?q3 ci of
         Inl e \<Rightarrow> Inl e
       | Inr (p, ci) \<Rightarrow>
           (case emitted (RET_EPERM p) of
              Inl e \<Rightarrow> Inl e
            | Inr p \<Rightarrow> Inr (p, ci, Some (Suc (length base + blocks_length bs)))))"
    using q by (simp add: st arg1_block_def close_last_def [symmetric] emitted_def emit_app_code
        app_code_step Let_def)
  moreover have "arg1_cmds xs ?q3 ci =
      (if n_cmds bs + length xs \<le> cmd_idx_max
       then Inr (?q3 @ ?row, ci @ [length ?q3..<length ?q3 + length xs])
       else Inl A1_overrun)"
    using arg1_cmds_eq [of ci ?q3 xs] cmds room by (simp add: ci)
  moreover have "emitted (RET_EPERM (?q3 @ ?row)) = Inr (?q3 @ ?row @ [i_ret ret_eperm])"
    if "n_cmds bs + length xs \<le> cmd_idx_max"
    using that room by (simp add: emitted_def emit_app_code app_code_step ci)
  moreover have "blocks_inv base (bs @ [(fd, xs)])
      (?q3 @ ?row @ [i_ret ret_eperm], ci @ [length ?q3..<length ?q3 + length xs],
       Some (Suc (length base + blocks_length bs)))"
  proof -
    have "patch_jf (length (?q3 @ ?row @ [i_ret ret_eperm])) (Suc (length base + blocks_length bs))
        ((?q @ [i_arg 0]) @ i_jeq fd 0 0 # i_arg 1 # ?row @ [i_ret ret_eperm]) =
        (?q @ [i_arg 0]) @ i_jeq fd 0 (of_nat (length xs + 2)) # i_arg 1 # ?row @ [i_ret ret_eperm]"
      by (subst patch_jf_at) simp_all
    then show ?thesis
      by (simp add: blocks_inv_def close_last_def ci cmd_indices_snoc add_ac eval_nat_numeral
          del: upt_Suc)
  qed
  ultimately show ?thesis
    by (auto simp del: half_block.simps)
qed

lemma arg1_blocks_eq:
  assumes "blocks_inv base bs st" "n_cmds bs \<le> cmd_idx_max"
    and "length base + 4 * (length bs + length (reg_lists w reg)) + cmd_idx_max \<le> insns_max"
  shows "if n_cmds (bs @ reg_lists w reg) \<le> cmd_idx_max
    then \<exists>st'. arg1_blocks w reg st = Inr st' \<and> blocks_inv base (bs @ reg_lists w reg) st'
    else arg1_blocks w reg st = Inl A1_overrun"
  using assms
proof (induction reg arbitrary: bs st)
  case Nil
  then show ?case by (simp add: reg_lists_simps)
next
  case (Cons l reg)
  show ?case
  proof (cases "which_list w l")
    case None
    with Cons.prems Cons.IH [of bs st] show ?thesis
      by (simp add: reg_lists_simps del: split_paired_Ex)
  next
    case (Some xs)
    have step: "if n_cmds bs + length xs \<le> cmd_idx_max
      then \<exists>st'. arg1_block (lim_fd l) xs st = Inr st' \<and>
        blocks_inv base (bs @ [(lim_fd l, xs)]) st'
      else arg1_block (lim_fd l) xs st = Inl A1_overrun"
      by (rule arg1_block_step) (use Cons.prems Some in \<open>auto simp: reg_lists_simps\<close>)
    show ?thesis
    proof (cases "n_cmds bs + length xs \<le> cmd_idx_max")
      case True
      with step obtain st' where st': "arg1_block (lim_fd l) xs st = Inr st'"
        "blocks_inv base (bs @ [(lim_fd l, xs)]) st'" by auto
      have "if n_cmds ((bs @ [(lim_fd l, xs)]) @ reg_lists w reg) \<le> cmd_idx_max
        then \<exists>st''. arg1_blocks w reg st' = Inr st'' \<and>
          blocks_inv base ((bs @ [(lim_fd l, xs)]) @ reg_lists w reg) st''
        else arg1_blocks w reg st' = Inl A1_overrun"
        by (rule Cons.IH) (use st' True Cons.prems Some in \<open>auto simp: reg_lists_simps\<close>)
      with st'(1) Some show ?thesis
        by (auto simp: reg_lists_simps simp del: split_paired_Ex split: if_splits)
    next
      case False
      with step Some show ?thesis by (simp add: reg_lists_simps)
    qed
  qed
qed

lemma reg_lists_length: "length (reg_lists w reg) \<le> length reg"
  by (induction reg) (auto simp: reg_lists_simps split: option.splits)

lemma reg_lists_empty:
  "filter (\<lambda>l. which_list w l \<noteq> None) reg = [] \<longleftrightarrow> reg_lists w reg = []"
  by (induction reg) (auto simp: reg_lists_simps split: option.splits)

lemma patch_jf_append: "k < length p \<Longrightarrow> patch_jf t k (p @ q) = patch_jf t k p @ q"
  by (simp add: patch_jf_def nth_append list_update_append)

lemma arg1_limits_program_eq:
  assumes "length reg \<le> fd_limits_max"
  shows "arg1_limits_program P nr w reg =
    (let bs = reg_lists w reg; t = 5 + blocks_length bs in
     if bs = [] then A1_none
     else if n_cmds bs > cmd_idx_max then A1_crash A1_overrun
     else if t > 200 then A1_nospace
     else A1_load
       ([i_arch, i_jeq (audit_arch P) 1 0, i_ret SECCOMP_RET_KILL_PROCESS, i_nr,
         i_jeq nr 0 (of_nat (t - 5))] @ full_blocks t 5 bs @ [i_ret SECCOMP_RET_ALLOW]))"
proof -
  let ?bs = "reg_lists w reg"
  let ?t = "5 + blocks_length ?bs"
  let ?g = "[i_arch, i_jeq (audit_arch P) 1 0, i_ret SECCOMP_RET_KILL_PROCESS, i_nr]"
  let ?base = "?g @ [i_jeq nr 0 0]"
  have loop: "if n_cmds ([] @ ?bs) \<le> cmd_idx_max
    then \<exists>st'. arg1_blocks w reg (?base, [], None) = Inr st' \<and> blocks_inv ?base ([] @ ?bs) st'
    else arg1_blocks w reg (?base, [], None) = Inl A1_overrun"
    by (rule arg1_blocks_eq)
      (use assms reg_lists_length [of w reg] in
        \<open>auto simp: blocks_inv_def close_last_def cmd_idx_max_def insns_max_def fd_limits_max_def\<close>)
  have start: "emitted (do { p \<leftarrow> emit_arch_guard P []; LD_NR p }) = Inr ?g"
    "emitted (E_JEQ nr 0 0 ?g) = Inr ?base"
    by (simp_all add: emitted_def emit_arch_guard_code emit_app_code app_code_step insns_max_def)
  show ?thesis
  proof (cases "?bs = [] \<or> n_cmds ?bs > cmd_idx_max")
    case True
    with loop start show ?thesis
      by (auto simp: arg1_limits_program_def reg_lists_empty Let_def simp del: not_None_eq)
  next
    case False
    then have ne: "?bs \<noteq> []" and few: "n_cmds ?bs \<le> cmd_idx_max" by auto
    with loop obtain p ci prev where st: "arg1_blocks w reg (?base, [], None) = Inr (p, ci, prev)"
      and inv: "blocks_inv ?base ?bs (p, ci, prev)" by auto
    have len: "length p = ?t" using blocks_inv_length [OF inv] by simp
    then have room: "length p + 1 \<le> insns_max"
      using few assms reg_lists_length [of w reg]
      by (simp add: blocks_length_eq cmd_idx_max_def insns_max_def fd_limits_max_def)
    have "(case prev of None \<Rightarrow> p @ [i_ret SECCOMP_RET_ALLOW]
        | Some k \<Rightarrow> patch_jf (length p) k (p @ [i_ret SECCOMP_RET_ALLOW])) =
        close_last p prev @ [i_ret SECCOMP_RET_ALLOW]"
      using inv by (auto simp: close_last_def blocks_inv_def patch_jf_append split: option.splits)
    also have "\<dots> = ?base @ concat (map half_block ?bs) @ [i_ret SECCOMP_RET_ALLOW]"
      using inv by (simp add: blocks_inv_def)
    finally have closed: "(case prev of None \<Rightarrow> p @ [i_ret SECCOMP_RET_ALLOW]
        | Some k \<Rightarrow> patch_jf (length p) k (p @ [i_ret SECCOMP_RET_ALLOW])) =
        ?base @ concat (map half_block ?bs) @ [i_ret SECCOMP_RET_ALLOW]" .
    have nr: "patch_jf ?t (length ?g) (?base @ concat (map half_block ?bs) @ [i_ret SECCOMP_RET_ALLOW]) =
        (?g @ [i_jeq nr 0 (of_nat (?t - 5))]) @ concat (map half_block ?bs) @
        [i_ret SECCOMP_RET_ALLOW]"
      using patch_jf_at [where n = "length ?g" and pre = ?g and t = ?t and v = nr] by simp
    have row: "fold (patch_jt ?t) ci ((?g @ [i_jeq nr 0 (of_nat (?t - 5))]) @
        concat (map half_block ?bs) @ [i_ret SECCOMP_RET_ALLOW]) =
        (?g @ [i_jeq nr 0 (of_nat (?t - 5))]) @ full_blocks ?t 5 ?bs @ [i_ret SECCOMP_RET_ALLOW]"
      using inv by (subst patch_blocks [symmetric]) (auto simp: blocks_inv_def numeral_eq_Suc)
    show ?thesis
      using ne few start st room len closed nr row
      by (simp add: arg1_limits_program_def reg_lists_empty Let_def emitted_def emit_app_code
          app_code_step del: not_None_eq)
  qed
qed

lemma arg1_limits_run:
  assumes "length reg \<le> fd_limits_max" "arg1_limits_program P nr w reg = A1_load p"
  shows "bpf_run p d 0 =
    Some (if sd_arch d \<noteq> audit_arch P then SECCOMP_RET_KILL_PROCESS
          else if sd_nr d = nr then arg1_decide (reg_lists w reg) d else SECCOMP_RET_ALLOW)"
proof -
  let ?bs = "reg_lists w reg"
  let ?t = "5 + blocks_length ?bs"
  from assms have t: "?t \<le> 200" and p: "p = [i_arch, i_jeq (audit_arch P) 1 0,
      i_ret SECCOMP_RET_KILL_PROCESS, i_nr, i_jeq nr 0 (of_nat (?t - 5))] @
      full_blocks ?t 5 ?bs @ [i_ret SECCOMP_RET_ALLOW]"
    by (auto simp: arg1_limits_program_eq Let_def split: if_splits)
  from t have "unat (of_nat (?t - 5) :: u8) = blocks_length ?bs"
    by (subst unat_of_nat_u8) auto
  moreover have "bpf_run (full_blocks ?t 5 ?bs @ [i_ret SECCOMP_RET_ALLOW]) d a =
      Some (arg1_decide ?bs d)" for a
    using t by (intro bpf.run_blocks) auto
  ultimately show ?thesis
    by (auto simp: p bpf.run_guard simp del: bpf_run.simps)
qed

section \<open>Properties\<close>

text \<open>
  C3. After entering, \<open>limit_fd_arg1\<close> installs a filter that on the limited system call and
  descriptor allows exactly the commands whose low 32 bits are on the list, and allows every
  other descriptor and system call; no jump offset is truncated for lists of up to 200
  commands (the callers pass at most 16).
\<close>

theorem fd_arg1_filter_exact:
  assumes "length allowed \<le> 200"
  shows "\<exists>p. fd_arg1_program P fd nr allowed = Some p \<and>
    (\<forall>d. bpf_run p d 0 = Some
      (if sd_arch d \<noteq> audit_arch P then SECCOMP_RET_KILL_PROCESS
       else if sd_nr d = nr \<and> sd_arg d 0 = fd \<and> sd_arg d 1 \<notin> ucast ` set allowed
         then ret_eperm else SECCOMP_RET_ALLOW))"
proof -
  obtain p where p: "fd_arg1_program P fd nr allowed = Some p"
    using fd_arg1_program_code [OF assms] by simp
  with fd_arg1_run [OF assms p] show ?thesis
    by (auto simp: arg1_decide_def)
qed

theorem fd_arg1_filter_exact_witness:
  "\<exists>p. fd_arg1_program x86_64_linux 5 16 [0x5401, 0x5413] = Some p \<and>
    bpf_run p \<lparr>sd_nr = 16, sd_arch = 0xC000003E, sd_ip = 0, sd_args = [5, 0x5413, 0, 0, 0, 0]\<rparr> 0 =
      Some SECCOMP_RET_ALLOW \<and>
    bpf_run p \<lparr>sd_nr = 16, sd_arch = 0xC000003E, sd_ip = 0, sd_args = [5, 0x5412, 0, 0, 0, 0]\<rparr> 0 =
      Some ret_eperm"
proof -
  have "length [0x5401, 0x5413 :: u64] \<le> 200" by simp
  from fd_arg1_filter_exact [OF this, of x86_64_linux 5 16] show ?thesis
    by (elim ex_forward) (simp add: sd_arg_def x86_64_linux_def)
qed



end
