(* ===== verification/Sandbox.thy ===== *)
theory Sandbox
  imports Arg1_Limits
begin

text \<open>
  The state of the sandbox shim (\<open>src/src.compat/capsicum.c\<close>) and its public operations: the
  \<open>caph_*_limit\<close> calls, \<open>caph_allow_path\<close> and the three ways to enter the sandbox, down to the
  system calls they make.

  The static variables are the record \<open>sandbox\<close>.  The process environment and the kernel are
  parameters (\<open>world\<close>): the kernel is an arbitrary function from the calls made so far and the
  present call to a result, so nothing is assumed about which calls fail.  The trace of calls
  with their results is part of the state; \<open>filters\<close> reads the installed seccomp programs off
  it.  An operation returns its C result and the new state, or stops the process
  (\<open>Abort\<close>: \<open>abort()\<close>, \<open>Undef\<close>: undefined behaviour).
\<close>

section \<open>State and kernel\<close>

record kret =
  kr_ret :: int
  kr_errno :: int
  kr_mode :: u32

datatype kcall =
    K_prctl_nnp
  | K_write_debug
  | K_seccomp bpf_prog
  | K_landlock_version
  | K_landlock_create u64
  | K_landlock_add_rule int u64 u32
  | K_landlock_restrict int
  | K_close int
  | K_fcntl_getfd u32
  | K_fstat u32
  | K_open_dir string
  | K_openlog
  | K_tzset

type_synonym ktrace = "(kcall \<times> kret) list"

record world =
  w_plat :: plat
  w_env :: "string \<Rightarrow> string option"
  w_kernel :: "ktrace \<Rightarrow> kcall \<Rightarrow> kret"

record sandbox =
  sb_allow_fds :: "u32 list"
  sb_lookup_fds :: "u32 list"
  sb_entered :: bool
  sb_limits :: registry
  sb_errno :: int
  sb_trace :: ktrace

datatype crash = Abort | Undef

type_synonym shim = "sandbox \<Rightarrow> crash + int \<times> sandbox"

definition sb_init :: sandbox where
  "sb_init = \<lparr>sb_allow_fds = [], sb_lookup_fds = [], sb_entered = False, sb_limits = [],
     sb_errno = 0, sb_trace = []\<rparr>"

abbreviation ENOTDIR :: int where "ENOTDIR \<equiv> 20"
abbreviation ENOSPC :: int where "ENOSPC \<equiv> 28"
abbreviation ENOSYS :: int where "ENOSYS \<equiv> 38"

definition k_call :: "world \<Rightarrow> kcall \<Rightarrow> sandbox \<Rightarrow> kret \<times> sandbox" where
  "k_call W c s =
     (let r = w_kernel W (sb_trace s) c in
      (r, s\<lparr>sb_trace := (c, r) # sb_trace s,
            sb_errno := (if kr_ret r < 0 then kr_errno r else sb_errno s)\<rparr>))"

definition fail :: "int \<Rightarrow> shim" where
  "fail e s = Inr (- 1, s\<lparr>sb_errno := e\<rparr>)"

definition ok :: shim where
  "ok s = Inr (0, s)"

text \<open>\<open>if (f() < 0) return -1;\<close> followed by \<open>g\<close>.\<close>

definition and_then :: "shim \<Rightarrow> shim \<Rightarrow> shim" where
  "and_then f g s =
     (case f s of
        Inl c \<Rightarrow> Inl c
      | Inr (r, s) \<Rightarrow> if r < 0 then Inr (- 1, s) else g s)"

definition sys :: "world \<Rightarrow> kcall \<Rightarrow> shim" where
  "sys W c s = (case k_call W c s of (r, s) \<Rightarrow> Inr (kr_ret r, s))"

definition sandbox_disabled :: "world \<Rightarrow> bool" where
  "sandbox_disabled W \<longleftrightarrow> w_env W ''ASTROUTILS_SANDBOX'' = Some ''NONE''"

section \<open>Installing filters\<close>

definition seccomp_load :: "world \<Rightarrow> bpf_prog \<Rightarrow> shim" where
  "seccomp_load W p =
     and_then (sys W K_prctl_nnp)
       (\<lambda>s. sys W (K_seccomp p)
          (if w_env W ''CU_SANDBOX_DEBUG'' \<noteq> None then snd (k_call W K_write_debug s) else s))"

definition load_built :: "world \<Rightarrow> bpf_prog option \<Rightarrow> shim" where
  "load_built W r = (case r of None \<Rightarrow> (\<lambda>s. Inl Abort) | Some p \<Rightarrow> seccomp_load W p)"

definition install_namespace_filter :: "world \<Rightarrow> mode \<Rightarrow> shim" where
  "install_namespace_filter W mode s =
     load_built W (ns_program (w_plat W) mode (sb_lookup_fds s)) s"

definition limit_fd_syscalls :: "world \<Rightarrow> u32 \<Rightarrow> deny_ent list \<Rightarrow> shim" where
  "limit_fd_syscalls W fd ents =
     (if ents = [] then ok else load_built W (fd_syscalls_program (w_plat W) fd ents))"

definition limit_fd_arg1 :: "world \<Rightarrow> u32 \<Rightarrow> u32 \<Rightarrow> u64 list \<Rightarrow> shim" where
  "limit_fd_arg1 W fd nr allowed = load_built W (fd_arg1_program (w_plat W) fd nr allowed)"

definition install_entry_chunk :: "world \<Rightarrow> deny_ent list \<Rightarrow> shim" where
  "install_entry_chunk W ents = load_built W (entry_chunk_program (w_plat W) ents)"

definition install_arg1_limits :: "world \<Rightarrow> u32 \<Rightarrow> which \<Rightarrow> shim" where
  "install_arg1_limits W nr w s =
     (case arg1_limits_program (w_plat W) nr w (sb_limits s) of
        A1_none \<Rightarrow> ok s
      | A1_crash A1_abort \<Rightarrow> Inl Abort
      | A1_crash A1_overrun \<Rightarrow> Inl Undef
      | A1_nospace \<Rightarrow> fail ENOSPC s
      | A1_load p \<Rightarrow> seccomp_load W p s)"

definition FLUSH_CHUNK :: nat where
  "FLUSH_CHUNK = 60"

text \<open>The \<open>ADD\<close> statements: entries collect in \<open>ents\<close>, and a full buffer is installed.\<close>

fun flush_entries :: "world \<Rightarrow> deny_ent list \<Rightarrow> deny_ent list \<Rightarrow> shim" where
  "flush_entries W [] ents = (if ents \<noteq> [] then install_entry_chunk W ents else ok)"
| "flush_entries W (e # es) ents =
     (let ents = ents @ [e] in
      if length ents = FLUSH_CHUNK
      then and_then (install_entry_chunk W ents) (flush_entries W es [])
      else flush_entries W es ents)"

definition flush_registered_limits :: "world \<Rightarrow> shim" where
  "flush_registered_limits W s =
     and_then (flush_entries W (concat (map (limit_entries (w_plat W)) (sb_limits s))) [])
       (and_then
         (case sysno (w_plat W) ''ioctl'' of
            None \<Rightarrow> ok | Some nr \<Rightarrow> install_arg1_limits W nr Ioctls)
         (and_then
           (case sysno (w_plat W) ''fcntl'' of
              Some nr \<Rightarrow> install_arg1_limits W nr Fcntls
            | None \<Rightarrow>
                (case sysno (w_plat W) ''fcntl64'' of
                   Some nr \<Rightarrow> install_arg1_limits W nr Fcntls
                 | None \<Rightarrow> ok))
           ok)) s"

section \<open>Landlock\<close>

abbreviation LANDLOCK_FS_EXECUTE :: u64 where "LANDLOCK_FS_EXECUTE \<equiv> 0x1"
abbreviation LANDLOCK_FS_WRITE_FILE :: u64 where "LANDLOCK_FS_WRITE_FILE \<equiv> 0x2"
abbreviation LANDLOCK_FS_READ_FILE :: u64 where "LANDLOCK_FS_READ_FILE \<equiv> 0x4"
abbreviation LANDLOCK_FS_READ_DIR :: u64 where "LANDLOCK_FS_READ_DIR \<equiv> 0x8"
abbreviation LANDLOCK_FS_REMOVE_DIR :: u64 where "LANDLOCK_FS_REMOVE_DIR \<equiv> 0x10"
abbreviation LANDLOCK_FS_REMOVE_FILE :: u64 where "LANDLOCK_FS_REMOVE_FILE \<equiv> 0x20"
abbreviation LANDLOCK_FS_MAKE_CHAR :: u64 where "LANDLOCK_FS_MAKE_CHAR \<equiv> 0x40"
abbreviation LANDLOCK_FS_MAKE_DIR :: u64 where "LANDLOCK_FS_MAKE_DIR \<equiv> 0x80"
abbreviation LANDLOCK_FS_MAKE_REG :: u64 where "LANDLOCK_FS_MAKE_REG \<equiv> 0x100"
abbreviation LANDLOCK_FS_MAKE_SOCK :: u64 where "LANDLOCK_FS_MAKE_SOCK \<equiv> 0x200"
abbreviation LANDLOCK_FS_MAKE_FIFO :: u64 where "LANDLOCK_FS_MAKE_FIFO \<equiv> 0x400"
abbreviation LANDLOCK_FS_MAKE_BLOCK :: u64 where "LANDLOCK_FS_MAKE_BLOCK \<equiv> 0x800"
abbreviation LANDLOCK_FS_MAKE_SYM :: u64 where "LANDLOCK_FS_MAKE_SYM \<equiv> 0x1000"
abbreviation LANDLOCK_FS_REFER :: u64 where "LANDLOCK_FS_REFER \<equiv> 0x2000"
abbreviation LANDLOCK_FS_TRUNCATE :: u64 where "LANDLOCK_FS_TRUNCATE \<equiv> 0x4000"

definition landlock_mutate :: "plat \<Rightarrow> int \<Rightarrow> u64" where
  "landlock_mutate P abi =
     LANDLOCK_FS_WRITE_FILE OR LANDLOCK_FS_REMOVE_DIR OR LANDLOCK_FS_REMOVE_FILE OR
     LANDLOCK_FS_MAKE_CHAR OR LANDLOCK_FS_MAKE_DIR OR LANDLOCK_FS_MAKE_REG OR
     LANDLOCK_FS_MAKE_SOCK OR LANDLOCK_FS_MAKE_FIFO OR LANDLOCK_FS_MAKE_BLOCK OR
     LANDLOCK_FS_MAKE_SYM OR
     (if has_fs_refer P \<and> abi \<ge> 2 then LANDLOCK_FS_REFER else 0) OR
     (if has_fs_truncate P \<and> abi \<ge> 3 then LANDLOCK_FS_TRUNCATE else 0)"

definition landlock_handled :: "plat \<Rightarrow> mode \<Rightarrow> int \<Rightarrow> u64" where
  "landlock_handled P mode abi =
     (if mode = MODE_CASPER then landlock_mutate P abi
      else landlock_mutate P abi OR LANDLOCK_FS_EXECUTE OR LANDLOCK_FS_READ_FILE OR
        LANDLOCK_FS_READ_DIR)"

text \<open>The error path: close the ruleset, keep the first error.\<close>

definition landlock_bail :: "world \<Rightarrow> int \<Rightarrow> shim" where
  "landlock_bail W ruleset s =
     (let e = sb_errno s in fail e (snd (k_call W (K_close ruleset) s)))"

fun landlock_rules :: "world \<Rightarrow> int \<Rightarrow> u64 \<Rightarrow> u32 list \<Rightarrow> shim \<Rightarrow> shim" where
  "landlock_rules W ruleset handled [] k s = k s"
| "landlock_rules W ruleset handled (fd # fds) k s =
     (case k_call W (K_landlock_add_rule ruleset handled fd) s of (r, s) \<Rightarrow>
        if kr_ret r < 0 then landlock_bail W ruleset s
        else landlock_rules W ruleset handled fds k s)"

definition landlock_restrict :: "world \<Rightarrow> int \<Rightarrow> shim" where
  "landlock_restrict W ruleset s =
     (case k_call W (K_landlock_restrict ruleset) s of (r, s) \<Rightarrow>
        if kr_ret r < 0 then landlock_bail W ruleset s
        else Inr (0, snd (k_call W (K_close ruleset) s)))"

definition landlock_apply :: "world \<Rightarrow> mode \<Rightarrow> int \<Rightarrow> u64 \<Rightarrow> shim" where
  "landlock_apply W mode ruleset handled s =
     landlock_rules W ruleset handled (if mode = MODE_FULL then sb_lookup_fds s else [])
       (landlock_rules W ruleset handled (if mode = MODE_PATHS then sb_allow_fds s else [])
         (landlock_restrict W ruleset)) s"

definition landlock_lockdown :: "world \<Rightarrow> mode \<Rightarrow> shim" where
  "landlock_lockdown W mode s =
     (if sysno (w_plat W) ''landlock_create_ruleset'' \<noteq> None \<and>
         sysno (w_plat W) ''landlock_restrict_self'' \<noteq> None
      then (case k_call W K_landlock_version s of (v, s) \<Rightarrow>
        let abi = kr_ret v in
        if abi < 1 then fail ENOSYS s
        else
          let handled = landlock_handled (w_plat W) mode abi in
          (case k_call W (K_landlock_create handled) s of (c, s) \<Rightarrow>
            let ruleset = kr_ret c in
            if ruleset < 0 then Inr (- 1, s)
            else landlock_apply W mode ruleset handled s))
      else fail ENOSYS s)"

section \<open>The limit calls\<close>

text \<open>
  Before entering, a limit call changes the registered limit of its descriptor:
  \<open>L = lim_find(fd)\<close>, \<open>ENOSPC\<close> when there is no room, else the update of \<open>*L\<close>.
\<close>

definition update_limit :: "u32 \<Rightarrow> (fd_limit \<Rightarrow> fd_limit) \<Rightarrow> shim" where
  "update_limit fd g s =
     (case lim_find fd (sb_limits s) of
        None \<Rightarrow> fail ENOSPC s
      | Some (i, reg) \<Rightarrow> ok (s\<lparr>sb_limits := reg[i := g (reg ! i)]\<rparr>))"

definition caph_ioctls_limit :: "world \<Rightarrow> u32 \<Rightarrow> u64 list \<Rightarrow> shim" where
  "caph_ioctls_limit W fd cmds =
     (if sandbox_disabled W then ok
      else let allowed = take 16 cmds in
        (\<lambda>s. if \<not> sb_entered s
             then update_limit fd
               (\<lambda>l. l\<lparr>lim_ioctls := lim_merge (lim_ioctls l) allowed\<rparr>) s
             else (case sysno (w_plat W) ''ioctl'' of
                     Some nr \<Rightarrow> limit_fd_arg1 W fd nr allowed
                   | None \<Rightarrow> ok) s))"

definition fcntl_allowed :: "plat \<Rightarrow> u32 \<Rightarrow> u64 list" where
  "fcntl_allowed P fcntlrights =
     [F_GETFD P, F_SETFD P] @
     (if fcntlrights AND CAP_FCNTL_GETFL P \<noteq> 0 then [F_GETFL P] else []) @
     (if fcntlrights AND CAP_FCNTL_SETFL P \<noteq> 0 then [F_SETFL P] else [])"

definition caph_fcntls_limit :: "world \<Rightarrow> u32 \<Rightarrow> u32 \<Rightarrow> shim" where
  "caph_fcntls_limit W fd fcntlrights =
     (if sandbox_disabled W then ok
      else let P = w_plat W; allowed = fcntl_allowed P fcntlrights in
        (\<lambda>s. if \<not> sb_entered s
             then update_limit fd
               (\<lambda>l. l\<lparr>lim_fcntls := lim_merge (lim_fcntls l) allowed\<rparr>) s
             else (case sysno P ''fcntl'' of
                     Some nr \<Rightarrow> limit_fd_arg1 W fd nr allowed
                   | None \<Rightarrow>
                       (case sysno P ''fcntl64'' of
                          Some nr \<Rightarrow> limit_fd_arg1 W fd nr allowed
                        | None \<Rightarrow> ok)) s))"

definition safe_ioctls :: "plat \<Rightarrow> u64 list" where
  "safe_ioctls P =
     List.map_filter id [FIONREAD P, FIOCLEX P, FIONCLEX P, TCGETS P, TIOCGWINSZ P]"

text \<open>The registration of a lookup directory in \<open>caph_rights_limit\<close>.\<close>

definition register_lookup :: "world \<Rightarrow> u32 \<Rightarrow> shim" where
  "register_lookup W fd s =
     (if sb_entered s then fail ENOSYS s
      else (case k_call W (K_fstat fd) s of (st, s) \<Rightarrow>
        if kr_ret st < 0 then Inr (- 1, s)
        else if kr_mode st AND 0xF000 \<noteq> 0x4000 then fail ENOTDIR s
        else if length (sb_lookup_fds s) < 8
          then ok (s\<lparr>sb_lookup_fds := sb_lookup_fds s @ [fd]\<rparr>)
        else ok s))"

text \<open>The part of \<open>caph_rights_limit\<close> before entering: what the limits of one entry become.\<close>

definition deny_bits :: "u64 \<Rightarrow> u64" where
  "deny_bits m =
     (if m AND CAP_READ = 0 then LDENY_RD else 0) OR
     (if m AND (CAP_WRITE OR CAP_PWRITE) = 0 then LDENY_WR else 0) OR
     (if m AND CAP_SEEK = 0 then LDENY_SEEK else 0) OR
     (if m AND CAP_FTRUNCATE = 0 then LDENY_TRUNC else 0) OR
     (if m AND CAP_FSYNC = 0 then LDENY_FSYNC else 0) OR
     (if m AND CAP_SHUTDOWN = 0 then LDENY_SHUT else 0) OR
     (if m AND CAP_MMAP = 0 then LDENY_MMAP else 0)"

definition restrict_limit :: "plat \<Rightarrow> u64 \<Rightarrow> fd_limit \<Rightarrow> fd_limit" where
  "restrict_limit P m l = l\<lparr>
     lim_deny := lim_deny l OR deny_bits m,
     lim_ioctls := (if m AND CAP_IOCTL = 0 then lim_merge (lim_ioctls l) (safe_ioctls P)
                    else lim_ioctls l),
     lim_fcntls := (if m AND CAP_FCNTL = 0
                    then lim_merge (lim_fcntls l) [F_GETFD P, F_SETFD P, F_GETFL P, F_SETFL P]
                    else lim_fcntls l)\<rparr>"

definition register_rights :: "world \<Rightarrow> u32 \<Rightarrow> u64 \<Rightarrow> shim" where
  "register_rights W fd m = update_limit fd (restrict_limit (w_plat W) m)"

text \<open>The part after entering.\<close>

definition install_rights :: "world \<Rightarrow> u32 \<Rightarrow> u64 \<Rightarrow> shim" where
  "install_rights W fd m =
     (let P = w_plat W in
      and_then (limit_fd_syscalls W fd (rights_entries P m))
        (and_then (if m AND CAP_IOCTL = 0 then caph_ioctls_limit W fd (safe_ioctls P) else ok)
          (and_then
            (if m AND CAP_FCNTL = 0
             then caph_fcntls_limit W fd (CAP_FCNTL_GETFL P OR CAP_FCNTL_SETFL P) else ok)
            ok)))"

definition caph_rights_limit :: "world \<Rightarrow> u32 \<Rightarrow> cap_rights \<Rightarrow> shim" where
  "caph_rights_limit W fd rights =
     (if sandbox_disabled W then ok
      else and_then (sys W (K_fcntl_getfd fd))
        (and_then (if mask rights AND CAP_LOOKUP \<noteq> 0 then register_lookup W fd else ok)
          (\<lambda>s. if \<not> sb_entered s then register_rights W fd (mask rights) s
               else install_rights W fd (mask rights) s)))"

definition stream_rights :: "u32 \<Rightarrow> cap_rights" where
  "stream_rights flags =
     \<lparr>mask = CAP_FSTAT OR (if flags AND CAPH_READ \<noteq> 0 then CAP_READ else 0) OR
        (if flags AND CAPH_WRITE \<noteq> 0 then CAP_WRITE OR CAP_PWRITE else 0)\<rparr>"

definition caph_limit_stream :: "world \<Rightarrow> u32 \<Rightarrow> u32 \<Rightarrow> shim" where
  "caph_limit_stream W fd flags s =
     (if sandbox_disabled W then ok s
      else (case k_call W (K_fcntl_getfd fd) s of (r, s) \<Rightarrow>
        if kr_ret r < 0 then (if flags AND CAPH_IGNORE_EBADF \<noteq> 0 then ok s else Inr (- 1, s))
        else caph_rights_limit W fd (stream_rights flags) s))"

definition caph_limit_stdin :: "world \<Rightarrow> shim" where
  "caph_limit_stdin W = caph_limit_stream W 0 CAPH_READ"

definition caph_limit_stdout :: "world \<Rightarrow> shim" where
  "caph_limit_stdout W = caph_limit_stream W 1 CAPH_WRITE"

definition caph_limit_stderr :: "world \<Rightarrow> shim" where
  "caph_limit_stderr W = caph_limit_stream W 2 CAPH_WRITE"

definition caph_limit_stdio :: "world \<Rightarrow> shim" where
  "caph_limit_stdio W =
     and_then (caph_limit_stdin W)
       (and_then (caph_limit_stdout W) (and_then (caph_limit_stderr W) ok))"

section \<open>Entering\<close>

definition enter_mode :: "world \<Rightarrow> mode \<Rightarrow> shim" where
  "enter_mode W mode s =
     (if sandbox_disabled W then ok s
      else if sb_entered s then ok s
      else and_then (sys W K_prctl_nnp)
        (and_then (landlock_lockdown W mode)
          (and_then (install_namespace_filter W mode)
            (and_then (flush_registered_limits W)
              (\<lambda>s. ok (s\<lparr>sb_entered := True\<rparr>))))) s)"

definition caph_enter :: "world \<Rightarrow> shim" where
  "caph_enter W = enter_mode W MODE_FULL"

definition caph_enter_casper :: "world \<Rightarrow> shim" where
  "caph_enter_casper W s =
     enter_mode W MODE_CASPER
       (if sandbox_disabled W then s else snd (k_call W K_openlog s))"

definition caph_allow_path :: "world \<Rightarrow> string \<Rightarrow> shim" where
  "caph_allow_path W path s =
     (if sandbox_disabled W then ok s
      else if sb_entered s then fail ENOSYS s
      else (case k_call W (K_open_dir path) s of (r, s) \<Rightarrow>
        let fd = kr_ret r in
        if fd < 0 then Inr (- 1, s)
        else if length (sb_allow_fds s) = 8 then fail ENOSPC (snd (k_call W (K_close fd) s))
        else ok (s\<lparr>sb_allow_fds := sb_allow_fds s @ [of_int fd]\<rparr>)))"

definition caph_enter_paths :: "world \<Rightarrow> shim" where
  "caph_enter_paths W = enter_mode W MODE_PATHS"

definition caph_cache_tzdata :: "world \<Rightarrow> shim" where
  "caph_cache_tzdata W s =
     (if sandbox_disabled W then ok s else ok (snd (k_call W K_tzset s)))"

end
