(* ===== verification/Sandbox_Safety.thy ===== *)
theory Sandbox_Safety
  imports Sandbox
begin

text \<open>
  What holds of the sandbox in every reachable state, whatever the kernel answers: the
  operations below the public calls touch only the trace of kernel calls (\<open>frame\<close>), every
  public call keeps the invariant \<open>sb_inv\<close> and only adds filters (\<open>keeps\<close>), and the step
  relation \<open>shim_step\<close> with one rule per public call carries both to all reachable states.
\<close>

named_theorems frame_intros \<open>operations that only make kernel calls\<close>
named_theorems keeps_intros \<open>operations that keep the invariant\<close>

section \<open>Filters on the trace\<close>

fun trace_filters :: "ktrace \<Rightarrow> bpf_prog list" where
  "trace_filters [] = []"
| "trace_filters ((K_seccomp p, r) # t) =
     (if kr_ret r < 0 then trace_filters t else p # trace_filters t)"
| "trace_filters (_ # t) = trace_filters t"

definition filters :: "sandbox \<Rightarrow> bpf_prog list" where
  "filters s = trace_filters (sb_trace s)"

lemma trace_filters_append: "trace_filters (t @ u) = trace_filters t @ trace_filters u"
  by (induction t rule: trace_filters.induct) auto

section \<open>Operations that only make kernel calls\<close>

definition frm :: "sandbox \<Rightarrow> sandbox \<Rightarrow> bool" where
  "frm s s' \<longleftrightarrow> (\<exists>t e. s' = s\<lparr>sb_trace := t @ sb_trace s, sb_errno := e\<rparr>)"

definition frame :: "shim \<Rightarrow> bool" where
  "frame f \<longleftrightarrow> (\<forall>s r s'. f s = Inr (r, s') \<longrightarrow> frm s s')"

lemma frameD: "frame f \<Longrightarrow> f s = Inr (r, s') \<Longrightarrow> frm s s'"
  by (auto simp: frame_def)

lemma frm_refl [simp]: "frm s s"
  unfolding frm_def by (rule exI [of _ "[]"], rule exI [of _ "sb_errno s"]) simp

lemma frm_trans [trans]: "frm s t \<Longrightarrow> frm t u \<Longrightarrow> frm s u"
  unfolding frm_def by clarsimp (metis append_assoc)

lemma frm_errno: "frm s (s\<lparr>sb_errno := e\<rparr>)"
  unfolding frm_def by (rule exI [of _ "[]"]) auto

lemma frm_k_call: "frm s (snd (k_call W c s))"
  unfolding frm_def k_call_def Let_def
  by (intro exI [of _ "[(c, w_kernel W (sb_trace s) c)]"] exI [of _ "if _ then _ else _"])
    (simp only: append.simps snd_conv)

lemma frm_k_callE: "k_call W c s = (r, s') \<Longrightarrow> frm s s'"
  using frm_k_call [of s W c] by simp

lemma frm_sel:
  assumes "frm s s'"
  shows "sb_limits s' = sb_limits s" "sb_entered s' = sb_entered s"
    "sb_lookup_fds s' = sb_lookup_fds s" "sb_allow_fds s' = sb_allow_fds s"
    "\<exists>fs. filters s' = fs @ filters s"
  using assms by (auto simp: frm_def filters_def trace_filters_append)

lemma frame_basic [frame_intros, simp]:
  "frame ok" "frame (fail e)" "frame (\<lambda>s. Inl c)" "frame (sys W kc)"
  by (auto simp: frame_def ok_def fail_def sys_def frm_errno split: prod.splits dest: frm_k_callE)

lemma frame_and_then [frame_intros]:
  "frame f \<Longrightarrow> frame g \<Longrightarrow> frame (and_then f g)"
  unfolding frame_def and_then_def
  by (auto split: sum.splits if_splits) (metis frm_trans)+

lemma frame_if [frame_intros]: "frame f \<Longrightarrow> frame g \<Longrightarrow> frame (if b then f else g)"
  by simp

lemma frame_seccomp_load [frame_intros]: "frame (seccomp_load W p)"
  unfolding seccomp_load_def
  by (rule frame_and_then, simp)
    (auto simp: frame_def sys_def split: prod.splits dest!: frm_k_callE intro: frm_trans frm_k_call)

lemma frame_load_built [frame_intros]: "frame (load_built W r)"
  by (cases r) (auto simp: load_built_def intro: frame_seccomp_load)

lemma frame_install [frame_intros]:
  "frame (install_namespace_filter W mode)"
  "frame (limit_fd_syscalls W fd ents)"
  "frame (limit_fd_arg1 W fd nr allowed)"
  "frame (install_entry_chunk W ents)"
proof -
  show "frame (install_namespace_filter W mode)"
    unfolding frame_def install_namespace_filter_def by (blast dest: frameD [OF frame_load_built])
qed (auto simp: limit_fd_syscalls_def limit_fd_arg1_def install_entry_chunk_def
    intro: frame_load_built)

lemma frame_install_arg1_limits [frame_intros]: "frame (install_arg1_limits W nr w)"
  unfolding frame_def install_arg1_limits_def
  by (auto split: arg1_result.splits arg1_fail.splits
      dest: frameD [OF frame_seccomp_load] simp: ok_def fail_def frm_errno)

lemma frame_flush_entries [frame_intros]: "frame (flush_entries W es ents)"
  by (induction es arbitrary: ents) (simp_all add: Let_def frame_intros)

lemma frame_flush [frame_intros]: "frame (flush_registered_limits W)"
  unfolding frame_def
proof (intro allI impI)
  fix s r s'
  assume "flush_registered_limits W s = Inr (r, s')"
  moreover have "frame (and_then (flush_entries W X []) (and_then
      (case a of None \<Rightarrow> ok | Some nr \<Rightarrow> install_arg1_limits W nr Ioctls)
      (and_then (case b of Some nr \<Rightarrow> install_arg1_limits W nr Fcntls
        | None \<Rightarrow> (case c of Some nr \<Rightarrow> install_arg1_limits W nr Fcntls | None \<Rightarrow> ok)) ok)))" for X a b c
    by (auto intro!: frame_intros split: option.splits)
  ultimately show "frm s s'"
    unfolding flush_registered_limits_def by (rule frameD [rotated])
qed

lemma frame_landlock_bail: "landlock_bail W ruleset s = Inr (r, s') \<Longrightarrow> frm s s'"
  by (auto simp: landlock_bail_def fail_def Let_def intro: frm_trans [OF frm_k_call frm_errno])

lemma frame_landlock_rules: "frame k \<Longrightarrow> frame (landlock_rules W ruleset handled fds k)"
proof (induction fds)
  case Nil
  then show ?case by (simp add: frame_def)
next
  case (Cons fd fds)
  then show ?case
    unfolding frame_def
    by (auto split: prod.splits if_splits dest!: frm_k_callE frame_landlock_bail
        intro: frm_trans)
qed

lemma frame_landlock_restrict: "frame (landlock_restrict W ruleset)"
  unfolding frame_def landlock_restrict_def
  by (auto split: prod.splits if_splits dest!: frm_k_callE frame_landlock_bail
      intro: frm_trans frm_trans [OF _ frm_k_call])

lemma frame_landlock_apply: "frame (landlock_apply W mode ruleset handled)"
  unfolding frame_def landlock_apply_def
  by (blast dest: frameD [OF frame_landlock_rules [OF frame_landlock_rules
        [OF frame_landlock_restrict]]])

lemma frame_landlock [frame_intros]: "frame (landlock_lockdown W mode)"
  unfolding frame_def landlock_lockdown_def
  by (auto simp: Let_def fail_def split: prod.splits if_splits dest!: frm_k_callE
      dest!: frameD [OF frame_landlock_apply] intro: frm_trans frm_errno)

section \<open>The invariant\<close>

text \<open>
  The registry and the tables of descriptors stay within their arrays, and once the sandbox is
  entered the namespace filter of some mode is installed.
\<close>

definition ns_installed :: "world \<Rightarrow> sandbox \<Rightarrow> bool" where
  "ns_installed W s \<longleftrightarrow>
     (\<exists>mode fds p. length fds \<le> 8 \<and> ns_program (w_plat W) mode fds = Some p \<and> p \<in> set (filters s))"

definition sb_inv :: "world \<Rightarrow> sandbox \<Rightarrow> bool" where
  "sb_inv W s \<longleftrightarrow>
     reg_ok (sb_limits s) \<and> length (sb_lookup_fds s) \<le> 8 \<and> length (sb_allow_fds s) \<le> 8 \<and>
     (sb_entered s \<longrightarrow> ns_installed W s)"

definition grows :: "sandbox \<Rightarrow> sandbox \<Rightarrow> bool" where
  "grows s s' \<longleftrightarrow> (\<exists>fs. filters s' = fs @ filters s) \<and> (sb_entered s \<longrightarrow> sb_entered s')"

definition keeps :: "world \<Rightarrow> shim \<Rightarrow> bool" where
  "keeps W f \<longleftrightarrow>
     (\<forall>s r s'. sb_inv W s \<longrightarrow> f s = Inr (r, s') \<longrightarrow> sb_inv W s' \<and> grows s s')"

lemma keepsD:
  assumes "keeps W f" "sb_inv W s" "f s = Inr (r, s')"
  shows "sb_inv W s'" "grows s s'"
  using assms unfolding keeps_def by blast+

lemma keepsI:
  "(\<And>s r s'. sb_inv W s \<Longrightarrow> f s = Inr (r, s') \<Longrightarrow> sb_inv W s' \<and> grows s s') \<Longrightarrow> keeps W f"
  unfolding keeps_def by blast

lemma filters_update [simp]:
  "filters (s\<lparr>sb_limits := reg\<rparr>) = filters s"
  "filters (s\<lparr>sb_lookup_fds := fds\<rparr>) = filters s"
  "filters (s\<lparr>sb_allow_fds := fds\<rparr>) = filters s"
  "filters (s\<lparr>sb_entered := b\<rparr>) = filters s"
  by (simp_all add: filters_def)

lemma ns_installed_cong: "filters s' = filters s \<Longrightarrow> ns_installed W s' = ns_installed W s"
  by (simp add: ns_installed_def)

lemma grows_refl [simp]: "grows s s"
  by (simp add: grows_def)

lemma grows_trans: "grows s t \<Longrightarrow> grows t u \<Longrightarrow> grows s u"
  by (auto simp: grows_def)

lemma frm_grows: "frm s s' \<Longrightarrow> grows s s'"
  by (auto simp: grows_def dest: frm_sel)

lemma ns_installed_grows: "ns_installed W s \<Longrightarrow> grows s s' \<Longrightarrow> ns_installed W s'"
  unfolding ns_installed_def grows_def by fastforce

lemma frm_inv: "sb_inv W s \<Longrightarrow> frm s s' \<Longrightarrow> sb_inv W s'"
  using ns_installed_grows [OF _ frm_grows] by (auto simp: sb_inv_def frm_sel(1-4))

lemma frame_keeps: "frame f \<Longrightarrow> keeps W f"
  unfolding keeps_def by (blast dest: frameD frm_inv frm_grows)

lemmas keeps_frames [keeps_intros] =
  frame_basic [THEN frame_keeps] frame_install [THEN frame_keeps]
  frame_seccomp_load [THEN frame_keeps] frame_landlock [THEN frame_keeps]
  frame_flush [THEN frame_keeps]

lemma keeps_and_then [keeps_intros]:
  assumes "keeps W f" "keeps W g"
  shows "keeps W (and_then f g)"
  unfolding keeps_def
proof (intro allI impI)
  fix s r s'
  assume inv: "sb_inv W s" and run: "and_then f g s = Inr (r, s')"
  then obtain r1 t where t: "f s = Inr (r1, t)" "s' = t \<or> g t = Inr (r, s')"
    by (auto simp: and_then_def split: sum.splits if_splits)
  note 1 = keepsD [OF assms(1) inv t(1)]
  from t(2) show "sb_inv W s' \<and> grows s s'"
  proof
    assume "s' = t"
    with 1 show ?thesis by simp
  next
    assume "g t = Inr (r, s')"
    from keepsD [OF assms(2) 1(1) this] show ?thesis
      by (auto intro: grows_trans [OF 1(2)])
  qed
qed

lemma keeps_if [keeps_intros]: "keeps W f \<Longrightarrow> keeps W g \<Longrightarrow> keeps W (if b then f else g)"
  by simp

lemma keeps_cond [keeps_intros]:
  "keeps W f \<Longrightarrow> keeps W g \<Longrightarrow> keeps W (\<lambda>s. if b s then f s else g s)"
  by (rule keepsI) (auto dest: keepsD split: if_splits)

lemma keeps_return [keeps_intros]: "keeps W (\<lambda>s. Inr (r, s))"
  by (rule keepsI) simp

lemma keeps_k_call:
  assumes "\<And>r. keeps W (f r)"
  shows "keeps W (\<lambda>s. case k_call W c s of (r, s) \<Rightarrow> f r s)"
  unfolding keeps_def
proof (intro allI impI)
  fix s r s'
  assume inv: "sb_inv W s" and run: "(case k_call W c s of (r, s) \<Rightarrow> f r s) = Inr (r, s')"
  obtain kr t where t: "k_call W c s = (kr, t)" by force
  then have "frm s t" by (rule frm_k_callE)
  with inv have "sb_inv W t" "grows s t" by (auto intro: frm_inv frm_grows)
  with run t keepsD [OF assms] show "sb_inv W s' \<and> grows s s'"
    by (auto intro: grows_trans)
qed

lemma keeps_snd_k_call:
  assumes "keeps W f"
  shows "keeps W (\<lambda>s. f (snd (k_call W c s)))"
  using keeps_k_call [of W "\<lambda>r. f" c] assms by (simp add: case_prod_unfold)

lemma keeps_update_limit:
  assumes "\<And>l. lim_ok l \<Longrightarrow> lim_ok (g l)" "\<And>l. lim_fd (g l) = lim_fd l"
  shows "keeps W (update_limit fd g)"
  unfolding keeps_def
proof (intro allI impI)
  fix s r s'
  assume inv: "sb_inv W s" and run: "update_limit fd g s = Inr (r, s')"
  show "sb_inv W s' \<and> grows s s'"
  proof (cases "lim_find fd (sb_limits s)")
    case None
    with run inv frm_errno show ?thesis
      by (auto simp: update_limit_def fail_def intro: frm_inv frm_grows)
  next
    case (Some x)
    obtain i reg where x: "x = (i, reg)" by force
    from inv Some have reg: "reg_ok reg" "i < length reg"
      using lim_find_ok lim_find_Some by (auto simp: sb_inv_def x)
    then have "reg_ok (reg[i := g (reg ! i)])"
      using assms by (intro reg_ok_update) (auto simp: reg_ok_def list_all_length)
    with run inv Some x show ?thesis
      by (auto simp: update_limit_def ok_def sb_inv_def grows_def cong: ns_installed_cong)
  qed
qed

lemma lim_merge_bound:
  "pred_option (\<lambda>xs. length xs \<le> n) dst \<Longrightarrow> min 16 (length src) \<le> n \<Longrightarrow>
   pred_option (\<lambda>xs. length xs \<le> n) (lim_merge dst src)"
  by (auto simp: lim_merge_def intro: order_trans [OF length_filter_le] split: option.splits)

lemma lim_ok_alt:
  "lim_ok l \<longleftrightarrow> pred_option (\<lambda>xs. length xs \<le> 16) (lim_ioctls l) \<and>
     pred_option (\<lambda>xs. length xs \<le> 6) (lim_fcntls l)"
  by (auto simp: lim_ok_def split: option.splits)

lemma length_fcntl_allowed: "length (fcntl_allowed P m) \<le> 4"
  by (simp add: fcntl_allowed_def)

lemma keeps_limits [keeps_intros]:
  "keeps W (caph_ioctls_limit W fd cmds)"
  "keeps W (caph_fcntls_limit W fd fr)"
  "keeps W (register_rights W fd m)"
proof -
  show "keeps W (caph_ioctls_limit W fd cmds)"
    unfolding caph_ioctls_limit_def Let_def
    by (auto intro!: keeps_intros keeps_update_limit
        simp: lim_ok_alt lim_merge_bound split: option.split)
  show "keeps W (caph_fcntls_limit W fd fr)"
    using length_fcntl_allowed [of "w_plat W" fr]
    unfolding caph_fcntls_limit_def Let_def
    by (auto intro!: keeps_intros keeps_update_limit
        simp: lim_ok_alt lim_merge_bound split: option.split)
  show "keeps W (register_rights W fd m)"
    unfolding register_rights_def
    by (rule keeps_update_limit) (auto simp: lim_ok_alt lim_merge_bound restrict_limit_def)
qed

lemma keeps_register_lookup [keeps_intros]: "keeps W (register_lookup W fd)"
proof -
  have add: "keeps W (\<lambda>s. if length (sb_lookup_fds s) < 8
      then ok (s\<lparr>sb_lookup_fds := sb_lookup_fds s @ [fd]\<rparr>) else ok s)"
    by (rule keepsI) (auto simp: ok_def sb_inv_def grows_def cong: ns_installed_cong split: if_splits)
  show ?thesis
    unfolding register_lookup_def by (intro keeps_intros keeps_k_call add)
qed

lemma keeps_rights [keeps_intros]:
  "keeps W (install_rights W fd m)"
  "keeps W (caph_rights_limit W fd rights)"
proof -
  show *: "keeps W (install_rights W fd m)" for m
    unfolding install_rights_def Let_def by (intro keeps_intros)
  show "keeps W (caph_rights_limit W fd rights)"
    unfolding caph_rights_limit_def by (intro keeps_intros *)
qed

lemma keeps_stream [keeps_intros]: "keeps W (caph_limit_stream W fd flags)"
proof -
  have "keeps W (\<lambda>s. if kr_ret r < 0 then (if flags AND CAPH_IGNORE_EBADF \<noteq> 0 then ok s else Inr (- 1, s))
      else caph_rights_limit W fd (stream_rights flags) s)" for r
    by (intro keeps_intros)
  then show ?thesis
    unfolding caph_limit_stream_def by (intro keeps_intros keeps_k_call)
qed

section \<open>Entering\<close>

lemma and_then_Inr:
  "and_then f g s = Inr (r, s') \<longleftrightarrow>
     (\<exists>q t. f s = Inr (q, t) \<and> (if q < 0 then r = - 1 \<and> s' = t else g t = Inr (r, s')))"
  by (auto simp: and_then_def split: sum.splits if_splits)

lemma seccomp_load_success:
  assumes "seccomp_load W p s = Inr (r, s')" "\<not> r < 0"
  shows "p \<in> set (filters s')"
  using assms
  by (auto simp: seccomp_load_def and_then_Inr sys_def k_call_def Let_def filters_def
      split: if_splits prod.splits)

lemma install_namespace_success:
  assumes "install_namespace_filter W mode s = Inr (r, s')" "\<not> r < 0"
  shows "\<exists>p. ns_program (w_plat W) mode (sb_lookup_fds s) = Some p \<and> p \<in> set (filters s')"
  using assms
  by (auto simp: install_namespace_filter_def load_built_def split: option.splits
      dest: seccomp_load_success)

lemma and_then_assoc: "and_then (and_then f g) h = and_then f (and_then g h)"
  by (auto simp: and_then_def fun_eq_iff split: sum.splits)

lemma and_then_frame [consumes 1, case_names fail pass]:
  assumes "and_then f g s = Inr (r, s')"
  obtains "frame f \<longrightarrow> frm s s'" "r = - 1"
  | q t where "f s = Inr (q, t)" "\<not> q < 0" "frame f \<longrightarrow> frm s t" "g t = Inr (r, s')"
  using assms by (auto simp: and_then_Inr split: if_splits dest: frameD)

text \<open>
  Entering for the first time either fails, and then the sandbox is not marked as entered, or
  succeeds with the namespace filter of the mode among the installed filters.
\<close>

lemma enter_mode_result:
  assumes "enter_mode W mode s = Inr (r, s')" "\<not> sandbox_disabled W" "\<not> sb_entered s"
  shows "(r = - 1 \<and> frm s s') \<or>
    (r = 0 \<and> (\<exists>t. frm s t \<and> s' = t\<lparr>sb_entered := True\<rparr>) \<and>
      (\<exists>p. ns_program (w_plat W) mode (sb_lookup_fds s) = Some p \<and> p \<in> set (filters s')))"
proof -
  let ?g = "and_then (flush_registered_limits W) (\<lambda>s. ok (s\<lparr>sb_entered := True\<rparr>))"
  from assms have run: "and_then (and_then (sys W K_prctl_nnp) (landlock_lockdown W mode))
      (and_then (install_namespace_filter W mode) ?g) s = Inr (r, s')"
    by (simp add: enter_mode_def and_then_assoc)
  show ?thesis
    using run
  proof (cases rule: and_then_frame)
    case fail
    then show ?thesis by (simp add: frame_intros)
  next
    case (pass q t)
    then have t: "frm s t" by (simp add: frame_intros)
    from pass(4) show ?thesis
    proof (cases rule: and_then_frame)
      case fail
      with t show ?thesis by (auto intro: frame_intros frm_trans)
    next
      case ns: (pass q2 u)
      with t have u: "frm s u" by (auto intro: frame_intros frm_trans)
      obtain p where p: "ns_program (w_plat W) mode (sb_lookup_fds s) = Some p" "p \<in> set (filters u)"
        using install_namespace_success [OF ns(1,2)] t by (auto simp: frm_sel)
      from ns(4) show ?thesis
      proof (cases rule: and_then_frame)
        case fail
        with u show ?thesis by (auto intro: frame_intros frm_trans)
      next
        case (pass q3 v)
        then have v: "frm u v" by (simp add: frame_intros)
        from frm_sel(5) [OF v] p(2) have "p \<in> set (filters v)" by auto
        with pass(4) p(1) frm_trans [OF u v] show ?thesis by (auto simp: ok_def)
      qed
    qed
  qed
qed

lemma enter_mode_id: "sandbox_disabled W \<or> sb_entered s \<Longrightarrow> enter_mode W mode s = Inr (0, s)"
  by (auto simp: enter_mode_def ok_def)

lemma keeps_enter_mode [keeps_intros]: "keeps W (enter_mode W mode)"
proof (rule keepsI)
  fix s r s'
  assume inv: "sb_inv W s" and run: "enter_mode W mode s = Inr (r, s')"
  show "sb_inv W s' \<and> grows s s'"
  proof (cases "sandbox_disabled W \<or> sb_entered s")
    case True
    with run inv show ?thesis by (simp add: enter_mode_id)
  next
    case False
    with enter_mode_result [OF run] inv consider "frm s s'"
      | t where "frm s t" "s' = t\<lparr>sb_entered := True\<rparr>" "ns_installed W s'"
      unfolding ns_installed_def sb_inv_def by blast
    then show ?thesis
    proof cases
      case 1
      with inv show ?thesis by (blast intro: frm_inv frm_grows)
    next
      case 2
      from frm_inv [OF inv 2(1)] frm_grows [OF 2(1)] 2(2,3) show ?thesis
        by (auto simp: sb_inv_def grows_def)
    qed
  qed
qed

lemma keeps_calls [keeps_intros]:
  "keeps W (caph_limit_stdin W)" "keeps W (caph_limit_stdout W)" "keeps W (caph_limit_stderr W)"
  "keeps W (caph_limit_stdio W)" "keeps W (caph_enter W)" "keeps W (caph_enter_paths W)"
  unfolding caph_limit_stdin_def caph_limit_stdout_def caph_limit_stderr_def
    caph_limit_stdio_def caph_enter_def caph_enter_paths_def
  by (intro keeps_intros)+

lemma keeps_enter_casper [keeps_intros]: "keeps W (caph_enter_casper W)"
proof (cases "sandbox_disabled W")
  case True
  then show ?thesis by (simp add: caph_enter_casper_def [abs_def] keeps_enter_mode)
next
  case False
  then show ?thesis
    using keeps_snd_k_call [OF keeps_enter_mode, of W MODE_CASPER K_openlog]
    by (simp add: caph_enter_casper_def [abs_def])
qed

lemma keeps_allow_path [keeps_intros]: "keeps W (caph_allow_path W path)"
proof -
  have add: "keeps W (\<lambda>s. if length (sb_allow_fds s) = 8 then fail ENOSPC (snd (k_call W (K_close fd) s))
      else ok (s\<lparr>sb_allow_fds := sb_allow_fds s @ [of_int fd]\<rparr>))" for fd
  proof (rule keepsI)
    fix s r s'
    assume inv: "sb_inv W s" and run: "(if length (sb_allow_fds s) = 8
      then fail ENOSPC (snd (k_call W (K_close fd) s))
      else ok (s\<lparr>sb_allow_fds := sb_allow_fds s @ [of_int fd]\<rparr>)) = Inr (r, s')"
    show "sb_inv W s' \<and> grows s s'"
    proof (cases "length (sb_allow_fds s) = 8")
      case True
      with run have "frm s s'"
        by (auto simp: fail_def intro: frm_trans [OF frm_k_call frm_errno])
      with inv show ?thesis by (blast intro: frm_inv frm_grows)
    next
      case False
      with inv run show ?thesis
        by (auto simp: ok_def sb_inv_def grows_def cong: ns_installed_cong)
    qed
  qed
  show ?thesis
    unfolding caph_allow_path_def Let_def by (intro keeps_intros keeps_k_call add)
qed

lemma keeps_cache_tzdata [keeps_intros]: "keeps W (caph_cache_tzdata W)"
  unfolding caph_cache_tzdata_def by (intro keeps_intros keeps_snd_k_call)

end
