(* ===== verification/Sandbox_Run.thy ===== *)
theory Sandbox_Run
  imports Sandbox_Safety
begin

text \<open>
  Runs of the sandbox shim.  \<open>shim_step\<close> has one rule per public call of
  \<open>src/src.compat/capsicum.c\<close>; the locale \<open>monotone_system\<close> is what its clients rely on (an
  invariant, and a relation that only grows along steps), interpreted here for the shim.  The
  second half follows a run in which the kernel accepts every call and says which filters are
  then installed, with what they enforce on the registered descriptors.
\<close>

section \<open>Steps and runs\<close>

inductive shim_step :: "world \<Rightarrow> sandbox \<Rightarrow> sandbox \<Rightarrow> bool" for W :: world where
  Rights: "caph_rights_limit W fd rights s = Inr (r, s') \<Longrightarrow> shim_step W s s'"
| Ioctls: "caph_ioctls_limit W fd cmds s = Inr (r, s') \<Longrightarrow> shim_step W s s'"
| Fcntls: "caph_fcntls_limit W fd fr s = Inr (r, s') \<Longrightarrow> shim_step W s s'"
| Stream: "caph_limit_stream W fd flags s = Inr (r, s') \<Longrightarrow> shim_step W s s'"
| Stdio: "caph_limit_stdio W s = Inr (r, s') \<Longrightarrow> shim_step W s s'"
| Allow_path: "caph_allow_path W path s = Inr (r, s') \<Longrightarrow> shim_step W s s'"
| Cache: "caph_cache_tzdata W s = Inr (r, s') \<Longrightarrow> shim_step W s s'"
| Enter: "caph_enter W s = Inr (r, s') \<Longrightarrow> shim_step W s s'"
| Enter_casper: "caph_enter_casper W s = Inr (r, s') \<Longrightarrow> shim_step W s s'"
| Enter_paths: "caph_enter_paths W s = Inr (r, s') \<Longrightarrow> shim_step W s s'"

locale monotone_system =
  fixes step :: "'s \<Rightarrow> 's \<Rightarrow> bool" and inv :: "'s \<Rightarrow> bool" and le :: "'s \<Rightarrow> 's \<Rightarrow> bool"
  assumes step_inv: "inv s \<Longrightarrow> step s t \<Longrightarrow> inv t"
    and step_le: "inv s \<Longrightarrow> step s t \<Longrightarrow> le s t"
    and le_refl: "le s s"
    and le_trans: "le s t \<Longrightarrow> le t u \<Longrightarrow> le s u"
begin

lemma run_inv: "step\<^sup>*\<^sup>* s t \<Longrightarrow> inv s \<Longrightarrow> inv t"
  by (induction rule: rtranclp_induct) (auto intro: step_inv)

lemma run_le: "step\<^sup>*\<^sup>* s t \<Longrightarrow> inv s \<Longrightarrow> le s t"
proof (induction rule: rtranclp_induct)
  case base
  show ?case by (rule le_refl)
next
  case (step t u)
  then show ?case by (meson le_trans run_inv step_le)
qed

end

lemma shim_step_keeps:
  assumes "sb_inv W s" "shim_step W s s'"
  shows "sb_inv W s' \<and> grows s s'"
  using assms(2)
  by cases (blast dest: keepsD [OF keeps_rights(2) assms(1)]
    keepsD [OF keeps_limits(1) assms(1)] keepsD [OF keeps_limits(2) assms(1)]
    keepsD [OF keeps_stream assms(1)] keepsD [OF keeps_calls(4) assms(1)]
    keepsD [OF keeps_allow_path assms(1)] keepsD [OF keeps_cache_tzdata assms(1)]
    keepsD [OF keeps_calls(5) assms(1)] keepsD [OF keeps_enter_casper assms(1)]
    keepsD [OF keeps_calls(6) assms(1)])+

interpretation shim: monotone_system "shim_step W" "sb_inv W" grows for W
  by unfold_locales (auto dest: shim_step_keeps intro: grows_trans)

definition reachable :: "world \<Rightarrow> sandbox \<Rightarrow> bool" where
  "reachable W s \<longleftrightarrow> (shim_step W)\<^sup>*\<^sup>* sb_init s"

lemma sb_inv_init: "sb_inv W sb_init"
  by (simp add: sb_inv_def sb_init_def reg_ok_def fd_limits_max_def)

lemma reachable_inv: "reachable W s \<Longrightarrow> sb_inv W s"
  unfolding reachable_def using sb_inv_init by (blast dest: shim.run_inv)

lemma verdict_allow_no_deny:
  "seccomp_verdict fs d = SECCOMP_RET_ALLOW \<longleftrightarrow>
     (\<forall>f \<in> set fs. \<forall>r. bpf_run f d 0 = Some r \<longrightarrow> \<not> ret_action r < ret_action SECCOMP_RET_ALLOW)"
proof -
  have "strictest rs SECCOMP_RET_ALLOW = SECCOMP_RET_ALLOW \<longleftrightarrow>
      (\<forall>r \<in> set rs. \<not> ret_action r < ret_action SECCOMP_RET_ALLOW)" for rs
  proof
    assume "strictest rs SECCOMP_RET_ALLOW = SECCOMP_RET_ALLOW"
    with strictest_le show "\<forall>r \<in> set rs. \<not> ret_action r < ret_action SECCOMP_RET_ALLOW"
      by (metis not_le)
  qed (induction rs, auto)
  then show ?thesis
    by (force simp: seccomp_verdict_def map_filter_def)
qed

lemma verdict_append_allow:
  "seccomp_verdict (fs @ gs) d = SECCOMP_RET_ALLOW \<Longrightarrow> seccomp_verdict gs d = SECCOMP_RET_ALLOW"
  by (auto simp: verdict_allow_no_deny)

lemma grows_verdict:
  "grows s t \<Longrightarrow> seccomp_verdict (filters t) d = SECCOMP_RET_ALLOW \<Longrightarrow>
   seccomp_verdict (filters s) d = SECCOMP_RET_ALLOW"
  by (auto simp: grows_def dest: verdict_append_allow)

lemma ns_installed_denies:
  assumes "ns_installed W s" "sysno_inj (w_plat W)" "x \<in> set always_denied_syscalls"
    and "sysno (w_plat W) x = Some (sd_nr d)" "sd_arch d = audit_arch (w_plat W)"
  shows "seccomp_verdict (filters s) d \<noteq> SECCOMP_RET_ALLOW"
proof -
  from assms(1) obtain mode fds p where "length fds \<le> 8"
    "ns_program (w_plat W) mode fds = Some p" "p \<in> set (filters s)"
    by (auto simp: ns_installed_def)
  then show ?thesis
    using assms by (intro verdict_denied_by [of p]) (simp_all add: ns_program_run ns_decide_denied)
qed

section \<open>A run the kernel accepts\<close>

text \<open>
  \<open>installs f s ps\<close>: started in \<open>s\<close>, the operation succeeds, changes nothing but the trace, and
  adds the filters \<open>ps\<close>.
\<close>

definition kernel_ok :: "world \<Rightarrow> bool" where
  "kernel_ok W \<longleftrightarrow>
     (\<forall>t c. 0 \<le> kr_ret (w_kernel W t c)) \<and> (\<forall>t. 1 \<le> kr_ret (w_kernel W t K_landlock_version))"

definition installs :: "shim \<Rightarrow> sandbox \<Rightarrow> bpf_prog list \<Rightarrow> bool" where
  "installs f s ps \<longleftrightarrow>
     (\<exists>q s'. f s = Inr (q, s') \<and> \<not> q < 0 \<and> frm s s' \<and> filters s' = ps @ filters s)"

lemma kernel_okD:
  assumes "kernel_ok W"
  shows "\<not> kr_ret (w_kernel W t c) < 0" "\<not> kr_ret (w_kernel W t K_landlock_version) < 1"
  using assms by (simp_all add: kernel_ok_def not_less)

lemma installs_ok: "installs ok s []"
  by (simp add: installs_def ok_def)

lemma installs_and_then:
  assumes "installs f s ps" "\<And>t. frm s t \<Longrightarrow> installs g t qs"
  shows "installs (and_then f g) s (qs @ ps)"
proof -
  from assms(1) obtain q t where t: "f s = Inr (q, t)" "\<not> q < 0" "frm s t" "filters t = ps @ filters s"
    by (auto simp: installs_def)
  with assms(2) [OF t(3)] show ?thesis
    by (auto simp: installs_def and_then_def intro: frm_trans)
qed

lemma installs_cong_after_call:
  assumes "\<And>q t. k_call W c s = (q, t) \<Longrightarrow> frm s t \<Longrightarrow> installs (f q) t ps" "\<forall>p. c \<noteq> K_seccomp p"
  shows "installs (\<lambda>s. case k_call W c s of (q, t) \<Rightarrow> f q t) s ps"
proof -
  obtain q t where t: "k_call W c s = (q, t)" by force
  then have "frm s t" by (rule frm_k_callE)
  moreover from t assms(2) have "filters t = filters s"
    by (cases c) (auto simp: k_call_def Let_def filters_def)
  ultimately show ?thesis
    using assms(1) [OF t] t by (auto simp: installs_def intro: frm_trans)
qed

lemma k_call_ret: "kernel_ok W \<Longrightarrow> k_call W c s = (q, t) \<Longrightarrow> \<not> kr_ret q < 0"
  using kernel_okD(1) by (auto simp: k_call_def Let_def)

lemma installs_sys: "kernel_ok W \<Longrightarrow> \<forall>p. c \<noteq> K_seccomp p \<Longrightarrow> installs (sys W c) s []"
  unfolding sys_def
  by (rule installs_cong_after_call) (auto simp: installs_def dest: k_call_ret)

lemma filters_k_call: "\<forall>p. c \<noteq> K_seccomp p \<Longrightarrow> filters (snd (k_call W c s)) = filters s"
  by (cases c) (auto simp: k_call_def Let_def filters_def)

lemma installs_snd_k_call:
  assumes "installs f (snd (k_call W c s)) ps" "\<forall>p. c \<noteq> K_seccomp p"
  shows "installs (\<lambda>s. f (snd (k_call W c s))) s ps"
  using assms frm_trans [OF frm_k_call]
  by (fastforce simp: installs_def filters_k_call)

lemma installs_seccomp: "kernel_ok W \<Longrightarrow> installs (sys W (K_seccomp p)) s [p]"
  using frm_k_call [of s W "K_seccomp p"] kernel_okD(1)
  by (auto simp: installs_def sys_def k_call_def Let_def filters_def)

lemma installs_seccomp_load:
  assumes "kernel_ok W"
  shows "installs (seccomp_load W p) s [p]"
proof -
  have "installs (\<lambda>s. sys W (K_seccomp p)
      (if w_env W ''CU_SANDBOX_DEBUG'' \<noteq> None then snd (k_call W K_write_debug s) else s)) t [p]" for t
    using assms by (cases "w_env W ''CU_SANDBOX_DEBUG'' = None")
      (auto intro: installs_seccomp installs_snd_k_call)
  from installs_and_then [OF installs_sys [OF assms] this, of K_prctl_nnp] show ?thesis
    by (simp add: seccomp_load_def)
qed

lemma installs_landlock_rules:
  assumes "kernel_ok W" "\<And>t. frm s t \<Longrightarrow> installs k t []"
  shows "installs (landlock_rules W ruleset handled fds k) s []"
  using assms(2)
proof (induction fds arbitrary: s)
  case Nil
  then show ?case using frm_refl by (simp add: installs_def)
next
  case (Cons fd fds)
  have "installs (\<lambda>s. if kr_ret q < 0 then landlock_bail W ruleset s
      else landlock_rules W ruleset handled fds k s) t []"
    if "k_call W (K_landlock_add_rule ruleset handled fd) s = (q, t)" "frm s t" for q t
    using Cons.IH [of t] Cons.prems frm_trans [OF that(2)] k_call_ret [OF assms(1) that(1)]
    by simp
  then show ?case
    unfolding landlock_rules.simps by (rule installs_cong_after_call) simp_all
qed

lemma installs_landlock_restrict:
  assumes "kernel_ok W"
  shows "installs (landlock_restrict W ruleset) s []"
proof -
  have "installs (\<lambda>s. if kr_ret q < 0 then landlock_bail W ruleset s
      else Inr (0, snd (k_call W (K_close ruleset) s))) t []"
    if "k_call W (K_landlock_restrict ruleset) s = (q, t)" for q t
    using k_call_ret [OF assms that] by (simp add: installs_def frm_k_call filters_k_call)
  then show ?thesis
    unfolding landlock_restrict_def by (rule installs_cong_after_call) simp_all
qed

definition has_landlock :: "plat \<Rightarrow> bool" where
  "has_landlock P \<longleftrightarrow>
     sysno P ''landlock_create_ruleset'' \<noteq> None \<and> sysno P ''landlock_restrict_self'' \<noteq> None"

lemma installs_landlock:
  assumes ok: "kernel_ok W" and "has_landlock (w_plat W)"
  shows "installs (landlock_lockdown W mode) s []"
proof -
  have apply_ok: "installs (landlock_apply W mode ruleset handled) t []" for t ruleset handled
    unfolding landlock_apply_def
    using installs_landlock_rules [OF ok, of t] installs_landlock_rules [OF ok]
      installs_landlock_restrict [OF ok]
    by (simp add: installs_def)
  have create: "installs (\<lambda>s. case k_call W (K_landlock_create h) s of (c, s) \<Rightarrow>
      if kr_ret c < 0 then Inr (- 1, s) else landlock_apply W mode (kr_ret c) h s) t []" for h t
    by (rule installs_cong_after_call) (auto simp: apply_ok dest: k_call_ret [OF ok])
  have "installs (\<lambda>s. case k_call W K_landlock_version s of (v, s) \<Rightarrow>
      if kr_ret v < 1 then fail ENOSYS s
      else case k_call W (K_landlock_create (landlock_handled (w_plat W) mode (kr_ret v))) s of
        (c, s) \<Rightarrow> if kr_ret c < 0 then Inr (- 1, s)
          else landlock_apply W mode (kr_ret c) (landlock_handled (w_plat W) mode (kr_ret v)) s) s []"
  proof (rule installs_cong_after_call)
    fix v t
    assume "k_call W K_landlock_version s = (v, t)"
    then have "\<not> kr_ret v < 1" using kernel_okD(2) [OF ok] by (auto simp: k_call_def Let_def)
    with create show "installs (\<lambda>s. if kr_ret v < 1 then fail ENOSYS s
      else case k_call W (K_landlock_create (landlock_handled (w_plat W) mode (kr_ret v))) s of
        (c, s) \<Rightarrow> if kr_ret c < 0 then Inr (- 1, s)
          else landlock_apply W mode (kr_ret c) (landlock_handled (w_plat W) mode (kr_ret v)) s) t []"
      by simp
  qed simp
  with assms(2) show ?thesis
    unfolding landlock_lockdown_def [abs_def] Let_def by (simp add: has_landlock_def)
qed

text \<open>The entries fall into chunks of \<open>FLUSH_CHUNK\<close>, one filter each.\<close>

fun chunk_list :: "deny_ent list \<Rightarrow> deny_ent list \<Rightarrow> deny_ent list list" where
  "chunk_list [] ents = (if ents \<noteq> [] then [ents] else [])"
| "chunk_list (e # es) ents =
     (if length (ents @ [e]) = FLUSH_CHUNK then (ents @ [e]) # chunk_list es []
      else chunk_list es (ents @ [e]))"

definition chunk_filters :: "plat \<Rightarrow> registry \<Rightarrow> bpf_prog list" where
  "chunk_filters P reg = rev (map (\<lambda>es. the (entry_chunk_program P es))
     (chunk_list (concat (map (limit_entries P) reg)) []))"

lemma chunk_list_length:
  "length ents < FLUSH_CHUNK \<Longrightarrow> c \<in> set (chunk_list es ents) \<Longrightarrow> length c \<le> FLUSH_CHUNK"
  by (induction es ents rule: chunk_list.induct) (auto simp: FLUSH_CHUNK_def split: if_splits)

lemma chunk_list_concat: "concat (chunk_list es ents) = ents @ es"
  by (induction es ents rule: chunk_list.induct) (auto simp: FLUSH_CHUNK_def)

lemma chunk_list_short: "length ents + length es < FLUSH_CHUNK \<Longrightarrow>
  chunk_list es ents = (if ents @ es = [] then [] else [ents @ es])"
  by (induction es ents rule: chunk_list.induct) auto

lemma installs_chunk:
  assumes "kernel_ok W" "length es \<le> FLUSH_CHUNK"
  shows "installs (install_entry_chunk W es) s [the (entry_chunk_program (w_plat W) es)]"
proof -
  obtain p where "entry_chunk_program (w_plat W) es = Some p"
    using entry_chunk_program_Some [of es "w_plat W"] assms(2) by (auto simp: FLUSH_CHUNK_def)
  then show ?thesis
    using installs_seccomp_load [OF assms(1)] by (simp add: install_entry_chunk_def load_built_def)
qed

lemma installs_flush_entries:
  assumes "kernel_ok W" "length ents < FLUSH_CHUNK"
  shows "installs (flush_entries W es ents) s
    (rev (map (\<lambda>es. the (entry_chunk_program (w_plat W) es)) (chunk_list es ents)))"
  using assms(2)
proof (induction es arbitrary: ents s)
  case Nil
  then show ?case using installs_chunk [OF assms(1), of ents] installs_ok by simp
next
  case (Cons e es)
  show ?case
  proof (cases "length (ents @ [e]) = FLUSH_CHUNK")
    case True
    with Cons.IH [of "[]"] installs_chunk [OF assms(1), of "ents @ [e]"] show ?thesis
      by (simp add: Let_def FLUSH_CHUNK_def installs_and_then)
  next
    case False
    with Cons.prems Cons.IH [of "ents @ [e]"] show ?thesis by (simp add: Let_def)
  qed
qed

definition arg1_fits :: "which \<Rightarrow> registry \<Rightarrow> bool" where
  "arg1_fits w reg \<longleftrightarrow>
     n_cmds (reg_lists w reg) \<le> cmd_idx_max \<and> 5 + blocks_length (reg_lists w reg) \<le> 200"

definition arg1_filters :: "plat \<Rightarrow> u32 option \<Rightarrow> which \<Rightarrow> registry \<Rightarrow> bpf_prog list" where
  "arg1_filters P nr w reg = (case nr of None \<Rightarrow> [] | Some nr \<Rightarrow>
     (case arg1_limits_program P nr w reg of A1_load p \<Rightarrow> [p] | _ \<Rightarrow> []))"

lemma installs_arg1:
  assumes "kernel_ok W" "reg_ok (sb_limits s)" "arg1_fits w (sb_limits s)"
  shows "installs (install_arg1_limits W nr w) s (arg1_filters (w_plat W) (Some nr) w (sb_limits s))"
proof -
  from assms(2) have "length (sb_limits s) \<le> fd_limits_max" by (simp add: reg_ok_def)
  from arg1_limits_program_eq [OF this, of "w_plat W" nr w] assms(3)
  consider "arg1_limits_program (w_plat W) nr w (sb_limits s) = A1_none"
    | p where "arg1_limits_program (w_plat W) nr w (sb_limits s) = A1_load p"
    by (auto simp: arg1_fits_def Let_def split: if_splits)
  then show ?thesis
    using installs_ok [of s] installs_seccomp_load [OF assms(1), of _ s]
    by cases (auto simp: installs_def install_arg1_limits_def arg1_filters_def)
qed

text \<open>All filters of the registry, the latest first, and those of an entered sandbox.\<close>

definition limit_filters :: "plat \<Rightarrow> registry \<Rightarrow> bpf_prog list" where
  "limit_filters P reg =
     arg1_filters P (case sysno P ''fcntl'' of None \<Rightarrow> sysno P ''fcntl64'' | nr \<Rightarrow> nr) Fcntls reg @
     arg1_filters P (sysno P ''ioctl'') Ioctls reg @
     chunk_filters P reg"

lemma installs_arg1_opt:
  assumes "kernel_ok W" "reg_ok reg" "arg1_fits w reg" "frm s t" "sb_limits s = reg"
  shows "installs (case nr of None \<Rightarrow> ok | Some nr \<Rightarrow> install_arg1_limits W nr w) t
    (arg1_filters (w_plat W) nr w reg)"
  using assms installs_arg1 [of W t w] installs_ok [of t]
  by (cases nr) (simp_all add: frm_sel arg1_filters_def)

lemma installs_flush:
  assumes "kernel_ok W" "reg_ok (sb_limits s)"
    and "arg1_fits Ioctls (sb_limits s)" "arg1_fits Fcntls (sb_limits s)"
  shows "installs (flush_registered_limits W) s (limit_filters (w_plat W) (sb_limits s))"
proof -
  let ?P = "w_plat W" and ?reg = "sb_limits s"
  let ?fc = "case sysno ?P ''fcntl'' of None \<Rightarrow> sysno ?P ''fcntl64'' | nr \<Rightarrow> nr"
  have fc: "(case sysno ?P ''fcntl'' of Some nr \<Rightarrow> install_arg1_limits W nr Fcntls
      | None \<Rightarrow> (case sysno ?P ''fcntl64'' of Some nr \<Rightarrow> install_arg1_limits W nr Fcntls
        | None \<Rightarrow> ok)) = (case ?fc of None \<Rightarrow> ok | Some nr \<Rightarrow> install_arg1_limits W nr Fcntls)"
    by (simp split: option.split)
  have chunks: "installs (flush_entries W (concat (map (limit_entries ?P) ?reg)) []) s
      (chunk_filters ?P ?reg)"
    using installs_flush_entries [OF assms(1), of "[]"]
    by (simp add: chunk_filters_def FLUSH_CHUNK_def)
  have 2: "installs (and_then (case ?fc of None \<Rightarrow> ok | Some nr \<Rightarrow> install_arg1_limits W nr Fcntls) ok)
      t ([] @ arg1_filters ?P ?fc Fcntls ?reg)" if "frm s t" for t
    by (rule installs_and_then [OF installs_arg1_opt installs_ok]) (use assms that in auto)
  have 1: "installs (and_then (case sysno ?P ''ioctl'' of None \<Rightarrow> ok
        | Some nr \<Rightarrow> install_arg1_limits W nr Ioctls)
      (and_then (case ?fc of None \<Rightarrow> ok | Some nr \<Rightarrow> install_arg1_limits W nr Fcntls) ok))
      t (([] @ arg1_filters ?P ?fc Fcntls ?reg) @ arg1_filters ?P (sysno ?P ''ioctl'') Ioctls ?reg)"
    if "frm s t" for t
    by (rule installs_and_then [OF installs_arg1_opt 2])
      (use assms that in \<open>auto intro: frm_trans\<close>)
  from installs_and_then [OF chunks 1] show ?thesis
    unfolding installs_def flush_registered_limits_def fc by (simp add: limit_filters_def)
qed

lemma installs_namespace:
  assumes "kernel_ok W" "length (sb_lookup_fds s) \<le> 8"
  shows "installs (install_namespace_filter W mode) s
    [the (ns_program (w_plat W) mode (sb_lookup_fds s))]"
proof -
  obtain p where p: "ns_program (w_plat W) mode (sb_lookup_fds s) = Some p"
    using ns_program_Some [OF assms(2)] by blast
  with installs_seccomp_load [OF assms(1), of p s] show ?thesis
    by (simp add: installs_def install_namespace_filter_def load_built_def)
qed

definition can_enter :: "world \<Rightarrow> sandbox \<Rightarrow> bool" where
  "can_enter W s \<longleftrightarrow> \<not> sandbox_disabled W \<and> \<not> sb_entered s \<and> has_landlock (w_plat W) \<and>
     arg1_fits Ioctls (sb_limits s) \<and> arg1_fits Fcntls (sb_limits s)"

lemma enter_mode_installs:
  assumes ok: "kernel_ok W" and inv: "sb_inv W s" and can: "can_enter W s"
  shows "\<exists>s'. enter_mode W mode s = Inr (0, s') \<and> sb_entered s' \<and>
    filters s' = limit_filters (w_plat W) (sb_limits s) @
      the (ns_program (w_plat W) mode (sb_lookup_fds s)) # filters s"
proof -
  let ?P = "w_plat W" and ?reg = "sb_limits s"
  let ?f = "and_then (sys W K_prctl_nnp) (and_then (landlock_lockdown W mode)
      (and_then (install_namespace_filter W mode) (flush_registered_limits W)))"
  have 3: "installs (flush_registered_limits W) t (limit_filters ?P ?reg)" if "frm s t" for t
    using installs_flush [OF ok, of t] inv can that by (simp add: frm_sel sb_inv_def can_enter_def)
  have 2: "installs (install_namespace_filter W mode) t [the (ns_program ?P mode (sb_lookup_fds s))]"
    if "frm s t" for t
    using installs_namespace [OF ok, of t] inv that by (simp add: frm_sel sb_inv_def)
  have "installs ?f s (((limit_filters ?P ?reg @ [the (ns_program ?P mode (sb_lookup_fds s))]) @ []) @ [])"
    using can by (intro installs_and_then installs_sys installs_landlock ok 2 3)
      (auto simp: can_enter_def intro: frm_trans)
  then obtain q t where t: "?f s = Inr (q, t)" "\<not> q < 0"
    "filters t = limit_filters ?P ?reg @ the (ns_program ?P mode (sb_lookup_fds s)) # filters s"
    by (auto simp: installs_def)
  have "enter_mode W mode s = and_then ?f (\<lambda>s. ok (s\<lparr>sb_entered := True\<rparr>)) s"
    using can by (simp add: enter_mode_def and_then_assoc can_enter_def)
  with t show ?thesis by (auto simp: and_then_def ok_def)
qed

end
