(* ===== verification/Sandbox_Props.thy ===== *)
theory Sandbox_Props
  imports Sandbox_Run
begin

text \<open>
  The properties of the whole sandbox shim, over all runs of \<open>shim_step\<close> and any kernel: the
  invariant, what stays denied once entered, that calls only tighten, that the shim fails
  closed and where it can stop the process; then what a successful entry enforces.
\<close>

section \<open>Crashes\<close>

definition safe :: "world \<Rightarrow> (registry \<Rightarrow> bool) \<Rightarrow> shim \<Rightarrow> bool" where
  "safe W R f \<longleftrightarrow> (\<forall>s c. sb_inv W s \<longrightarrow> f s = Inl c \<longrightarrow> c = Undef \<and> R (sb_limits s))"

named_theorems safe_intros \<open>operations that do not stop the process unless the registry overflows\<close>

definition never :: "registry \<Rightarrow> bool" where
  "never reg \<longleftrightarrow> False"

definition overflows :: "registry \<Rightarrow> bool" where
  "overflows reg \<longleftrightarrow> (\<exists>w. n_cmds (reg_lists w reg) > cmd_idx_max)"

lemma safe_and_then_frame [safe_intros]:
  assumes "safe W R f" "frame f" "safe W R g"
  shows "safe W R (and_then f g)"
  using assms unfolding safe_def and_then_def
  by (auto split: sum.splits if_splits dest!: frameD dest: frm_inv simp: frm_sel(1))

lemma safe_and_then_never [safe_intros]:
  assumes "safe W never f" "keeps W f" "safe W never g"
  shows "safe W never (and_then f g)"
  using assms unfolding safe_def never_def and_then_def
  by (auto split: sum.splits if_splits dest: keepsD)

lemma safe_basic [safe_intros]:
  "safe W R ok" "safe W R (fail e)" "safe W R (sys W c)" "safe W R (\<lambda>s. Inr (r, s))"
  by (auto simp: safe_def ok_def fail_def sys_def split: prod.splits)

lemma safe_cond [safe_intros]:
  "safe W R f \<Longrightarrow> safe W R g \<Longrightarrow> safe W R (if b then f else g)"
  "safe W R f \<Longrightarrow> safe W R g \<Longrightarrow> safe W R (\<lambda>s. if B s then f s else g s)"
  by (auto simp: safe_def)

lemma safe_seccomp_load [safe_intros]: "safe W R (seccomp_load W p)"
  unfolding safe_def seccomp_load_def and_then_def sys_def by (auto split: sum.splits prod.splits)

lemma safe_load_built: "r \<noteq> None \<Longrightarrow> safe W R (load_built W r)"
  using safe_seccomp_load by (auto simp: load_built_def)

lemma safe_namespace [safe_intros]: "safe W R (install_namespace_filter W mode)"
  unfolding safe_def install_namespace_filter_def
proof (intro allI impI)
  fix s c
  assume inv: "sb_inv W s"
    and crash: "load_built W (ns_program (w_plat W) mode (sb_lookup_fds s)) s = Inl c"
  from inv have "ns_program (w_plat W) mode (sb_lookup_fds s) \<noteq> None"
    using ns_program_Some [of "sb_lookup_fds s" "w_plat W" mode] by (auto simp: sb_inv_def)
  from safe_load_built [OF this, of W R] inv crash show "c = Undef \<and> R (sb_limits s)"
    by (simp add: safe_def)
qed

lemma safe_limit_fd_syscalls: "length ents \<le> 80 \<Longrightarrow> safe W R (limit_fd_syscalls W fd ents)"
  unfolding limit_fd_syscalls_def fd_syscalls_program_eq
  using entry_chunk_program_Some [of "map (\<lambda>e. e\<lparr>de_fd := fd\<rparr>) ents" "w_plat W"]
  by (auto intro!: safe_load_built safe_intros)

lemma safe_limit_fd_arg1: "length allowed \<le> 200 \<Longrightarrow> safe W R (limit_fd_arg1 W fd nr allowed)"
  unfolding limit_fd_arg1_def using fd_arg1_program_code [of allowed "w_plat W" fd nr]
  by (auto intro: safe_load_built)

lemma safe_flush_entries: "length ents < FLUSH_CHUNK \<Longrightarrow> safe W R (flush_entries W es ents)"
proof (induction es arbitrary: ents)
  have chunk: "safe W R (install_entry_chunk W ents)" if "length ents \<le> FLUSH_CHUNK" for ents
    unfolding install_entry_chunk_def using entry_chunk_program_Some [of ents "w_plat W"] that
    by (auto intro: safe_load_built simp: FLUSH_CHUNK_def)
  {
    case Nil
    then show ?case by (auto intro: chunk safe_intros)
  next
    case (Cons e es)
    then show ?case
      by (auto simp: Let_def FLUSH_CHUNK_def intro!: safe_and_then_frame chunk frame_intros)
  }
qed

lemma safe_arg1_limits: "safe W overflows (install_arg1_limits W nr w)"
  unfolding safe_def
proof (intro allI impI)
  fix s c
  assume inv: "sb_inv W s" and crash: "install_arg1_limits W nr w s = Inl c"
  have load: "seccomp_load W p s \<noteq> Inl c" for p
    using inv safe_seccomp_load [of W never p] by (auto simp: safe_def never_def)
  from inv have "length (sb_limits s) \<le> fd_limits_max" by (simp add: sb_inv_def reg_ok_def)
  from arg1_limits_program_eq [OF this, of "w_plat W" nr w] crash load
  show "c = Undef \<and> overflows (sb_limits s)"
    by (auto simp: install_arg1_limits_def Let_def ok_def fail_def overflows_def split: if_splits)
qed

lemma safe_flush [safe_intros]: "safe W overflows (flush_registered_limits W)"
proof -
  have "safe W overflows (and_then (flush_entries W es []) (and_then
      (case a of None \<Rightarrow> ok | Some nr \<Rightarrow> install_arg1_limits W nr Ioctls)
      (and_then (case b of Some nr \<Rightarrow> install_arg1_limits W nr Fcntls
        | None \<Rightarrow> (case c of Some nr \<Rightarrow> install_arg1_limits W nr Fcntls | None \<Rightarrow> ok)) ok)))" for es a b c
    by (auto intro!: safe_and_then_frame safe_flush_entries safe_arg1_limits frame_intros safe_basic
        split: option.splits simp: FLUSH_CHUNK_def)
  then show ?thesis
    unfolding safe_def flush_registered_limits_def by blast
qed

lemma landlock_rules_Inr:
  assumes "\<And>s c. k s \<noteq> Inl c"
  shows "landlock_rules W rs h fds k s \<noteq> Inl c"
  using assms by (induction fds arbitrary: s)
    (auto simp: landlock_bail_def fail_def Let_def split: prod.splits)

lemma landlock_Inr: "landlock_lockdown W mode s \<noteq> Inl c"
proof -
  have "landlock_restrict W rs s \<noteq> Inl c" for rs s c
    by (auto simp: landlock_restrict_def landlock_bail_def fail_def Let_def split: prod.splits)
  then have "landlock_apply W mode rs h s \<noteq> Inl c" for rs h s c
    unfolding landlock_apply_def by (intro landlock_rules_Inr)
  then show ?thesis
    by (auto simp: landlock_lockdown_def fail_def Let_def split: prod.splits)
qed

lemma safe_enter_mode: "safe W overflows (enter_mode W mode)"
proof -
  have "safe W overflows (landlock_lockdown W mode)"
    by (simp add: safe_def landlock_Inr)
  moreover have "safe W overflows (\<lambda>s. ok (s\<lparr>sb_entered := True\<rparr>))"
    by (simp add: safe_def ok_def)
  ultimately show ?thesis
    unfolding enter_mode_def by (intro safe_intros frame_intros)
qed

lemma safe_limits [safe_intros]:
  "safe W never (caph_ioctls_limit W fd cmds)" "safe W never (caph_fcntls_limit W fd fr)"
proof -
  have upd: "safe W never (update_limit fd g)" for g
    by (auto simp: safe_def update_limit_def fail_def ok_def split: option.splits)
  show "safe W never (caph_ioctls_limit W fd cmds)"
    unfolding caph_ioctls_limit_def Let_def
    by (auto intro!: safe_intros upd safe_limit_fd_arg1 split: option.split)
  have "length (fcntl_allowed (w_plat W) fr) \<le> 200"
    using length_fcntl_allowed [of "w_plat W" fr] by linarith
  then show "safe W never (caph_fcntls_limit W fd fr)"
    unfolding caph_fcntls_limit_def Let_def
    by (auto intro!: safe_intros upd safe_limit_fd_arg1 split: option.split)
qed

lemma safe_rights [safe_intros]: "safe W never (caph_rights_limit W fd rights)"
proof -
  have "safe W never (register_lookup W fd)"
    by (auto simp: safe_def register_lookup_def fail_def ok_def split: prod.splits)
  moreover have "safe W never (register_rights W fd m)" for m
    by (auto simp: safe_def register_rights_def update_limit_def fail_def ok_def split: option.splits)
  moreover have "safe W never (install_rights W fd m)" for m
    unfolding install_rights_def Let_def using length_rights_entries [of "w_plat W" m]
    by (intro safe_intros keeps_intros safe_limit_fd_syscalls) linarith
  ultimately show ?thesis
    unfolding caph_rights_limit_def by (intro safe_intros keeps_intros)
qed

section \<open>Registered limits only tighten\<close>

text \<open>\<open>None\<close> is the absence of an allowlist, which allows every command.\<close>

definition list_le :: "u64 list option \<Rightarrow> u64 list option \<Rightarrow> bool" where
  "list_le a b \<longleftrightarrow> (case a of None \<Rightarrow> True | Some xs \<Rightarrow>
     (case b of None \<Rightarrow> False | Some ys \<Rightarrow> set ys \<subseteq> set xs))"

definition lim_le :: "fd_limit \<Rightarrow> fd_limit \<Rightarrow> bool" where
  "lim_le l l' \<longleftrightarrow> lim_fd l' = lim_fd l \<and> lim_deny l AND lim_deny l' = lim_deny l \<and>
     list_le (lim_ioctls l) (lim_ioctls l') \<and> list_le (lim_fcntls l) (lim_fcntls l')"

definition limits_le :: "sandbox \<Rightarrow> sandbox \<Rightarrow> bool" where
  "limits_le s s' \<longleftrightarrow> length (sb_limits s) \<le> length (sb_limits s') \<and>
     (\<forall>i < length (sb_limits s). lim_le (sb_limits s ! i) (sb_limits s' ! i))"

definition tightens :: "shim \<Rightarrow> bool" where
  "tightens f \<longleftrightarrow> (\<forall>s r s'. f s = Inr (r, s') \<longrightarrow> limits_le s s')"

named_theorems tight_intros \<open>operations that only tighten the registry\<close>

lemma list_le_refl [simp]: "list_le a a"
  by (cases a) (auto simp: list_le_def)

lemma list_le_merge [simp]: "list_le a (lim_merge a xs)"
  by (cases a) (auto simp: list_le_def lim_merge_def)

lemma list_le_trans: "list_le a b \<Longrightarrow> list_le b c \<Longrightarrow> list_le a c"
  by (auto simp: list_le_def split: option.splits)

lemma lim_le_refl [simp]: "lim_le l l"
  by (simp add: lim_le_def)

lemma lim_le_trans: "lim_le a b \<Longrightarrow> lim_le b c \<Longrightarrow> lim_le a c"
  unfolding lim_le_def by (metis and.assoc list_le_trans)

lemma limits_le_refl [simp]: "limits_le s s"
  by (simp add: limits_le_def)

lemma limits_le_trans: "limits_le s t \<Longrightarrow> limits_le t u \<Longrightarrow> limits_le s u"
  unfolding limits_le_def by (meson lim_le_trans less_le_trans order_trans)

lemma limits_le_same: "sb_limits s' = sb_limits s \<Longrightarrow> limits_le s s'"
  by (simp add: limits_le_def)

lemma frame_tightens: "frame f \<Longrightarrow> tightens f"
  unfolding tightens_def by (blast dest: frameD frm_sel(1) intro: limits_le_same)

lemma tightens_and_then [tight_intros]: "tightens f \<Longrightarrow> tightens g \<Longrightarrow> tightens (and_then f g)"
  unfolding tightens_def and_then_Inr by (metis limits_le_trans)

lemma tightens_cond [tight_intros]:
  "tightens f \<Longrightarrow> tightens g \<Longrightarrow> tightens (if b then f else g)"
  "tightens f \<Longrightarrow> tightens g \<Longrightarrow> tightens (\<lambda>s. if B s then f s else g s)"
  by (auto simp: tightens_def)

lemma tightens_return [tight_intros]: "tightens (\<lambda>s. Inr (r, s))"
  by (auto simp: tightens_def)

lemmas tightens_frames [tight_intros] =
  frame_basic [THEN frame_tightens] frame_install [THEN frame_tightens]

lemma tightens_k_call:
  assumes "\<And>q. tightens (f q)"
  shows "tightens (\<lambda>s. case k_call W c s of (q, s) \<Rightarrow> f q s)"
  unfolding tightens_def
proof (intro allI impI)
  fix s r s'
  obtain q t where t: "k_call W c s = (q, t)" by force
  assume "(case k_call W c s of (q, s) \<Rightarrow> f q s) = Inr (r, s')"
  with t assms [of q] have "limits_le t s'" by (simp add: tightens_def)
  moreover have "limits_le s t" using frm_k_callE [OF t] by (intro limits_le_same) (rule frm_sel)
  ultimately show "limits_le s s'" by (rule limits_le_trans [rotated])
qed

lemma tightens_update_limit:
  assumes "\<And>l. lim_le l (g l)"
  shows "tightens (update_limit fd g)"
  unfolding tightens_def
proof (intro allI impI)
  fix s r s'
  assume run: "update_limit fd g s = Inr (r, s')"
  show "limits_le s s'"
  proof (cases "lim_find fd (sb_limits s)")
    case None
    with run show ?thesis by (auto simp: update_limit_def fail_def intro: limits_le_same)
  next
    case (Some x)
    obtain i reg where x: "x = (i, reg)" by force
    from Some obtain new where reg: "reg = sb_limits s @ new"
      by (auto simp: lim_find_def x split: option.splits if_splits)
    from run Some have "sb_limits s' = reg[i := g (reg ! i)]"
      by (auto simp: update_limit_def ok_def x)
    then show ?thesis
      using assms by (auto simp: limits_le_def reg nth_list_update nth_append)
  qed
qed

lemma restrict_limit_le: "lim_le l (restrict_limit P m l)"
  by (auto simp: lim_le_def restrict_limit_def bit_eq_iff bit_simps)

lemma tightensD: "f s = Inr (r, s') \<Longrightarrow> tightens f \<Longrightarrow> limits_le s s'"
  by (auto simp: tightens_def)

lemma tightens_limits [tight_intros]:
  "tightens (caph_ioctls_limit W fd cmds)" "tightens (caph_fcntls_limit W fd fr)"
  "tightens (register_rights W fd m)"
  unfolding caph_ioctls_limit_def caph_fcntls_limit_def register_rights_def Let_def
  by (auto intro!: tight_intros tightens_update_limit restrict_limit_le split: option.split
      simp: lim_le_def)

lemma tightens_rights [tight_intros]: "tightens (caph_rights_limit W fd rights)"
proof -
  have "tightens (register_lookup W fd)"
    by (auto simp: tightens_def register_lookup_def fail_def ok_def split: prod.splits if_splits
        dest!: frm_k_callE intro!: limits_le_same simp: frm_sel)
  moreover have "tightens (install_rights W fd m)" for m
    unfolding install_rights_def Let_def by (intro tight_intros)
  ultimately show ?thesis
    unfolding caph_rights_limit_def by (intro tight_intros)
qed

lemma tightens_stream [tight_intros]: "tightens (caph_limit_stream W fd flags)"
  unfolding caph_limit_stream_def by (intro tight_intros tightens_k_call)

lemma tightens_stdio [tight_intros]: "tightens (caph_limit_stdio W)"
  unfolding caph_limit_stdio_def caph_limit_stdin_def caph_limit_stdout_def caph_limit_stderr_def
  by (intro tight_intros)

lemma tightens_enter [tight_intros]: "tightens (enter_mode W mode)"
  unfolding tightens_def
proof (intro allI impI)
  fix s r s'
  assume run: "enter_mode W mode s = Inr (r, s')"
  show "limits_le s s'"
  proof (cases "sandbox_disabled W \<or> sb_entered s")
    case True
    with run show ?thesis by (simp add: enter_mode_id)
  next
    case False
    with enter_mode_result [OF run] show ?thesis
      by (auto intro!: limits_le_same simp: frm_sel)
  qed
qed

lemma tightens_other [tight_intros]:
  "tightens (caph_enter_casper W)" "tightens (caph_allow_path W path)" "tightens (caph_cache_tzdata W)"
proof -
  show "tightens (caph_enter_casper W)"
    using tightens_enter [of W MODE_CASPER] tightens_k_call [of "\<lambda>q. enter_mode W MODE_CASPER" W K_openlog]
    by (cases "sandbox_disabled W") (auto simp: caph_enter_casper_def [abs_def] case_prod_unfold)
  show "tightens (caph_cache_tzdata W)"
    by (auto simp: tightens_def caph_cache_tzdata_def ok_def frm_sel(1) [OF frm_k_call]
        intro!: limits_le_same)
  show "tightens (caph_allow_path W path)"
    by (auto simp: tightens_def caph_allow_path_def Let_def fail_def ok_def frm_sel(1) [OF frm_k_call]
        split: prod.splits if_splits dest!: frm_k_callE intro!: limits_le_same simp: frm_sel)
qed

lemma tightens_enters [tight_intros]: "tightens (caph_enter W)" "tightens (caph_enter_paths W)"
  unfolding caph_enter_def caph_enter_paths_def by (rule tightens_enter)+

lemma shim_step_tightens:
  assumes "shim_step W s s'"
  shows "limits_le s s'"
  using assms
  by (cases rule: shim_step.cases)
    (erule tightensD, intro tight_intros tightens_enters)+

interpretation limits: monotone_system "shim_step W" "\<lambda>_. True" limits_le for W
  by unfold_locales (auto dest: shim_step_tightens intro: limits_le_trans)

section \<open>What a successful entry enforces\<close>

lemma limit_filters_mem:
  "arg1_limits_program P nr w reg = A1_load p \<Longrightarrow>
     (w = Ioctls \<and> sysno P ''ioctl'' = Some nr) \<or> (w = Fcntls \<and> sysno P ''fcntl'' = Some nr) \<Longrightarrow>
     p \<in> set (limit_filters P reg)"
  by (auto simp: limit_filters_def arg1_filters_def)

lemma chunk_list_append:
  "length es \<le> FLUSH_CHUNK - 1 \<Longrightarrow> es \<noteq> [] \<Longrightarrow>
   \<exists>ys cs. chunk_list (es @ fs) [] = (es @ ys) # cs"
proof -
  have gen: "\<exists>ys cs. chunk_list fs ents = (ents @ ys) # cs"
    if "ents \<noteq> []" for ents fs
    using that
  proof (induction fs ents rule: chunk_list.induct)
    case (2 e es ents)
    then show ?case by (cases "length (ents @ [e]) = FLUSH_CHUNK") auto
  qed auto
  have split: "chunk_list (es @ fs) ents = chunk_list fs (ents @ es)"
    if "length ents + length es < FLUSH_CHUNK" for ents es fs
    using that by (induction es arbitrary: ents) auto
  assume "length es \<le> FLUSH_CHUNK - 1" "es \<noteq> []"
  with split [of "[]" es fs] gen [of es fs] show ?thesis
    by (auto simp: FLUSH_CHUNK_def)
qed

lemma distinct_limit_entries:
  "sysno_inj P \<Longrightarrow> distinct (map de_nr (limit_entries P l))"
  unfolding limit_entries_def gated_ents_sys_ents Let_def
  by (rule distinct_sys_ents, assumption, rule distinct_gated) (simp add: calls_defs)

lemma chunk_list_set: "c \<in> set (chunk_list es []) \<Longrightarrow> set c \<subseteq> set es"
  using arg_cong [OF chunk_list_concat [of es "[]"], of set] by auto

lemma first_limit_denied:
  assumes inj: "sysno_inj P" and e: "e \<in> set (limit_entries P l)"
    and d: "sd_arch d = audit_arch P" "sd_nr d = de_nr e" "sd_arg d (de_argn e) = de_fd e"
  shows "\<exists>f \<in> set (limit_filters P (l # reg)). bpf_run f d 0 = Some ret_eperm"
proof -
  let ?es = "limit_entries P l" and ?all = "concat (map (limit_entries P) (l # reg))"
  have "?es \<noteq> []" using e by auto
  moreover have "length ?es \<le> FLUSH_CHUNK - 1"
    using length_limit_entries [of P l] by (simp add: FLUSH_CHUNK_def)
  ultimately obtain ys cs where cs: "chunk_list ?all [] = (?es @ ys) # cs"
    using chunk_list_append [of ?es "concat (map (limit_entries P) reg)"] by auto
  then have len: "length (?es @ ys) \<le> 80"
    using chunk_list_length [of "[]" "?es @ ys" ?all] by (simp add: FLUSH_CHUNK_def)
  then obtain p where p: "entry_chunk_program P (?es @ ys) = Some p"
    using entry_chunk_program_Some by blast
  have "\<forall>e \<in> set (?es @ ys). de_argn e < 6"
    using chunk_list_set [of "?es @ ys" ?all] cs entries_argn(2) [of P] by fastforce
  from entry_chunk_run [OF len this p, of d] d
  have run: "bpf_run p d 0 = Some (fd_deny_result (?es @ ys) d (de_nr e))" by simp
  obtain us vs where uv: "?es = us @ e # vs" using e by (meson split_list)
  have "de_nr e \<notin> de_nr ` set us" using distinct_limit_entries [OF inj, of l] uv by auto
  with fd_deny_first [OF this d(3), of "vs @ ys"] run uv have "bpf_run p d 0 = Some ret_eperm" by simp
  moreover have "p \<in> set (limit_filters P (l # reg))"
    using cs p by (force simp: limit_filters_def chunk_filters_def)
  ultimately show ?thesis by blast
qed

lemma reg_lists_fds: "fst ` set (reg_lists w reg) \<subseteq> lim_fd ` set reg"
  by (induction reg) (auto simp: reg_lists_simps split: option.splits)

lemma distinct_reg_lists: "distinct (map lim_fd reg) \<Longrightarrow> distinct (map fst (reg_lists w reg))"
proof (induction reg)
  case (Cons l reg)
  then show ?case
    using reg_lists_fds [of w reg] by (auto simp: reg_lists_simps split: option.splits)
qed (simp add: reg_lists_simps)

lemma listed_cmd_denied:
  assumes reg: "reg_ok reg" "arg1_fits w reg" and l: "l \<in> set reg" "which_list w l = Some xs"
    and nr: "(w = Ioctls \<and> sysno P ''ioctl'' = Some nr) \<or> (w = Fcntls \<and> sysno P ''fcntl'' = Some nr)"
    and d: "sd_arch d = audit_arch P" "sd_nr d = nr" "sd_arg d 0 = lim_fd l"
      "sd_arg d 1 \<notin> ucast ` set xs"
  shows "\<exists>f \<in> set (limit_filters P reg). bpf_run f d 0 = Some ret_eperm"
proof -
  have len: "length reg \<le> fd_limits_max" using reg(1) by (simp add: reg_ok_def)
  have mem: "(lim_fd l, xs) \<in> set (reg_lists w reg)"
    using l by (induction reg) (auto simp: reg_lists_simps split: option.splits)
  then obtain p where p: "arg1_limits_program P nr w reg = A1_load p"
    using reg(2) by (cases "arg1_limits_program P nr w reg")
      (auto simp: arg1_limits_program_eq [OF len] arg1_fits_def Let_def split: if_splits)
  have "distinct (map fst (reg_lists w reg))"
    using reg(1) distinct_reg_lists by (simp add: reg_ok_def)
  with mem d have "arg1_decide (reg_lists w reg) d = ret_eperm"
    by (auto simp: arg1_decide_def distinct_map_of_single)
  with arg1_limits_run [OF len p, of d] d have "bpf_run p d 0 = Some ret_eperm" by simp
  with limit_filters_mem [OF p nr] show ?thesis by blast
qed

section \<open>Landlock\<close>

text \<open>A successful landlock step: the ruleset that handles the mask of the mode was created and applied.\<close>

definition landlocked :: "world \<Rightarrow> mode \<Rightarrow> sandbox \<Rightarrow> bool" where
  "landlocked W mode s \<longleftrightarrow>
     (\<exists>abi c q. 1 \<le> abi \<and> \<not> kr_ret c < 0 \<and> \<not> kr_ret q < 0 \<and>
       (K_landlock_create (landlock_handled (w_plat W) mode abi), c) \<in> set (sb_trace s) \<and>
       (K_landlock_restrict (kr_ret c), q) \<in> set (sb_trace s))"

lemma frm_trace: "frm s s' \<Longrightarrow> x \<in> set (sb_trace s) \<Longrightarrow> x \<in> set (sb_trace s')"
  by (auto simp: frm_def)

lemma k_call_trace: "k_call W c s = (q, t) \<Longrightarrow> (c, q) \<in> set (sb_trace t)"
  by (auto simp: k_call_def Let_def)

lemma landlock_bail_neg: "landlock_bail W rs s = Inr (r, s') \<Longrightarrow> r < 0"
  by (auto simp: landlock_bail_def fail_def Let_def)

lemma landlock_rules_success:
  assumes "landlock_rules W rs h fds k s = Inr (r, s')" "\<not> r < 0"
  shows "\<exists>t. frm s t \<and> k t = Inr (r, s')"
  using assms
proof (induction fds arbitrary: s)
  case (Cons fd fds)
  obtain q t where t: "k_call W (K_landlock_add_rule rs h fd) s = (q, t)" by force
  with Cons.prems landlock_bail_neg have "landlock_rules W rs h fds k t = Inr (r, s')"
    by (auto split: if_splits)
  from Cons.IH [OF this Cons.prems(2)] frm_k_callE [OF t] show ?case by (blast intro: frm_trans)
qed (auto intro: frm_refl)

lemma landlock_restrict_success:
  assumes "landlock_restrict W rs s = Inr (r, s')" "\<not> r < 0"
  shows "\<exists>q. (K_landlock_restrict rs, q) \<in> set (sb_trace s') \<and> \<not> kr_ret q < 0"
proof -
  obtain q t where t: "k_call W (K_landlock_restrict rs) s = (q, t)" by force
  with assms landlock_bail_neg have q: "\<not> kr_ret q < 0" "s' = snd (k_call W (K_close rs) t)"
    by (auto simp: landlock_restrict_def split: if_splits)
  from frm_trace [OF frm_k_call k_call_trace [OF t]] q show ?thesis by blast
qed

lemma landlock_success:
  assumes "landlock_lockdown W mode s = Inr (r, s')" "\<not> r < 0"
  shows "landlocked W mode s'"
proof -
  obtain v s1 where v: "k_call W K_landlock_version s = (v, s1)" by force
  let ?h = "landlock_handled (w_plat W) mode (kr_ret v)"
  obtain c s2 where c: "k_call W (K_landlock_create ?h) s1 = (c, s2)" by force
  from assms v c have abi: "1 \<le> kr_ret v" and rs: "\<not> kr_ret c < 0"
    and run: "landlock_apply W mode (kr_ret c) ?h s2 = Inr (r, s')"
    by (auto simp: landlock_lockdown_def fail_def Let_def split: if_splits)
  from run assms(2) obtain t1 where t1: "frm s2 t1"
    "landlock_rules W (kr_ret c) ?h (if mode = MODE_PATHS then sb_allow_fds s2 else [])
       (landlock_restrict W (kr_ret c)) t1 = Inr (r, s')"
    unfolding landlock_apply_def by (blast dest: landlock_rules_success)
  from landlock_rules_success [OF t1(2) assms(2)] obtain t2 where t2: "frm t1 t2"
    "landlock_restrict W (kr_ret c) t2 = Inr (r, s')" by blast
  have "frm s2 s'" using frm_trans [OF t1(1) t2(1)] frameD [OF frame_landlock_restrict t2(2)]
    by (rule frm_trans)
  with k_call_trace [OF c] have "(K_landlock_create ?h, c) \<in> set (sb_trace s')" by (rule frm_trace [rotated])
  with landlock_restrict_success [OF t2(2) assms(2)] abi rs show ?thesis
    unfolding landlocked_def by blast
qed

lemma enter_mode_landlocked:
  assumes "enter_mode W mode s = Inr (0, s')" "\<not> sandbox_disabled W" "\<not> sb_entered s"
  shows "landlocked W mode s'"
proof -
  let ?g = "and_then (install_namespace_filter W mode) (flush_registered_limits W)"
  from assms have "and_then (sys W K_prctl_nnp) (and_then (landlock_lockdown W mode)
      (and_then ?g (\<lambda>s. ok (s\<lparr>sb_entered := True\<rparr>)))) s = Inr (0, s')"
    by (simp add: enter_mode_def and_then_assoc)
  then obtain q t u where t: "landlock_lockdown W mode t = Inr (q, u)" "\<not> q < 0"
    and u: "and_then ?g (\<lambda>s. ok (s\<lparr>sb_entered := True\<rparr>)) u = Inr (0, s')"
    by (auto simp: and_then_Inr split: if_splits)
  from u obtain q' v where v: "?g u = Inr (q', v)" "s' = v\<lparr>sb_entered := True\<rparr>"
    by (auto simp: and_then_Inr [where f = ?g] ok_def split: if_splits)
  have "frame ?g" by (intro frame_intros)
  from frameD [OF this v(1)] landlock_success [OF t] v(2) show ?thesis
    unfolding landlocked_def by (auto dest: frm_trace)
qed

section \<open>A concrete world\<close>

definition accepting_world :: world where
  "accepting_world = \<lparr>w_plat = x86_64_linux, w_env = (\<lambda>x. None),
     w_kernel = (\<lambda>t c. \<lparr>kr_ret = (if c = K_landlock_version then 1 else 0), kr_errno = 0, kr_mode = 0\<rparr>)\<rparr>"

lemma accepting_world:
  "kernel_ok accepting_world" "w_plat accepting_world = x86_64_linux"
  "\<not> sandbox_disabled accepting_world" "has_landlock x86_64_linux"
proof -
  show "has_landlock x86_64_linux"
    by (simp add: has_landlock_def x86_64_linux_def x86_64_sysno_defs)
qed (simp_all add: accepting_world_def kernel_ok_def sandbox_disabled_def)

lemma can_enter_init: "can_enter accepting_world sb_init"
  by (simp add: can_enter_def accepting_world sb_init_def arg1_fits_def reg_lists_simps cmd_idx_max_def)

lemma reachable_init: "reachable W sb_init"
  by (simp add: reachable_def)

lemma reachable_step: "reachable W s \<Longrightarrow> shim_step W s s' \<Longrightarrow> reachable W s'"
  unfolding reachable_def by (rule rtranclp.rtrancl_into_rtrancl)

lemma entered_example:
  obtains s where "caph_enter accepting_world sb_init = Inr (0, s)" "sb_entered s"
    "reachable accepting_world s"
  using enter_mode_installs [OF accepting_world(1) sb_inv_init can_enter_init, of MODE_FULL]
  unfolding caph_enter_def [symmetric] by (metis reachable_init reachable_step shim_step.Enter)

text \<open>Limiting the standard streams before entering, and entering afterwards.\<close>

lemma stream_rights_no_lookup: "mask (stream_rights flags) AND CAP_LOOKUP = 0"
proof -
  have "CAP_FSTAT AND CAP_LOOKUP = 0" "CAP_READ AND CAP_LOOKUP = 0" "CAP_WRITE AND CAP_LOOKUP = 0"
    "CAP_PWRITE AND CAP_LOOKUP = 0" by simp_all
  then show ?thesis by (simp add: stream_rights_def bit.conj_disj_distrib2)
qed

lemma stream_registers:
  assumes ok: "kernel_ok W" and "\<not> sandbox_disabled W" "\<not> sb_entered s"
    and find: "lim_find fd (sb_limits s) = Some (i, reg)"
  shows "\<exists>s'. caph_limit_stream W fd flags s = Inr (0, s') \<and> \<not> sb_entered s' \<and>
    sb_limits s' = reg[i := restrict_limit (w_plat W) (mask (stream_rights flags)) (reg ! i)] \<and>
    sb_lookup_fds s' = sb_lookup_fds s \<and> filters s' = filters s"
proof -
  obtain q t where t: "k_call W (K_fcntl_getfd fd) s = (q, t)" by force
  obtain q' u where u: "k_call W (K_fcntl_getfd fd) t = (q', u)" by force
  have fr: "frm s u" using frm_k_callE [OF t] frm_k_callE [OF u] by (rule frm_trans)
  have "filters u = filters s"
    using filters_k_call [of "K_fcntl_getfd fd" W s] filters_k_call [of "K_fcntl_getfd fd" W t] t u by simp
  moreover have "caph_limit_stream W fd flags s = register_rights W fd (mask (stream_rights flags)) u"
    using assms(2,3) t u k_call_ret [OF ok t] k_call_ret [OF ok u] fr
    by (simp add: caph_limit_stream_def caph_rights_limit_def and_then_def sys_def ok_def
        stream_rights_no_lookup frm_sel)
  ultimately show ?thesis
    using find assms(3) fr by (simp add: register_rights_def update_limit_def ok_def frm_sel)
qed

definition stdio_limits :: "plat \<Rightarrow> registry" where
  "stdio_limits P = map (\<lambda>(fd, flags). restrict_limit P (mask (stream_rights flags))
     \<lparr>lim_fd = fd, lim_deny = 0, lim_ioctls = None, lim_fcntls = None\<rparr>)
     [(0, CAPH_READ), (1, CAPH_WRITE), (2, CAPH_WRITE)]"

lemma stdio_registers:
  assumes "kernel_ok W" "\<not> sandbox_disabled W"
  shows "\<exists>s. caph_limit_stdio W sb_init = Inr (0, s) \<and> \<not> sb_entered s \<and>
    sb_limits s = stdio_limits (w_plat W) \<and> sb_lookup_fds s = [] \<and> filters s = []"
proof -
  note reg = stream_registers [OF assms]
  have fd: "lim_fd (restrict_limit P m l) = lim_fd l" for P m l by (simp add: restrict_limit_def)
  have init: "\<not> sb_entered sb_init" "sb_limits sb_init = []" "sb_lookup_fds sb_init = []"
    "filters sb_init = []" by (simp_all add: sb_init_def filters_def)
  from reg [OF init(1), of 0 _ _ CAPH_READ] init obtain s0 where s0:
    "caph_limit_stream W 0 CAPH_READ sb_init = Inr (0, s0)" "\<not> sb_entered s0"
    "sb_limits s0 = take 1 (stdio_limits (w_plat W))" "sb_lookup_fds s0 = []" "filters s0 = []"
    by (auto simp: lim_find_def fd_limits_max_def stdio_limits_def)
  from reg [OF s0(2), of 1 _ _ CAPH_WRITE] s0 obtain s1 where s1:
    "caph_limit_stream W 1 CAPH_WRITE s0 = Inr (0, s1)" "\<not> sb_entered s1"
    "sb_limits s1 = take 2 (stdio_limits (w_plat W))" "sb_lookup_fds s1 = []" "filters s1 = []"
    by (auto simp: lim_find_def fd_limits_max_def stdio_limits_def fd)
  from reg [OF s1(2), of 2 _ _ CAPH_WRITE] s1 obtain s2 where s2:
    "caph_limit_stream W 2 CAPH_WRITE s1 = Inr (0, s2)" "\<not> sb_entered s2"
    "sb_limits s2 = stdio_limits (w_plat W)" "sb_lookup_fds s2 = []" "filters s2 = []"
    by (auto simp: lim_find_def fd_limits_max_def stdio_limits_def fd)
  from s0 s1 s2 show ?thesis
    by (simp add: caph_limit_stdio_def caph_limit_stdin_def caph_limit_stdout_def
        caph_limit_stderr_def and_then_def ok_def)
qed

lemma stdio_limits_x86_64:
  "stdio_limits x86_64_linux = (let io = Some [0x541B, 0x5451, 0x5450, 0x5401, 0x5413]; fc = Some [1, 2, 3, 4] in
     [\<lparr>lim_fd = 0, lim_deny = 0x7e, lim_ioctls = io, lim_fcntls = fc\<rparr>,
      \<lparr>lim_fd = 1, lim_deny = 0x7d, lim_ioctls = io, lim_fcntls = fc\<rparr>,
      \<lparr>lim_fd = 2, lim_deny = 0x7d, lim_ioctls = io, lim_fcntls = fc\<rparr>])"
  by (simp add: stdio_limits_def restrict_limit_def stream_rights_def deny_bits_def safe_ioctls_def
      lim_merge_def x86_64_linux_def map_filter_def Let_def)

abbreviation io_calls :: "(string \<times> nat) list" where
  "io_calls \<equiv> seek_calls @ trunc_calls @ fsync_calls @ shut_calls @ mmap_calls"

lemma stdio_entries_x86_64:
  "concat (map (limit_entries x86_64_linux) (stdio_limits x86_64_linux)) =
     sys_ents x86_64_linux 0 (write_calls @ io_calls) @
     sys_ents x86_64_linux 1 (read_calls @ io_calls) @
     sys_ents x86_64_linux 2 (read_calls @ io_calls)"
  by (simp add: stdio_limits_x86_64 limit_entries_def Let_def gated_ents_sys_ents)

lemma stdio_arg1_fits: "arg1_fits w (stdio_limits x86_64_linux)"
  by (cases w) (simp_all add: arg1_fits_def stdio_limits_x86_64 Let_def reg_lists_simps which_list_def
      cmd_idx_max_def)

abbreviation read_on :: "u64 \<Rightarrow> seccomp_data" where
  "read_on fd \<equiv> \<lparr>sd_nr = 0, sd_arch = 0xC000003E, sd_ip = 0, sd_args = [fd, 0, 0, 0, 0, 0]\<rparr>"

lemma stdio_fd_deny_read:
  "fd_deny_result (concat (map (limit_entries x86_64_linux) (stdio_limits x86_64_linux))) (read_on 1) 0 = ret_eperm"
  "fd_deny_result (concat (map (limit_entries x86_64_linux) (stdio_limits x86_64_linux))) (read_on 2) 0 = SECCOMP_RET_ALLOW"
  unfolding stdio_entries_x86_64
  by (simp_all add: sys_ents_def calls_defs x86_64_calls sd_arg_def)

lemma stdio_chunk:
  "\<exists>p. chunk_filters x86_64_linux (stdio_limits x86_64_linux) = [p] \<and>
    bpf_run p (read_on 1) 0 = Some ret_eperm \<and> bpf_run p (read_on 2) 0 = Some SECCOMP_RET_ALLOW"
proof -
  let ?es = "concat (map (limit_entries x86_64_linux) (stdio_limits x86_64_linux))"
  have len: "length ?es < FLUSH_CHUNK" "?es \<noteq> []"
    unfolding stdio_entries_x86_64
    by (simp_all add: sys_ents_def calls_defs x86_64_calls FLUSH_CHUNK_def)
  have argn: "\<forall>e \<in> set ?es. de_argn e < 6" using entries_argn(2) [of x86_64_linux] by auto
  from len(1) have len80: "length ?es \<le> 80" by (simp add: FLUSH_CHUNK_def)
  from entry_chunk_program_Some [OF this, of x86_64_linux] obtain p where
    p: "entry_chunk_program x86_64_linux ?es = Some p" by blast
  have arch: "audit_arch x86_64_linux = 0xC000003E" by (simp add: x86_64_linux_def)
  have "chunk_filters x86_64_linux (stdio_limits x86_64_linux) = [p]"
    using chunk_list_short [of "[]" ?es] len p by (simp add: chunk_filters_def del: concat_eq_Nil_conv)
  moreover note entry_chunk_run [OF len80 argn p, of "read_on 1"]
    entry_chunk_run [OF len80 argn p, of "read_on 2"]
  ultimately show ?thesis
    by (simp add: arch stdio_fd_deny_read)
qed

lemma arg1_filters_other_call:
  assumes "length reg \<le> fd_limits_max" "f \<in> set (arg1_filters P nr w reg)"
    and "sd_arch d = audit_arch P" "nr \<noteq> Some (sd_nr d)"
  shows "bpf_run f d 0 = Some SECCOMP_RET_ALLOW"
  using assms by (cases nr) (auto simp: arg1_filters_def arg1_limits_run split: arg1_result.splits)

lemma ns_full_allows_read:
  assumes "ns_program x86_64_linux MODE_FULL [] = Some p"
  shows "bpf_run p (read_on fd) 0 = Some SECCOMP_RET_ALLOW"
proof -
  have "''read'' \<notin> fst ` set (ns_rules MODE_FULL [])"
    by (simp add: ns_rules_def path_mutation_syscalls_def path_read_syscalls_def
        always_denied_syscalls_def)
  moreover have "x = ''read''" if "sysno x86_64_linux x = Some 0" for x
    by (rule sysno_injD [OF x86_64_sysno_inj that]) (simp add: x86_64_calls)
  ultimately have "ns_first_match x86_64_linux [] (ns_rules MODE_FULL []) (read_on fd)"
    by (intro ns_first_match_unlisted) (metis image_eqI seccomp_data.select_convs(1))
  moreover have "audit_arch x86_64_linux = 0xC000003E" by (simp add: x86_64_linux_def)
  ultimately have "ns_decide x86_64_linux MODE_FULL [] (read_on fd) = SECCOMP_RET_ALLOW"
    by (simp add: ns_decide_def)
  with ns_program_run [OF _ assms] show ?thesis by simp
qed

section \<open>Properties\<close>

text \<open>
  C5. In every state the program can reach through the public calls, whatever the kernel
  answers: the registry has at most 32 entries for distinct descriptors, their allowlists fit
  their arrays, the tables of lookup and path descriptors have at most 8 entries, and if the
  sandbox is marked as entered then the namespace filter of some mode is installed.
\<close>

theorem reachable_states_invariant:
  assumes "reachable W s"
  shows "reg_ok (sb_limits s) \<and> length (sb_lookup_fds s) \<le> 8 \<and> length (sb_allow_fds s) \<le> 8 \<and>
    (sb_entered s \<longrightarrow> (\<exists>mode fds p. length fds \<le> 8 \<and> ns_program (w_plat W) mode fds = Some p \<and>
      p \<in> set (filters s)))"
  using reachable_inv [OF assms] by (simp add: sb_inv_def ns_installed_def)

theorem reachable_states_invariant_witness:
  "\<exists>s. caph_enter accepting_world sb_init = Inr (0, s) \<and> reg_ok (sb_limits s) \<and>
    (\<exists>mode fds p. ns_program x86_64_linux mode fds = Some p \<and> p \<in> set (filters s))"
  by (rule entered_example) (use reachable_states_invariant accepting_world(2) in fastforce)

text \<open>
  Once the sandbox is entered, in any mode, no later sequence of calls brings the denied
  system calls back: a call of the always-denied list (\<open>execve\<close>, \<open>socket\<close>, \<open>ptrace\<close>, ...) with
  the native architecture word is not allowed by the filters the kernel then has.
\<close>

lemma entered_stays_denied:
  assumes "reachable W s" "sb_entered s" "(shim_step W)\<^sup>*\<^sup>* s t" "sysno_inj (w_plat W)"
    and "x \<in> set always_denied_syscalls" "sysno (w_plat W) x = Some (sd_nr d)"
    and "sd_arch d = audit_arch (w_plat W)"
  shows "seccomp_verdict (filters t) d \<noteq> SECCOMP_RET_ALLOW"
proof -
  from assms(1) have inv: "sb_inv W s" by (rule reachable_inv)
  with assms(2) have "ns_installed W s" by (simp add: sb_inv_def)
  from this shim.run_le [OF assms(3) inv] have "ns_installed W t" by (rule ns_installed_grows)
  with assms(4-) show ?thesis by (intro ns_installed_denies)
qed

text \<open>
  C6. No public call loosens the sandbox: a system call that is allowed after any sequence of
  calls was already allowed before it, an entered sandbox stays entered, and each registered
  limit is still there, with at least its denied groups and at most its allowed commands.
\<close>

theorem shim_calls_only_tighten:
  assumes "reachable W s" "(shim_step W)\<^sup>*\<^sup>* s t"
  shows "(seccomp_verdict (filters t) d = SECCOMP_RET_ALLOW \<longrightarrow>
      seccomp_verdict (filters s) d = SECCOMP_RET_ALLOW) \<and>
    (sb_entered s \<longrightarrow> sb_entered t) \<and> limits_le s t"
  using shim.run_le [OF assms(2) reachable_inv [OF assms(1)]] limits.run_le [OF assms(2)]
  by (auto simp: grows_verdict) (simp add: grows_def)

theorem shim_calls_only_tighten_witness:
  "\<exists>s. caph_enter accepting_world sb_init = Inr (0, s) \<and> sb_entered s \<and> limits_le sb_init s"
proof -
  obtain s where s: "caph_enter accepting_world sb_init = Inr (0, s)" "sb_entered s"
    "reachable accepting_world s" by (rule entered_example)
  from s(3) have "(shim_step accepting_world)\<^sup>*\<^sup>* sb_init s" by (simp add: reachable_def)
  from shim_calls_only_tighten [OF reachable_init this] s show ?thesis by blast
qed

text \<open>
  C7. Entering fails closed.  The first attempt to enter, in a mode, either returns \<open>-1\<close> and
  leaves the sandbox not entered, or returns \<open>0\<close> with it entered; and then the landlock
  ruleset of the mode was created and applied with success and the namespace filter of the
  mode is installed.  There is no other result, whichever system calls fail.
\<close>

theorem enter_fails_closed:
  assumes "enter_mode W mode s = Inr (r, s')" "\<not> sandbox_disabled W" "\<not> sb_entered s"
  shows "(r = - 1 \<and> \<not> sb_entered s') \<or>
    (r = 0 \<and> sb_entered s' \<and> landlocked W mode s' \<and>
      (\<exists>p. ns_program (w_plat W) mode (sb_lookup_fds s) = Some p \<and> p \<in> set (filters s')))"
  using enter_mode_result [OF assms] enter_mode_landlocked [OF _ assms(2,3)] assms(1,3)
  by (auto simp: frm_sel)

theorem enter_fails_closed_witness:
  "\<exists>s'. enter_mode accepting_world MODE_PATHS sb_init = Inr (0, s') \<and>
    landlocked accepting_world MODE_PATHS s'"
proof -
  from enter_mode_installs [OF accepting_world(1) sb_inv_init can_enter_init, of MODE_PATHS]
  obtain s' where run: "enter_mode accepting_world MODE_PATHS sb_init = Inr (0, s')" by blast
  have "\<not> sb_entered sb_init" by (simp add: sb_init_def)
  from enter_fails_closed [OF run accepting_world(3) this] run show ?thesis by auto
qed

text \<open>
  C8. Where the shim can stop the process.  In a reachable state no limit call stops it, and
  entering never aborts; entering runs into undefined behaviour only when the registered
  allowlists of one kind hold more than 96 commands in all.
\<close>

theorem shim_crash_free:
  assumes "reachable W s"
  shows "caph_rights_limit W fd rights s \<noteq> Inl c \<and> caph_ioctls_limit W fd cmds s \<noteq> Inl c \<and>
    caph_fcntls_limit W fd fr s \<noteq> Inl c \<and>
    (enter_mode W mode s = Inl c \<longrightarrow>
      c = Undef \<and> (\<exists>w. n_cmds (reg_lists w (sb_limits s)) > cmd_idx_max))"
  using reachable_inv [OF assms] safe_rights [of W fd rights] safe_limits [of W fd]
    safe_enter_mode [of W mode]
  by (auto simp: safe_def never_def overflows_def)

theorem shim_crash_free_witness:
  "\<forall>c. caph_rights_limit accepting_world 0 \<lparr>mask = CAP_READ\<rparr> sb_init \<noteq> Inl c \<and>
    enter_mode accepting_world MODE_FULL sb_init \<noteq> Inl c"
proof
  fix c
  have "n_cmds (reg_lists w (sb_limits sb_init)) \<le> cmd_idx_max" for w
    by (simp add: sb_init_def reg_lists_simps)
  with shim_crash_free [OF reachable_init, of accepting_world 0 "\<lparr>mask = CAP_READ\<rparr>" c _ _ MODE_FULL]
  show "caph_rights_limit accepting_world 0 \<lparr>mask = CAP_READ\<rparr> sb_init \<noteq> Inl c \<and>
    enter_mode accepting_world MODE_FULL sb_init \<noteq> Inl c"
    by (metis not_le)
qed

text \<open>
  With \<open>ASTROUTILS_SANDBOX=NONE\<close> in the environment every public call returns \<open>0\<close>, makes
  no system call and changes nothing.
\<close>

lemma disabled_is_noop:
  assumes "w_env W ''ASTROUTILS_SANDBOX'' = Some ''NONE''"
  shows "caph_rights_limit W fd rights s = Inr (0, s) \<and> caph_ioctls_limit W fd cmds s = Inr (0, s) \<and>
    caph_fcntls_limit W fd fr s = Inr (0, s) \<and> caph_limit_stdio W s = Inr (0, s) \<and>
    caph_enter W s = Inr (0, s) \<and> caph_enter_casper W s = Inr (0, s) \<and>
    caph_allow_path W path s = Inr (0, s) \<and> caph_enter_paths W s = Inr (0, s) \<and>
    caph_cache_tzdata W s = Inr (0, s)"
  using assms
  by (simp_all add: caph_rights_limit_def caph_ioctls_limit_def caph_fcntls_limit_def and_then_def
      caph_limit_stdio_def caph_limit_stdin_def caph_limit_stdout_def caph_limit_stderr_def
      caph_limit_stream_def caph_enter_def caph_enter_casper_def caph_allow_path_def
      caph_enter_paths_def caph_cache_tzdata_def enter_mode_def sandbox_disabled_def ok_def)

text \<open>
  C9. What a successful entry enforces.  When the kernel accepts every call and the registered
  allowlists fit, entering returns \<open>0\<close> and then: every system call group denied for the first
  registered descriptor is refused on it, and for every registered descriptor an \<open>ioctl\<close> or
  \<open>fcntl\<close> command that is not on its list is refused.
\<close>

theorem entry_enforces_limits:
  assumes "kernel_ok W" "reachable W s" "can_enter W s" "sysno_inj (w_plat W)"
    and "sd_arch d = audit_arch (w_plat W)"
    and "(\<exists>l reg e. sb_limits s = l # reg \<and> e \<in> set (limit_entries (w_plat W) l) \<and>
        sd_nr d = de_nr e \<and> sd_arg d (de_argn e) = lim_fd l) \<or>
      (\<exists>l \<in> set (sb_limits s). sysno (w_plat W) ''ioctl'' = Some (sd_nr d) \<and> sd_arg d 0 = lim_fd l \<and>
        (\<exists>xs. lim_ioctls l = Some xs \<and> sd_arg d 1 \<notin> ucast ` set xs)) \<or>
      (\<exists>l \<in> set (sb_limits s). sysno (w_plat W) ''fcntl'' = Some (sd_nr d) \<and> sd_arg d 0 = lim_fd l \<and>
        (\<exists>xs. lim_fcntls l = Some xs \<and> sd_arg d 1 \<notin> ucast ` set xs))"
  shows "\<exists>s'. enter_mode W mode s = Inr (0, s') \<and> sb_entered s' \<and>
    seccomp_verdict (filters s') d \<noteq> SECCOMP_RET_ALLOW"
proof -
  let ?P = "w_plat W" and ?reg = "sb_limits s"
  from assms(2) have inv: "sb_inv W s" by (rule reachable_inv)
  then have reg: "reg_ok ?reg" by (simp add: sb_inv_def)
  have fits: "arg1_fits Ioctls ?reg" "arg1_fits Fcntls ?reg" using assms(3) by (auto simp: can_enter_def)
  from enter_mode_installs [OF assms(1) inv assms(3)] obtain s' where
    s': "enter_mode W mode s = Inr (0, s')" "sb_entered s'" "set (limit_filters ?P ?reg) \<subseteq> set (filters s')"
    by force
  from assms(6) have "\<exists>f \<in> set (limit_filters ?P ?reg). bpf_run f d 0 = Some ret_eperm"
  proof (elim disjE exE conjE bexE)
    fix l reg e
    assume "?reg = l # reg" "e \<in> set (limit_entries ?P l)" "sd_nr d = de_nr e"
      "sd_arg d (de_argn e) = lim_fd l"
    with first_limit_denied [OF assms(4), of e l d reg] assms(5) limit_entries_fd show ?thesis by simp
  next
    fix l xs
    assume "l \<in> set ?reg" "sysno ?P ''ioctl'' = Some (sd_nr d)" "sd_arg d 0 = lim_fd l"
      "lim_ioctls l = Some xs" "sd_arg d 1 \<notin> ucast ` set xs"
    then show ?thesis
      using assms(5) by (intro listed_cmd_denied [OF reg fits(1)]) (auto simp: which_list_def)
  next
    fix l xs
    assume "l \<in> set ?reg" "sysno ?P ''fcntl'' = Some (sd_nr d)" "sd_arg d 0 = lim_fd l"
      "lim_fcntls l = Some xs" "sd_arg d 1 \<notin> ucast ` set xs"
    then show ?thesis
      using assms(5) by (intro listed_cmd_denied [OF reg fits(2)]) (auto simp: which_list_def)
  qed
  with s' show ?thesis using verdict_denied_by by blast
qed

theorem entry_enforces_limits_witness:
  "\<exists>s s'. caph_limit_stdio accepting_world sb_init = Inr (0, s) \<and>
    enter_mode accepting_world MODE_FULL s = Inr (0, s') \<and>
    seccomp_verdict (filters s')
      \<lparr>sd_nr = 1, sd_arch = 0xC000003E, sd_ip = 0, sd_args = [0, 0, 0, 0, 0, 0]\<rparr> \<noteq> SECCOMP_RET_ALLOW"
proof -
  let ?d = "\<lparr>sd_nr = 1, sd_arch = 0xC000003E, sd_ip = 0, sd_args = [0, 0, 0, 0, 0, 0]\<rparr> :: seccomp_data"
  let ?e = "\<lparr>de_nr = 1, de_argn = 0, de_fd = 0\<rparr> :: deny_ent"
  from stdio_registers [OF accepting_world(1,3), unfolded accepting_world(2)] obtain s where
    s: "caph_limit_stdio accepting_world sb_init = Inr (0, s)" "\<not> sb_entered s"
      "sb_limits s = stdio_limits x86_64_linux" by blast
  have can: "can_enter accepting_world s"
    using s by (simp add: can_enter_def accepting_world stdio_arg1_fits)
  obtain l reg where l: "sb_limits s = l # reg" "lim_fd l = 0" "lim_deny l = 0x7e"
    using s(3) by (simp add: stdio_limits_x86_64 Let_def)
  have "?e \<in> set (limit_entries x86_64_linux l)"
    using l(2,3) by (simp add: limit_entries_def gated_ents_def sys_ents_def calls_defs x86_64_calls)
  with entry_enforces_limits [OF accepting_world(1) reachable_step [OF reachable_init shim_step.Stdio [OF s(1)]]
      can, unfolded accepting_world(2), OF x86_64_sysno_inj, of ?d MODE_FULL] l s(1)
  show ?thesis by (fastforce simp: sd_arg_def x86_64_linux_def)
qed

text \<open>
  C10. On x86_64, after \<open>caph_limit_stdio\<close> and \<open>caph_enter\<close> have both succeeded, the registry says
  that reading descriptor 2 is denied, and reading descriptor 1 is; yet the installed filters
  allow \<open>read\<close> on descriptor 2.
\<close>

theorem stdio_leaves_stderr_readable:
  assumes "kernel_ok W" "\<not> sandbox_disabled W" "w_plat W = x86_64_linux"
  shows "\<exists>s s'. caph_limit_stdio W sb_init = Inr (0, s) \<and> caph_enter W s = Inr (0, s') \<and>
    (\<exists>l \<in> set (sb_limits s). lim_fd l = 2 \<and> lim_deny l AND LDENY_RD \<noteq> 0) \<and>
    seccomp_verdict (filters s') (read_on 1) \<noteq> SECCOMP_RET_ALLOW \<and>
    seccomp_verdict (filters s') (read_on 2) = SECCOMP_RET_ALLOW"
proof -
  let ?P = x86_64_linux and ?reg = "stdio_limits x86_64_linux"
  from stdio_registers [OF assms(1,2)] assms(3) obtain s where
    s: "caph_limit_stdio W sb_init = Inr (0, s)" "\<not> sb_entered s"
      "sb_limits s = ?reg" "sb_lookup_fds s = []" "filters s = []" by auto
  have can: "can_enter W s"
    using s assms(2,3) by (simp add: can_enter_def accepting_world(4) stdio_arg1_fits)
  have inv: "sb_inv W s"
    by (rule reachable_inv [OF reachable_step [OF reachable_init shim_step.Stdio [OF s(1)]]])
  obtain p where p: "ns_program ?P MODE_FULL [] = Some p"
    using ns_program_Some [of "[]"] by auto
  from enter_mode_installs [OF assms(1) inv can, of MODE_FULL] s p assms(3) obtain s' where
    s': "caph_enter W s = Inr (0, s')" "filters s' = limit_filters ?P ?reg @ [p]"
    by (auto simp: caph_enter_def)
  obtain c where c: "chunk_filters ?P ?reg = [c]" "bpf_run c (read_on 1) 0 = Some ret_eperm"
    "bpf_run c (read_on 2) 0 = Some SECCOMP_RET_ALLOW" using stdio_chunk by blast
  then have fs: "set (filters s') = insert p (insert c
      (set (arg1_filters ?P (Some 72) Fcntls ?reg) \<union> set (arg1_filters ?P (Some 16) Ioctls ?reg)))"
    by (auto simp: s'(2) limit_filters_def x86_64_calls)
  have len: "length ?reg \<le> fd_limits_max" by (simp add: stdio_limits_def fd_limits_max_def)
  have arch: "sd_arch (read_on 2) = audit_arch ?P" by (simp add: x86_64_linux_def)
  have "\<forall>f \<in> set (filters s'). bpf_run f (read_on 2) 0 = Some SECCOMP_RET_ALLOW"
    unfolding fs using c(3) ns_full_allows_read [OF p] arg1_filters_other_call [OF len _ arch]
    by auto
  moreover have "seccomp_verdict (filters s') (read_on 1) \<noteq> SECCOMP_RET_ALLOW"
    using verdict_denied_by [OF _ c(2)] fs by auto
  moreover have "\<exists>l \<in> set (sb_limits s). lim_fd l = 2 \<and> lim_deny l AND LDENY_RD \<noteq> 0"
    by (simp add: s(3) stdio_limits_x86_64 Let_def)
  ultimately show ?thesis
    using s(1) s'(1) by (auto simp: verdict_allow_no_deny)
qed

theorem stdio_leaves_stderr_readable_witness:
  "\<exists>s s'. caph_limit_stdio accepting_world sb_init = Inr (0, s) \<and>
    caph_enter accepting_world s = Inr (0, s') \<and>
    seccomp_verdict (filters s') (read_on 2) = SECCOMP_RET_ALLOW"
  using stdio_leaves_stderr_readable [OF accepting_world(1,3,2)] by blast

end
