(* ===== verification/Setmode.thy ===== *)
theory Setmode
  imports Prelude
begin

text \<open>
  \<open>src/src.freebsd/compat/setmode.c\<close>: parsing of octal and symbolic file modes into an array of
  bit commands (\<open>setmode\<close>), its compression (\<open>compress_mode\<close>) and the application of the
  commands to a mode (\<open>getmode\<close>).

  The command array is the list of the commands before the terminating \<open>'\0'\<close> command; the
  length of the list is \<open>set - saveset\<close>, and \<open>setlen\<close> is kept beside it, so a store beyond the
  allocation is an error value.  \<open>addcmd\<close> leaves \<open>cmd2\<close> of the commands \<open>+ - X\<close> unset and
  nothing reads it; it is 0 here.  Success of the allocator is a parameter.  An input string is
  the list of its characters before the NUL.
\<close>

abbreviation S_ISUID :: u32 where "S_ISUID \<equiv> 0x800"
abbreviation S_ISGID :: u32 where "S_ISGID \<equiv> 0x400"
abbreviation S_ISTXT :: u32 where "S_ISTXT \<equiv> 0x200"
abbreviation S_IRWXU :: u32 where "S_IRWXU \<equiv> 0x1C0"
abbreviation S_IRWXG :: u32 where "S_IRWXG \<equiv> 0x38"
abbreviation S_IRWXO :: u32 where "S_IRWXO \<equiv> 0x7"
abbreviation S_IRUSR :: u32 where "S_IRUSR \<equiv> 0x100"
abbreviation S_IRGRP :: u32 where "S_IRGRP \<equiv> 0x20"
abbreviation S_IROTH :: u32 where "S_IROTH \<equiv> 0x4"
abbreviation S_IFDIR :: u32 where "S_IFDIR \<equiv> 0x4000"
abbreviation R_BITS :: u32 where "R_BITS \<equiv> 0x124"
abbreviation W_BITS :: u32 where "W_BITS \<equiv> 0x92"
abbreviation X_BITS :: u32 where "X_BITS \<equiv> 0x49"

definition STANDARD_BITS :: u32 where
  "STANDARD_BITS = S_ISUID OR S_ISGID OR S_IRWXU OR S_IRWXG OR S_IRWXO"

abbreviation CMD2_CLR :: u8 where "CMD2_CLR \<equiv> 0x01"
abbreviation CMD2_SET :: u8 where "CMD2_SET \<equiv> 0x02"
abbreviation CMD2_GBITS :: u8 where "CMD2_GBITS \<equiv> 0x04"
abbreviation CMD2_OBITS :: u8 where "CMD2_OBITS \<equiv> 0x08"
abbreviation CMD2_UBITS :: u8 where "CMD2_UBITS \<equiv> 0x10"

record bitcmd =
  bc_cmd :: char
  bc_cmd2 :: u8
  bc_bits :: u32

section \<open>Applying the commands\<close>

text \<open>The code at the label \<open>common\<close>.\<close>

definition copy_bits :: "bitcmd \<Rightarrow> u32 \<Rightarrow> u32 \<Rightarrow> u32" where
  "copy_bits sp value newmode =
     (let cmd2 = bc_cmd2 sp; bits = bc_bits sp;
          newmode =
            (if cmd2 AND CMD2_CLR \<noteq> 0 then
               let clrval = (if cmd2 AND CMD2_SET \<noteq> 0 then S_IRWXO else value);
                   newmode = (if cmd2 AND CMD2_UBITS \<noteq> 0
                     then newmode AND NOT (push_bit 6 clrval AND bits) else newmode);
                   newmode = (if cmd2 AND CMD2_GBITS \<noteq> 0
                     then newmode AND NOT (push_bit 3 clrval AND bits) else newmode)
               in if cmd2 AND CMD2_OBITS \<noteq> 0 then newmode AND NOT (clrval AND bits) else newmode
             else newmode)
      in if cmd2 AND CMD2_SET \<noteq> 0 then
           let newmode = (if cmd2 AND CMD2_UBITS \<noteq> 0
                 then newmode OR (push_bit 6 value AND bits) else newmode);
               newmode = (if cmd2 AND CMD2_GBITS \<noteq> 0
                 then newmode OR (push_bit 3 value AND bits) else newmode)
           in if cmd2 AND CMD2_OBITS \<noteq> 0 then newmode OR (value AND bits) else newmode
         else newmode)"

fun getmode_loop :: "bitcmd list \<Rightarrow> u32 \<Rightarrow> u32 \<Rightarrow> u32" where
  "getmode_loop [] omode newmode = newmode"
| "getmode_loop (sp # rest) omode newmode =
     (if bc_cmd sp = CHR ''u''
      then getmode_loop rest omode (copy_bits sp (drop_bit 6 (newmode AND S_IRWXU)) newmode)
      else if bc_cmd sp = CHR ''g''
      then getmode_loop rest omode (copy_bits sp (drop_bit 3 (newmode AND S_IRWXG)) newmode)
      else if bc_cmd sp = CHR ''o''
      then getmode_loop rest omode (copy_bits sp (newmode AND S_IRWXO) newmode)
      else if bc_cmd sp = CHR ''+'' then getmode_loop rest omode (newmode OR bc_bits sp)
      else if bc_cmd sp = CHR ''-'' then getmode_loop rest omode (newmode AND NOT (bc_bits sp))
      else if bc_cmd sp = CHR ''X''
      then getmode_loop rest omode
        (if omode AND (S_IFDIR OR X_BITS) \<noteq> 0 then newmode OR bc_bits sp else newmode)
      else newmode)"

definition getmode :: "bitcmd list \<Rightarrow> u32 \<Rightarrow> u32" where
  "getmode bbox omode = getmode_loop bbox omode omode"

section \<open>Compression\<close>

text \<open>The inner loop: the bits of a run of \<open>+ - X\<close> commands, and what follows the run.\<close>

fun compress_run :: "bitcmd list \<Rightarrow> u32 \<Rightarrow> u32 \<Rightarrow> u32 \<Rightarrow> u32 \<times> u32 \<times> u32 \<times> bitcmd list" where
  "compress_run [] setbits clrbits Xbits = (setbits, clrbits, Xbits, [])"
| "compress_run (c # cs) setbits clrbits Xbits =
     (let b = bc_bits c in
      if bc_cmd c = CHR ''-''
      then compress_run cs (setbits AND NOT b) (clrbits OR b) (Xbits AND NOT b)
      else if bc_cmd c = CHR ''+''
      then compress_run cs (setbits OR b) (clrbits AND NOT b) (Xbits AND NOT b)
      else if bc_cmd c = CHR ''X''
      then compress_run cs setbits clrbits (Xbits OR (b AND NOT setbits))
      else (setbits, clrbits, Xbits, c # cs))"

definition bit_op :: "char \<Rightarrow> bool" where
  "bit_op c \<longleftrightarrow> c = CHR ''+'' \<or> c = CHR ''-'' \<or> c = CHR ''X''"

definition put_cmd :: "char \<Rightarrow> u32 \<Rightarrow> bitcmd list" where
  "put_cmd c b = (if b \<noteq> 0 then [\<lparr>bc_cmd = c, bc_cmd2 = 0, bc_bits = b\<rparr>] else [])"

lemma compress_run_length:
  "compress_run cs s c x = (s', c', x', rest) \<Longrightarrow> length rest \<le> length cs"
  by (induction cs arbitrary: s c x) (fastforce simp: Let_def split: if_splits)+

lemma compress_run_consumes:
  assumes "(s', k', x', rest) = compress_run (c # cs) s k x" "bit_op (bc_cmd c)"
  shows "length rest < length (c # cs)"
proof -
  from assms have "\<exists>s k x. compress_run cs s k x = (s', k', x', rest)"
    by (auto simp: bit_op_def Let_def split: if_splits)
  then show ?thesis by (auto dest: compress_run_length)
qed

function compress_mode :: "bitcmd list \<Rightarrow> bitcmd list" where
  "compress_mode [] = []"
| "compress_mode (c # cs) =
     (if \<not> bit_op (bc_cmd c)
      then if bc_cmd c = CHR 0x00 then [] else c # compress_mode cs
      else case compress_run (c # cs) 0 0 0 of (setbits, clrbits, Xbits, nset) \<Rightarrow>
        put_cmd (CHR ''-'') clrbits @ put_cmd (CHR ''+'') setbits @ put_cmd (CHR ''X'') Xbits @
        compress_mode nset)"
  by pat_completeness auto
termination
  by (relation "measure length") (use compress_run_consumes in fastforce)+

section \<open>Building the command array\<close>

datatype setmode_error = SM_EINVAL | SM_ERANGE | SM_ENOMEM | SM_overrun

type_synonym cmdbuf = "bitcmd list \<times> nat"

definition chr32 :: "char \<Rightarrow> u32" where
  "chr32 c = of_nat (of_char c)"

text \<open>The commands that \<open>addcmd\<close> stores from \<open>set\<close> on.\<close>

definition addcmd :: "char \<Rightarrow> u32 \<Rightarrow> u32 \<Rightarrow> u32 \<Rightarrow> bitcmd list" where
  "addcmd op who oparg umsk =
     (if op = CHR ''='' then
        [\<lparr>bc_cmd = CHR ''-'', bc_cmd2 = 0, bc_bits = (if who \<noteq> 0 then who else STANDARD_BITS)\<rparr>,
         \<lparr>bc_cmd = CHR ''+'', bc_cmd2 = 0, bc_bits = (if who \<noteq> 0 then who else umsk) AND oparg\<rparr>]
      else if op \<in> {CHR ''+'', CHR ''-'', CHR ''X''} then
        [\<lparr>bc_cmd = op, bc_cmd2 = 0, bc_bits = (if who \<noteq> 0 then who else umsk) AND oparg\<rparr>]
      else
        [\<lparr>bc_cmd = op,
          bc_cmd2 =
            (if who \<noteq> 0 then
               (if who AND S_IRUSR \<noteq> 0 then CMD2_UBITS else 0) OR
               (if who AND S_IRGRP \<noteq> 0 then CMD2_GBITS else 0) OR
               (if who AND S_IROTH \<noteq> 0 then CMD2_OBITS else 0)
             else CMD2_UBITS OR CMD2_GBITS OR CMD2_OBITS) OR
            (if oparg = chr32 (CHR ''+'') then CMD2_SET
             else if oparg = chr32 (CHR ''-'') then CMD2_CLR
             else if oparg = chr32 (CHR ''='') then CMD2_SET OR CMD2_CLR else 0),
          bc_bits = (if who \<noteq> 0 then NOT 0 else umsk)\<rparr>])"

definition store_cmds :: "cmdbuf \<Rightarrow> bitcmd list \<Rightarrow> setmode_error + cmdbuf" where
  "store_cmds buf new =
     (case buf of (cs, setlen) \<Rightarrow>
        if length cs + length new > setlen then Inl SM_overrun else Inr (cs @ new, setlen))"

definition SET_LEN :: nat where "SET_LEN = 6"
definition SET_LEN_INCR :: nat where "SET_LEN_INCR = 4"

definition ADDCMD ::
    "(nat \<Rightarrow> bool) \<Rightarrow> u32 \<Rightarrow> char \<Rightarrow> u32 \<Rightarrow> u32 \<Rightarrow> cmdbuf \<Rightarrow> setmode_error + cmdbuf" where
  "ADDCMD alloc umsk a b c buf =
     (case buf of (cs, setlen) \<Rightarrow>
        if length cs \<ge> setlen - 2
        then if alloc (setlen + SET_LEN_INCR)
          then store_cmds (cs, setlen + SET_LEN_INCR) (addcmd a b c umsk)
          else Inl SM_ENOMEM
        else store_cmds (cs, setlen) (addcmd a b c umsk))"

section \<open>Parsing\<close>

fun who_loop :: "string \<Rightarrow> u32 \<Rightarrow> u32 \<times> string" where
  "who_loop [] who = (who, [])"
| "who_loop (c # p) who =
     (if c = CHR ''a'' then who_loop p (who OR STANDARD_BITS)
      else if c = CHR ''u'' then who_loop p (who OR S_ISUID OR S_IRWXU)
      else if c = CHR ''g'' then who_loop p (who OR S_ISGID OR S_IRWXG)
      else if c = CHR ''o'' then who_loop p (who OR S_IRWXO)
      else (who, c # p))"

record perm_state =
  ps_who :: u32
  ps_perm :: u32
  ps_X :: u32
  ps_eq :: bool
  ps_buf :: cmdbuf

definition add_to ::
    "(nat \<Rightarrow> bool) \<Rightarrow> u32 \<Rightarrow> char \<Rightarrow> u32 \<Rightarrow> perm_state \<Rightarrow> setmode_error + perm_state" where
  "add_to alloc umsk a c st =
     err_bind (ADDCMD alloc umsk a (ps_who st) c (ps_buf st)) (\<lambda>buf. Inr (st\<lparr>ps_buf := buf\<rparr>))"

text \<open>The \<open>default\<close> case of the permission loop, before \<open>goto apply\<close>.\<close>

definition perm_done ::
    "(nat \<Rightarrow> bool) \<Rightarrow> u32 \<Rightarrow> char \<Rightarrow> perm_state \<Rightarrow> setmode_error + perm_state" where
  "perm_done alloc umsk op st =
     err_bind
       (if ps_perm st \<noteq> 0 \<or> (op = CHR ''='' \<and> \<not> ps_eq st)
        then err_bind (add_to alloc umsk op (ps_perm st) st)
          (\<lambda>st. Inr (st\<lparr>ps_perm := 0, ps_eq := ps_eq st \<or> op = CHR ''=''\<rparr>))
        else Inr st)
       (\<lambda>st. if ps_X st \<noteq> 0
             then err_bind (add_to alloc umsk (CHR ''X'') (ps_X st) st) (\<lambda>st. Inr (st\<lparr>ps_X := 0\<rparr>))
             else Inr st)"

text \<open>The case \<open>'u'\<close>, \<open>'g'\<close>, \<open>'o'\<close>: flush what is pending, then add the copy.\<close>

definition perm_copy ::
    "(nat \<Rightarrow> bool) \<Rightarrow> u32 \<Rightarrow> char \<Rightarrow> char \<Rightarrow> perm_state \<Rightarrow> setmode_error + perm_state" where
  "perm_copy alloc umsk op c st =
     err_bind
       (if ps_perm st \<noteq> 0
        then err_bind (add_to alloc umsk op (ps_perm st) st) (\<lambda>st. Inr (st\<lparr>ps_perm := 0\<rparr>))
        else Inr st)
       (\<lambda>st. let st = (if op = CHR ''='' then st\<lparr>ps_eq := True\<rparr> else st) in
         err_bind
           (if op = CHR ''+'' \<and> ps_X st \<noteq> 0
            then err_bind (add_to alloc umsk (CHR ''X'') (ps_X st) st) (\<lambda>st. Inr (st\<lparr>ps_X := 0\<rparr>))
            else Inr st)
           (add_to alloc umsk c (chr32 op)))"

text \<open>One turn of the permission loop; \<open>None\<close> is the \<open>default\<close> case.\<close>

definition perm_case ::
    "(nat \<Rightarrow> bool) \<Rightarrow> u32 \<Rightarrow> char \<Rightarrow> char \<Rightarrow> perm_state \<Rightarrow> setmode_error + perm_state option" where
  "perm_case alloc umsk op c st =
     (let set_id = ps_who st = 0 \<or> ps_who st AND NOT S_IRWXO \<noteq> 0 in
      if c = CHR ''r'' then Inr (Some (st\<lparr>ps_perm := ps_perm st OR R_BITS\<rparr>))
      else if c = CHR ''s''
      then Inr (Some (if set_id then st\<lparr>ps_perm := ps_perm st OR S_ISUID OR S_ISGID\<rparr> else st))
      else if c = CHR ''t''
      then Inr (Some (if set_id
        then st\<lparr>ps_who := ps_who st OR S_ISTXT, ps_perm := ps_perm st OR S_ISTXT\<rparr> else st))
      else if c = CHR ''w'' then Inr (Some (st\<lparr>ps_perm := ps_perm st OR W_BITS\<rparr>))
      else if c = CHR ''X'' then Inr (Some (st\<lparr>ps_X := X_BITS\<rparr>))
      else if c = CHR ''x'' then Inr (Some (st\<lparr>ps_perm := ps_perm st OR X_BITS\<rparr>))
      else if c \<in> {CHR ''u'', CHR ''g'', CHR ''o''}
      then err_bind (perm_copy alloc umsk op c st) (\<lambda>st. Inr (Some st))
      else Inr None)"

primrec perm_loop ::
    "(nat \<Rightarrow> bool) \<Rightarrow> u32 \<Rightarrow> char \<Rightarrow> string \<Rightarrow> perm_state \<Rightarrow> setmode_error + perm_state \<times> string" where
  "perm_loop alloc umsk op [] st =
     err_bind (perm_done alloc umsk op st) (\<lambda>st. Inr (st, []))"
| "perm_loop alloc umsk op (c # p) st =
     err_bind (perm_case alloc umsk op c st) (\<lambda>r. case r of
        Some st \<Rightarrow> perm_loop alloc umsk op p st
      | None \<Rightarrow> err_bind (perm_done alloc umsk op st) (\<lambda>st. Inr (st, c # p)))"

lemma who_loop_length: "who_loop p w = (w', p') \<Longrightarrow> length p' \<le> length p"
  by (induction p arbitrary: w) (fastforce split: if_splits)+

lemma perm_loop_length: "perm_loop alloc umsk op p st = Inr (st', p') \<Longrightarrow> length p' \<le> length p"
  by (induction p arbitrary: st) (fastforce simp: err_bind_Inr split: option.splits)+

text \<open>
  The clauses, from the label \<open>getop\<close> on: an operator, its permissions, and then the end of the
  string, a comma and the next clause, or another operator for the same \<open>who\<close>.
\<close>

function getop ::
    "(nat \<Rightarrow> bool) \<Rightarrow> u32 \<Rightarrow> string \<Rightarrow> u32 \<Rightarrow> bool \<Rightarrow> cmdbuf \<Rightarrow> setmode_error + cmdbuf" where
  "getop alloc umsk [] who eq buf = Inl SM_EINVAL"
| "getop alloc umsk (op # p) who eq buf =
     (if op \<notin> {CHR ''+'', CHR ''-'', CHR ''=''} then Inl SM_EINVAL
      else case perm_loop alloc umsk op p
          \<lparr>ps_who = who AND NOT S_ISTXT, ps_perm = 0, ps_X = 0,
           ps_eq = (op \<noteq> CHR ''='' \<and> eq), ps_buf = buf\<rparr> of
        Inl e \<Rightarrow> Inl e
      | Inr (st, []) \<Rightarrow> Inr (ps_buf st)
      | Inr (st, c # p') \<Rightarrow>
          if c = CHR '',''
          then case who_loop p' 0 of (who, p'') \<Rightarrow> getop alloc umsk p'' who (ps_eq st) (ps_buf st)
          else getop alloc umsk (c # p') (ps_who st) (ps_eq st) (ps_buf st))"
  by pat_completeness auto
termination
  by (relation "measure (\<lambda>(alloc, umsk, p, who, eq, buf). length p)")
    (fastforce dest: perm_loop_length who_loop_length [OF sym])+

text \<open>
  \<open>strtol(p, &ep, 8)\<close> on a string that starts with a digit: the value before clamping and the
  rest of the string.
\<close>

definition octal_digit :: "char \<Rightarrow> int option" where
  "octal_digit c = (let n = of_char c in if 48 \<le> n \<and> n \<le> 55 then Some (n - 48) else None)"

fun strtol8 :: "string \<Rightarrow> int \<Rightarrow> int \<times> string" where
  "strtol8 [] n = (n, [])"
| "strtol8 (c # p) n =
     (case octal_digit c of Some d \<Rightarrow> strtol8 p (8 * n + d) | None \<Rightarrow> (n, c # p))"

abbreviation LONG_MAX :: int where "LONG_MAX \<equiv> 0x7FFFFFFFFFFFFFFF"

text \<open>
  The umask is read by setting it to 0 and back with all signals blocked.
\<close>

record proc =
  pr_umask :: u32
  pr_blocked :: u64

definition get_current_umask :: "proc \<Rightarrow> u32 \<times> proc" where
  "get_current_umask pr =
     (let sigoset = pr_blocked pr;
          pr = pr\<lparr>pr_blocked := pr_blocked pr OR NOT 0\<rparr>;
          m = pr_umask pr;
          pr = pr\<lparr>pr_umask := 0\<rparr>;
          pr = pr\<lparr>pr_umask := m AND 0x1FF\<rparr>;
          pr = pr\<lparr>pr_blocked := sigoset\<rparr>
      in (m, pr))"

definition setmode :: "(nat \<Rightarrow> bool) \<Rightarrow> proc \<Rightarrow> string \<Rightarrow> setmode_error + bitcmd list" where
  "setmode alloc pr p =
     (if p = [] then Inl SM_EINVAL
      else
        let umsk = NOT (fst (get_current_umask pr)); setlen = SET_LEN + 2; all = STANDARD_BITS OR S_ISTXT in
        if \<not> alloc setlen then Inl SM_ENOMEM
        else if isdigit (hd p) then
          (case strtol8 p 0 of (perml, ep) \<Rightarrow>
             if ep \<noteq> [] then Inl SM_EINVAL
             else if perml > LONG_MAX then Inl SM_ERANGE
             else if (of_int perml :: u64) AND NOT (ucast all) \<noteq> 0 then Inl SM_EINVAL
             else err_bind (ADDCMD alloc umsk (CHR ''='') all (of_int perml) ([], setlen))
               (\<lambda>(cs, setlen). if length cs < setlen then Inr cs else Inl SM_overrun))
        else
          (case who_loop p 0 of (who, p) \<Rightarrow>
             err_bind (getop alloc umsk p who False ([], setlen))
               (\<lambda>(cs, setlen). if length cs < setlen then Inr (compress_mode cs)
                               else Inl SM_overrun)))"

section \<open>Compression keeps the meaning\<close>

definition run_effect :: "u32 \<Rightarrow> u32 \<Rightarrow> u32 \<Rightarrow> u32 \<Rightarrow> u32 \<Rightarrow> u32" where
  "run_effect omode s k x m =
     ((m AND NOT k) OR s) OR (if omode AND (S_IFDIR OR X_BITS) \<noteq> 0 then x else 0)"

lemma run_effect_step [mode_simps]:
  "run_effect om (s AND NOT b) (k OR b) (x AND NOT b) m = run_effect om s k x m AND NOT b"
  "run_effect om (s OR b) (k AND NOT b) (x AND NOT b) m = run_effect om s k x m OR b"
  "run_effect om s k (x OR (b AND NOT s)) m =
     (if om AND (S_IFDIR OR X_BITS) \<noteq> 0 then run_effect om s k x m OR b else run_effect om s k x m)"
  by (auto simp: run_effect_def bit_eq_iff bit_simps)

lemma compress_run_effect:
  "compress_run cs s k x = (s', k', x', rest) \<Longrightarrow>
   getmode_loop cs om (run_effect om s k x m) = getmode_loop rest om (run_effect om s' k' x' m)"
proof (induction cs arbitrary: s k x)
  case (Cons c cs)
  let ?b = "bc_bits c"
  consider "bc_cmd c = CHR ''-''" | "bc_cmd c = CHR ''+''" | "bc_cmd c = CHR ''X''"
    | "\<not> bit_op (bc_cmd c)" by (auto simp: bit_op_def)
  then show ?case
  proof cases
    case 1
    with Cons.prems Cons.IH [of "s AND NOT ?b" "k OR ?b" "x AND NOT ?b"] show ?thesis
      by (simp add: run_effect_step Let_def)
  next
    case 2
    with Cons.prems Cons.IH [of "s OR ?b" "k AND NOT ?b" "x AND NOT ?b"] show ?thesis
      by (simp add: run_effect_step Let_def)
  next
    case 3
    with Cons.prems Cons.IH [of s k "x OR (?b AND NOT s)"] show ?thesis
      unfolding run_effect_step by (simp add: Let_def)
  next
    case 4
    with Cons.prems show ?thesis by (auto simp: bit_op_def)
  qed
qed simp

lemma getmode_put_cmds:
  "getmode_loop (put_cmd (CHR ''-'') k @ put_cmd (CHR ''+'') s @ put_cmd (CHR ''X'') x @ cs) om m =
   getmode_loop cs om (run_effect om s k x m)"
  by (simp add: put_cmd_def run_effect_def)

lemma compress_mode_getmode_loop: "getmode_loop (compress_mode cs) om m = getmode_loop cs om m"
proof (induction cs arbitrary: m rule: compress_mode.induct)
  case (2 c cs)
  show ?case
  proof (cases "bit_op (bc_cmd c)")
    case True
    obtain s k x rest where run: "compress_run (c # cs) 0 0 0 = (s, k, x, rest)"
      by (metis prod_cases4)
    have "getmode_loop (compress_mode (c # cs)) om m =
        getmode_loop (compress_mode rest) om (run_effect om s k x m)"
      using True run by (simp add: getmode_put_cmds del: compress_run.simps)
    also have "\<dots> = getmode_loop rest om (run_effect om s k x m)"
      using 2(2) True run by simp
    also have "\<dots> = getmode_loop (c # cs) om (run_effect om 0 0 0 m)"
      using compress_run_effect [OF run] by simp
    also have "run_effect om 0 0 0 m = m" by (simp add: run_effect_def)
    finally show ?thesis .
  next
    case False
    then show ?thesis
      using 2(1) by (auto simp: bit_op_def)
  qed
qed simp

text \<open>
  The code compresses in place: it never writes past what it has read, since each kind of
  command written out for a run occurred in it.
\<close>

definition nz :: "u32 \<Rightarrow> nat" where
  "nz w = (if w = 0 then 0 else 1)"

lemma nz_le: "nz (s AND NOT b) \<le> nz s" "nz w \<le> 1"
  by (auto simp: nz_def)

lemma length_compress_run:
  "compress_run cs s k x = (s', k', x', rest) \<Longrightarrow>
   length rest + nz s' + nz k' + nz x' \<le> length cs + nz s + nz k + nz x"
proof (induction cs arbitrary: s k x)
  case (Cons c cs)
  let ?b = "bc_bits c"
  consider "bc_cmd c = CHR ''-''" | "bc_cmd c = CHR ''+''" | "bc_cmd c = CHR ''X''"
    | "\<not> bit_op (bc_cmd c)" by (auto simp: bit_op_def)
  then show ?case
  proof cases
    case 1
    with Cons.prems Cons.IH [of "s AND NOT ?b" "k OR ?b" "x AND NOT ?b"]
      nz_le(1) [of s ?b] nz_le(1) [of x ?b] nz_le(2) [of "k OR ?b"] show ?thesis
      by (simp add: Let_def)
  next
    case 2
    with Cons.prems Cons.IH [of "s OR ?b" "k AND NOT ?b" "x AND NOT ?b"]
      nz_le(1) [of k ?b] nz_le(1) [of x ?b] nz_le(2) [of "s OR ?b"] show ?thesis
      by (simp add: Let_def)
  next
    case 3
    with Cons.prems Cons.IH [of s k "x OR (?b AND NOT s)"] nz_le(2) [of "x OR (?b AND NOT s)"]
    show ?thesis by (simp add: Let_def)
  next
    case 4
    with Cons.prems show ?thesis by (auto simp: bit_op_def)
  qed
qed simp

lemma length_put_cmd: "length (put_cmd c b) = nz b"
  by (simp add: put_cmd_def nz_def)

lemma length_compress_mode: "length (compress_mode cs) \<le> length cs"
proof (induction cs rule: compress_mode.induct)
  case (2 c cs)
  show ?case
  proof (cases "bit_op (bc_cmd c)")
    case True
    obtain s k x rest where run: "compress_run (c # cs) 0 0 0 = (s, k, x, rest)"
      by (metis prod_cases4)
    with 2(2) True have "length (compress_mode rest) \<le> length rest" by simp
    moreover have "nz 0 = 0" by (simp add: nz_def)
    ultimately show ?thesis
      using length_compress_run [OF run] True run
      by (simp add: length_put_cmd del: compress_run.simps)
  next
    case False
    with 2(1) show ?thesis by auto
  qed
qed simp

section \<open>What the parser builds\<close>

text \<open>
  \<open>good P r\<close>: the step does not overrun the array, and its result satisfies \<open>P\<close>.
\<close>

abbreviation ALLBITS :: u32 where "ALLBITS \<equiv> 0xFFF"

definition in_all :: "u32 \<Rightarrow> bool" where
  "in_all b \<longleftrightarrow> b AND NOT ALLBITS = 0"

definition cmd_ok :: "bitcmd \<Rightarrow> bool" where
  "cmd_ok c \<longleftrightarrow> (bit_op (bc_cmd c) \<and> in_all (bc_bits c)) \<or> bc_cmd c \<in> {CHR ''u'', CHR ''g'', CHR ''o''}"

definition buf_ok :: "cmdbuf \<Rightarrow> bool" where
  "buf_ok buf \<longleftrightarrow> (case buf of (cs, setlen) \<Rightarrow> 8 \<le> setlen \<and> length cs < setlen \<and> list_all cmd_ok cs)"

definition st_ok :: "perm_state \<Rightarrow> bool" where
  "st_ok st \<longleftrightarrow> in_all (ps_who st) \<and> in_all (ps_perm st) \<and> in_all (ps_X st) \<and> buf_ok (ps_buf st)"

definition good :: "('a \<Rightarrow> bool) \<Rightarrow> setmode_error + 'a \<Rightarrow> bool" where
  "good P r \<longleftrightarrow> (case r of Inl e \<Rightarrow> e \<noteq> SM_overrun | Inr x \<Rightarrow> P x)"

lemma good_simps [simp]: "good P (Inr x) = P x" "good P (Inl e) = (e \<noteq> SM_overrun)"
  by (simp_all add: good_def)

lemma good_bind: "good Q r \<Longrightarrow> (\<And>x. Q x \<Longrightarrow> good P (f x)) \<Longrightarrow> good P (err_bind r f)"
  by (cases r) auto

lemma in_all_simps [simp]:
  "in_all (a OR b) \<longleftrightarrow> in_all a \<and> in_all b"
  "in_all b \<Longrightarrow> in_all (a AND b)" "in_all a \<Longrightarrow> in_all (a AND b)"
  "in_all 0" "in_all STANDARD_BITS" "in_all S_ISUID" "in_all S_ISGID" "in_all S_ISTXT"
  "in_all S_IRWXU" "in_all S_IRWXG" "in_all S_IRWXO" "in_all R_BITS" "in_all W_BITS" "in_all X_BITS"
  "in_all 0x9C0" "in_all 0x438" "in_all 0xC00" "in_all ALLBITS"
proof -
  have alt: "in_all b \<longleftrightarrow> (\<forall>n. bit b n \<longrightarrow> bit ALLBITS n)" for b
    unfolding in_all_def word_mask_zero_iff using bit_imp_le_length [of b] by (auto simp: bit_simps)
  show "in_all (a OR b) \<longleftrightarrow> in_all a \<and> in_all b" by (auto simp: alt bit_simps)
  show "in_all b \<Longrightarrow> in_all (a AND b)" "in_all a \<Longrightarrow> in_all (a AND b)" by (auto simp: alt bit_simps)
qed (simp_all add: in_all_def STANDARD_BITS_def)

lemma addcmd_ok:
  assumes "in_all who" "a \<in> {CHR ''='', CHR ''+'', CHR ''-'', CHR ''X''} \<Longrightarrow> in_all c"
    and "a \<in> set ''=+-Xugo''"
  shows "list_all cmd_ok (addcmd a who c umsk)" "length (addcmd a who c umsk) \<le> 2"
  using assms by (auto simp: addcmd_def cmd_ok_def bit_op_def)

lemma ADDCMD_good:
  assumes "buf_ok buf" "in_all who" "a \<in> {CHR ''='', CHR ''+'', CHR ''-'', CHR ''X''} \<Longrightarrow> in_all c"
    and "a \<in> set ''=+-Xugo''"
  shows "good buf_ok (ADDCMD alloc umsk a who c buf)"
proof -
  obtain cs n where buf: "buf = (cs, n)" by force
  from addcmd_ok [OF assms(2-4), of umsk] assms(1) show ?thesis
    by (auto simp: buf ADDCMD_def store_cmds_def buf_ok_def SET_LEN_INCR_def)
qed

lemma add_to_good:
  assumes "st_ok st" "a \<in> {CHR ''='', CHR ''+'', CHR ''-'', CHR ''X''} \<Longrightarrow> in_all c"
    and "a \<in> set ''=+-Xugo''"
  shows "good (\<lambda>st'. st_ok st') (add_to alloc umsk a c st)"
  unfolding add_to_def
  by (rule good_bind [OF ADDCMD_good]) (use assms in \<open>auto simp: st_ok_def\<close>)

lemma st_ok_updates [simp]:
  "st_ok st \<Longrightarrow> in_all b \<Longrightarrow> st_ok (st\<lparr>ps_perm := b\<rparr>)"
  "st_ok st \<Longrightarrow> in_all b \<Longrightarrow> st_ok (st\<lparr>ps_who := b\<rparr>)"
  "st_ok st \<Longrightarrow> in_all b \<Longrightarrow> st_ok (st\<lparr>ps_X := b\<rparr>)"
  "st_ok st \<Longrightarrow> st_ok (st\<lparr>ps_eq := q\<rparr>)"
  by (simp_all add: st_ok_def)

lemma st_okD: "st_ok st \<Longrightarrow> in_all (ps_who st)" "st_ok st \<Longrightarrow> in_all (ps_perm st)"
  "st_ok st \<Longrightarrow> in_all (ps_X st)" "st_ok st \<Longrightarrow> buf_ok (ps_buf st)"
  by (simp_all add: st_ok_def)

definition opc :: "char \<Rightarrow> bool" where
  "opc op \<longleftrightarrow> op \<in> {CHR ''+'', CHR ''-'', CHR ''=''}"

lemma add_op_good:
  assumes "st_ok st" "opc op"
  shows "good st_ok (add_to alloc umsk op (ps_perm st) st)"
    and "good st_ok (add_to alloc umsk (CHR ''X'') (ps_X st) st)"
  using assms by (auto intro!: add_to_good simp: st_okD opc_def)

lemma perm_done_good:
  assumes "st_ok st" "opc op"
  shows "good st_ok (perm_done alloc umsk op st)"
  unfolding perm_done_def
  by (rule good_bind [where Q = st_ok])
    (use assms in \<open>auto intro!: good_bind [OF add_op_good(1)] good_bind [OF add_op_good(2)]\<close>)

lemma perm_copy_good:
  assumes "st_ok st" "opc op" "c \<in> {CHR ''u'', CHR ''g'', CHR ''o''}"
  shows "good st_ok (perm_copy alloc umsk op c st)"
proof -
  have 1: "good st_ok (add_to alloc umsk c (chr32 op) st)" if "st_ok st" for st
    using that assms(3) by (auto intro!: add_to_good)
  have 2: "good st_ok (if op = CHR ''+'' \<and> ps_X st \<noteq> 0
      then err_bind (add_to alloc umsk (CHR ''X'') (ps_X st) st) (\<lambda>st. Inr (st\<lparr>ps_X := 0\<rparr>))
      else Inr st)" if "st_ok st" for st
    using that assms(2) by (simp add: good_bind [OF add_op_good(2)])
  have 3: "good st_ok (if ps_perm st \<noteq> 0
      then err_bind (add_to alloc umsk op (ps_perm st) st) (\<lambda>st. Inr (st\<lparr>ps_perm := 0\<rparr>))
      else Inr st)"
    using assms(1,2) by (simp add: good_bind [OF add_op_good(1)])
  show ?thesis
    unfolding perm_copy_def Let_def
    by (rule good_bind [OF 3], rule good_bind [OF 2], simp split: if_splits, rule 1)
qed

lemma perm_case_good:
  assumes "st_ok st" "opc op"
  shows "good (pred_option st_ok) (perm_case alloc umsk op c st)"
  using assms by (auto simp: perm_case_def Let_def st_okD intro!: good_bind [OF perm_copy_good])

lemma perm_loop_good:
  assumes "st_ok st" "opc op"
  shows "good (\<lambda>(st, p). st_ok st) (perm_loop alloc umsk op p st)"
  using assms(1)
proof (induction p arbitrary: st)
  case Nil
  then show ?case by (auto intro!: good_bind [OF perm_done_good] simp: assms(2))
next
  case (Cons c p)
  then show ?case
    by (auto intro!: good_bind [OF perm_case_good] good_bind [OF perm_done_good] simp: assms(2)
        split: option.split)
qed

lemma who_loop_ok: "who_loop p w = (w', p') \<Longrightarrow> in_all w \<Longrightarrow> in_all w'"
  by (induction p arbitrary: w) (auto split: if_splits)

lemma getop_good:
  "buf_ok buf \<Longrightarrow> in_all who \<Longrightarrow> good buf_ok (getop alloc umsk p who eq buf)"
proof (induction alloc umsk p who eq buf rule: getop.induct)
  case (2 alloc umsk op p who eq buf)
  let ?st = "\<lparr>ps_who = who AND NOT S_ISTXT, ps_perm = 0, ps_X = 0,
        ps_eq = (op \<noteq> CHR ''='' \<and> eq), ps_buf = buf\<rparr>"
  show ?case
  proof (cases "opc op \<and> (\<exists>x. perm_loop alloc umsk op p ?st = Inr x)")
    case True
    then obtain st q where run: "perm_loop alloc umsk op p ?st = Inr (st, q)" and op: "opc op" by auto
    have "st_ok ?st" using "2.prems" by (simp add: st_ok_def)
    from perm_loop_good [OF this op, of alloc umsk p] run have st: "st_ok st" by simp
    show ?thesis
    proof (cases q)
      case Nil
      with run op st show ?thesis by (simp add: opc_def st_okD)
    next
      case (Cons c p')
      obtain w p'' where w: "who_loop p' 0 = (w, p'')" by force
      then have "in_all w" by (rule who_loop_ok) simp
      then have 1: "good buf_ok (getop alloc umsk p'' w (ps_eq st) (ps_buf st))" if "c = CHR '',''"
        using "2.IH"(1) [OF _ run _ Cons] op st w that by (auto simp: opc_def st_okD)
      have 2: "good buf_ok (getop alloc umsk (c # p') (ps_who st) (ps_eq st) (ps_buf st))"
        if "c \<noteq> CHR '',''"
        using "2.IH"(2) [OF _ run _ Cons] op st that by (auto simp: opc_def st_okD)
      from run op w Cons 1 2 show ?thesis by (auto simp: opc_def)
    qed
  next
    case False
    with "2.prems" perm_loop_good [of ?st op alloc umsk p] show ?thesis
      by (auto simp: opc_def st_ok_def split: sum.splits)
  qed
qed simp

section \<open>What the commands change\<close>

definition high :: "u32 \<Rightarrow> u32" where
  "high m = m AND NOT ALLBITS"

lemma masked_bits: "b AND NOT (mask k) = 0 \<longleftrightarrow> (\<forall>n. bit b n \<longrightarrow> n < k)" for b :: u32
  unfolding word_mask_zero_iff using bit_imp_le_length [of b] by (auto simp: bit_simps)

lemma in_all_bits: "in_all b \<longleftrightarrow> (\<forall>n. bit b n \<longrightarrow> n < 12)"
  using masked_bits [of b 12] by (simp add: in_all_def mask_numeral)

lemma high_unchanged:
  assumes "in_all b"
  shows "high (m OR b) = high m" "high (m AND NOT b) = high m"
  using assms unfolding high_def in_all_def by (auto simp: bit_eq_iff bit_simps)

lemma in_all_shift:
  assumes "v AND NOT S_IRWXO = 0" "k \<le> 9"
  shows "in_all (push_bit k v)"
  using assms masked_bits [of v 3] by (fastforce simp: in_all_bits bit_simps mask_numeral)

lemma copy_bits_high:
  assumes "v AND NOT S_IRWXO = 0"
  shows "high (copy_bits c v m) = high m"
proof -
  have o: "S_IRWXO AND NOT S_IRWXO = 0" by simp
  have in_all: "in_all (w AND b)" "in_all (push_bit 3 w AND b)" "in_all (push_bit 6 w AND b)"
    if "w \<in> {v, S_IRWXO}" for w b
    using that in_all_shift [OF assms, of 0] in_all_shift [OF assms, of 3] in_all_shift [OF assms, of 6]
      in_all_shift [OF o, of 0] in_all_shift [OF o, of 3] in_all_shift [OF o, of 6]
    by (auto simp del: push_bit_numeral)
  let ?w = "if bc_cmd2 c AND CMD2_SET \<noteq> 0 then S_IRWXO else v"
  have w: "?w \<in> {v, S_IRWXO}" "v \<in> {v, S_IRWXO}" by auto
  show ?thesis
    unfolding copy_bits_def Let_def
    by (simp only: if_distrib [of high] high_unchanged in_all [OF w(1)] in_all [OF w(2)] if_cancel)
qed

lemma drop_masked:
  fixes g m :: u32
  assumes "g AND NOT (mask (3 + k)) = 0"
  shows "drop_bit k (m AND g) AND NOT S_IRWXO = 0"
proof -
  from assms have "bit g n \<Longrightarrow> n < 3 + k" for n unfolding masked_bits by blast
  then have "bit (drop_bit k (m AND g)) n \<Longrightarrow> n < 3" for n
    by (fastforce simp: bit_simps)
  with masked_bits [of "drop_bit k (m AND g)" 3] show ?thesis by (simp add: mask_numeral)
qed

lemma getmode_loop_high:
  "list_all cmd_ok cs \<Longrightarrow> high (getmode_loop cs om m) = high m"
proof (induction cs arbitrary: m)
  case (Cons c cs)
  have v: "(m AND S_IRWXO) AND NOT S_IRWXO = 0" "drop_bit 3 (m AND S_IRWXG) AND NOT S_IRWXO = 0"
    "drop_bit 6 (m AND S_IRWXU) AND NOT S_IRWXO = 0" for m :: u32
    using drop_masked [of S_IRWXO 0 m] drop_masked [of S_IRWXG 3 m] drop_masked [of S_IRWXU 6 m]
    by (simp_all add: mask_numeral)
  from Cons show ?case
    by (auto simp: cmd_ok_def bit_op_def copy_bits_high [OF v(1)] copy_bits_high [OF v(2)]
        copy_bits_high [OF v(3)] high_unchanged)
qed simp

section \<open>Octal modes\<close>

definition octal_value :: "string \<Rightarrow> int" where
  "octal_value p = foldl (\<lambda>n c. 8 * n + (of_char c - 48)) 0 p"

lemma octal_digit_range: "octal_digit c \<noteq> None \<longleftrightarrow> 48 \<le> (of_char c :: int) \<and> (of_char c :: int) \<le> 55"
  by (simp add: octal_digit_def Let_def)

lemma strtol8_all:
  "list_all (\<lambda>c. octal_digit c \<noteq> None) p \<Longrightarrow>
   strtol8 p n = (foldl (\<lambda>n c. 8 * n + (of_char c - 48)) n p, [])"
proof (induction p arbitrary: n)
  case (Cons c p)
  then have "octal_digit c = Some (of_char c - 48)"
    by (auto simp: octal_digit_def Let_def split: if_splits)
  with Cons show ?case by simp
qed simp

lemma octal_value_nonneg:
  "list_all (\<lambda>c. octal_digit c \<noteq> None) p \<Longrightarrow> 0 \<le> n \<Longrightarrow>
   0 \<le> foldl (\<lambda>n c. 8 * n + (of_char c - 48)) (n :: int) p"
proof (induction p arbitrary: n)
  case (Cons c p)
  then have "48 \<le> (of_char c :: int)" using octal_digit_range [of c] by simp
  with Cons show ?case by simp
qed simp

lemma octal_is_digit: "octal_digit c \<noteq> None \<Longrightarrow> isdigit c"
  unfolding octal_digit_range by (simp add: isdigit_def)

lemma fits_allbits:
  assumes "0 \<le> v" "v \<le> LONG_MAX"
  shows "(of_int v :: u64) AND NOT 0xFFF = 0 \<longleftrightarrow> v \<le> 0xFFF"
proof -
  have "(of_int v :: u64) AND NOT (mask 12) = 0 \<longleftrightarrow> take_bit 12 (of_int v :: u64) = of_int v"
    by (auto simp: bit_eq_iff bit_simps word_mask_zero_iff)
  also have "\<dots> \<longleftrightarrow> v < 2 ^ 12"
    using assms by (subst take_bit_self_iff) (simp add: uint_of_int_small)
  finally show ?thesis by (auto simp: mask_numeral)
qed

section \<open>Properties\<close>

text \<open>
  C18. \<open>compress_mode\<close> does not change what a command array does to any mode, for any array of
  commands, and never needs more room than the array it compresses in place.
\<close>

theorem compress_mode_preserves_getmode:
  "getmode (compress_mode cs) omode = getmode cs omode \<and> length (compress_mode cs) \<le> length cs"
  by (simp add: getmode_def compress_mode_getmode_loop length_compress_mode)


text \<open>
  Whatever mode string was accepted, \<open>getmode\<close> never changes bits of the mode outside the
  twelve permission bits: the file type is kept.
\<close>

lemma getmode_keeps_file_type:
  assumes "setmode alloc pr p = Inr cs"
  shows "getmode cs omode AND NOT 0xFFF = omode AND NOT 0xFFF"
proof -
  let ?umsk = "NOT (fst (get_current_umask pr))"
  have "list_all cmd_ok cs \<or> (\<exists>cs'. cs = compress_mode cs' \<and> list_all cmd_ok cs')"
  proof (cases "isdigit (hd p)")
    case True
    with assms show ?thesis
      by (auto simp: setmode_def Let_def err_bind_Inr ADDCMD_def store_cmds_def SET_LEN_def addcmd_def
          cmd_ok_def bit_op_def STANDARD_BITS_def split: if_splits prod.splits)
  next
    case False
    obtain who q where w: "who_loop p 0 = (who, q)" by force
    have "good buf_ok (getop alloc ?umsk q who False ([], SET_LEN + 2))"
      using who_loop_ok [OF w] by (auto intro!: getop_good simp: buf_ok_def SET_LEN_def)
    with assms False w show ?thesis
      by (auto simp: setmode_def Let_def err_bind_Inr buf_ok_def split: if_splits prod.splits)
  qed
  then show ?thesis
    using getmode_loop_high [of _ omode omode]
    by (auto simp: getmode_def high_def compress_mode_getmode_loop)
qed

text \<open>
  A string of octal digits is accepted exactly if its value is at most 07777, whatever the
  umask; the resulting commands set the twelve permission bits to that value.
\<close>

lemma setmode_octal:
  assumes "p \<noteq> []" "list_all (\<lambda>c. octal_digit c \<noteq> None) p" "alloc (SET_LEN + 2)"
  shows "if octal_value p \<le> 0xFFF
    then \<exists>cs. setmode alloc pr p = Inr cs \<and>
      (\<forall>om. getmode cs om = (om AND NOT 0xFFF) OR of_int (octal_value p))
    else setmode alloc pr p \<in> {Inl SM_EINVAL, Inl SM_ERANGE}"
proof -
  let ?v = "octal_value p"
  have dig: "isdigit (hd p)" using assms(1,2) by (cases p) (auto intro: octal_is_digit)
  have run: "strtol8 p 0 = (?v, [])" and v: "0 \<le> ?v"
    using strtol8_all [OF assms(2)] octal_value_nonneg [OF assms(2)] by (simp_all add: octal_value_def)
  have all: "STANDARD_BITS OR S_ISTXT = 0xFFF" by (simp add: STANDARD_BITS_def)
  show ?thesis
  proof (cases "?v \<le> 0xFFF")
    case True
    then have "(of_int ?v :: u64) AND NOT 0xFFF = 0" using fits_allbits v by auto
    moreover have "0xFFF AND (of_int ?v :: u32) = of_int ?v"
    proof -
      have "take_bit 12 (of_int ?v :: u32) = of_int ?v"
        using v True by (subst take_bit_self_iff) (simp add: uint_of_int_small)
      then show ?thesis by (simp add: take_bit_eq_mask mask_numeral and.commute)
    qed
    ultimately show ?thesis
      using True assms(1,3) dig run v all
      by (simp add: setmode_def Let_def ADDCMD_def store_cmds_def SET_LEN_def addcmd_def getmode_def
          SET_LEN_INCR_def)
  next
    case False
    then have "?v \<le> LONG_MAX \<Longrightarrow> (of_int ?v :: u64) AND NOT 0xFFF \<noteq> 0" using fits_allbits v by auto
    then show ?thesis
      using False assms(1,3) dig run all by (simp add: setmode_def Let_def)
  qed
qed

text \<open>
  Two corners of symbolic modes, for any umask.  \<open>a-X\<close> sets the execute bits of a file that
  has any of them, instead of being ignored.  In a clause without \<open>who\<close>, the permission \<open>t\<close>
  makes the clause apply to the sticky bit only: \<open>+rt\<close> does not add the read bits.
\<close>

lemma symbolic_corner_cases:
  "(\<exists>cs. setmode (\<lambda>n. True) pr ''a-X'' = Inr cs \<and> getmode cs 0x40 = 0x49) \<and>
   (\<exists>cs. setmode (\<lambda>n. True) pr ''+rt'' = Inr cs \<and> getmode cs 0 = S_ISTXT)"
  by (simp add: setmode_def Let_def isdigit_def perm_case_def perm_done_def add_to_def ADDCMD_def
      store_cmds_def SET_LEN_def addcmd_def STANDARD_BITS_def getmode_def bit_op_def put_cmd_def)

end
