(* ===== verification/Strmode.thy ===== *)
theory Strmode
  imports Setmode
begin

text \<open>
  \<open>src/src.freebsd/compat/strmode.c\<close>: the ten-character text of a file mode as \<open>ls -l\<close> prints
  it, with the blank at the end.  The target defines \<open>S_IFIFO\<close> and not \<open>S_IFWHT\<close>.
\<close>

abbreviation S_IFMT :: u32 where "S_IFMT \<equiv> 0xF000"
abbreviation S_IFCHR :: u32 where "S_IFCHR \<equiv> 0x2000"
abbreviation S_IFBLK :: u32 where "S_IFBLK \<equiv> 0x6000"
abbreviation S_IFREG :: u32 where "S_IFREG \<equiv> 0x8000"
abbreviation S_IFLNK :: u32 where "S_IFLNK \<equiv> 0xA000"
abbreviation S_IFSOCK :: u32 where "S_IFSOCK \<equiv> 0xC000"
abbreviation S_IFIFO :: u32 where "S_IFIFO \<equiv> 0x1000"

definition type_char :: "u32 \<Rightarrow> char" where
  "type_char mode =
     (let t = mode AND S_IFMT in
      if t = S_IFDIR then CHR ''d''
      else if t = S_IFCHR then CHR ''c''
      else if t = S_IFBLK then CHR ''b''
      else if t = S_IFREG then CHR ''-''
      else if t = S_IFLNK then CHR ''l''
      else if t = S_IFSOCK then CHR ''s''
      else if t = S_IFIFO then CHR ''p''
      else CHR ''?'')"

definition flag_char :: "u32 \<Rightarrow> u32 \<Rightarrow> char \<Rightarrow> char" where
  "flag_char mode b c = (if mode AND b \<noteq> 0 then c else CHR ''-'')"

text \<open>The \<open>switch\<close> on an execute bit together with the set-id or sticky bit.\<close>

definition exec_char :: "u32 \<Rightarrow> u32 \<Rightarrow> u32 \<Rightarrow> char \<Rightarrow> char \<Rightarrow> char" where
  "exec_char mode x s upper lower =
     (let v = mode AND (x OR s) in
      if v = 0 then CHR ''-'' else if v = x then CHR ''x'' else if v = s then upper else lower)"

definition strmode :: "u32 \<Rightarrow> string" where
  "strmode mode =
     [type_char mode,
      flag_char mode 0x100 (CHR ''r''), flag_char mode 0x80 (CHR ''w''),
      exec_char mode 0x40 S_ISUID (CHR ''S'') (CHR ''s''),
      flag_char mode 0x20 (CHR ''r''), flag_char mode 0x10 (CHR ''w''),
      exec_char mode 0x8 S_ISGID (CHR ''S'') (CHR ''s''),
      flag_char mode 0x4 (CHR ''r''), flag_char mode 0x2 (CHR ''w''),
      exec_char mode 0x1 S_ISTXT (CHR ''T'') (CHR ''t''),
      CHR '' '']"

lemma flag_char_eq:
  "c \<noteq> CHR ''-'' \<Longrightarrow> flag_char m (2 ^ n) c = flag_char m' (2 ^ n) c \<longleftrightarrow> bit m n = bit m' n"
  by (simp add: flag_char_def and_exp_eq_0)

lemma and_two_bits:
  fixes m :: u32
  assumes "i \<noteq> j" "i < 32" "j < 32"
  shows "m AND (2 ^ i OR 2 ^ j) =
    (if bit m i then 2 ^ i else 0) OR (if bit m j then 2 ^ j else 0)"
  using assms by (intro bit_word_eqI) (auto simp: bit_simps)

lemma exec_char_eq:
  assumes "i \<noteq> j" "i < 32" "j < 32" "distinct [CHR ''-'', CHR ''x'', u, l]"
  shows "exec_char m (2 ^ i) (2 ^ j) u l = exec_char m' (2 ^ i) (2 ^ j) u l \<longleftrightarrow>
    bit m i = bit m' i \<and> bit m j = bit m' j"
proof -
  have ne: "(2 :: u32) ^ i \<noteq> 0" "(2 :: u32) ^ j \<noteq> 0" "(2 :: u32) ^ i \<noteq> 2 ^ j"
    "(2 :: u32) ^ i OR 2 ^ j \<noteq> 0" "(2 :: u32) ^ i OR 2 ^ j \<noteq> 2 ^ i" "(2 :: u32) ^ i OR 2 ^ j \<noteq> 2 ^ j"
    using assms(1-3) by (auto simp: bit_eq_iff bit_simps)
  have "exec_char m (2 ^ i) (2 ^ j) u l =
      (if bit m i then if bit m j then l else CHR ''x'' else if bit m j then u else CHR ''-'')" for m
    using ne ne(3) [symmetric] by (simp add: exec_char_def and_two_bits [OF assms(1-3)] Let_def)
  with assms(4) show ?thesis by auto
qed

section \<open>Properties\<close>

text \<open>
  The text of a mode is eleven characters, and it determines the twelve permission bits: two
  modes print alike exactly if they agree on all of them and their types print alike.
\<close>

lemma strmode_faithful:
  "length (strmode m) = 11 \<and>
   (strmode m = strmode m' \<longleftrightarrow> m AND 0xFFF = m' AND 0xFFF \<and> type_char m = type_char m')"
proof -
  have "strmode m = strmode m' \<longleftrightarrow> type_char m = type_char m' \<and>
      bit m 8 = bit m' 8 \<and> bit m 7 = bit m' 7 \<and> bit m 6 = bit m' 6 \<and> bit m 11 = bit m' 11 \<and>
      bit m 5 = bit m' 5 \<and> bit m 4 = bit m' 4 \<and> bit m 3 = bit m' 3 \<and> bit m 10 = bit m' 10 \<and>
      bit m 2 = bit m' 2 \<and> bit m 1 = bit m' 1 \<and> bit m 0 = bit m' 0 \<and> bit m 9 = bit m' 9"
    using flag_char_eq [of "CHR ''r''" m 8 m'] flag_char_eq [of "CHR ''w''" m 7 m']
      exec_char_eq [of 6 11 "CHR ''S''" "CHR ''s''" m m']
      flag_char_eq [of "CHR ''r''" m 5 m'] flag_char_eq [of "CHR ''w''" m 4 m']
      exec_char_eq [of 3 10 "CHR ''S''" "CHR ''s''" m m']
      flag_char_eq [of "CHR ''r''" m 2 m'] flag_char_eq [of "CHR ''w''" m 1 m']
      exec_char_eq [of 0 9 "CHR ''T''" "CHR ''t''" m m']
    by (simp add: strmode_def)
  moreover have "m AND 0xFFF = m' AND 0xFFF \<longleftrightarrow> (\<forall>n < 12. bit m n = bit m' n)"
  proof -
    have "m AND 0xFFF = take_bit 12 m" for m :: u32 by (simp add: take_bit_eq_mask mask_numeral)
    moreover have "take_bit 12 m = take_bit 12 m' \<longleftrightarrow> (\<forall>n < 12. bit m n = bit m' n)"
    proof
      assume eq: "take_bit 12 m = take_bit 12 m'"
      show "\<forall>n < 12. bit m n = bit m' n"
      proof (intro allI impI)
        fix n :: nat assume "n < 12"
        with arg_cong [OF eq, of "\<lambda>w. bit w n"] show "bit m n = bit m' n" by (simp add: bit_simps)
      qed
    qed (auto intro!: bit_word_eqI simp: bit_simps)
    ultimately show ?thesis by simp
  qed
  moreover have "(\<forall>n < 12. bit m n = bit m' n) \<longleftrightarrow>
      (\<forall>n \<in> {0, 1, 2, 3, 4, 5, 6, 7, 8, 9, 10, 11}. bit m n = bit m' n)"
  proof -
    have "{..<12} = {0, 1, 2, 3, 4, 5, 6, 7, 8, 9, 10, 11 :: nat}"
      by (simp add: lessThan_Suc numeral_eq_Suc insert_commute)
    then show ?thesis by (metis lessThan_iff)
  qed
  ultimately show ?thesis
    by (simp add: strmode_def) blast
qed

end
