(* ===== verification/B64.thy ===== *)
theory B64
  imports Prelude
begin

text \<open>
  \<open>src/src.compat/b64.c\<close>: base-64 encoding (\<open>compat_b64_ntop\<close>) and decoding
  (\<open>compat_b64_pton\<close>) into buffers of a given size.

  The encoder's target is the list of the characters stored so far, \<open>datalength\<close> its length.
  The decoder's target is an array of \<open>targsize\<close> bytes, or \<open>None\<close> for a null pointer; the
  result is the error \<open>Minus1\<close> (the code returns \<open>-1\<close>) or \<open>Oob\<close> (an access outside of the
  array), or the index and the array.  A string is the list of its characters before the NUL.
\<close>

definition Base64 :: string where
  "Base64 = ''ABCDEFGHIJKLMNOPQRSTUVWXYZabcdefghijklmnopqrstuvwxyz0123456789+/''"

definition Pad64 :: char where
  "Pad64 = CHR ''=''"

section \<open>Encoding\<close>

definition b64_char :: "u8 \<Rightarrow> char" where
  "b64_char v = Base64 ! unat v"

definition out0 :: "u8 \<Rightarrow> u8" where
  "out0 a = drop_bit 2 a"

definition out1 :: "u8 \<Rightarrow> u8 \<Rightarrow> u8" where
  "out1 a b = push_bit 4 (a AND 0x03) + drop_bit 4 b"

definition out2 :: "u8 \<Rightarrow> u8 \<Rightarrow> u8" where
  "out2 b c = push_bit 2 (b AND 0x0f) + drop_bit 6 c"

definition out3 :: "u8 \<Rightarrow> u8" where
  "out3 c = c AND 0x3f"

text \<open>The end of the function: the NUL must fit too.\<close>

definition ntop_finish :: "string \<Rightarrow> nat \<Rightarrow> string option" where
  "ntop_finish target targsize = (if length target \<ge> targsize then None else Some target)"

text \<open>What is left after the groups of three, with zeros for the missing bytes.\<close>

definition ntop_tail :: "u8 list \<Rightarrow> string \<Rightarrow> nat \<Rightarrow> string option" where
  "ntop_tail src target targsize =
     (if src = [] then ntop_finish target targsize
      else
        let a = hd src; b = (if length src > 1 then src ! 1 else 0); c = 0 in
        if length target + 4 > targsize then None
        else ntop_finish
          (target @ [b64_char (out0 a), b64_char (out1 a b),
             (if length src = 1 then Pad64 else b64_char (out2 b c)), Pad64]) targsize)"

fun ntop_loop :: "u8 list \<Rightarrow> string \<Rightarrow> nat \<Rightarrow> string option" where
  "ntop_loop (a # b # c # src) target targsize =
     (if length target + 4 > targsize then None
      else ntop_loop src
        (target @ [b64_char (out0 a), b64_char (out1 a b), b64_char (out2 b c), b64_char (out3 c)])
        targsize)"
| "ntop_loop src target targsize = ntop_tail src target targsize"

definition compat_b64_ntop :: "u8 list \<Rightarrow> nat \<Rightarrow> string option" where
  "compat_b64_ntop src targsize = ntop_loop src [] targsize"

section \<open>Decoding\<close>

datatype b64_error = Minus1 | Oob

definition b64_pos :: "char \<Rightarrow> u8 option" where
  "b64_pos ch = map_option of_nat (find_index (\<lambda>c. c = ch) Base64)"

text \<open>Array accesses, out of range as an error.\<close>

definition get8 :: "u8 list \<Rightarrow> nat \<Rightarrow> b64_error + u8" where
  "get8 t i = (if i < length t then Inr (t ! i) else Inl Oob)"

definition put8 :: "u8 list \<Rightarrow> nat \<Rightarrow> u8 \<Rightarrow> b64_error + u8 list" where
  "put8 t i v = (if i < length t then Inr (t[i := v]) else Inl Oob)"

definition or8 :: "u8 list \<Rightarrow> nat \<Rightarrow> u8 \<Rightarrow> b64_error + u8 list" where
  "or8 t i v = err_bind (get8 t i) (\<lambda>x. put8 t i (x OR v))"

text \<open>The stores of one decoded character into a target that is not null.\<close>

definition pton_store :: "nat \<Rightarrow> u8 \<Rightarrow> nat \<Rightarrow> u8 list \<Rightarrow> b64_error + u8 list" where
  "pton_store state pos tarindex target =
     (if state = 0 then
        if tarindex \<ge> length target then Inl Minus1
        else put8 target tarindex (push_bit 2 pos)
      else if state = 1 then
        if tarindex + 1 \<ge> length target then Inl Minus1
        else err_bind (or8 target tarindex (drop_bit 4 pos))
          (\<lambda>t. put8 t (tarindex + 1) (push_bit 4 (pos AND 0x0f)))
      else if state = 2 then
        if tarindex + 1 \<ge> length target then Inl Minus1
        else err_bind (or8 target tarindex (drop_bit 2 pos))
          (\<lambda>t. put8 t (tarindex + 1) (push_bit 6 (pos AND 0x03)))
      else
        if tarindex \<ge> length target then Inl Minus1
        else or8 target tarindex pos)"

type_synonym pton_state = "nat \<times> nat \<times> u8 list option"

definition pton_step :: "u8 \<Rightarrow> pton_state \<Rightarrow> b64_error + pton_state" where
  "pton_step pos st =
     (case st of (state, tarindex, target) \<Rightarrow>
        err_bind
          (case target of None \<Rightarrow> Inr None
           | Some t \<Rightarrow> err_bind (pton_store state pos tarindex t) (\<lambda>t. Inr (Some t)))
          (\<lambda>target. Inr ((state + 1) mod 4, (if state = 0 then tarindex else tarindex + 1), target)))"

text \<open>
  The loop ends at the NUL or behind a pad character; the result is the state and, in the second
  case, what follows the pad.
\<close>

fun pton_loop :: "string \<Rightarrow> pton_state \<Rightarrow> b64_error + pton_state \<times> string option" where
  "pton_loop [] st = Inr (st, None)"
| "pton_loop (ch # src) st =
     (if isspace ch then pton_loop src st
      else if ch = Pad64 then Inr (st, Some src)
      else case b64_pos ch of
          None \<Rightarrow> Inl Minus1
        | Some pos \<Rightarrow> err_bind (pton_step pos st) (pton_loop src))"

text \<open>The code after a pad: only padding and white space, and no bits left over.\<close>

definition pton_slop :: "string \<Rightarrow> pton_state \<Rightarrow> b64_error + nat \<times> u8 list option" where
  "pton_slop src st =
     (case st of (state, tarindex, target) \<Rightarrow>
        if \<not> list_all isspace src then Inl Minus1
        else case target of
            None \<Rightarrow> Inr (tarindex, None)
          | Some t \<Rightarrow> err_bind (get8 t tarindex)
              (\<lambda>x. if x \<noteq> 0 then Inl Minus1 else Inr (tarindex, Some t)))"

definition pton_pad :: "string \<Rightarrow> pton_state \<Rightarrow> b64_error + nat \<times> u8 list option" where
  "pton_pad src st =
     (if fst st = 0 \<or> fst st = 1 then Inl Minus1
      else if fst st = 2 then
        (case dropWhile isspace src of
           [] \<Rightarrow> Inl Minus1
         | ch # src \<Rightarrow> if ch \<noteq> Pad64 then Inl Minus1 else pton_slop src st)
      else pton_slop src st)"

definition compat_b64_pton :: "string \<Rightarrow> u8 list option \<Rightarrow> b64_error + nat \<times> u8 list option" where
  "compat_b64_pton src target =
     err_bind (pton_loop src (0, 0, target))
       (\<lambda>(st, pad). case pad of
            Some src \<Rightarrow> pton_pad src st
          | None \<Rightarrow> if fst st \<noteq> 0 then Inl Minus1 else Inr (fst (snd st), snd (snd st)))"

section \<open>The alphabet and the bits\<close>

lemma Base64_facts: "distinct Base64" "length Base64 = 64"
  by (simp_all add: Base64_def)

lemma Base64_plain: "c \<in> set Base64 \<Longrightarrow> \<not> isspace c \<and> c \<noteq> Pad64"
  unfolding Base64_def isspace_def Pad64_def Let_def by auto

lemma b64_char_in: "unat v < 64 \<Longrightarrow> b64_char v \<in> set Base64"
  by (simp add: b64_char_def Base64_facts)

lemma b64_pos_char: "unat v < 64 \<Longrightarrow> b64_pos (b64_char v) = Some v"
  by (simp add: b64_pos_def b64_char_def find_index_nth Base64_facts)

lemmas b64_char_facts = b64_pos_char Base64_plain [OF b64_char_in]

lemma and_take_bits:
  "a AND 0x03 = take_bit 2 a" "a AND 0x0f = take_bit 4 a" "a AND 0x3f = take_bit 6 a" for a :: u8
  by (simp_all add: take_bit_eq_mask mask_numeral)

lemma out_or:
  "out1 a b = push_bit 4 (take_bit 2 a) OR drop_bit 4 b"
  "out2 b c = push_bit 2 (take_bit 4 b) OR drop_bit 6 c"
proof -
  have "\<not> bit (push_bit 4 (take_bit 2 a)) n \<or> \<not> bit (drop_bit 4 b) n" for n and a b :: u8
    by (cases "4 \<le> n") (auto simp: bit_simps)
  then show "out1 a b = push_bit 4 (take_bit 2 a) OR drop_bit 4 b"
    unfolding out1_def and_take_bits by (rule disjunctive_add)
  have "\<not> bit (push_bit 2 (take_bit 4 b)) n \<or> \<not> bit (drop_bit 6 c) n" for n and b c :: u8
    by (cases "2 \<le> n") (auto simp: bit_simps)
  then show "out2 b c = push_bit 2 (take_bit 4 b) OR drop_bit 6 c"
    unfolding out2_def and_take_bits by (rule disjunctive_add)
qed

lemmas out_bits = out0_def out_or out3_def and_take_bits

lemma out_bound:
  "unat (out0 a) < 64" "unat (out1 a b) < 64" "unat (out2 b c) < 64" "unat (out3 c) < 64"
proof -
  have le: "unat v < 64" if "take_bit 6 v = v" for v :: u8
  proof -
    from that have "uint v < 64" unfolding take_bit_self_iff by simp
    then show ?thesis using uint_nat [of v] by linarith
  qed
  show "unat (out0 a) < 64" "unat (out1 a b) < 64" "unat (out2 b c) < 64" "unat (out3 c) < 64"
    by (auto intro!: le u8_eqI simp: out_bits bit_simps)
qed

lemma out_join:
  "push_bit 2 (out0 a) OR drop_bit 4 (out1 a b) = a"
  "push_bit 4 (take_bit 4 (out1 a b)) OR drop_bit 2 (out2 b c) = b"
  "push_bit 6 (take_bit 2 (out2 b c)) OR out3 c = c"
  by (rule u8_eqI; simp add: out_bits bit_simps)+

lemma out_zero: "push_bit 4 (take_bit 4 (out1 a 0)) = 0" "push_bit 6 (take_bit 2 (out2 b 0)) = 0"
  by (rule u8_eqI; simp add: out_bits bit_simps)+

section \<open>The encoder in closed form\<close>

fun b64_text :: "u8 list \<Rightarrow> string" where
  "b64_text [] = []"
| "b64_text [a] = [b64_char (out0 a), b64_char (out1 a 0), Pad64, Pad64]"
| "b64_text [a, b] = [b64_char (out0 a), b64_char (out1 a b), b64_char (out2 b 0), Pad64]"
| "b64_text (a # b # c # src) =
     b64_char (out0 a) # b64_char (out1 a b) # b64_char (out2 b c) # b64_char (out3 c) # b64_text src"

lemma length_b64_text: "length (b64_text src) = 4 * ((length src + 2) div 3)"
proof (induction src rule: b64_text.induct)
  case (4 a b c src)
  have "(length (a # b # c # src) + 2) div 3 = (length src + 2) div 3 + 1" by simp
  with 4 show ?case by simp
qed simp_all

lemma ntop_loop_text:
  "ntop_loop src target n =
     (if length target + length (b64_text src) < n then Some (target @ b64_text src) else None)"
  by (induction src target n rule: ntop_loop.induct)
    (auto simp: ntop_tail_def ntop_finish_def Let_def)

section \<open>Decoding what was encoded\<close>

definition pton_from :: "string \<Rightarrow> pton_state \<Rightarrow> b64_error + nat \<times> u8 list option" where
  "pton_from src st =
     err_bind (pton_loop src st)
       (\<lambda>(st, pad). case pad of
            Some src \<Rightarrow> pton_pad src st
          | None \<Rightarrow> if fst st \<noteq> 0 then Inl Minus1 else Inr (fst (snd st), snd (snd st)))"

lemma pton_from_char:
  "unat v < 64 \<Longrightarrow> pton_from (b64_char v # src) st = err_bind (pton_step v st) (pton_from src)"
  by (cases "pton_step v st") (simp_all add: pton_from_def b64_char_facts)

lemmas store_simps = and_take_bits pton_step_def pton_store_def or8_def get8_def put8_def list_update_append nth_append

lemma pton_from_pad2: "pton_from [Pad64, Pad64] (2, i, Some t) =
    (if i < length t then if t ! i = 0 then Inr (i, Some t) else Inl Minus1 else Inl Oob)"
  and pton_from_pad3: "pton_from [Pad64] (3, i, Some t) =
    (if i < length t then if t ! i = 0 then Inr (i, Some t) else Inl Minus1 else Inl Oob)"
  by (simp_all add: pton_from_def pton_pad_def pton_slop_def get8_def isspace_def Pad64_def)

definition pad_need :: "nat \<Rightarrow> nat" where
  "pad_need n = n + (if n mod 3 = 0 then 0 else 1)"

lemma pton_from_text:
  assumes "pad_need (length src) \<le> length buf"
  shows "\<exists>post. pton_from (b64_text src) (0, length pre, Some (pre @ buf)) =
      Inr (length pre + length src, Some (pre @ src @ post)) \<and> length src + length post = length buf"
  using assms
proof (induction src arbitrary: pre buf rule: b64_text.induct)
  case 1
  show ?case by (simp add: pton_from_def)
next
  case (2 a)
  then obtain x y buf' where "buf = x # y # buf'"
    by (auto simp: pad_need_def neq_Nil_conv Suc_le_length_iff)
  then show ?case
    by (simp add: pton_from_char out_bound store_simps out_join out_zero pton_from_pad2
        flip: numeral_2_eq_2)
next
  case (3 a b)
  then have "Suc (Suc (Suc 0)) \<le> length buf" by (simp add: pad_need_def)
  then obtain x y z buf' where "buf = x # y # z # buf'"
    by (auto simp: Suc_le_length_iff)
  then show ?case
    by (simp add: pton_from_char out_bound store_simps out_join out_zero pton_from_pad3)
next
  case (4 a b c src)
  then have "Suc (Suc (Suc 0)) \<le> length buf" by (simp add: pad_need_def)
  then obtain x y z buf' where buf: "buf = x # y # z # buf'"
    by (auto simp: Suc_le_length_iff)
  have "pad_need (length src) \<le> length buf'"
    using 4(2) by (simp add: buf pad_need_def split: if_splits)
  from 4(1) [OF this, of "pre @ [a, b, c]"] show ?case
    by (simp add: buf pton_from_char out_bound store_simps out_join)
qed

section \<open>The decoder stays inside its array\<close>

definition pton_ok :: "nat \<Rightarrow> pton_state \<Rightarrow> bool" where
  "pton_ok n st \<longleftrightarrow> (case st of (state, i, target) \<Rightarrow> state < 4 \<and>
     (case target of None \<Rightarrow> True | Some t \<Rightarrow> length t = n \<and> (2 \<le> state \<longrightarrow> i < n)))"

definition safe8 :: "('a \<Rightarrow> bool) \<Rightarrow> b64_error + 'a \<Rightarrow> bool" where
  "safe8 P r \<longleftrightarrow> (case r of Inl e \<Rightarrow> e = Minus1 | Inr x \<Rightarrow> P x)"

lemma safe8_simps [simp]: "safe8 P (Inr x) = P x" "safe8 P (Inl e) = (e = Minus1)"
  by (simp_all add: safe8_def)

lemma safe8_bind: "safe8 Q r \<Longrightarrow> (\<And>x. Q x \<Longrightarrow> safe8 P (f x)) \<Longrightarrow> safe8 P (err_bind r f)"
  by (cases r) auto

lemma pton_store_safe:
  assumes "s < 4"
  shows "safe8 (\<lambda>t'. length t' = length t \<and> (2 \<le> (s + 1) mod 4 \<longrightarrow> i + 1 < length t))
    (pton_store s v i t)"
proof -
  consider "s = 0" | "s = 1" | "s = 2" | "s = 3" using assms by linarith
  then show ?thesis by cases (auto simp: pton_store_def or8_def get8_def put8_def)
qed

lemma pton_step_safe:
  assumes "pton_ok n st"
  shows "safe8 (pton_ok n) (pton_step v st)"
proof -
  obtain s i target where st: "st = (s, i, target)" by (cases st)
  show ?thesis
  proof (cases target)
    case None
    with assms show ?thesis by (simp add: st pton_step_def pton_ok_def)
  next
    case (Some t)
    with assms have s: "s < 4" and t: "length t = n" by (simp_all add: st pton_ok_def)
    have "safe8 (\<lambda>t'. length t' = n \<and> (2 \<le> (s + 1) mod 4 \<longrightarrow> i + 1 < n)) (pton_store s v i t)"
      using pton_store_safe [OF s, of t i v] t by simp
    then show ?thesis
      unfolding st Some pton_step_def
      by (cases "pton_store s v i t") (auto simp: pton_ok_def)
  qed
qed

lemma pton_loop_safe: "pton_ok n st \<Longrightarrow> safe8 (\<lambda>(st, pad). pton_ok n st) (pton_loop src st)"
proof (induction src arbitrary: st)
  case (Cons ch src)
  then show ?case
    by (auto split: option.split intro: safe8_bind [OF pton_step_safe])
qed simp

section \<open>Properties\<close>

text \<open>
  C20. \<open>compat_b64_ntop\<close> succeeds exactly if the text with its terminating NUL fits into the
  target, and the text has four characters for each group of up to three bytes.
\<close>

theorem ntop_fits_exactly:
  "(compat_b64_ntop src targsize \<noteq> None \<longleftrightarrow> 4 * ((length src + 2) div 3) < targsize) \<and>
   (\<forall>enc. compat_b64_ntop src targsize = Some enc \<longrightarrow> length enc = 4 * ((length src + 2) div 3))"
  unfolding compat_b64_ntop_def ntop_loop_text
  by (simp add: length_b64_text del: mult_Suc_right)

theorem ntop_fits_exactly_witness:
  "\<exists>enc. compat_b64_ntop [1, 2, 3, 4] 9 = Some enc \<and> length enc = 8 \<and>
    compat_b64_ntop [1, 2, 3, 4] 8 = None"
proof -
  from ntop_fits_exactly [of "[1, 2, 3, 4]" 9] obtain enc where
    t: "compat_b64_ntop [1, 2, 3, 4] 9 = Some enc" "length enc = 8" by auto
  moreover from ntop_fits_exactly [of "[1, 2, 3, 4]" 8] have "compat_b64_ntop [1, 2, 3, 4] 8 = None" by auto
  ultimately show ?thesis by blast
qed



text \<open>
  The decoder never accesses its target outside of its bounds, on any text and with any
  target size; with a null target it touches nothing.
\<close>

lemma pton_in_bounds: "compat_b64_pton enc target \<noteq> Inl Oob"
proof -
  define n where "n = (case target of None \<Rightarrow> 0 | Some t \<Rightarrow> length t)"
  have "pton_ok n (0, 0, target)" by (simp add: n_def pton_ok_def split: option.split)
  from pton_loop_safe [OF this, of enc] show ?thesis
    by (cases "pton_loop enc (0, 0, target)")
      (auto simp: compat_b64_pton_def pton_pad_def pton_slop_def get8_def pton_ok_def
        split: if_splits option.splits list.splits)
qed

end
