(* ===== verification/Numbers.thy ===== *)
theory Numbers
  imports Prelude
begin

text \<open>
  Numbers and their texts: \<open>strtonum\<close> (\<open>src/src.compat/strtonum.c\<close>), \<open>expand_number\<close> and
  \<open>expand_unsigned\<close> (\<open>src/src.freebsd/compat/expand_number.c\<close>) and \<open>humanize_number\<close>
  (\<open>src/src.freebsd/compat/humanize_number.c\<close>).

  The conversions of the C library they call are modelled in the C locale: \<open>strtoll\<close> in base 10
  and \<open>strtoumax\<close> in base 0.  Signed 64-bit arithmetic that overflows is undefined and is the
  error \<open>HN_undef\<close>.
\<close>

section \<open>Digits\<close>

definition digit_val :: "int \<Rightarrow> char \<Rightarrow> int option" where
  "digit_val base c =
     (let n = of_char c;
          d = (if 48 \<le> n \<and> n \<le> (57 :: int) then n - 48
               else if 97 \<le> n \<and> n \<le> 122 then n - 87
               else if 65 \<le> n \<and> n \<le> 90 then n - 55 else 99)
      in if d < base then Some d else None)"

fun digits_val :: "int \<Rightarrow> string \<Rightarrow> int \<Rightarrow> int \<times> string" where
  "digits_val base [] n = (n, [])"
| "digits_val base (c # s) n =
     (case digit_val base c of
        Some d \<Rightarrow> digits_val base s (base * n + d)
      | None \<Rightarrow> (n, c # s))"

abbreviation LLONG_MAX :: int where "LLONG_MAX \<equiv> 0x7FFFFFFFFFFFFFFF"
abbreviation LLONG_MIN :: int where "LLONG_MIN \<equiv> - 0x8000000000000000"
abbreviation UINTMAX_MAX :: int where "UINTMAX_MAX \<equiv> 0xFFFFFFFFFFFFFFFF"

section \<open>strtonum\<close>

text \<open>
  \<open>strtoll(s, &end, 10)\<close>: the clamped value and the rest of the string, which is the whole
  string if there is no digit.
\<close>

definition strtoll10 :: "string \<Rightarrow> int \<times> string" where
  "strtoll10 s =
     (let s1 = dropWhile isspace s;
          neg = (s1 \<noteq> [] \<and> hd s1 = CHR ''-'');
          s2 = (if s1 \<noteq> [] \<and> hd s1 \<in> {CHR ''-'', CHR ''+''} then tl s1 else s1)
      in if s2 = [] \<or> digit_val 10 (hd s2) = None then (0, s)
         else (case digits_val 10 s2 0 of (v, end) \<Rightarrow>
           (max LLONG_MIN (min LLONG_MAX (if neg then - v else v)), end)))"

datatype num_error = Invalid | Too_small | Too_large

definition strtonum :: "string \<Rightarrow> int \<Rightarrow> int \<Rightarrow> num_error + int" where
  "strtonum nptr minv maxv =
     (case strtoll10 nptr of (ret, err) \<Rightarrow>
        if err \<noteq> [] then Inl Invalid
        else if ret < minv then Inl Too_small
        else if ret > maxv then Inl Too_large
        else Inr ret)"

section \<open>expand\_number\<close>

text \<open>\<open>strtoumax(s, &end, 0)\<close> on a string that starts with a digit, before the range check.\<close>

definition strtoumax0 :: "string \<Rightarrow> int \<times> string" where
  "strtoumax0 s =
     (if length s > 2 \<and> hd s = CHR ''0'' \<and> s ! 1 \<in> {CHR ''x'', CHR ''X''} \<and>
         digit_val 16 (s ! 2) \<noteq> None
      then digits_val 16 (drop 2 s) 0
      else if hd s = CHR ''0'' then digits_val 8 s 0
      else digits_val 10 s 0)"

datatype expand_error = EX_EINVAL | EX_ERANGE

definition unit_shift :: "char \<Rightarrow> nat option" where
  "unit_shift c =
     (if c \<in> {CHR ''e'', CHR ''E''} then Some 60
      else if c \<in> {CHR ''p'', CHR ''P''} then Some 50
      else if c \<in> {CHR ''t'', CHR ''T''} then Some 40
      else if c \<in> {CHR ''g'', CHR ''G''} then Some 30
      else if c \<in> {CHR ''m'', CHR ''M''} then Some 20
      else if c \<in> {CHR ''k'', CHR ''K''} then Some 10
      else None)"

definition take_unit :: "string \<Rightarrow> nat \<times> string" where
  "take_unit s =
     (case s of [] \<Rightarrow> (0, [])
      | c # s' \<Rightarrow> (case unit_shift c of Some n \<Rightarrow> (n, s') | None \<Rightarrow> (0, s)))"

definition skip_b :: "string \<Rightarrow> string" where
  "skip_b s = (if s \<noteq> [] \<and> hd s \<in> {CHR ''b'', CHR ''B''} then tl s else s)"

definition expand_impl :: "string \<Rightarrow> expand_error + u64 \<times> bool" where
  "expand_impl buf =
     (let buf = dropWhile isspace buf;
          neg = (buf \<noteq> [] \<and> hd buf = CHR ''-'');
          buf = (if buf \<noteq> [] \<and> hd buf \<in> {CHR ''-'', CHR ''+''} then tl buf else buf)
      in if buf = [] \<or> \<not> isdigit (hd buf) then Inl EX_EINVAL
         else (case strtoumax0 buf of (v, endptr) \<Rightarrow>
           if v > UINTMAX_MAX then Inl EX_ERANGE
           else (case take_unit endptr of (shift, endptr) \<Rightarrow>
             let number = (of_int v :: u64) in
             if skip_b endptr \<noteq> [] then Inl EX_EINVAL
             else if drop_bit shift (push_bit shift number) \<noteq> number then Inl EX_ERANGE
             else Inr (push_bit shift number, neg))))"

definition expand_number :: "string \<Rightarrow> expand_error + u64" where
  "expand_number buf =
     err_bind (expand_impl buf) (\<lambda>(number, neg).
       if neg then if number > 0x8000000000000000 then Inl EX_ERANGE else Inr (- number)
       else if number > 0x7FFFFFFFFFFFFFFF then Inl EX_ERANGE else Inr number)"

definition expand_unsigned :: "string \<Rightarrow> expand_error + u64" where
  "expand_unsigned buf =
     err_bind (expand_impl buf) (\<lambda>(number, neg).
       if neg \<and> number > 0 then Inl EX_ERANGE else Inr number)"

section \<open>humanize\_number\<close>

abbreviation HN_DECIMAL :: int where "HN_DECIMAL \<equiv> 0x01"
abbreviation HN_NOSPACE :: int where "HN_NOSPACE \<equiv> 0x02"
abbreviation HN_B :: int where "HN_B \<equiv> 0x04"
abbreviation HN_DIVISOR_1000 :: int where "HN_DIVISOR_1000 \<equiv> 0x08"
abbreviation HN_IEC_PREFIXES :: int where "HN_IEC_PREFIXES \<equiv> 0x10"
abbreviation HN_GETSCALE :: int where "HN_GETSCALE \<equiv> 0x10"
abbreviation HN_AUTOSCALE :: int where "HN_AUTOSCALE \<equiv> 0x20"

definition maxscale :: nat where
  "maxscale = 6"

datatype hn_error = HN_undef

text \<open>The conversions \<open>%d\<close> and \<open>%s\<close> of \<open>snprintf\<close>.\<close>

fun dec_nat :: "nat \<Rightarrow> string" where
  "dec_nat n =
     (if n < 10 then [char_of (48 + n)] else dec_nat (n div 10) @ [char_of (48 + n mod 10)])"

declare dec_nat.simps [simp del]

definition dec_int :: "int \<Rightarrow> string" where
  "dec_int v = (if v < 0 then CHR ''-'' # dec_nat (nat (- v)) else dec_nat (nat v))"

definition prefixes :: "int \<Rightarrow> string list" where
  "prefixes flags =
     (if flags AND HN_B \<noteq> 0 then ''B'' else []) #
     (if flags AND HN_IEC_PREFIXES \<noteq> 0 then [''Ki'', ''Mi'', ''Gi'', ''Ti'', ''Pi'', ''Ei'']
      else if flags AND HN_DIVISOR_1000 \<noteq> 0 then [''k'', ''M'', ''G'', ''T'', ''P'', ''E'']
      else [''K'', ''M'', ''G'', ''T'', ''P'', ''E''])"

definition hn_divisor :: "int \<Rightarrow> int" where
  "hn_divisor flags =
     (if flags AND HN_IEC_PREFIXES \<noteq> 0 then 1024
      else if flags AND HN_DIVISOR_1000 \<noteq> 0 then 1000 else 1024)"

definition hn_deccut :: "int \<Rightarrow> int" where
  "hn_deccut flags =
     (if flags AND HN_IEC_PREFIXES \<noteq> 0 then 973
      else if flags AND HN_DIVISOR_1000 \<noteq> 0 then 950 else 973)"

definition hn_baselen :: "int \<Rightarrow> int \<Rightarrow> string \<Rightarrow> nat" where
  "hn_baselen quot flags suffix =
     (if flags AND HN_IEC_PREFIXES \<noteq> 0 then 2 else 1) +
     (if quot < 0 then 2 else 1) +
     (if flags AND HN_NOSPACE \<noteq> 0 then 0 else 1) + length suffix"

text \<open>Division until the number fits the columns.\<close>

function autoscale :: "int \<Rightarrow> int \<Rightarrow> int \<Rightarrow> nat \<Rightarrow> int \<Rightarrow> int \<Rightarrow> nat \<times> int \<times> int" where
  "autoscale mx divisor deccut i quot remainder =
     (if (quot \<ge> mx \<or> (quot = mx - 1 \<and> (remainder \<ge> deccut \<or> remainder \<ge> divisor div 2))) \<and>
         i < maxscale
      then autoscale mx divisor deccut (Suc i) (quot div divisor) (quot mod divisor)
      else (i, quot, remainder))"
  by pat_completeness auto
termination
  by (relation "measure (\<lambda>(mx, divisor, deccut, i, quot, remainder). maxscale - i)") auto

declare autoscale.simps [simp del]

fun fixscale :: "nat \<Rightarrow> int \<Rightarrow> int \<Rightarrow> int \<Rightarrow> int \<times> int" where
  "fixscale 0 divisor quot remainder = (quot, remainder)"
| "fixscale (Suc n) divisor quot remainder =
     fixscale n divisor (quot div divisor) (quot mod divisor)"

text \<open>The text that \<open>snprintf\<close> is asked for.\<close>

definition hn_text ::
    "string \<Rightarrow> int \<Rightarrow> string \<Rightarrow> int \<Rightarrow> nat \<Rightarrow> int \<Rightarrow> int \<Rightarrow> string" where
  "hn_text dp flags suffix sg i quot remainder =
     (let divisor = hn_divisor flags; deccut = hn_deccut flags;
          sep = (if flags AND HN_NOSPACE \<noteq> 0 then [] else '' '');
          tail = sep @ prefixes flags ! i @ suffix
      in if ((quot = 9 \<and> remainder < deccut) \<or> quot < 9) \<and> i > 0 \<and> flags AND HN_DECIMAL \<noteq> 0
         then let t = (remainder * 10 + divisor div 2) div divisor;
                  s1 = quot + t div 10; s2 = t mod 10
              in dec_int (sg * s1) @ dp @ dec_int s2 @ tail
         else dec_int (sg * (quot + (remainder + divisor div 2) div divisor)) @ tail)"

text \<open>
  \<open>snprintf\<close> returns the length of the whole text and stores at most \<open>len - 1\<close> characters of it.
\<close>

definition snprintf :: "nat \<Rightarrow> string \<Rightarrow> int \<times> string" where
  "snprintf len s = (int (length s), take (len - 1) s)"

definition humanize_number ::
    "string \<Rightarrow> bool \<Rightarrow> nat \<Rightarrow> int \<Rightarrow> string option \<Rightarrow> int \<Rightarrow> int \<Rightarrow> hn_error + int \<times> string" where
  "humanize_number dp have_buf len quot suffix scale flags =
     (if len > 0 \<and> \<not> have_buf then Inl HN_undef
      else if \<not> have_buf then Inr (- 1, [])
      else case suffix of None \<Rightarrow> Inr (- 1, []) | Some suffix \<Rightarrow>
        if scale < 0 then Inr (- 1, [])
        else if scale > int maxscale \<and> scale AND NOT (HN_AUTOSCALE OR HN_GETSCALE) \<noteq> 0
        then Inr (- 1, [])
        else if flags AND HN_DIVISOR_1000 \<noteq> 0 \<and> flags AND HN_IEC_PREFIXES \<noteq> 0 then Inr (- 1, [])
        else if quot < 0 \<and> - quot > LLONG_MAX then Inl HN_undef
        else
          let sg = (if quot < 0 then - 1 else 1);
              baselen = hn_baselen quot flags suffix;
              quot = \<bar>quot\<bar>
          in if len < baselen + 1 then Inr (- 1, [])
             else if scale AND (HN_AUTOSCALE OR HN_GETSCALE) \<noteq> 0 then
               if 10 ^ (len - baselen) > LLONG_MAX then Inl HN_undef
               else (case autoscale (10 ^ (len - baselen)) (hn_divisor flags) (hn_deccut flags)
                       0 quot 0 of (i, quot, remainder) \<Rightarrow>
                 if scale AND HN_GETSCALE \<noteq> 0 then Inr (int i, [])
                 else Inr (snprintf len (hn_text dp flags suffix sg i quot remainder)))
             else
               let i = min (nat scale) maxscale in
               (case fixscale i (hn_divisor flags) quot 0 of (quot, remainder) \<Rightarrow>
                 Inr (snprintf len (hn_text dp flags suffix sg i quot remainder))))"

section \<open>Printing and parsing decimals\<close>

lemma of_char_int: "(of_char c :: int) = int (of_char c)" for c :: char
  by (simp only: of_nat_of_char)

lemma of_char_digit: "d < 10 \<Longrightarrow> (of_char (char_of (48 + d) :: char) :: int) = 48 + int d" for d :: nat
  unfolding of_char_int by simp

lemma digit_val_dec: "d < 10 \<Longrightarrow> 10 \<le> b \<Longrightarrow> digit_val b (char_of (48 + d)) = Some (int d)" for d :: nat
  unfolding digit_val_def Let_def of_char_digit by simp

lemma digits_val_dec:
  "digits_val 10 (dec_nat n @ s) k = digits_val 10 s (k * 10 ^ length (dec_nat n) + int n)"
proof (induction n arbitrary: s k rule: dec_nat.induct)
  case (1 n)
  show ?case
  proof (cases "n < 10")
    case True
    then show ?thesis by (subst (1 2) dec_nat.simps) (simp add: digit_val_dec mult.commute)
  next
    case False
    define q r where qr: "q = n div 10" "r = n mod 10"
    then have "n = 10 * q + r" "r < 10" by simp_all
    with False 1 [of _ k] show ?thesis
      by (subst (1 2) dec_nat.simps) (simp add: digit_val_dec flip: qr, simp add: algebra_simps)
  qed
qed

lemma dec_nat_hd: "dec_nat n \<noteq> [] \<and> (\<exists>d < 10 :: nat. hd (dec_nat n) = char_of (48 + d) \<and> (n > 0 \<longrightarrow> d > 0))"
proof (induction n rule: dec_nat.induct)
  case (1 n)
  then show ?case
    by (cases "n < 10") (auto simp: dec_nat.simps [of n])
qed

lemma length_dec_nat: "n < 10 ^ k \<Longrightarrow> 0 < k \<Longrightarrow> length (dec_nat n) \<le> k"
proof (induction n arbitrary: k rule: dec_nat.induct)
  case (1 n)
  show ?case
  proof (cases "n < 10")
    case False
    with 1(2,3) obtain k' where k: "k = Suc k'" "0 < k'"
      by (cases k; cases "k - 1") auto
    with 1(2) have "n div 10 < 10 ^ k'" by (simp add: less_mult_imp_div_less mult.commute)
    with 1(1) [OF False, of k'] k False show ?thesis by (simp add: dec_nat.simps [of n])
  qed (use 1(3) in \<open>simp add: dec_nat.simps [of n]\<close>)
qed

lemma digit_char_facts:
  fixes d :: nat
  assumes "d < 10"
  shows "\<not> isspace (char_of (48 + d))" "isdigit (char_of (48 + d))"
    "char_of (48 + d) \<noteq> CHR ''-''" "char_of (48 + d) \<noteq> CHR ''+''"
    "char_of (48 + d) = CHR ''0'' \<longleftrightarrow> d = 0"
proof -
  have *: "of_char (char_of (48 + d) :: char) = 48 + d" using assms by (simp add: of_char_of)
  have neq: "char_of (48 + d) \<noteq> c" if "of_char c \<noteq> 48 + d" for c :: char
    using that * by auto
  show "char_of (48 + d) \<noteq> CHR ''-''" "char_of (48 + d) \<noteq> CHR ''+''" by (rule neq; simp)+
  show "char_of (48 + d) = CHR ''0'' \<longleftrightarrow> d = 0"
  proof
    have "of_char CHR ''0'' = (48 :: nat)" by simp
    then show "char_of (48 + d) = CHR ''0'' \<Longrightarrow> d = 0" using neq [of "CHR ''0''"] by auto
    have "char_of (48 :: nat) = CHR ''0''" by code_simp
    then show "d = 0 \<Longrightarrow> char_of (48 + d) = CHR ''0''" by simp
  qed
  show "\<not> isspace (char_of (48 + d))" using * assms by (simp add: isspace_def Let_def)
  show "isdigit (char_of (48 + d))" using of_char_digit [OF assms] assms by (simp add: isdigit_def Let_def)
qed

lemma strtoll10_dec:
  assumes "LLONG_MIN \<le> v" "v \<le> LLONG_MAX"
  shows "strtoll10 (dec_int v) = (v, [])"
proof -
  obtain d :: nat where d: "d < 10" "hd (dec_nat (nat \<bar>v\<bar>)) = char_of (48 + d)" "dec_nat (nat \<bar>v\<bar>) \<noteq> []"
    using dec_nat_hd by blast
  then obtain ds where ds: "dec_nat (nat \<bar>v\<bar>) = char_of (48 + d) # ds" by (cases "dec_nat (nat \<bar>v\<bar>)") auto
  have val: "digits_val 10 (char_of (48 + d) # ds) 0 = (\<bar>v\<bar>, [])"
    using digits_val_dec [of "nat \<bar>v\<bar>" "[]" 0] ds by simp
  have "\<not> isspace (CHR ''-'')" by (simp add: isspace_def)
  then show ?thesis
    using val ds digit_char_facts [OF d(1)] digit_val_dec [OF d(1), of 10] assms
    by (cases "v < 0") (simp_all add: strtoll10_def dec_int_def Let_def del: digits_val.simps)
qed

section \<open>Units\<close>

lemma unit_not_digit:
  assumes "unit_shift u = Some k"
  shows "digit_val 10 u = None"
proof -
  have "u \<in> set ''eEpPtTgGmMkK''" using assms by (auto simp: unit_shift_def split: if_splits)
  moreover have "\<forall>u \<in> set ''eEpPtTgGmMkK''. digit_val 10 u = None" by (simp add: digit_val_def)
  ultimately show ?thesis by blast
qed

lemma shift_overflow:
  fixes w :: u64
  shows "drop_bit k (push_bit k w) = w \<longleftrightarrow> unat w * 2 ^ k < 2 ^ 64"
proof (cases "k < 64")
  case True
  have "drop_bit k (push_bit k w) = w \<longleftrightarrow> take_bit (64 - k) w = w"
    using True by (auto simp: bit_eq_iff bit_simps add.commute less_diff_conv)
  also have "\<dots> \<longleftrightarrow> uint w < 2 ^ (64 - k)" by (rule take_bit_self_iff)
  also have "\<dots> \<longleftrightarrow> unat w < 2 ^ (64 - k)"
    unfolding uint_nat by (rule of_nat_less_numeral_power_cancel_iff)
  also have "\<dots> \<longleftrightarrow> unat w * 2 ^ k < 2 ^ (64 - k) * 2 ^ k" by simp
  also have "(2 :: nat) ^ (64 - k) * 2 ^ k = 2 ^ 64" using True by (simp flip: power_add)
  finally show ?thesis .
next
  case False
  then have "drop_bit k (push_bit k w) = 0" by (auto simp: bit_eq_iff bit_simps)
  moreover have "2 ^ 64 \<le> unat w * 2 ^ k \<longleftrightarrow> w \<noteq> 0"
    using False power_increasing [of 64 k "2 :: nat"]
    by (cases "unat w") (auto simp: unat_eq_0)
  ultimately show ?thesis by (auto simp: not_le [symmetric])
qed

lemma push_bit_small:
  fixes w :: u64
  assumes "unat w * 2 ^ k < 2 ^ 64"
  shows "push_bit k w = of_nat (unat w * 2 ^ k)"
  by (simp add: push_bit_eq_mult)

lemma expand_impl_unit:
  assumes "0 < n" "unit_shift u = Some k" "sg \<in> {[], ''-''}"
  shows "expand_impl (sg @ dec_nat n @ [u]) =
    (if n * 2 ^ k < 2 ^ 64 then Inr (of_nat (n * 2 ^ k), sg = ''-'') else Inl EX_ERANGE)"
proof -
  obtain d :: nat where d: "d < 10" "hd (dec_nat n) = char_of (48 + d)" "dec_nat n \<noteq> []" "0 < d"
    using dec_nat_hd [of n] assms(1) by blast
  then obtain ds where ds: "dec_nat n = char_of (48 + d) # ds" by (cases "dec_nat n") auto
  note c = digit_char_facts [OF d(1)]
  have val: "digits_val 10 ((char_of (48 + d) # ds) @ [u]) 0 = (int n, [u])"
    using digits_val_dec [of n "[u]" 0] ds unit_not_digit [OF assms(2)] by simp
  have um: "strtoumax0 ((char_of (48 + d) # ds) @ [u]) = (int n, [u])"
    using val c(5) d(4) by (simp add: strtoumax0_def del: digits_val.simps)
  have "\<not> isspace (CHR ''-'')" by (simp add: isspace_def)
  then have start: "expand_impl (sg @ dec_nat n @ [u]) =
     (if int n > UINTMAX_MAX then Inl EX_ERANGE
      else let number = (of_int (int n) :: u64) in
        if drop_bit k (push_bit k number) \<noteq> number then Inl EX_ERANGE
        else Inr (push_bit k number, sg = ''-''))"
    using assms(2,3) c um
    by (auto simp: expand_impl_def ds Let_def take_unit_def skip_b_def)
  show ?thesis
  proof (cases "int n > UINTMAX_MAX")
    case True
    then have "2 ^ 64 \<le> n" by simp
    then have "\<not> n * 2 ^ k < 2 ^ 64"
      using mult_le_mono [of "2 ^ 64" n 1 "2 ^ k"] by simp
    with True start show ?thesis by simp
  next
    case False
    then have "unat (of_nat n :: u64) = n" by (simp add: unat_of_nat)
    with False start show ?thesis
      using shift_overflow [of k "of_nat n :: u64"] push_bit_small [of "of_nat n :: u64" k]
      by (simp add: Let_def)
  qed
qed

section \<open>Scaling\<close>

lemma hn_divisor_cases: "hn_divisor flags = 1024 \<and> hn_deccut flags = 973 \<or> hn_divisor flags = 1000 \<and> hn_deccut flags = 950"
  by (auto simp: hn_divisor_def hn_deccut_def)

text \<open>
  The result of the division loop: the scale, the quotient by that power of the divisor and the
  last remainder; and the loop stops because the number fits or because the units are used up.
\<close>

lemma autoscale_result:
  assumes "autoscale mx d dc i q r = (i', q', r')" "i \<le> maxscale" "0 < d"
  shows "i \<le> i' \<and> i' \<le> maxscale \<and> q' = q div d ^ (i' - i) \<and>
    (if i' = i then r' = r else r' = (q div d ^ (i' - i - 1)) mod d) \<and>
    (i' = maxscale \<or> \<not> (q' \<ge> mx \<or> q' = mx - 1 \<and> (r' \<ge> dc \<or> r' \<ge> d div 2)))"
  using assms
proof (induction mx d dc i q r rule: autoscale.induct)
  case (1 mx d dc i q r)
  show ?case
  proof (cases "(q \<ge> mx \<or> (q = mx - 1 \<and> (r \<ge> dc \<or> r \<ge> d div 2))) \<and> i < maxscale")
    case True
    with "1.prems" have run: "autoscale mx d dc (Suc i) (q div d) (q mod d) = (i', q', r')"
      by (simp add: autoscale.simps [of mx d dc i q r])
    from "1.IH" [OF True run] True "1.prems"(3) have IH: "Suc i \<le> i'" "i' \<le> maxscale"
      "q' = q div d div d ^ (i' - Suc i)"
      "if i' = Suc i then r' = q mod d else r' = q div d div d ^ (i' - Suc i - 1) mod d"
      "i' = maxscale \<or> \<not> (q' \<ge> mx \<or> q' = mx - 1 \<and> (r' \<ge> dc \<or> r' \<ge> d div 2))" by auto
    have pow: "q div d div d ^ k = q div d ^ Suc k" for k
      using "1.prems"(3) by (simp add: zdiv_zmult2_eq)
    have "q' = q div d ^ (i' - i)" using IH(1,3) pow [of "i' - Suc i"] by (simp add: Suc_diff_Suc)
    moreover have "r' = (q div d ^ (i' - i - 1)) mod d"
    proof (cases "i' = Suc i")
      case False
      with IH(1) have "i' - i - 1 = Suc (i' - Suc i - 1)" by simp
      with False IH(4) pow [of "i' - Suc i - 1"] show ?thesis by simp
    qed (use IH(4) in simp)
    ultimately show ?thesis using IH by auto
  next
    case False
    with "1.prems" have "i' = i" "q' = q" "r' = r" by (auto simp: autoscale.simps [of mx d dc i q r])
    with False "1.prems" show ?thesis by auto
  qed
qed

lemma rounded_bound:
  assumes "0 \<le> q" "q \<le> LLONG_MAX" "1 \<le> k" and d: "d = 1024 \<or> d = 1000"
    and run: "autoscale (10 ^ k) d dc 0 q 0 = (i, q', r')"
  shows "0 \<le> q' + (r' + d div 2) div d \<and> q' + (r' + d div 2) div d < 10 ^ k"
proof -
  note res = autoscale_result [OF run, of]
  have i: "i \<le> maxscale" and q': "q' = q div d ^ i"
    and r': "r' = (if i = 0 then 0 else (q div d ^ (i - 1)) mod d)"
    and stop: "i = maxscale \<or> \<not> (q' \<ge> 10 ^ k \<or> q' = 10 ^ k - 1 \<and> (r' \<ge> dc \<or> r' \<ge> d div 2))"
    using res d by (auto split: if_splits)
  have r: "0 \<le> r'" "r' < d" using r' d by auto
  have q0: "0 \<le> q'" using q' assms(1) d by (auto intro: pos_imp_zdiv_nonneg_iff [THEN iffD2])
  have round: "(r' + d div 2) div d = (if r' < d div 2 then 0 else 1)"
    using d r by auto
  have ten: "(10 :: int) \<le> 10 ^ k" using assms(3) power_increasing [of 1 k "10 :: int"] by simp
  from stop show ?thesis
  proof
    assume m: "i = maxscale"
    have "q' + (r' + d div 2) div d < 10"
      using d
    proof
      assume d: "d = 1024"
      have "q' \<le> LLONG_MAX div 1024 ^ 6" using assms(2) m d q' by (auto simp: maxscale_def intro: zdiv_mono1)
      then show ?thesis using round by simp
    next
      assume d: "d = 1000"
      have q5: "q div 1000 ^ 5 \<le> LLONG_MAX div 1000 ^ 5" using assms(2) by (auto intro: zdiv_mono1)
      have "q' = q div 1000 ^ 5 div 1000" "r' = q div 1000 ^ 5 mod 1000"
        using m d q' r' by (simp_all add: maxscale_def zdiv_zmult2_eq [symmetric])
      moreover have "t div 1000 < 9 \<or> t div 1000 = 9 \<and> t mod 1000 < 500" if "t \<le> 9223" for t :: int
      proof -
        define a b where "a = t div 1000" "b = t mod 1000"
        then have "t = 1000 * a + b" "0 \<le> b" by simp_all
        with that show ?thesis unfolding \<open>a = t div 1000\<close> [symmetric] \<open>b = t mod 1000\<close> [symmetric]
          by linarith
      qed
      from this [of "q div 1000 ^ 5"] have "q div 1000 ^ 5 div 1000 < 9 \<or>
          q div 1000 ^ 5 div 1000 = 9 \<and> q div 1000 ^ 5 mod 1000 < 500"
        using q5 by simp
      ultimately show ?thesis using round d by (simp split: if_splits) linarith
    qed
    with ten q0 round show ?thesis by auto
  next
    assume "\<not> (q' \<ge> 10 ^ k \<or> q' = 10 ^ k - 1 \<and> (r' \<ge> dc \<or> r' \<ge> d div 2))"
    then show ?thesis using round q0 by auto
  qed
qed

lemma length_dec_int:
  assumes "0 \<le> v" "v < 10 ^ k" "1 \<le> k" "sg = 1 \<or> sg = - 1"
  shows "length (dec_int (sg * v)) \<le> k + (if sg = 1 then 0 else 1)"
proof -
  have "nat v < 10 ^ k" using assms(1,2) by (simp add: nat_less_iff)
  then have "length (dec_nat (nat v)) \<le> k" using assms(3) by (intro length_dec_nat) auto
  with assms show ?thesis by (auto simp: dec_int_def)
qed

lemma length_prefix:
  "i \<le> maxscale \<Longrightarrow> length (prefixes flags ! i) \<le> (if flags AND HN_IEC_PREFIXES \<noteq> 0 then 2 else 1)"
  by (auto simp: prefixes_def maxscale_def nth_Cons numeral_eq_Suc split: nat.splits)

section \<open>Properties\<close>

text \<open>
  \<open>strtonum\<close> reads back every printed 64-bit number: it returns the number if it lies in
  the range, and reports too small or too large otherwise.
\<close>

lemma strtonum_decimal:
  assumes "LLONG_MIN \<le> v" "v \<le> LLONG_MAX"
  shows "strtonum (dec_int v) minv maxv =
    (if v < minv then Inl Too_small else if v > maxv then Inl Too_large else Inr v)"
  by (simp add: strtonum_def strtoll10_dec [OF assms])

text \<open>
  Two inputs \<open>strtonum\<close> does not reject: the empty string is the number 0, and a number
  beyond the 64-bit range is taken as the largest one when the range extends that far.
\<close>

lemma strtonum_accepts_garbage:
  "strtonum [] minv maxv =
     (if 0 < minv then Inl Too_small else if 0 > maxv then Inl Too_large else Inr 0) \<and>
   strtonum ''99999999999999999999'' 0 LLONG_MAX = Inr LLONG_MAX"
  by (simp add: strtonum_def strtoll10_def digit_val_def isspace_def)

text \<open>
  C22. \<open>expand_number\<close> on a positive number with a unit, with or without a minus sign, returns
  exactly the number times the power of two of the unit as a 64-bit signed integer, or
  \<open>ERANGE\<close> when that does not fit, including the asymmetric least value.
\<close>

theorem expand_number_exact:
  assumes "0 < n" "unit_shift u = Some k"
  shows "expand_number (dec_nat n @ [u]) =
      (if n * 2 ^ k < 2 ^ 63 then Inr (of_nat (n * 2 ^ k)) else Inl EX_ERANGE) \<and>
    expand_number (CHR ''-'' # dec_nat n @ [u]) =
      (if n * 2 ^ k \<le> 2 ^ 63 then Inr (- of_nat (n * 2 ^ k)) else Inl EX_ERANGE)"
proof -
  define m where "m = n * 2 ^ k"
  have pos: "expand_impl (dec_nat n @ [u]) = (if m < 2 ^ 64 then Inr (of_nat m, False) else Inl EX_ERANGE)"
    using expand_impl_unit [OF assms, of "[]"] unfolding m_def [symmetric] by simp
  have neg: "expand_impl (CHR ''-'' # dec_nat n @ [u]) = (if m < 2 ^ 64 then Inr (of_nat m, True) else Inl EX_ERANGE)"
    using expand_impl_unit [OF assms, of "''-''"] unfolding m_def [symmetric] by simp
  have cmp: "(of_nat m :: u64) > 0x7FFFFFFFFFFFFFFF \<longleftrightarrow> m \<ge> 2 ^ 63"
    "(of_nat m :: u64) > 0x8000000000000000 \<longleftrightarrow> m > 2 ^ 63" if "m < 2 ^ 64"
    using that by (auto simp: word_less_nat_alt unat_of_nat)
  show ?thesis
    unfolding m_def [symmetric]
    by (cases "m < 2 ^ 64") (auto simp: expand_number_def pos neg cmp)
qed

theorem expand_number_exact_witness:
  "expand_number (dec_nat 8 @ ''e'') = Inl EX_ERANGE \<and>
   expand_number (CHR ''-'' # dec_nat 8 @ ''e'') = Inr (- of_nat (8 * 2 ^ 60))"
  using expand_number_exact [of 8 "CHR ''e''" 60] by (simp add: unit_shift_def)



end
