(* ===== verification/Unvis.thy ===== *)
theory Unvis
  imports Prelude "HOL-Library.Char_ord" "HOL-Library.List_Lexorder"
begin

text \<open>
  The decoder of visually encoded text: \<open>unvis\<close>, the state machine that takes one character at a
  time, \<open>strnunvisx\<close> and its wrappers (\<open>src/src.freebsd/compat/unvis.c\<close>), and the loop of the tool
  \<open>unvis\<close> (\<open>src/src.freebsd/unvis/unvis.c\<close>).

  A character is a byte; the classification of characters is that of the C locale.  The word
  \<open>*astate\<close> is kept at its 32 bits: the state in the low byte and, for named entities, the index in
  the name in the high byte.  An access outside the table of entities has no result (\<open>None\<close>).
\<close>

section \<open>Characters, flags and states\<close>

definition isgraph8 :: "u8 \<Rightarrow> bool" where
  "isgraph8 c \<longleftrightarrow> 33 \<le> c \<and> c \<le> 126"

definition isdigit8 :: "u8 \<Rightarrow> bool" where
  "isdigit8 c \<longleftrightarrow> 48 \<le> c \<and> c \<le> 57"

definition isupper8 :: "u8 \<Rightarrow> bool" where
  "isupper8 c \<longleftrightarrow> 65 \<le> c \<and> c \<le> 90"

definition isxdigit8 :: "u8 \<Rightarrow> bool" where
  "isxdigit8 c \<longleftrightarrow> isdigit8 c \<or> (65 \<le> c \<and> c \<le> 70) \<or> (97 \<le> c \<and> c \<le> 102)"

definition tolower8 :: "u8 \<Rightarrow> u8" where
  "tolower8 c = (if isupper8 c then c + 32 else c)"

definition isoctal :: "u8 \<Rightarrow> bool" where
  "isoctal c \<longleftrightarrow> 48 \<le> c \<and> c \<le> 55"

definition xtod :: "u8 \<Rightarrow> u8" where
  "xtod c = (if isdigit8 c then c - 48 else (tolower8 c - 97) + 10)"

definition XTOD :: "u8 \<Rightarrow> u8" where
  "XTOD c = (if isdigit8 c then c - 48 else (c - 65) + 10)"

lemmas ctype8_defs =
  isgraph8_def isdigit8_def isupper8_def isxdigit8_def tolower8_def isoctal_def xtod_def XTOD_def

abbreviation VIS_HTTP1808 :: u32 where "VIS_HTTP1808 \<equiv> 0x0080"
abbreviation VIS_MIMESTYLE :: u32 where "VIS_MIMESTYLE \<equiv> 0x0200"
abbreviation VIS_HTTP1866 :: u32 where "VIS_HTTP1866 \<equiv> 0x0400"
abbreviation VIS_NOESCAPE :: u32 where "VIS_NOESCAPE \<equiv> 0x0800"
abbreviation UNVIS_END :: u32 where "UNVIS_END \<equiv> 0x1000"

datatype unvis_ret = UNVIS_VALID | UNVIS_VALIDPUSH | UNVIS_NOCHAR | UNVIS_SYNBAD

abbreviation S_GROUND :: u32 where "S_GROUND \<equiv> 0"
abbreviation S_START :: u32 where "S_START \<equiv> 1"
abbreviation S_META :: u32 where "S_META \<equiv> 2"
abbreviation S_META1 :: u32 where "S_META1 \<equiv> 3"
abbreviation S_CTRL :: u32 where "S_CTRL \<equiv> 4"
abbreviation S_OCTAL2 :: u32 where "S_OCTAL2 \<equiv> 5"
abbreviation S_OCTAL3 :: u32 where "S_OCTAL3 \<equiv> 6"
abbreviation S_HEX :: u32 where "S_HEX \<equiv> 7"
abbreviation S_HEX1 :: u32 where "S_HEX1 \<equiv> 8"
abbreviation S_HEX2 :: u32 where "S_HEX2 \<equiv> 9"
abbreviation S_MIME1 :: u32 where "S_MIME1 \<equiv> 10"
abbreviation S_MIME2 :: u32 where "S_MIME2 \<equiv> 11"
abbreviation S_EATCRNL :: u32 where "S_EATCRNL \<equiv> 12"
abbreviation S_AMP :: u32 where "S_AMP \<equiv> 13"
abbreviation S_NUMBER :: u32 where "S_NUMBER \<equiv> 14"
abbreviation S_STRING :: u32 where "S_STRING \<equiv> 15"

definition GS :: "u32 \<Rightarrow> u32" where
  "GS a = a AND 0xff"

definition SS :: "u32 \<Rightarrow> u32 \<Rightarrow> u32" where
  "SS a b = push_bit 24 a OR b"

definition GI :: "u32 \<Rightarrow> u32" where
  "GI a = drop_bit 24 a"

section \<open>The table of named entities\<close>

definition nv :: "(string \<times> u8) list" where
  "nv =
  [
   (''AElig'', 198), (''Aacute'', 193), (''Acirc'', 194), (''Agrave'', 192), (''Aring'', 197),
   (''Atilde'', 195), (''Auml'', 196), (''Ccedil'', 199), (''ETH'', 208), (''Eacute'', 201),
   (''Ecirc'', 202), (''Egrave'', 200), (''Euml'', 203), (''Iacute'', 205), (''Icirc'', 206),
   (''Igrave'', 204), (''Iuml'', 207), (''Ntilde'', 209), (''Oacute'', 211), (''Ocirc'', 212),
   (''Ograve'', 210), (''Oslash'', 216), (''Otilde'', 213), (''Ouml'', 214), (''THORN'', 222),
   (''Uacute'', 218), (''Ucirc'', 219), (''Ugrave'', 217), (''Uuml'', 220), (''Yacute'', 221),
   (''aacute'', 225), (''acirc'', 226), (''acute'', 180), (''aelig'', 230), (''agrave'', 224),
   (''amp'', 38), (''aring'', 229), (''atilde'', 227), (''auml'', 228), (''brvbar'', 166),
   (''ccedil'', 231), (''cedil'', 184), (''cent'', 162), (''copy'', 169), (''curren'', 164),
   (''deg'', 176), (''divide'', 247), (''eacute'', 233), (''ecirc'', 234), (''egrave'', 232),
   (''eth'', 240), (''euml'', 235), (''frac12'', 189), (''frac14'', 188), (''frac34'', 190),
   (''gt'', 62), (''iacute'', 237), (''icirc'', 238), (''iexcl'', 161), (''igrave'', 236),
   (''iquest'', 191), (''iuml'', 239), (''laquo'', 171), (''lt'', 60), (''macr'', 175),
   (''micro'', 181), (''middot'', 183), (''nbsp'', 160), (''not'', 172), (''ntilde'', 241),
   (''oacute'', 243), (''ocirc'', 244), (''ograve'', 242), (''ordf'', 170), (''ordm'', 186),
   (''oslash'', 248), (''otilde'', 245), (''ouml'', 246), (''para'', 182), (''plusmn'', 177),
   (''pound'', 163), (''quot'', 34), (''raquo'', 187), (''reg'', 174), (''sect'', 167),
   (''shy'', 173), (''sup1'', 185), (''sup2'', 178), (''sup3'', 179), (''szlig'', 223),
   (''thorn'', 254), (''times'', 215), (''uacute'', 250), (''ucirc'', 251), (''ugrave'', 249),
   (''uml'', 168), (''uuml'', 252), (''yacute'', 253), (''yen'', 165), (''yuml'', 255)]"

text \<open>
  \<open>nv[ia].name[i]\<close>: the names are arrays of seven characters, filled with NULs.
\<close>

definition name_size :: nat where
  "name_size = 7"

definition nv_char :: "nat \<Rightarrow> nat \<Rightarrow> u8 option" where
  "nv_char ia i =
     (if ia < length nv \<and> i < name_size
      then let s = fst (nv ! ia) in Some (if i < length s then byte_of (s ! i) else 0)
      else None)"

section \<open>One step of the machine\<close>

type_synonym unvis_res = "unvis_ret \<times> u8 \<times> u32"

text \<open>End of input.\<close>

definition unvis_end :: "u8 \<Rightarrow> u32 \<Rightarrow> unvis_res" where
  "unvis_end cp astate =
     (let st = GS astate in
      if st = S_OCTAL2 \<or> st = S_OCTAL3 \<or> st = S_HEX2 then (UNVIS_VALID, cp, SS 0 S_GROUND)
      else if st = S_GROUND then (UNVIS_NOCHAR, cp, astate)
      else (UNVIS_SYNBAD, cp, astate))"

definition unvis_bad :: "u8 \<Rightarrow> unvis_res" where
  "unvis_bad cp = (UNVIS_SYNBAD, cp, SS 0 S_GROUND)"

definition unvis_ground :: "u8 \<Rightarrow> u32 \<Rightarrow> u32 \<Rightarrow> unvis_res" where
  "unvis_ground c astate flag =
     (if flag AND VIS_NOESCAPE = 0 \<and> c = byte_of (CHR 0x5C) then (UNVIS_NOCHAR, 0, SS 0 S_START)
      else if flag AND VIS_HTTP1808 \<noteq> 0 \<and> c = byte_of (CHR ''%'')
      then (UNVIS_NOCHAR, 0, SS 0 S_HEX1)
      else if flag AND VIS_HTTP1866 \<noteq> 0 \<and> c = byte_of (CHR ''&'')
      then (UNVIS_NOCHAR, 0, SS 0 S_AMP)
      else if flag AND VIS_MIMESTYLE \<noteq> 0 \<and> c = byte_of (CHR ''='')
      then (UNVIS_NOCHAR, 0, SS 0 S_MIME1)
      else (UNVIS_VALID, c, astate))"

text \<open>The escapes of one letter that stand for one character.\<close>

definition start_letters :: "(char \<times> u8) list" where
  "start_letters =
     [(CHR 0x5C, 0x5C), (CHR ''n'', 0x0A), (CHR ''r'', 0x0D), (CHR ''b'', 0x08),
      (CHR ''a'', 0x07), (CHR ''v'', 0x0B), (CHR ''t'', 0x09), (CHR ''f'', 0x0C),
      (CHR ''s'', 0x20), (CHR ''E'', 0x1B)]"

definition start_letter :: "u8 \<Rightarrow> u8 option" where
  "start_letter c = map_of (map (\<lambda>(l, v). (byte_of l, v)) start_letters) c"

definition unvis_start :: "u8 \<Rightarrow> u8 \<Rightarrow> unvis_res" where
  "unvis_start cp c =
     (case start_letter c of
        Some v \<Rightarrow> (UNVIS_VALID, v, SS 0 S_GROUND)
      | None \<Rightarrow>
          if isoctal c then (UNVIS_NOCHAR, c - byte_of (CHR ''0''), SS 0 S_OCTAL2)
          else if c = byte_of (CHR ''M'') then (UNVIS_NOCHAR, 0x80, SS 0 S_META)
          else if c = byte_of (CHR ''^'') then (UNVIS_NOCHAR, cp, SS 0 S_CTRL)
          else if c = byte_of (CHR ''x'') then (UNVIS_NOCHAR, cp, SS 0 S_HEX)
          else if c = byte_of (CHR 0x0A) then (UNVIS_NOCHAR, cp, SS 0 S_GROUND)
          else if c = byte_of (CHR ''$'') then (UNVIS_NOCHAR, cp, SS 0 S_GROUND)
          else if isgraph8 c then (UNVIS_VALID, c, SS 0 S_GROUND)
          else unvis_bad cp)"

definition unvis_meta :: "u8 \<Rightarrow> u8 \<Rightarrow> unvis_res" where
  "unvis_meta cp c =
     (if c = byte_of (CHR ''-'') then (UNVIS_NOCHAR, cp, SS 0 S_META1)
      else if c = byte_of (CHR ''^'') then (UNVIS_NOCHAR, cp, SS 0 S_CTRL)
      else unvis_bad cp)"

definition unvis_meta1 :: "u8 \<Rightarrow> u8 \<Rightarrow> unvis_res" where
  "unvis_meta1 cp c = (UNVIS_VALID, cp OR c, SS 0 S_GROUND)"

definition unvis_ctrl :: "u8 \<Rightarrow> u8 \<Rightarrow> unvis_res" where
  "unvis_ctrl cp c =
     (UNVIS_VALID, if c = byte_of (CHR ''?'') then cp OR 0x7F else cp OR (c AND 0x1F),
      SS 0 S_GROUND)"

definition unvis_octal2 :: "u8 \<Rightarrow> u8 \<Rightarrow> unvis_res" where
  "unvis_octal2 cp c =
     (if isoctal c then (UNVIS_NOCHAR, push_bit 3 cp + (c - byte_of (CHR ''0'')), SS 0 S_OCTAL3)
      else (UNVIS_VALIDPUSH, cp, SS 0 S_GROUND))"

definition unvis_octal3 :: "u8 \<Rightarrow> u8 \<Rightarrow> unvis_res" where
  "unvis_octal3 cp c =
     (if isoctal c then (UNVIS_VALID, push_bit 3 cp + (c - byte_of (CHR ''0'')), SS 0 S_GROUND)
      else (UNVIS_VALIDPUSH, cp, SS 0 S_GROUND))"

definition unvis_hex1 :: "u8 \<Rightarrow> u8 \<Rightarrow> unvis_res" where
  "unvis_hex1 cp c =
     (if isxdigit8 c then (UNVIS_NOCHAR, xtod c, SS 0 S_HEX2)
      else (UNVIS_VALIDPUSH, cp, SS 0 S_GROUND))"

definition unvis_hex :: "u8 \<Rightarrow> u8 \<Rightarrow> unvis_res" where
  "unvis_hex cp c = (if \<not> isxdigit8 c then unvis_bad cp else unvis_hex1 cp c)"

definition unvis_hex2 :: "u8 \<Rightarrow> u8 \<Rightarrow> unvis_res" where
  "unvis_hex2 cp c =
     (if isxdigit8 c then (UNVIS_VALID, xtod c OR push_bit 4 cp, S_GROUND)
      else (UNVIS_VALIDPUSH, cp, S_GROUND))"

definition unvis_mime1 :: "u8 \<Rightarrow> u8 \<Rightarrow> unvis_res" where
  "unvis_mime1 cp c =
     (if c = byte_of (CHR 0x0A) \<or> c = byte_of (CHR 0x0D) then (UNVIS_NOCHAR, cp, SS 0 S_EATCRNL)
      else if isxdigit8 c \<and> (isdigit8 c \<or> isupper8 c) then (UNVIS_NOCHAR, XTOD c, SS 0 S_MIME2)
      else unvis_bad cp)"

definition unvis_mime2 :: "u8 \<Rightarrow> u8 \<Rightarrow> unvis_res" where
  "unvis_mime2 cp c =
     (if isxdigit8 c \<and> (isdigit8 c \<or> isupper8 c)
      then (UNVIS_VALID, XTOD c OR push_bit 4 cp, SS 0 S_GROUND)
      else unvis_bad cp)"

definition unvis_eatcrnl :: "u8 \<Rightarrow> u8 \<Rightarrow> u32 \<Rightarrow> unvis_res" where
  "unvis_eatcrnl cp c astate =
     (if c = byte_of (CHR 0x0D) \<or> c = byte_of (CHR 0x0A) then (UNVIS_NOCHAR, cp, astate)
      else if c = byte_of (CHR ''='') then (UNVIS_NOCHAR, cp, SS 0 S_MIME1)
      else (UNVIS_VALID, c, SS 0 S_GROUND))"

text \<open>
  The search for the row of the table that goes on with character \<open>uc\<close>.  The inner result is
  \<open>None\<close> for the jump to \<open>bad\<close>, the outer one for an access outside the table.
\<close>

function nv_search :: "nat \<Rightarrow> nat \<Rightarrow> u8 \<Rightarrow> u8 \<Rightarrow> nat option option" where
  "nv_search ia i lc uc =
     (if ia < length nv then
        Option.bind (if i \<noteq> 0 then nv_char ia (i - 1) else Some lc) (\<lambda>last.
          if last \<noteq> lc then Some None
          else Option.bind (nv_char ia i) (\<lambda>ch.
            if ch = uc then Some (Some ia) else nv_search (Suc ia) i lc uc))
      else Some None)"
  by pat_completeness auto
termination
  by (relation "measure (\<lambda>(ia, i, lc, uc). length nv - ia)") auto

declare nv_search.simps [simp del]

definition unvis_string :: "u8 \<Rightarrow> u8 \<Rightarrow> u32 \<Rightarrow> unvis_res option" where
  "unvis_string cp c astate =
     (let i = unat (GI astate) in
      Option.bind (if i = 0 then Some 0 else nv_char (unat cp) (i - 1)) (\<lambda>lc.
        let uc = (if c = byte_of (CHR '';'') then 0 else c) in
        Option.bind (nv_search (unat cp) i lc uc) (\<lambda>r.
          case r of None \<Rightarrow> Some (unvis_bad cp)
          | Some ia \<Rightarrow>
              if uc \<noteq> 0 then Some (UNVIS_NOCHAR, of_nat ia, SS (of_nat (i + 1)) S_STRING)
              else Some (UNVIS_VALID, snd (nv ! ia), SS 0 S_GROUND))))"

definition unvis_amp :: "u8 \<Rightarrow> unvis_res option" where
  "unvis_amp c =
     (if c = byte_of (CHR ''#'') then Some (UNVIS_NOCHAR, 0, SS 0 S_NUMBER)
      else unvis_string 0 c (SS 0 S_STRING))"

definition unvis_number :: "u8 \<Rightarrow> u8 \<Rightarrow> u32 \<Rightarrow> unvis_res" where
  "unvis_number cp c astate =
     (if c = byte_of (CHR '';'') then (UNVIS_VALID, cp, astate)
      else if \<not> isdigit8 c then unvis_bad cp
      else if unat cp * 10 > 255 - unat (c - byte_of (CHR ''0'')) then unvis_bad cp
      else (UNVIS_NOCHAR, cp * 10 + c - byte_of (CHR ''0''), astate))"

text \<open>The whole step.\<close>

definition unvis :: "u8 \<Rightarrow> u8 \<Rightarrow> u32 \<Rightarrow> u32 \<Rightarrow> unvis_res option" where
  "unvis cp c astate flag =
     (let st = GS astate in
      if flag AND UNVIS_END \<noteq> 0 then Some (unvis_end cp astate)
      else if st = S_GROUND then Some (unvis_ground c astate flag)
      else if st = S_START then Some (unvis_start cp c)
      else if st = S_META then Some (unvis_meta cp c)
      else if st = S_META1 then Some (unvis_meta1 cp c)
      else if st = S_CTRL then Some (unvis_ctrl cp c)
      else if st = S_OCTAL2 then Some (unvis_octal2 cp c)
      else if st = S_OCTAL3 then Some (unvis_octal3 cp c)
      else if st = S_HEX then Some (unvis_hex cp c)
      else if st = S_HEX1 then Some (unvis_hex1 cp c)
      else if st = S_HEX2 then Some (unvis_hex2 cp c)
      else if st = S_MIME1 then Some (unvis_mime1 cp c)
      else if st = S_MIME2 then Some (unvis_mime2 cp c)
      else if st = S_EATCRNL then Some (unvis_eatcrnl cp c astate)
      else if st = S_AMP then unvis_amp c
      else if st = S_STRING then unvis_string cp c astate
      else if st = S_NUMBER then Some (unvis_number cp c astate)
      else Some (unvis_bad cp))"

lemmas unvis_step_defs =
  unvis_def unvis_end_def unvis_bad_def unvis_ground_def unvis_start_def unvis_meta_def
  unvis_meta1_def unvis_ctrl_def unvis_octal2_def unvis_octal3_def unvis_hex_def unvis_hex1_def
  unvis_hex2_def unvis_mime1_def unvis_mime2_def unvis_eatcrnl_def unvis_amp_def
  unvis_string_def unvis_number_def

lemma SS_0 [simp]: "SS 0 b = b"
  by (simp add: SS_def)

text \<open>A character is pushed back only out of an unfinished escape, and into the ground state.\<close>

lemma unvis_string_no_push: "unvis_string cp c st \<noteq> Some (UNVIS_VALIDPUSH, cp', st')"
  by (auto simp: unvis_string_def unvis_bad_def Let_def Option.bind_eq_Some_conv split: option.splits)

lemma unvis_push:
  assumes "unvis cp c st flag = Some (UNVIS_VALIDPUSH, cp', st')"
  shows "GS st \<noteq> S_GROUND \<and> st' = S_GROUND"
proof -
  have "\<And>c. unvis_amp c \<noteq> Some (UNVIS_VALIDPUSH, cp', st')"
    by (simp add: unvis_amp_def unvis_string_no_push)
  moreover have "unvis_ground c st flag \<noteq> (UNVIS_VALIDPUSH, cp', st')"
    by (simp add: unvis_ground_def)
  moreover have "unvis_start cp c \<noteq> (UNVIS_VALIDPUSH, cp', st')"
    by (simp add: unvis_start_def unvis_bad_def split: option.splits)
  ultimately show ?thesis
    using assms unvis_string_no_push [of cp c st cp' st']
    by (auto simp: unvis_def unvis_end_def unvis_meta_def unvis_meta1_def unvis_ctrl_def
        unvis_octal2_def unvis_octal3_def unvis_hex_def unvis_hex1_def unvis_hex2_def
        unvis_mime1_def unvis_mime2_def unvis_eatcrnl_def unvis_number_def unvis_bad_def Let_def
        split: if_splits)
qed

section \<open>Strings\<close>

datatype unvis_error = UN_ENOSPC | UN_EINVAL | UN_oob

text \<open>
  The loop of \<open>strnunvisx\<close> over the characters before the NUL.  Its result is what it stores,
  what is left of \<open>dlen\<close>, the variable \<open>t\<close> and the state.  \<open>CHECKSPACE\<close> is the test of \<open>d\<close>;
  the jump to \<open>again\<close> keeps the character.
\<close>

function unvis_loop ::
    "u32 \<Rightarrow> nat \<Rightarrow> u8 list \<Rightarrow> u8 \<Rightarrow> u32 \<Rightarrow> unvis_error + u8 list \<times> nat \<times> u8 \<times> u32" where
  "unvis_loop flag d [] t st = Inr ([], d, t, st)"
| "unvis_loop flag d (c # src) t st =
     (case unvis t c st flag of
        None \<Rightarrow> Inl UN_oob
      | Some (UNVIS_VALID, t', st') \<Rightarrow>
          if d = 0 then Inl UN_ENOSPC
          else err_bind (unvis_loop flag (d - 1) src t' st')
                 (\<lambda>(out, r). Inr (t' # out, r))
      | Some (UNVIS_VALIDPUSH, t', st') \<Rightarrow>
          if d = 0 then Inl UN_ENOSPC
          else err_bind (unvis_loop flag (d - 1) (c # src) t' st')
                 (\<lambda>(out, r). Inr (t' # out, r))
      | Some (UNVIS_NOCHAR, t', st') \<Rightarrow> unvis_loop flag d src t' st'
      | Some (UNVIS_SYNBAD, t', st') \<Rightarrow> Inl UN_EINVAL)"
  by pat_completeness auto
termination
  by (relation "measures [\<lambda>(flag, d, src, t, st). length src,
        \<lambda>(flag, d, src, t, st). if GS st = S_GROUND then 0 else 1]")
    (auto dest: unvis_push simp: GS_def)

declare unvis_loop.simps(2) [simp del]

definition strnunvisx :: "nat \<Rightarrow> u8 list \<Rightarrow> u32 \<Rightarrow> unvis_error + u8 list" where
  "strnunvisx dlen src flag =
     err_bind (unvis_loop flag dlen src 0 0) (\<lambda>(out, d, t, st).
       case unvis t 0 st UNVIS_END of
         None \<Rightarrow> Inl UN_oob
       | Some (r, t', st') \<Rightarrow>
           if r = UNVIS_VALID then
             if d = 0 then Inl UN_ENOSPC
             else if d - 1 = 0 then Inl UN_ENOSPC else Inr (out @ [t'])
           else if d = 0 then Inl UN_ENOSPC else Inr out)"

definition SIZE_MAX :: nat where
  "SIZE_MAX = 2 ^ 64 - 1"

definition strunvisx :: "u8 list \<Rightarrow> u32 \<Rightarrow> unvis_error + u8 list" where
  "strunvisx src flag = strnunvisx SIZE_MAX src flag"

definition strunvis :: "u8 list \<Rightarrow> unvis_error + u8 list" where
  "strunvis src = strnunvisx SIZE_MAX src 0"

definition strnunvis :: "nat \<Rightarrow> u8 list \<Rightarrow> unvis_error + u8 list" where
  "strnunvis dlen src = strnunvisx dlen src 0"

section \<open>The tool\<close>

text \<open>
  The loop of the tool over a file: its output and the offsets it warns about.  After a bad
  sequence it starts over in the ground state.
\<close>

function process_loop ::
    "u32 \<Rightarrow> nat \<Rightarrow> u8 list \<Rightarrow> u8 \<Rightarrow> u32 \<Rightarrow> (u8 list \<times> nat list \<times> u8 \<times> u32) option" where
  "process_loop eflags offset [] outc state = Some ([], [], outc, state)"
| "process_loop eflags offset (c # fp) outc state =
     (case unvis outc c state eflags of
        None \<Rightarrow> None
      | Some (UNVIS_VALID, outc', state') \<Rightarrow>
          map_option (\<lambda>(out, r). (outc' # out, r)) (process_loop eflags (offset + 1) fp outc' state')
      | Some (UNVIS_VALIDPUSH, outc', state') \<Rightarrow>
          map_option (\<lambda>(out, r). (outc' # out, r)) (process_loop eflags offset (c # fp) outc' state')
      | Some (UNVIS_SYNBAD, outc', state') \<Rightarrow>
          map_option (\<lambda>(out, ws, r). (out, (offset + 1) # ws, r))
            (process_loop eflags (offset + 1) fp outc' 0)
      | Some (UNVIS_NOCHAR, outc', state') \<Rightarrow> process_loop eflags (offset + 1) fp outc' state')"
  by pat_completeness auto
termination
  by (relation "measures [\<lambda>(eflags, offset, fp, outc, state). length fp,
        \<lambda>(eflags, offset, fp, outc, state). if GS state = S_GROUND then 0 else 1]")
    (auto dest: unvis_push simp: GS_def)

declare process_loop.simps(2) [simp del]

definition unvis_process :: "u32 \<Rightarrow> u8 \<Rightarrow> u8 list \<Rightarrow> (u8 list \<times> nat list) option" where
  "unvis_process eflags outc0 fp =
     Option.bind (process_loop eflags 0 fp outc0 0) (\<lambda>(out, ws, outc, state).
       Option.bind (unvis outc 0 state (eflags OR UNVIS_END)) (\<lambda>(r, outc', state').
         Some (if r = UNVIS_VALID then out @ [outc'] else out, ws)))"

section \<open>Accesses to the table\<close>

lemma byte_of_eq [simp]: "byte_of c = byte_of d \<longleftrightarrow> c = d"
proof
  assume "byte_of c = byte_of d"
  then have "unat (byte_of c) = unat (byte_of d)" by simp
  then show "c = d" by (simp add: byte_of_def unat_of_nat of_char_mod_256)
qed simp

lemma nv_length [simp]: "length nv = 100"
  by (simp add: nv_def)

lemma nv_names:
  "\<forall>r \<in> set nv. length (fst r) \<le> 6 \<and> CHR 0x00 \<notin> set (fst r) \<and> CHR '';'' \<notin> set (fst r)"
  by (simp add: nv_def)

lemma nv_nth:
  assumes "ia < 100"
  shows "length (fst (nv ! ia)) \<le> 6"
    "k < length (fst (nv ! ia)) \<Longrightarrow> fst (nv ! ia) ! k \<noteq> CHR 0x00"
    "k < length (fst (nv ! ia)) \<Longrightarrow> fst (nv ! ia) ! k \<noteq> CHR '';''"
  using nv_names nth_mem [of ia nv] assms by (force simp: in_set_conv_nth)+

definition nv_byte :: "nat \<Rightarrow> nat \<Rightarrow> u8" where
  "nv_byte ia i = (let s = fst (nv ! ia) in if i < length s then byte_of (s ! i) else 0)"

lemma nv_char_in: "ia < 100 \<Longrightarrow> i < 7 \<Longrightarrow> nv_char ia i = Some (nv_byte ia i)"
  by (simp add: nv_char_def name_size_def nv_byte_def Let_def)

lemma nv_search_in:
  assumes "i \<le> 6"
  shows "\<exists>r. nv_search ia i lc uc = Some r \<and>
    (\<forall>ja. r = Some ja \<longrightarrow> ja < 100 \<and> nv_byte ja i = uc)"
  using assms
proof (induction ia i lc uc rule: nv_search.induct)
  case (1 ia i lc uc)
  show ?case
  proof (cases "ia < 100 \<and> (i \<noteq> 0 \<longrightarrow> nv_byte ia (i - 1) = lc) \<and> nv_byte ia i \<noteq> uc")
    case True
    then show ?thesis
      using 1 by (subst nv_search.simps) (cases "i = 0"; simp add: nv_char_in)
  next
    case False
    then show ?thesis
      using 1 by (subst nv_search.simps) (cases "i = 0"; auto simp: nv_char_in)
  qed
qed

text \<open>
  While a name is collected, \<open>*cp\<close> is a row of the table and the index is within its name.
\<close>

definition unvis_ok :: "u8 \<Rightarrow> u32 \<Rightarrow> bool" where
  "unvis_ok cp st \<longleftrightarrow> (GS st = S_STRING \<longrightarrow>
     cp < 100 \<and> 0 < unat (GI st) \<and> unat (GI st) \<le> length (fst (nv ! unat cp)))"

lemma GS_take_bit: "GS a = take_bit 8 a"
  by (simp add: GS_def take_bit_eq_mask mask_numeral)

lemma byte_take_bit: "take_bit 8 b = b \<longleftrightarrow> b < 256" for b :: u32
  by (simp add: take_bit_self_iff word_less_def)

lemma GS_small [simp]: "b < 256 \<Longrightarrow> GS b = b"
  by (simp add: GS_take_bit byte_take_bit)

lemma not_bit_byte:
  fixes b :: u32
  assumes "b < 256" "8 \<le> n"
  shows "\<not> bit b n"
proof -
  have "take_bit 8 b = b" using assms by (simp add: byte_take_bit)
  then have "bit b n = bit (take_bit 8 b) n" by simp
  then show ?thesis using assms by (simp add: bit_take_bit_iff)
qed

lemma GS_SS:
  assumes "b < 256"
  shows "GS (SS a b) = b"
  using assms not_bit_byte [OF assms]
  by (intro bit_word_eqI) (auto simp: GS_take_bit SS_def bit_simps)

lemma GI_SS:
  assumes "a < 256" "b < 256"
  shows "GI (SS a b) = a"
  using assms not_bit_byte [OF assms(1)] not_bit_byte [OF assms(2)]
  by (intro bit_word_eqI) (auto simp: GI_def SS_def bit_simps le_diff_conv2 not_le [symmetric])

lemma nv_index_u8: "ia < 100 \<Longrightarrow> unat (of_nat ia :: u8) = ia"
  by (simp add: unat_of_nat_u8)

lemma unvis_string_safe:
  assumes "GI st = 0 \<or> unvis_ok cp st \<and> GS st = S_STRING"
  shows "\<exists>r cp' st'. unvis_string cp c st = Some (r, cp', st') \<and> unvis_ok cp' st'"
proof -
  define i where "i = unat (GI st)"
  have i: "i \<le> 6" "i \<noteq> 0 \<Longrightarrow> unat cp < 100"
    using assms nv_nth(1) [of "unat cp"] by (auto simp: i_def unvis_ok_def word_less_nat_alt)
  define uc where "uc = (if c = byte_of (CHR '';'') then 0 else c)"
  define lc where "lc = (if i = 0 then 0 else nv_byte (unat cp) (i - 1))"
  obtain r where r: "nv_search (unat cp) i lc uc = Some r"
    "\<And>ja. r = Some ja \<Longrightarrow> ja < 100 \<and> nv_byte ja i = uc"
    using nv_search_in [OF i(1)] by blast
  have ok: "unvis_ok (of_nat ja) (SS (of_nat (i + 1)) S_STRING)" if "r = Some ja" "uc \<noteq> 0" for ja
  proof -
    have "i < length (fst (nv ! ja))"
      using r(2) [OF that(1)] that(2) by (auto simp: nv_byte_def Let_def split: if_splits)
    moreover have "unat (of_nat (i + 1) :: u32) = i + 1"
      using i by (simp add: unat_of_nat del: of_nat_add of_nat_Suc)
    moreover from this have "(of_nat (i + 1) :: u32) < 256" using i by (simp add: word_less_nat_alt del: of_nat_add of_nat_Suc)
    ultimately show ?thesis
      using r(2) [OF that(1)]
      by (simp add: unvis_ok_def GI_SS nv_index_u8 word_less_nat_alt del: of_nat_add of_nat_Suc)
  qed
  have "(if i = 0 then Some 0 else nv_char (unat cp) (i - 1)) = Some lc"
    using i by (simp add: lc_def nv_char_in)
  then have "unvis_string cp c st =
     (case r of None \<Rightarrow> Some (unvis_bad cp)
      | Some ia \<Rightarrow>
          if uc \<noteq> 0 then Some (UNVIS_NOCHAR, of_nat ia, SS (of_nat (i + 1)) S_STRING)
          else Some (UNVIS_VALID, snd (nv ! ia), SS 0 S_GROUND))"
    using r(1) by (simp add: unvis_string_def Let_def flip: i_def uc_def)
  then show ?thesis
    using ok by (cases r) (auto simp: unvis_bad_def unvis_ok_def)
qed

text \<open>No step leaves the table, and every step keeps the invariant.\<close>

lemma unvis_ok_state: "GS st \<noteq> S_STRING \<Longrightarrow> unvis_ok cp st"
  by (simp add: unvis_ok_def)

lemma simple_steps_state:
  "GS st \<noteq> S_STRING \<Longrightarrow> GS (snd (snd (unvis_ground c st flag))) \<noteq> S_STRING"
  "GS (snd (snd (unvis_start cp c))) \<noteq> S_STRING"
  "GS (snd (snd (unvis_meta cp c))) \<noteq> S_STRING"
  "GS (snd (snd (unvis_meta1 cp c))) \<noteq> S_STRING"
  "GS (snd (snd (unvis_ctrl cp c))) \<noteq> S_STRING"
  "GS (snd (snd (unvis_octal2 cp c))) \<noteq> S_STRING"
  "GS (snd (snd (unvis_octal3 cp c))) \<noteq> S_STRING"
  "GS (snd (snd (unvis_hex cp c))) \<noteq> S_STRING"
  "GS (snd (snd (unvis_hex1 cp c))) \<noteq> S_STRING"
  "GS (snd (snd (unvis_hex2 cp c))) \<noteq> S_STRING"
  "GS (snd (snd (unvis_mime1 cp c))) \<noteq> S_STRING"
  "GS (snd (snd (unvis_mime2 cp c))) \<noteq> S_STRING"
  "GS st \<noteq> S_STRING \<Longrightarrow> GS (snd (snd (unvis_eatcrnl cp c st))) \<noteq> S_STRING"
  "GS st \<noteq> S_STRING \<Longrightarrow> GS (snd (snd (unvis_number cp c st))) \<noteq> S_STRING"
  "GS (snd (snd (unvis_bad cp))) \<noteq> S_STRING"
  by (simp_all add: unvis_ground_def unvis_start_def unvis_meta_def unvis_meta1_def unvis_ctrl_def
      unvis_octal2_def unvis_octal3_def unvis_hex_def unvis_hex1_def unvis_hex2_def
      unvis_mime1_def unvis_mime2_def unvis_eatcrnl_def unvis_number_def unvis_bad_def
      split: option.split)

lemma unvis_safe:
  assumes "unvis_ok cp st"
  shows "\<exists>r cp' st'. unvis cp c st flag = Some (r, cp', st') \<and> unvis_ok cp' st'"
proof -
  consider "flag AND UNVIS_END \<noteq> 0" | "flag AND UNVIS_END = 0" "GS st = S_AMP"
    | "flag AND UNVIS_END = 0" "GS st = S_STRING"
    | "flag AND UNVIS_END = 0" "GS st \<noteq> S_AMP" "GS st \<noteq> S_STRING"
    by blast
  then show ?thesis
  proof cases
    case 1
    then show ?thesis
      using assms by (auto simp: unvis_def unvis_end_def Let_def unvis_ok_def)
  next
    case 2
    then show ?thesis
      using unvis_string_safe [of S_STRING 0 c]
      by (auto simp: unvis_def unvis_amp_def unvis_ok_def GI_def)
  next
    case 3
    then show ?thesis
      using unvis_string_safe [of st cp c] assms by (simp add: unvis_def)
  next
    case 4
    then have "case unvis cp c st flag of None \<Rightarrow> False | Some x \<Rightarrow> GS (snd (snd x)) \<noteq> S_STRING"
      by (simp add: unvis_def Let_def simple_steps_state)
    then show ?thesis
      by (auto simp: unvis_ok_def split: option.splits)
  qed
qed

lemma unvis_loop_safe:
  assumes "unvis_ok t st"
  shows "unvis_loop flag d src t st \<noteq> Inl UN_oob \<and>
    (\<forall>out d' t' st'. unvis_loop flag d src t st = Inr (out, d', t', st') \<longrightarrow>
       unvis_ok t' st' \<and> length out + d' = d)"
  using assms
proof (induction flag d src t st rule: unvis_loop.induct)
  case (2 flag d c src t st)
  obtain r t1 st1 where u: "unvis t c st flag = Some (r, t1, st1)" and ok: "unvis_ok t1 st1"
    using unvis_safe [OF 2(4)] by blast
  show ?case
    using 2(1) [OF u] 2(2) [OF u] 2(3) [OF u] u ok
    by (cases r) (auto simp: unvis_loop.simps(2) err_bind_Inr err_bind_Inl)
qed simp

text \<open>
  No more characters come out than went in: an unfinished escape stands for at most one character.
\<close>

definition pend :: "u32 \<Rightarrow> nat" where
  "pend st = (if GS st = S_GROUND then 0 else 1)"

lemma ground_valid:
  assumes "unvis cp c st flag = Some (UNVIS_VALID, cp', st')" "GS st = S_GROUND"
  shows "GS st' = S_GROUND"
  using assms by (auto simp: unvis_def unvis_ground_def unvis_end_def Let_def split: if_splits)

lemma unvis_loop_length:
  assumes "unvis_loop flag d src t st = Inr (out, d', t', st')"
  shows "length out + pend st' \<le> length src + pend st"
  using assms
proof (induction flag d src t st arbitrary: out rule: unvis_loop.induct)
  case (2 flag d c src t st)
  obtain r t1 st1 where u: "unvis t c st flag = Some (r, t1, st1)"
    using 2(4) by (auto simp: unvis_loop.simps(2) split: option.splits)
  show ?case
    using 2(1) [OF u] 2(2) [OF u] 2(3) [OF u] 2(4) u unvis_push [of t c st flag t1 st1]
      ground_valid [of t c st flag t1 st1]
    by (cases r) (fastforce simp: unvis_loop.simps(2) err_bind_Inr pend_def split: if_splits)+
qed simp

lemma strnunvisx_cases:
  assumes "strnunvisx dlen src flag = Inr out"
  obtains out1 d t st where "unvis_loop flag dlen src 0 0 = Inr (out1, d, t, st)" "d > 0"
    "out = out1 \<or> (\<exists>t'. out = out1 @ [t'] \<and> GS st \<noteq> S_GROUND \<and> d > 1)"
  using assms
  by (fastforce simp: strnunvisx_def err_bind_Inr unvis_def unvis_end_def Let_def
      split: if_splits)

section \<open>Named entities\<close>

text \<open>The table is sorted, so that the names with a common prefix are next to each other.\<close>

lemma nv_sorted: "sorted_wrt (\<lambda>a b. fst a < fst b) nv"
proof -
  have "successively (\<lambda>a b. fst a < fst b) nv" by code_simp
  moreover have "transp (\<lambda>a b :: string \<times> u8. fst a < fst b)"
    by (rule transpI) (rule less_trans)
  ultimately show ?thesis by (simp add: successively_conv_sorted_wrt)
qed

lemma nv_less: "i < j \<Longrightarrow> j < 100 \<Longrightarrow> fst (nv ! i) < fst (nv ! j)"
  using nv_sorted by (simp add: sorted_wrt_iff_nth_less)

lemma prefix_block:
  fixes a m b :: "'a::linorder list"
  assumes "a \<le> m" "m \<le> b" "take k a = take k b"
  shows "take k m = take k a"
  using assms
proof (induction k arbitrary: a m b)
  case (Suc k)
  show ?case
  proof (cases a)
    case Nil
    with Suc.prems have "b = []" by (cases b) auto
    with Nil Suc.prems show ?thesis by simp
  next
    case (Cons x a')
    with Suc.prems obtain b' where b: "b = x # b'" "take k a' = take k b'" by (cases b) auto
    from Cons Suc.prems obtain y m' where m: "m = y # m'" by (cases m) auto
    with Cons b Suc.prems have "y = x" "a' \<le> m'" "m' \<le> b'" by auto
    with Suc.IH [of a' m' b'] b Cons m show ?thesis by simp
  qed
qed simp

lemma nv_block:
  assumes "i \<le> m" "m \<le> j" "j < 100" "take k (fst (nv ! i)) = take k (fst (nv ! j))"
  shows "take k (fst (nv ! m)) = take k (fst (nv ! j))"
proof -
  have "fst (nv ! i) \<le> fst (nv ! m)" "fst (nv ! m) \<le> fst (nv ! j)"
    using assms nv_less [of i m] nv_less [of m j] by (auto simp: le_less)
  from prefix_block [OF this assms(4)] assms(4) show ?thesis by simp
qed

lemma nv_search_finds:
  assumes "i \<le> j" "j < 100" "k \<le> 6" "nv_byte j k = uc"
    and "\<And>m. i \<le> m \<Longrightarrow> m \<le> j \<Longrightarrow> k \<noteq> 0 \<Longrightarrow> nv_byte m (k - 1) = lc"
    and "\<And>m. i \<le> m \<Longrightarrow> m < j \<Longrightarrow> nv_byte m k \<noteq> uc"
  shows "nv_search i k lc uc = Some (Some j)"
  using assms
proof (induction "j - i" arbitrary: i)
  case 0
  then show ?case by (subst nv_search.simps) (cases "k = 0"; simp add: nv_char_in)
next
  case (Suc n)
  then have "nv_search (Suc i) k lc uc = Some (Some j)" by simp
  with Suc show ?case by (subst nv_search.simps) (auto simp: nv_char_in)
qed

text \<open>
  The row reached after \<open>k\<close> characters of a name is the first one with these characters.
\<close>

definition first_row :: "nat \<Rightarrow> nat \<Rightarrow> nat" where
  "first_row j k = (LEAST i. take k (fst (nv ! i)) = take k (fst (nv ! j)))"

lemma first_row:
  "take k (fst (nv ! first_row j k)) = take k (fst (nv ! j))"
  "first_row j k \<le> j"
  "i < first_row j k \<Longrightarrow> take k (fst (nv ! i)) \<noteq> take k (fst (nv ! j))"
  unfolding first_row_def by (rule LeastI, rule refl) (auto intro: Least_le dest: not_less_Least)

lemma take_nth_eq: "take (Suc k) s = take (Suc k) s' \<Longrightarrow> take k s = take k s'"
  by (drule arg_cong [where f = "take k"]) (simp add: min_def)

lemma nv_byte_prefix:
  assumes "take k (fst (nv ! m)) = take k (fst (nv ! j))" "i < k"
  shows "nv_byte m i = nv_byte j i"
proof -
  have "length (take k (fst (nv ! m))) = length (take k (fst (nv ! j)))" using assms by simp
  then have "i < length (fst (nv ! m)) \<longleftrightarrow> i < length (fst (nv ! j))" using assms(2) by auto
  moreover have "take k (fst (nv ! m)) ! i = take k (fst (nv ! j)) ! i" using assms by simp
  ultimately show ?thesis using assms(2) by (simp add: nv_byte_def Let_def)
qed

lemma nv_search_row:
  assumes "j < 100" "k \<le> 6" "i = first_row j k" "i \<le> i'" "i' \<le> j" "nv_byte i' k = uc"
    and "\<And>m. i \<le> m \<Longrightarrow> m < i' \<Longrightarrow> nv_byte m k \<noteq> uc"
  shows "nv_search i k (if k = 0 then 0 else nv_byte j (k - 1)) uc = Some (Some i')"
proof (rule nv_search_finds)
  fix m assume m: "i \<le> m" "m \<le> i'" "k \<noteq> 0"
  then have "take k (fst (nv ! m)) = take k (fst (nv ! j))"
    using assms(1,3,5) first_row(1) [of k j] nv_block [of i m j k] by simp
  then show "nv_byte m (k - 1) = (if k = 0 then 0 else nv_byte j (k - 1))"
    using m(3) by (auto intro: nv_byte_prefix)
next
  show "i \<le> i'" "i' < 100" "k \<le> 6" "nv_byte i' k = uc" using assms(1-6) by simp_all
  show "\<And>m. i \<le> m \<Longrightarrow> m < i' \<Longrightarrow> nv_byte m k \<noteq> uc" by (rule assms(7))
qed

definition row_byte :: "nat \<Rightarrow> nat \<Rightarrow> u8" where
  "row_byte j k = of_nat (first_row j k)"

lemma byte_of_0: "byte_of c = 0 \<longleftrightarrow> c = CHR 0x00"
  using byte_of_eq [of c "CHR 0x00"] by (simp add: byte_of_def del: byte_of_eq)

lemma string_step:
  assumes "j < 100" "k < length (fst (nv ! j))" "GI st = of_nat k"
  shows "unvis_string (row_byte j k) (byte_of (fst (nv ! j) ! k)) st =
    Some (UNVIS_NOCHAR, row_byte j (Suc k), SS (of_nat (Suc k)) S_STRING)"
proof -
  let ?uc = "byte_of (fst (nv ! j) ! k)"
  let ?i = "first_row j k" let ?i' = "first_row j (Suc k)"
  have k: "k < 6" using assms nv_nth(1) [of j] by simp
  have uc: "?uc \<noteq> 0" "?uc \<noteq> byte_of (CHR '';'')" "nv_byte j k = ?uc"
    using nv_nth(2,3) [of j k] assms by (auto simp: byte_of_0 nv_byte_def)
  have le: "?i \<le> ?i'"
    using first_row(1) [of "Suc k" j] first_row(3) [of ?i' j k] take_nth_eq
    by (metis not_le)
  have search: "nv_search ?i k (if k = 0 then 0 else nv_byte j (k - 1)) ?uc = Some (Some ?i')"
  proof (rule nv_search_row [OF assms(1) _ refl le first_row(2)])
    show "nv_byte ?i' k = ?uc"
      using nv_byte_prefix [OF first_row(1) [of "Suc k" j], of k] uc(3) by simp
    fix m assume m: "?i \<le> m" "m < ?i'"
    then have "take k (fst (nv ! m)) = take k (fst (nv ! j))"
      using nv_block [of ?i m j k] first_row(1) [of k j] first_row(2) [of j "Suc k"] assms(1) by simp
    moreover have "take (Suc k) (fst (nv ! m)) \<noteq> take (Suc k) (fst (nv ! j))"
      using first_row(3) m(2) .
    ultimately show "nv_byte m k \<noteq> ?uc"
      using assms(2) uc by (auto simp: nv_byte_def Let_def take_Suc_conv_app_nth split: if_splits)
  qed (use k in simp)
  have i: "?i < 100" "?i' < 100" using first_row(2) assms(1) by (auto intro: le_less_trans)
  have lc: "nv_byte ?i (k - 1) = nv_byte j (k - 1)" if "k \<noteq> 0"
    using nv_byte_prefix [OF first_row(1) [of k j], of "k - 1"] that by simp
  have "unat (of_nat k :: u32) = k" using k by (simp add: unat_of_nat)
  then show ?thesis
    using search uc i lc k assms(3)
    by (cases "k = 0") (simp_all add: unvis_string_def Let_def row_byte_def nv_index_u8 nv_char_in)
qed

lemma string_end:
  assumes "j < 100" "k = length (fst (nv ! j))" "GI st = of_nat k"
  shows "unvis_string (row_byte j k) (byte_of (CHR '';'')) st =
    Some (UNVIS_VALID, snd (nv ! j), S_GROUND)"
proof -
  let ?i = "first_row j k"
  have k: "k \<le> 6" using assms nv_nth(1) [of j] by simp
  have search: "nv_search ?i k (if k = 0 then 0 else nv_byte j (k - 1)) 0 = Some (Some j)"
  proof (rule nv_search_row [OF assms(1) k refl first_row(2) order_refl])
    show "nv_byte j k = 0" using assms(2) by (simp add: nv_byte_def)
    fix m assume m: "?i \<le> m" "m < j"
    then have eq: "take k (fst (nv ! m)) = fst (nv ! j)"
      using nv_block [of ?i m j k] first_row(1) [of k j] assms by simp
    have "length (fst (nv ! m)) > k"
    proof (rule ccontr)
      assume "\<not> k < length (fst (nv ! m))"
      then have "fst (nv ! m) = fst (nv ! j)" using eq by simp
      then show False using nv_less [of m j] m(2) assms(1) by simp
    qed
    then show "nv_byte m k \<noteq> 0"
      using nv_nth(2) [of m k] m(2) assms(1) by (simp add: nv_byte_def byte_of_0)
  qed
  have i: "?i < 100" using first_row(2) assms(1) by (auto intro: le_less_trans)
  have lc: "nv_byte ?i (k - 1) = nv_byte j (k - 1)" if "k \<noteq> 0"
    using nv_byte_prefix [OF first_row(1) [of k j], of "k - 1"] that by simp
  have "unat (of_nat k :: u32) = k" using k by (simp add: unat_of_nat)
  then show ?thesis
    using search i lc k assms(3)
    by (cases "k = 0") (simp_all add: unvis_string_def Let_def row_byte_def nv_index_u8 nv_char_in)
qed

section \<open>Decoding from any point of a text\<close>

definition decode :: "u32 \<Rightarrow> nat \<Rightarrow> u8 list \<Rightarrow> u8 \<Rightarrow> u32 \<Rightarrow> unvis_error + u8 list" where
  "decode flag d src t st =
     err_bind (unvis_loop flag d src t st) (\<lambda>(out, d, t, st).
       case unvis t 0 st UNVIS_END of
         None \<Rightarrow> Inl UN_oob
       | Some (r, t', st') \<Rightarrow>
           if r = UNVIS_VALID then
             if d = 0 then Inl UN_ENOSPC
             else if d - 1 = 0 then Inl UN_ENOSPC else Inr (out @ [t'])
           else if d = 0 then Inl UN_ENOSPC else Inr out)"

lemma strnunvisx_decode: "strnunvisx dlen src flag = decode flag dlen src 0 0"
  by (simp add: strnunvisx_def decode_def)

definition emit_byte :: "u8 \<Rightarrow> nat \<Rightarrow> (nat \<Rightarrow> unvis_error + u8 list) \<Rightarrow> unvis_error + u8 list" where
  "emit_byte t d k =
     (if d = 0 then Inl UN_ENOSPC else err_bind (k (d - 1)) (\<lambda>out. Inr (t # out)))"

lemma decode_step:
  assumes "unvis t c st flag = Some (r, t', st')"
  shows "r = UNVIS_NOCHAR \<Longrightarrow> decode flag d (c # src) t st = decode flag d src t' st'"
    "r = UNVIS_VALID \<Longrightarrow>
      decode flag d (c # src) t st = emit_byte t' d (\<lambda>d. decode flag d src t' st')"
    "r = UNVIS_VALIDPUSH \<Longrightarrow>
      decode flag d (c # src) t st = emit_byte t' d (\<lambda>d. decode flag d (c # src) t' st')"
  using assms
  by (auto simp: decode_def unvis_loop.simps(2) [of flag d c src t st] emit_byte_def err_bind_def
      split: sum.splits option.splits unvis_ret.splits)

lemma decode_ground: "decode flag d src t S_GROUND = decode flag d src t' S_GROUND"
proof (cases src)
  case Nil
  then show ?thesis by (simp add: decode_def unvis_def unvis_end_def)
next
  case (Cons c src')
  then show ?thesis
  proof (cases "flag AND UNVIS_END = 0")
    case True
    then have "unvis t c S_GROUND flag = unvis t' c S_GROUND flag" by (simp add: unvis_def)
    then show ?thesis by (simp add: Cons decode_def unvis_loop.simps(2))
  next
    case False
    have "unvis_loop flag d xs t S_GROUND = Inr ([], d, t, S_GROUND)" for xs t
      using False
      by (induction xs) (simp_all add: unvis_loop.simps(2) unvis_def unvis_end_def)
    then show ?thesis by (simp add: decode_def unvis_def unvis_end_def)
  qed
qed

lemma decode_name:
  assumes "j < 100" "k \<le> length (fst (nv ! j))" "0 < k" "flag AND UNVIS_END = 0"
  shows "decode flag d (bytes (drop k (fst (nv ! j)) @ '';'') @ rest) (row_byte j k)
      (SS (of_nat k) S_STRING) =
    emit_byte (snd (nv ! j)) d (\<lambda>d. decode flag d rest (snd (nv ! j)) S_GROUND)"
  using assms
proof (induction "length (fst (nv ! j)) - k" arbitrary: k)
  case 0
  then have st: "(of_nat k :: u32) < 256" "k = length (fst (nv ! j))"
    using nv_nth(1) [of j] by (simp_all add: word_less_nat_alt unat_of_nat)
  then have "unvis (row_byte j k) (byte_of (CHR '';'')) (SS (of_nat k) S_STRING) flag =
      Some (UNVIS_VALID, snd (nv ! j), S_GROUND)"
    using string_end [of j k "SS (of_nat k) S_STRING"] 0 by (simp add: unvis_def GS_SS GI_SS)
  from decode_step(2) [OF this] st(2) show ?case by simp
next
  case (Suc n)
  then have st: "(of_nat k :: u32) < 256" "k < length (fst (nv ! j))"
    using nv_nth(1) [of j] by (simp_all add: word_less_nat_alt unat_of_nat)
  then have "unvis (row_byte j k) (byte_of (fst (nv ! j) ! k)) (SS (of_nat k) S_STRING) flag =
      Some (UNVIS_NOCHAR, row_byte j (Suc k), SS (of_nat (Suc k)) S_STRING)"
    using string_step [of j k "SS (of_nat k) S_STRING"] Suc by (simp add: unvis_def GS_SS GI_SS)
  from decode_step(1) [OF this refl, of d "bytes (drop (Suc k) (fst (nv ! j)) @ '';'') @ rest"]
  show ?case
    using Suc.hyps(1) [of "Suc k"] Suc.hyps(2) Suc.prems st(2)
    by (simp flip: Cons_nth_drop_Suc del: of_nat_Suc)
qed

lemma nv_first: "\<forall>r \<in> set nv. fst r \<noteq> [] \<and> hd (fst r) \<noteq> CHR ''#''"
  by (simp add: nv_def)

lemma decode_entity:
  assumes "(name, v) \<in> set nv" "flag AND VIS_HTTP1866 \<noteq> 0" "flag AND UNVIS_END = 0"
  shows "decode flag d (bytes (''&'' @ name @ '';'') @ rest) t S_GROUND =
    emit_byte v d (\<lambda>d. decode flag d rest v S_GROUND)"
proof -
  obtain j where j: "j < 100" "nv ! j = (name, v)" using assms(1) by (auto simp: in_set_conv_nth)
  obtain n ns where name: "name = n # ns" "n \<noteq> CHR ''#''"
    using nv_first assms(1) by (cases name) auto
  have row0: "row_byte j 0 = 0" by (simp add: row_byte_def first_row_def)
  have "unvis_string 0 (byte_of n) S_STRING = Some (UNVIS_NOCHAR, row_byte j 1, SS (of_nat 1) S_STRING)"
    using string_step [of j 0 S_STRING] j name row0 by (simp add: GI_def)
  then have amp: "unvis 0 (byte_of n) S_AMP flag =
      Some (UNVIS_NOCHAR, row_byte j 1, SS (of_nat 1) S_STRING)"
    using assms(3) name(2) by (simp add: unvis_def unvis_amp_def)
  have "unvis t (byte_of (CHR ''&'')) S_GROUND flag = Some (UNVIS_NOCHAR, 0, S_AMP)"
    using assms(2,3) by (simp add: unvis_def unvis_ground_def)
  from decode_step(1) [OF this refl] decode_step(1) [OF amp refl] decode_name [of j 1 flag d rest]
  show ?thesis using j name assms(3) by simp
qed

text \<open>A numeric entity leaves the machine in the state that collects numbers.\<close>

lemma unvis_number_65:
  assumes "flag AND VIS_HTTP1866 \<noteq> 0" "flag AND UNVIS_END = 0"
  shows "decode flag d (bytes ''&#65;'' @ rest) t S_GROUND =
    emit_byte 65 d (\<lambda>d. decode flag d rest 65 S_NUMBER)"
proof -
  have "unvis t (byte_of (CHR ''&'')) S_GROUND flag = Some (UNVIS_NOCHAR, 0, S_AMP)"
    "unvis 0 (byte_of (CHR ''#'')) S_AMP flag = Some (UNVIS_NOCHAR, 0, S_NUMBER)"
    "unvis 0 (byte_of (CHR ''6'')) S_NUMBER flag = Some (UNVIS_NOCHAR, 6, S_NUMBER)"
    "unvis 6 (byte_of (CHR ''5'')) S_NUMBER flag = Some (UNVIS_NOCHAR, 65, S_NUMBER)"
    "unvis 65 (byte_of (CHR '';'')) S_NUMBER flag = Some (UNVIS_VALID, 65, S_NUMBER)"
    using assms
    by (simp_all add: unvis_def unvis_ground_def unvis_amp_def unvis_number_def byte_of_def
        isdigit8_def)
  from this(1-4) [THEN decode_step(1), OF refl] this(5) [THEN decode_step(2), OF refl]
  show ?thesis by simp
qed

section \<open>The tool and the library\<close>

lemma process_loop_unvis_loop:
  assumes "unvis_loop flag d src t st = Inr (out, d', t', st')"
  shows "process_loop flag offset src t st = Some (out, [], t', st')"
  using assms
proof (induction flag d src t st arbitrary: out offset rule: unvis_loop.induct)
  case (2 flag d c src t st)
  obtain r t1 st1 where u: "unvis t c st flag = Some (r, t1, st1)"
    using 2(4) by (auto simp: unvis_loop.simps(2) split: option.splits)
  show ?case
    using 2(1) [OF u] 2(2) [OF u] 2(3) [OF u] 2(4) u
    by (cases r)
      (auto simp: unvis_loop.simps(2) process_loop.simps(2) err_bind_Inr split: if_splits)
qed simp

lemma unvis_end_flag: "unvis cp c st (f OR UNVIS_END) = unvis cp c st UNVIS_END"
proof -
  have "bit (f OR 0x1000) 12 = True" for f :: u32 by (simp add: bit_or_iff)
  then have "(f OR 2 ^ 12) AND 2 ^ 12 \<noteq> 0" for f :: u32
    by (simp add: and_exp_eq_0 bit_simps)
  then show ?thesis by (simp add: unvis_def)
qed

lemma unvis_process_decode:
  assumes "decode flag d src t S_GROUND = Inr out"
  shows "unvis_process flag t src = Some (out, [])"
proof -
  obtain out1 d1 t1 st1 where loop: "unvis_loop flag d src t S_GROUND = Inr (out1, d1, t1, st1)"
    using assms by (cases "unvis_loop flag d src t S_GROUND") (auto simp: decode_def)
  obtain r t2 st2 where "unvis t1 0 st1 UNVIS_END = Some (r, t2, st2)"
    using assms loop by (auto simp: decode_def split: option.splits)
  then show ?thesis
    using assms loop process_loop_unvis_loop [OF loop, of 0]
    by (simp add: decode_def unvis_process_def unvis_end_flag split: if_splits)
qed

lemma process_loop_safe:
  assumes "unvis_ok t st"
  shows "\<exists>out ws t' st'. process_loop flag offset src t st = Some (out, ws, t', st') \<and> unvis_ok t' st'"
  using assms
proof (induction flag offset src t st rule: process_loop.induct)
  case (2 flag offset c src t st)
  obtain r t1 st1 where u: "unvis t c st flag = Some (r, t1, st1)" and ok: "unvis_ok t1 st1"
    using unvis_safe [OF 2(5)] by blast
  show ?case
    using 2(1) [OF u] 2(2) [OF u] 2(3) [OF u] 2(4) [OF u] u ok unvis_ok_state [of 0 t1]
    by (cases r) (fastforce simp: process_loop.simps(2))+
qed simp

lemma unvis_process_total: "\<exists>out ws. unvis_process flag t src = Some (out, ws)"
proof -
  obtain out ws t' st' where "process_loop flag 0 src t 0 = Some (out, ws, t', st')" "unvis_ok t' st'"
    using process_loop_safe [of t 0 flag 0 src] unvis_ok_state [of 0 t] by auto
  moreover from unvis_safe [OF this(2)]
  obtain r x y where "unvis t' 0 st' (flag OR UNVIS_END) = Some (r, x, y)" by blast
  ultimately show ?thesis by (simp add: unvis_process_def)
qed

text \<open>The search on \<open>plund\<close>: from the row of \<open>plusmn\<close> on to the row of \<open>pound\<close>.\<close>

lemma plund_steps:
  "decode VIS_HTTP1866 (d + 2) (bytes ''&plund;'') t S_GROUND = Inr [163]"
proof -
  have "unvis 0 (byte_of (CHR ''&'')) S_GROUND VIS_HTTP1866 = Some (UNVIS_NOCHAR, 0, S_AMP)"
    by (simp add: unvis_def unvis_ground_def byte_of_def)
  moreover have "unvis 0 (byte_of (CHR ''p'')) S_AMP VIS_HTTP1866 = Some (UNVIS_NOCHAR, 78, SS 1 S_STRING)"
    "unvis 78 (byte_of (CHR ''l'')) (SS 1 S_STRING) VIS_HTTP1866 = Some (UNVIS_NOCHAR, 79, SS 2 S_STRING)"
    "unvis 79 (byte_of (CHR ''u'')) (SS 2 S_STRING) VIS_HTTP1866 = Some (UNVIS_NOCHAR, 79, SS 3 S_STRING)"
    "unvis 79 (byte_of (CHR ''n'')) (SS 3 S_STRING) VIS_HTTP1866 = Some (UNVIS_NOCHAR, 80, SS 4 S_STRING)"
    "unvis 80 (byte_of (CHR ''d'')) (SS 4 S_STRING) VIS_HTTP1866 = Some (UNVIS_NOCHAR, 80, SS 5 S_STRING)"
    "unvis 80 (byte_of (CHR '';'')) (SS 5 S_STRING) VIS_HTTP1866 = Some (UNVIS_VALID, 163, S_GROUND)"
    by code_simp+
  ultimately show ?thesis
    using decode_ground [of VIS_HTTP1866 "d + 2" "bytes ''&plund;''" t 0] decode_step [OF _ refl]
    by (simp add: emit_byte_def decode_def unvis_def unvis_end_def)
qed


section \<open>Properties\<close>

text \<open>
  With \<open>VIS_HTTP1866\<close>, every entity of the table, written \<open>&name;\<close>, decodes to its character,
  whatever follows it: the search with one row and one index in two bytes of state finds all the
  names.
\<close>

lemma named_entities_decode:
  assumes "(name, v) \<in> set nv" "flag AND VIS_HTTP1866 \<noteq> 0" "flag AND UNVIS_END = 0"
  shows "strnunvisx (Suc d) (bytes (''&'' @ name @ '';'') @ rest) flag =
    err_bind (strnunvisx d rest flag) (\<lambda>out. Inr (v # out))"
  using decode_entity [OF assms, of "Suc d" rest 0] decode_ground [of flag d rest v 0]
  by (simp add: strnunvisx_decode emit_byte_def)

text \<open>
  C25. Whatever the source and the flags, \<open>strnunvisx\<close> returns without leaving the table of
  entities; what it stores fits \<open>dlen\<close> together with the NUL, and has no more characters than the
  source, so that \<open>strunvis\<close> is safe with a destination as large as the source.
\<close>

theorem strnunvisx_bounded:
  "strnunvisx dlen src flag \<noteq> Inl UN_oob \<and>
   (\<forall>out. strnunvisx dlen src flag = Inr out \<longrightarrow> length out < dlen \<and> length out \<le> length src)"
proof (intro conjI allI impI)
  have ok: "unvis_ok 0 S_GROUND" by (simp add: unvis_ok_state)
  show "strnunvisx dlen src flag \<noteq> Inl UN_oob"
    using unvis_loop_safe [OF ok, of flag dlen src]
    by (auto simp: strnunvisx_def err_bind_Inl unvis_def split: option.splits prod.splits if_splits)
  fix out assume "strnunvisx dlen src flag = Inr out"
  then obtain out1 d t st where loop: "unvis_loop flag dlen src 0 0 = Inr (out1, d, t, st)" "d > 0"
    "out = out1 \<or> (\<exists>t'. out = out1 @ [t'] \<and> GS st \<noteq> S_GROUND \<and> d > 1)"
    by (rule strnunvisx_cases)
  have "length out1 + d = dlen" using unvis_loop_safe [OF ok, of flag dlen src] loop(1) by simp
  with loop(2,3) show "length out < dlen" by auto
  show "length out \<le> length src"
    using unvis_loop_length [OF loop(1)] loop(3) by (auto simp: pend_def)
qed

theorem strnunvisx_bounded_witness:
  "strnunvisx 3 [65, 66] 0 \<noteq> Inl UN_oob \<and> length [65, 66 :: u8] < 3"
proof -
  have "strnunvisx 3 [65, 66] 0 = Inr [65, 66]"
    by (simp add: strnunvisx_def unvis_loop.simps(2) unvis_def unvis_ground_def unvis_end_def
        byte_of_def)
  then show ?thesis using strnunvisx_bounded [of 3 "[65, 66]" 0] by simp
qed

text \<open>
  C26. The tool processes every file to its end, whatever the content of its uninitialised output
  variable; where the library function decodes the text, the tool prints the same characters and
  warns about nothing.
\<close>

theorem unvis_tool_agrees:
  "(\<exists>out ws. unvis_process flag outc src = Some (out, ws)) \<and>
   (strnunvisx dlen src flag = Inr out \<longrightarrow> unvis_process flag outc src = Some (out, []))"
  using unvis_process_total [of flag outc src] unvis_process_decode [of flag dlen src outc out]
    decode_ground [of flag dlen src outc 0]
  by (auto simp: strnunvisx_decode)

theorem unvis_tool_agrees_witness:
  "(\<exists>out ws. unvis_process 0 7 [65] = Some (out, ws)) \<and> unvis_process 0 7 [65] = Some ([65], [])"
proof -
  have "strnunvisx 2 [65] 0 = Inr [65]"
    by (simp add: strnunvisx_def unvis_loop.simps(2) unvis_def unvis_ground_def unvis_end_def
        byte_of_def)
  then show ?thesis using unvis_tool_agrees [of 0 7 "[65]" 2 "[65]"] by simp
qed

text \<open>
  What the decoder makes of texts that are not encodings.  A numeric entity at the end of the
  text decodes, but the machine stays in the state that collects digits, so that an entity
  followed by any other character than a digit or a semicolon is an error.  The search compares
  only the last character of the name so far: \<open>&plund;\<close> is taken for \<open>&pound;\<close>.  A percent sign
  without hexadecimal digits becomes a NUL.
\<close>

lemma malformed_texts:
  assumes "flag AND VIS_HTTP1866 \<noteq> 0" "flag AND UNVIS_END = 0" "\<not> isdigit8 c" "c \<noteq> byte_of (CHR '';'')"
  shows "strnunvisx (d + 2) (bytes ''&#65;'') flag = Inr (bytes ''A'') \<and>
    strnunvisx (d + 2) (bytes ''&#65;'' @ c # rest) flag = Inl UN_EINVAL \<and>
    strnunvisx (d + 2) (bytes ''&plund;'') VIS_HTTP1866 = Inr [163] \<and>
    strnunvisx (d + 3) (bytes ''%z'') VIS_HTTP1808 = Inr (0 # bytes ''z'')"
proof -
  have "unvis 65 c S_NUMBER flag = Some (UNVIS_SYNBAD, 65, S_GROUND)"
    using assms by (simp add: unvis_def unvis_number_def unvis_bad_def)
  then have bad: "decode flag (d + 1) (c # rest) 65 S_NUMBER = Inl UN_EINVAL"
    by (simp add: decode_def unvis_loop.simps(2))
  have "strnunvisx (d + 2) (bytes ''&#65;'') flag = Inr (bytes ''A'')"
    using unvis_number_65 [OF assms(1,2), of "d + 2" "[]" 0]
    by (simp add: strnunvisx_decode emit_byte_def decode_def unvis_def unvis_end_def byte_of_def)
  moreover have "strnunvisx (d + 2) (bytes ''&#65;'' @ c # rest) flag = Inl UN_EINVAL"
    using unvis_number_65 [OF assms(1,2), of "d + 2" "c # rest" 0] bad
    by (simp add: strnunvisx_decode emit_byte_def)
  moreover have "strnunvisx (d + 2) (bytes ''&plund;'') VIS_HTTP1866 = Inr [163]"
    using plund_steps by (simp add: strnunvisx_decode)
  moreover have "strnunvisx (d + 3) (bytes ''%z'') VIS_HTTP1808 = Inr (0 # bytes ''z'')"
    by (simp add: strnunvisx_def unvis_loop.simps(2) unvis_def unvis_ground_def unvis_hex1_def
        unvis_end_def byte_of_def isxdigit8_def isdigit8_def)
  ultimately show ?thesis by blast
qed

end
