(* ===== verification/Vis.thy ===== *)
theory Vis
  imports Unvis
begin

text \<open>
  The visual encoder (\<open>src/src.freebsd/compat/vis.c\<close>): the encoders of one character in the
  backslash, HTTP and MIME styles, the list of extra characters, \<open>istrsenvisx\<close> with its input,
  encoding and output loops, and the public functions around it.

  A \<open>wchar_t\<close> or \<open>wint_t\<close> is a word of 32 bits.  The classification of characters is that of the C
  locale.  The multibyte conversions of the C library, whose behaviour depends on the locale and
  on the library, and the success of the four allocations are the fields of an environment.  The
  source is the memory the caller passes: a read past its end, a write past the wide buffer and a
  failed assertion are errors of their own.  What a call that fails has already stored is not
  part of the result.
\<close>

section \<open>Characters and flags\<close>

abbreviation VIS_OCTAL :: u32 where "VIS_OCTAL \<equiv> 0x0001"
abbreviation VIS_CSTYLE :: u32 where "VIS_CSTYLE \<equiv> 0x0002"
abbreviation VIS_SP :: u32 where "VIS_SP \<equiv> 0x0004"
abbreviation VIS_TAB :: u32 where "VIS_TAB \<equiv> 0x0008"
abbreviation VIS_NL :: u32 where "VIS_NL \<equiv> 0x0010"
abbreviation VIS_SAFE :: u32 where "VIS_SAFE \<equiv> 0x0020"
abbreviation VIS_NOSLASH :: u32 where "VIS_NOSLASH \<equiv> 0x0040"
abbreviation VIS_HTTPSTYLE :: u32 where "VIS_HTTPSTYLE \<equiv> 0x0080"
abbreviation VIS_GLOB :: u32 where "VIS_GLOB \<equiv> 0x0100"
abbreviation VIS_SHELL :: u32 where "VIS_SHELL \<equiv> 0x2000"
abbreviation VIS_NOLOCALE :: u32 where "VIS_NOLOCALE \<equiv> 0x4000"
abbreviation VIS_DQ :: u32 where "VIS_DQ \<equiv> 0x8000"

type_synonym wint = u32

abbreviation wch :: "char \<Rightarrow> wint" where
  "wch c \<equiv> of_nat (of_char c)"

definition wstr :: "string \<Rightarrow> wint list" where
  "wstr s = map (\<lambda>c. wch c) s"

definition iswgraph :: "wint \<Rightarrow> bool" where
  "iswgraph c \<longleftrightarrow> 33 \<le> c \<and> c \<le> 126"

definition iscgraph :: "wint \<Rightarrow> bool" where
  "iscgraph c \<longleftrightarrow> 33 \<le> c \<and> c \<le> 126"

definition iswcntrl :: "wint \<Rightarrow> bool" where
  "iswcntrl c \<longleftrightarrow> c < 32 \<or> c = 127"

definition iswspace :: "wint \<Rightarrow> bool" where
  "iswspace c \<longleftrightarrow> c = 32 \<or> (9 \<le> c \<and> c \<le> 13)"

definition iswalnum :: "wint \<Rightarrow> bool" where
  "iswalnum c \<longleftrightarrow> (48 \<le> c \<and> c \<le> 57) \<or> (65 \<le> c \<and> c \<le> 90) \<or> (97 \<le> c \<and> c \<le> 122)"

definition ISGRAPH :: "u32 \<Rightarrow> wint \<Rightarrow> bool" where
  "ISGRAPH flags c = (if flags AND VIS_NOLOCALE \<noteq> 0 then iscgraph c else iswgraph c)"

definition iswoctal :: "wint \<Rightarrow> bool" where
  "iswoctal c \<longleftrightarrow> wch (CHR ''0'') \<le> c AND 0xff \<and> c AND 0xff \<le> wch (CHR ''7'')"

definition iswwhite :: "wint \<Rightarrow> bool" where
  "iswwhite c \<longleftrightarrow> c = 32 \<or> c = 9 \<or> c = 10"

definition iswsafe :: "wint \<Rightarrow> bool" where
  "iswsafe c \<longleftrightarrow> c = 8 \<or> c = 7 \<or> c = 13"

definition xtoa :: "wint \<Rightarrow> wint" where
  "xtoa c = wstr ''0123456789abcdef'' ! unat c"

definition XTOA :: "wint \<Rightarrow> wint" where
  "XTOA c = wstr ''0123456789ABCDEF'' ! unat c"

text \<open>\<open>wcschr\<close> on a list of characters: it finds the terminating NUL too.\<close>

definition wcschr :: "wint list \<Rightarrow> wint \<Rightarrow> bool" where
  "wcschr s c \<longleftrightarrow> c = 0 \<or> c \<in> set s"

definition char_shell :: "wint list" where
  "char_shell = wstr ([CHR 0x27, CHR 0x60, CHR 0x22] @ '';&<>()|{}]'' @ [CHR 0x5C] @ ''$!^~'')"

definition char_glob :: "wint list" where
  "char_glob = wstr ''*?[#''"

section \<open>One character\<close>

text \<open>The escapes of \<open>VIS_CSTYLE\<close>; \<open>None\<close> where the code leaves the switch and goes on.\<close>

definition cstyle_letters :: "(wint \<times> char) list" where
  "cstyle_letters =
     [(10, CHR ''n''), (13, CHR ''r''), (8, CHR ''b''), (7, CHR ''a''), (11, CHR ''v''),
      (9, CHR ''t''), (12, CHR ''f''), (32, CHR ''s'')]"

definition cstyle_special :: string where
  "cstyle_special = ''nrbavtfs0M^$''"

definition do_cstyle :: "wint \<Rightarrow> u32 \<Rightarrow> wint \<Rightarrow> wint list option" where
  "do_cstyle c flags nextc =
     (case map_of cstyle_letters c of
        Some l \<Rightarrow> Some [wch (CHR 0x5C), wch l]
      | None \<Rightarrow>
          if c = 0 then
            Some ([wch (CHR 0x5C), wch (CHR ''0'')] @
                  (if iswoctal nextc then [wch (CHR ''0''), wch (CHR ''0'')] else []))
          else if c \<in> set (wstr cstyle_special) then None
          else if ISGRAPH flags c \<and> \<not> iswoctal c then Some [wch (CHR 0x5C), c]
          else None)"

definition do_octal :: "wint \<Rightarrow> wint list" where
  "do_octal c =
     [wch (CHR 0x5C), (drop_bit 6 (c AND 0xff) AND 3) + wch (CHR ''0''),
      (drop_bit 3 (c AND 0xff) AND 7) + wch (CHR ''0''), (c AND 7) + wch (CHR ''0'')]"

definition do_meta :: "wint \<Rightarrow> u32 \<Rightarrow> wint list" where
  "do_meta c flags =
     (if flags AND VIS_NOSLASH = 0 then [wch (CHR 0x5C)] else []) @
     (if c AND 0x80 \<noteq> 0 then [wch (CHR ''M'')] else []) @
     (let c = (if c AND 0x80 \<noteq> 0 then c AND 0x7f else c) in
      if iswcntrl c then [wch (CHR ''^''), if c = 0x7f then wch (CHR ''?'') else c + wch (CHR ''@'')]
      else [wch (CHR ''-''), c])"

definition do_mbyte :: "wint \<Rightarrow> u32 \<Rightarrow> wint \<Rightarrow> bool \<Rightarrow> wint list" where
  "do_mbyte c flags nextc iswextra =
     (case if flags AND VIS_CSTYLE \<noteq> 0 then do_cstyle c flags nextc else None of
        Some out \<Rightarrow> out
      | None \<Rightarrow>
          if iswextra \<or> c AND 0x7f = wch (CHR '' '') \<or> flags AND VIS_OCTAL \<noteq> 0 then do_octal c
          else do_meta c flags)"

text \<open>
  The bytes of a wide character from the highest one that is not zero, as the loops of \<open>do_svis\<close>
  and of the output pick them.
\<close>

fun mask_loop :: "nat \<Rightarrow> u64 \<Rightarrow> u64 \<Rightarrow> u64 list" where
  "mask_loop 0 wmsk c = []"
| "mask_loop (Suc i) wmsk c =
     (let shft = i * 8; bmsk = push_bit shft 0xff; wmsk = wmsk OR bmsk in
      (if c AND wmsk \<noteq> 0 \<or> i = 0 then [drop_bit shft (c AND bmsk)] else []) @
      mask_loop i wmsk c)"

definition do_svis :: "wint \<Rightarrow> u32 \<Rightarrow> wint \<Rightarrow> wint list \<Rightarrow> wint list" where
  "do_svis c flags nextc extra =
     (let iswextra = wcschr extra c in
      if \<not> iswextra \<and> (ISGRAPH flags c \<or> iswwhite c \<or> (flags AND VIS_SAFE \<noteq> 0 \<and> iswsafe c))
      then [c]
      else concat (map (\<lambda>b. do_mbyte (ucast b) flags nextc iswextra) (mask_loop 8 0 (ucast c))))"

definition http_plain :: "wint \<Rightarrow> bool" where
  "http_plain c \<longleftrightarrow> iswalnum c \<or> c \<in> set (wstr (''$-_.+'' @ ''!*'' @ [CHR 0x27] @ ''(),''))"

definition do_hvis :: "wint \<Rightarrow> u32 \<Rightarrow> wint \<Rightarrow> wint list \<Rightarrow> wint list" where
  "do_hvis c flags nextc extra =
     (if http_plain c then do_svis c flags nextc extra
      else [wch (CHR ''%''), xtoa (drop_bit 4 c AND 0xf), xtoa (c AND 0xf)])"

definition mime_special :: "wint list" where
  "mime_special = wstr (''#$@['' @ [CHR 0x5C] @ '']^'' @ [CHR 0x60] @ ''{|}~'')"

definition do_mvis :: "wint \<Rightarrow> u32 \<Rightarrow> wint \<Rightarrow> wint list \<Rightarrow> wint list" where
  "do_mvis c flags nextc extra =
     (if c \<noteq> 10 \<and>
         ((iswspace c \<and> (nextc = 13 \<or> nextc = 10)) \<or>
          (\<not> iswspace c \<and> (c < 33 \<or> (c > 60 \<and> c < 62) \<or> c > 126)) \<or>
          wcschr mime_special c)
      then [wch (CHR ''=''), XTOA (drop_bit 4 c AND 0xf), XTOA (c AND 0xf)]
      else do_svis c flags nextc extra)"

definition getvisfun :: "u32 \<Rightarrow> wint \<Rightarrow> u32 \<Rightarrow> wint \<Rightarrow> wint list \<Rightarrow> wint list" where
  "getvisfun flags =
     (if flags AND VIS_HTTPSTYLE \<noteq> 0 then do_hvis
      else if flags AND VIS_MIMESTYLE \<noteq> 0 then do_mvis else do_svis)"

section \<open>The environment\<close>

text \<open>
  \<open>mbrtowc\<close> gets the state and the bytes it may read and returns its result, the character it
  stores and the state; \<open>wcrtomb\<close> returns its result, the bytes and the state; \<open>mbsrtowcs\<close>
  converts a string, \<open>None\<close> when it cannot.
\<close>

record 'st vis_env =
  mbrtowc :: "'st \<Rightarrow> u8 list \<Rightarrow> int \<times> wint \<times> 'st"
  wcrtomb :: "'st \<Rightarrow> wint \<Rightarrow> int \<times> u8 list \<times> 'st"
  mbsrtowcs :: "u8 list \<Rightarrow> wint list option"
  mbstate0 :: 'st
  MB_LEN_MAX :: nat
  MB_CUR_MAX :: nat
  alloc_psrc :: bool
  alloc_pdst :: bool
  alloc_mdst :: bool
  alloc_extra :: bool

datatype vis_error = V_ENOSPC | V_ENOMEM | V_oob | V_overflow | V_abort

definition MAXEXTRAS :: nat where
  "MAXEXTRAS = 30"

definition flag_extras :: "u32 \<Rightarrow> wint list" where
  "flag_extras flags =
     (if flags AND VIS_GLOB \<noteq> 0 then char_glob else []) @
     (if flags AND VIS_SHELL \<noteq> 0 then char_shell else []) @
     (if flags AND VIS_SP \<noteq> 0 then [32] else []) @
     (if flags AND VIS_TAB \<noteq> 0 then [9] else []) @
     (if flags AND VIS_NL \<noteq> 0 then [10] else []) @
     (if flags AND VIS_DQ \<noteq> 0 then [34] else []) @
     (if flags AND VIS_NOSLASH = 0 then [wch (CHR 0x5C)] else [])"

text \<open>\<open>None\<close> when the list cannot be allocated; otherwise the characters before its NUL.\<close>

definition makeextralist :: "'st vis_env \<Rightarrow> u32 \<Rightarrow> u8 list \<Rightarrow> wint list option" where
  "makeextralist env flags src =
     (if \<not> alloc_extra env then None
      else let given =
             (if flags AND VIS_NOLOCALE \<noteq> 0 then map (\<lambda>b. ucast b) src
              else case mbsrtowcs env src of
                None \<Rightarrow> map (\<lambda>b. ucast b) src
              | Some ws \<Rightarrow> takeWhile (\<lambda>w. w \<noteq> 0) (take (length src) ws))
           in Some (given @ flag_extras flags))"

section \<open>istrsenvisx\<close>

text \<open>One character of the input: the bytes it takes, its value, the state and the error flag.\<close>

definition input_char ::
    "'st vis_env \<Rightarrow> u8 list \<Rightarrow> nat \<Rightarrow> bool \<Rightarrow> 'st \<Rightarrow> vis_error + nat \<times> wint \<times> 'st \<times> bool" where
  "input_char env mem mbslength cerr st =
     (case if cerr then (0, 0, st)
           else mbrtowc env st (take (min mbslength (MB_LEN_MAX env)) mem) of
        (clen, wc, st') \<Rightarrow>
          if \<not> cerr \<and> (clen > int mbslength \<or> clen > int (MB_LEN_MAX env)) then Inl V_abort
          else
            let wc = (if \<not> cerr \<and> clen = 1 \<and> 0xd800 \<le> wc \<and> wc \<le> 0xdfff \<and> ucast wc = hd mem
                      then wc AND 0xff else wc)
            in if cerr \<or> clen < 0 then Inr (1, ucast (hd mem), st', True)
               else Inr (if clen = 0 then 1 else nat clen, wc, st', cerr))"

lemma input_char_len:
  "input_char env mem n cerr st = Inr (clen, wc, st', cerr') \<Longrightarrow> clen > 0"
  by (auto simp: input_char_def Let_def split: prod.splits if_splits)

function input_loop ::
    "'st vis_env \<Rightarrow> u8 list \<Rightarrow> nat \<Rightarrow> bool \<Rightarrow> 'st \<Rightarrow> vis_error + wint list \<times> bool" where
  "input_loop env mem mbslength cerr st =
     (if mbslength = 0 then Inr ([], cerr)
      else if mem = [] then Inl V_oob
      else err_bind (input_char env mem mbslength cerr st) (\<lambda>(clen, wc, st', cerr').
        err_bind (input_loop env (drop clen mem) (mbslength - clen) cerr' st') (\<lambda>(ws, cerr'').
          Inr (wc # ws, cerr''))))"
  by pat_completeness auto
termination
  by (relation "measure (\<lambda>(env, mem, mbslength, cerr, st). mbslength)")
    (auto dest: input_char_len)

declare input_loop.simps [simp del]

text \<open>The encoding loop; the wide source is followed by zeros.\<close>

fun vis_main ::
    "(wint \<Rightarrow> u32 \<Rightarrow> wint \<Rightarrow> wint list \<Rightarrow> wint list) \<Rightarrow> u32 \<Rightarrow> wint list \<Rightarrow> nat \<Rightarrow> wint list \<Rightarrow> wint list" where
  "vis_main f flags extra (Suc n) (c # src) =
     f c flags (case src of [] \<Rightarrow> 0 | nextc # _ \<Rightarrow> nextc) extra @ vis_main f flags extra n src"
| "vis_main f flags extra n src = []"

text \<open>
  One wide character of the output.  Stored byte by byte, it needs room for all its bytes and the
  NUL; the room is checked before each of them.
\<close>

definition output_char ::
    "'st vis_env \<Rightarrow> nat \<Rightarrow> nat \<Rightarrow> wint \<Rightarrow> bool \<Rightarrow> 'st \<Rightarrow> vis_error + u8 list \<times> 'st \<times> bool" where
  "output_char env maxolen olen w cerr st =
     (case if cerr then (0, [], st) else wcrtomb env st w of
        (clen, bs, st') \<Rightarrow>
          if \<not> cerr \<and> clen > 0 \<and> \<not> maxolen - olen > MB_CUR_MAX env \<and> olen + nat clen \<ge> maxolen
          then Inl V_ENOSPC
          else
            let cerr' = (cerr \<or> clen < 0);
                bs = (if cerr' then map (\<lambda>b. ucast b) (mask_loop 8 0 (signed w)) else take (nat clen) bs)
            in if cerr' \<and> olen + length bs \<ge> maxolen then Inl V_ENOSPC
               else if \<not> olen + length bs < maxolen then Inl V_abort
               else Inr (bs, st', cerr'))"

fun output_loop ::
    "'st vis_env \<Rightarrow> nat \<Rightarrow> nat \<Rightarrow> wint list \<Rightarrow> bool \<Rightarrow> 'st \<Rightarrow> vis_error + u8 list \<times> bool" where
  "output_loop env maxolen olen [] cerr st =
     (if olen < maxolen then Inr ([], cerr) else Inl V_abort)"
| "output_loop env maxolen olen (w # ws) cerr st =
     err_bind (output_char env maxolen olen w cerr st) (\<lambda>(bs, st', cerr').
       err_bind (output_loop env maxolen (olen + length bs) ws cerr' st') (\<lambda>(out, cerr'').
         Inr (bs @ out, cerr'')))"

definition max_output :: "'st vis_env \<Rightarrow> nat option \<Rightarrow> nat \<Rightarrow> vis_error + nat" where
  "max_output env dlen len =
     (case dlen of
        Some n \<Rightarrow> if n = 0 then Inl V_ENOSPC else Inr n
      | None \<Rightarrow>
          if len > (SIZE_MAX - 1) div MB_LEN_MAX env then Inl V_ENOSPC
          else Inr (len * MB_LEN_MAX env + 1))"

text \<open>
  The result is the text before the NUL and the value of \<open>*cerr_ptr\<close> afterwards.
\<close>

definition istrsenvisx ::
    "'st vis_env \<Rightarrow> bool \<Rightarrow> nat option \<Rightarrow> u8 list \<Rightarrow> nat \<Rightarrow> u32 \<Rightarrow> u8 list \<Rightarrow> bool option \<Rightarrow>
     vis_error + u8 list \<times> bool option" where
  "istrsenvisx env have_dst dlen mbsrc mblength flags mbextra cerr_ptr =
     (let mbslength = (if mblength = 1 then mblength + 1 else mblength) in
      if mbslength > (SIZE_MAX - 1) div 16 then Inl V_ENOMEM
      else if \<not> alloc_psrc env \<or> \<not> alloc_pdst env \<or> (\<not> have_dst \<and> \<not> alloc_mdst env)
      then Inl V_ENOMEM
      else
        let cerr = (if flags AND VIS_NOLOCALE \<noteq> 0 then True
                    else case cerr_ptr of None \<Rightarrow> False | Some e \<Rightarrow> e)
        in err_bind (input_loop env mbsrc mbslength cerr (mbstate0 env)) (\<lambda>(src, cerr).
          let len = (if mblength < length src then mblength else length src) in
          case makeextralist env flags mbextra of
            None \<Rightarrow> if dlen = Some 0 then Inl V_ENOSPC else Inr ([], cerr_ptr)
          | Some extra \<Rightarrow>
              let dst = vis_main (getvisfun flags) flags extra len src in
              if length dst + 1 > 16 * mbslength + 1 then Inl V_overflow
              else
                let start = takeWhile (\<lambda>w. w \<noteq> 0) dst in
                err_bind (max_output env dlen (length start)) (\<lambda>maxolen.
                  err_bind (output_loop env maxolen 0 start cerr (mbstate0 env)) (\<lambda>(out, cerr).
                    Inr (out, if flags AND VIS_NOLOCALE \<noteq> 0
                              then map_option (\<lambda>_. cerr) cerr_ptr else cerr_ptr)))))"

definition istrsenvisxl ::
    "'st vis_env \<Rightarrow> bool \<Rightarrow> nat option \<Rightarrow> u8 list option \<Rightarrow> u32 \<Rightarrow> u8 list \<Rightarrow> bool option \<Rightarrow>
     vis_error + u8 list \<times> bool option" where
  "istrsenvisxl env have_dst dlen mbsrc flags mbextra cerr_ptr =
     (case mbsrc of
        None \<Rightarrow> istrsenvisx env have_dst dlen [] 0 flags mbextra cerr_ptr
      | Some s \<Rightarrow> istrsenvisx env have_dst dlen (s @ [0]) (length s) flags mbextra cerr_ptr)"

section \<open>The public functions\<close>

definition vis_text :: "vis_error + u8 list \<times> bool option \<Rightarrow> vis_error + u8 list" where
  "vis_text r = err_bind r (\<lambda>(out, _). Inr out)"

definition svis :: "'st vis_env \<Rightarrow> u8 \<Rightarrow> u32 \<Rightarrow> u8 \<Rightarrow> u8 list \<Rightarrow> vis_error + u8 list" where
  "svis env c flags nextc mbextra =
     vis_text (istrsenvisx env True None [c, nextc] 1 flags mbextra None)"

definition snvis :: "'st vis_env \<Rightarrow> nat \<Rightarrow> u8 \<Rightarrow> u32 \<Rightarrow> u8 \<Rightarrow> u8 list \<Rightarrow> vis_error + u8 list" where
  "snvis env dlen c flags nextc mbextra =
     vis_text (istrsenvisx env True (Some dlen) [c, nextc] 1 flags mbextra None)"

definition strsvis :: "'st vis_env \<Rightarrow> u8 list option \<Rightarrow> u32 \<Rightarrow> u8 list \<Rightarrow> vis_error + u8 list" where
  "strsvis env mbsrc flags mbextra = vis_text (istrsenvisxl env True None mbsrc flags mbextra None)"

definition strsnvis ::
    "'st vis_env \<Rightarrow> nat \<Rightarrow> u8 list option \<Rightarrow> u32 \<Rightarrow> u8 list \<Rightarrow> vis_error + u8 list" where
  "strsnvis env dlen mbsrc flags mbextra =
     vis_text (istrsenvisxl env True (Some dlen) mbsrc flags mbextra None)"

definition strsvisx :: "'st vis_env \<Rightarrow> u8 list \<Rightarrow> nat \<Rightarrow> u32 \<Rightarrow> u8 list \<Rightarrow> vis_error + u8 list" where
  "strsvisx env mbsrc len flags mbextra =
     vis_text (istrsenvisx env True None mbsrc len flags mbextra None)"

definition strsnvisx ::
    "'st vis_env \<Rightarrow> nat \<Rightarrow> u8 list \<Rightarrow> nat \<Rightarrow> u32 \<Rightarrow> u8 list \<Rightarrow> vis_error + u8 list" where
  "strsnvisx env dlen mbsrc len flags mbextra =
     vis_text (istrsenvisx env True (Some dlen) mbsrc len flags mbextra None)"

definition strsenvisx ::
    "'st vis_env \<Rightarrow> nat \<Rightarrow> u8 list \<Rightarrow> nat \<Rightarrow> u32 \<Rightarrow> u8 list \<Rightarrow> bool option \<Rightarrow>
     vis_error + u8 list \<times> bool option" where
  "strsenvisx env dlen mbsrc len flags mbextra cerr_ptr =
     istrsenvisx env True (Some dlen) mbsrc len flags mbextra cerr_ptr"

definition vis :: "'st vis_env \<Rightarrow> u8 \<Rightarrow> u32 \<Rightarrow> u8 \<Rightarrow> vis_error + u8 list" where
  "vis env c flags nextc = vis_text (istrsenvisx env True None [c, nextc] 1 flags [] None)"

definition nvis :: "'st vis_env \<Rightarrow> nat \<Rightarrow> u8 \<Rightarrow> u32 \<Rightarrow> u8 \<Rightarrow> vis_error + u8 list" where
  "nvis env dlen c flags nextc =
     vis_text (istrsenvisx env True (Some dlen) [c, nextc] 1 flags [] None)"

definition strvis :: "'st vis_env \<Rightarrow> u8 list option \<Rightarrow> u32 \<Rightarrow> vis_error + u8 list" where
  "strvis env mbsrc flags = vis_text (istrsenvisxl env True None mbsrc flags [] None)"

definition strnvis :: "'st vis_env \<Rightarrow> nat \<Rightarrow> u8 list option \<Rightarrow> u32 \<Rightarrow> vis_error + u8 list" where
  "strnvis env dlen mbsrc flags = vis_text (istrsenvisxl env True (Some dlen) mbsrc flags [] None)"

definition stravis :: "'st vis_env \<Rightarrow> u8 list option \<Rightarrow> u32 \<Rightarrow> vis_error + u8 list" where
  "stravis env mbsrc flags = vis_text (istrsenvisxl env False None mbsrc flags [] None)"

definition strvisx :: "'st vis_env \<Rightarrow> u8 list \<Rightarrow> nat \<Rightarrow> u32 \<Rightarrow> vis_error + u8 list" where
  "strvisx env mbsrc len flags = vis_text (istrsenvisx env True None mbsrc len flags [] None)"

definition strnvisx :: "'st vis_env \<Rightarrow> nat \<Rightarrow> u8 list \<Rightarrow> nat \<Rightarrow> u32 \<Rightarrow> vis_error + u8 list" where
  "strnvisx env dlen mbsrc len flags =
     vis_text (istrsenvisx env True (Some dlen) mbsrc len flags [] None)"

definition strenvisx ::
    "'st vis_env \<Rightarrow> nat \<Rightarrow> u8 list \<Rightarrow> nat \<Rightarrow> u32 \<Rightarrow> bool option \<Rightarrow>
     vis_error + u8 list \<times> bool option" where
  "strenvisx env dlen mbsrc len flags cerr_ptr =
     istrsenvisx env True (Some dlen) mbsrc len flags [] cerr_ptr"

section \<open>Bounds of the wide buffer\<close>

lemma length_mask_loop: "length (mask_loop n wmsk c) \<le> n"
  by (induction n arbitrary: wmsk) (auto simp: Let_def le_SucI)

lemma mask_loop_skip:
  assumes "\<And>k. bit wmsk k \<Longrightarrow> 8 * m \<le> k" "\<And>k. bit c k \<Longrightarrow> k < 8 * m" "0 < m" "m \<le> n"
  shows "\<exists>wmsk'. mask_loop n wmsk c = mask_loop m wmsk' c"
  using assms
proof (induction n arbitrary: wmsk)
  case (Suc i)
  show ?case
  proof (cases "m = Suc i")
    case False
    then have i: "m \<le> i" using Suc.prems by simp
    let ?wmsk = "wmsk OR push_bit (i * 8) 0xff"
    have bits: "8 * m \<le> k" if "bit ?wmsk k" for k
      using that Suc.prems(1) i by (auto simp: bit_simps)
    then have "c AND ?wmsk = 0"
      using Suc.prems(2) by (fastforce simp: word_mask_zero_iff)
    then show ?thesis
      using Suc.IH [of ?wmsk] bits Suc.prems(2,3) i by (simp add: Let_def)
  qed auto
qed simp

lemma bit_ucast_bound: "bit (ucast (c :: u32) :: u64) k \<Longrightarrow> k < 32"
  using bit_imp_le_length [of c k] by (auto simp: bit_ucast_iff)

lemma mask_loop_wide: "length (mask_loop 8 0 (ucast (c :: u32))) \<le> 4"
proof -
  obtain w where "mask_loop 8 0 (ucast c) = mask_loop 4 w (ucast c)"
    using mask_loop_skip [of 0 4 "ucast c" 8] bit_ucast_bound [of c] by auto
  then show ?thesis using length_mask_loop by metis
qed

lemma mask_loop_byte:
  assumes "c < 256"
  shows "mask_loop 8 0 c = [c]"
proof -
  have c: "take_bit 8 c = c" using assms by (simp add: take_bit_self_iff word_less_def)
  have bits: "k < 8 * 1" if "bit c k" for k
    using that c by (metis bit_take_bit_iff mult.right_neutral)
  obtain w where "mask_loop 8 0 c = mask_loop 1 w c"
    using mask_loop_skip [of 0 1 c 8] bits by auto
  then show ?thesis using c by (simp add: Let_def take_bit_eq_mask mask_numeral)
qed

lemma length_do_mbyte: "length (do_mbyte c flags nextc iswextra) \<le> 4"
  by (auto simp: do_mbyte_def do_cstyle_def do_octal_def do_meta_def Let_def split: option.splits)

lemma length_do_svis: "length (do_svis c flags nextc extra) \<le> 16"
proof -
  have "length (concat (map (\<lambda>b. do_mbyte (f b) flags nextc e) bs)) \<le> 4 * length bs"
    for f e and bs :: "u64 list"
    using length_do_mbyte by (induction bs) (auto intro: add_mono)
  from this [of "\<lambda>b. ucast b" "wcschr extra c" "mask_loop 8 0 (ucast c)"] mask_loop_wide [of c]
  have "length (concat (map (\<lambda>b. do_mbyte (ucast b) flags nextc (wcschr extra c))
      (mask_loop 8 0 (ucast c)))) \<le> 16"
    by linarith
  then show ?thesis by (simp add: do_svis_def Let_def)
qed

lemma length_getvisfun: "length (getvisfun flags c flags' nextc extra) \<le> 16"
  by (auto simp: getvisfun_def do_hvis_def do_mvis_def length_do_svis)

lemma length_vis_main: "length (vis_main (getvisfun flags) flags' extra n src) \<le> 16 * n"
proof (induction "getvisfun flags" flags' extra n src rule: vis_main.induct)
  case (1 flags' extra n c src)
  then show ?case using length_getvisfun [of flags c flags' _ extra]
    by (simp add: add_mono)
qed simp_all

section \<open>Bytes\<close>

text \<open>
  With \<open>VIS_NOLOCALE\<close> the source is taken byte by byte, and every character the encoders put out
  is a byte other than NUL.
\<close>

definition narrow :: "wint \<Rightarrow> bool" where
  "narrow w \<longleftrightarrow> 0 < w \<and> w < 256"

definition nb :: "wint list \<Rightarrow> u8 list" where
  "nb ws = map (\<lambda>w. ucast w) ws"

lemma nb_simps [simp]: "nb [] = []" "nb (w # ws) = ucast w # nb ws" "nb (ws @ ws') = nb ws @ nb ws'"
    "length (nb ws) = length ws"
  by (simp_all add: nb_def)

lemma ucast8_add: "(ucast (x + y :: u32) :: u8) = ucast x + ucast y"
proof -
  have "take_bit 8 (take_bit 32 a + take_bit 32 b) = take_bit 8 (a + b)" for a b :: int
    using take_bit_add [of 8 "take_bit 32 a" "take_bit 32 b"] take_bit_add [of 8 a b] by simp
  then show ?thesis by transfer simp
qed

lemma ucast8_bits: "(ucast (x AND y :: u32) :: u8) = ucast x AND ucast y"
  "ucast (drop_bit n (ucast c) :: u32) = drop_bit n c"
  "ucast (ucast c :: u32) = c" for c :: u8
  using bit_u8_beyond [of "n + k" c for k]
  by (auto intro!: bit_word_eqI simp: bit_simps not_le [symmetric])

lemma unat_ucast32: "unat (ucast (c :: u8) :: u32) = unat c"
  by (simp add: unsigned_ucast_eq take_bit_nat_eq_self order_less_le_trans [OF unsigned_less])

lemma ucast32_eq: "(ucast c :: u32) = ucast d \<longleftrightarrow> c = d" for c d :: u8
  by (metis ucast8_bits(3))

lemma ucast32_less: "(ucast c :: u32) < 256" for c :: u8
  using unsigned_less [of c, where ?'a = nat] by (simp add: word_less_nat_alt unat_ucast32)


lemma and_bound:
  fixes x :: "'a::len word"
  shows "unat (x AND 3) < 4" "unat (x AND 7) < 8" "unat (x AND 15) < 16" "unat (x AND 0x7f) < 128"
proof -
  have "unat (x AND mask n) < 2 ^ n" for n
    by (simp add: unsigned_take_bit_eq flip: take_bit_eq_mask)
  from this [of 2] this [of 3] this [of 4] this [of 7]
  show "unat (x AND 3) < 4" "unat (x AND 7) < 8" "unat (x AND 15) < 16" "unat (x AND 0x7f) < 128"
    by (simp_all add: mask_numeral)
qed

lemma unat_less_cases:
  fixes x :: "'a::len word"
  assumes "unat x < n"
  shows "x \<in> set (map of_nat [0..<n])"
  using assms by (force simp: image_iff)

lemma octal_digit_narrow: "unat x < 8 \<Longrightarrow> narrow (x + 48)"
  by (drule unat_less_cases) (auto simp: narrow_def upt_rec)

lemma do_octal_narrow: "list_all narrow (do_octal c)"
proof -
  have "narrow 92" by (simp add: narrow_def)
  moreover have "narrow ((x AND 3) + 48)" "narrow ((x AND 7) + 48)" for x
    using and_bound(1,2) [of x] by (simp_all add: octal_digit_narrow)
  ultimately show ?thesis by (simp add: do_octal_def)
qed

lemma do_meta_narrow:
  assumes "c < 256"
  shows "list_all narrow (do_meta c flags)"
proof -
  let ?e = "if c AND 0x80 \<noteq> 0 then c AND 0x7f else c"
  have "narrow (?e + 64)" if "iswcntrl ?e" "?e \<noteq> 127"
  proof -
    have "unat ?e < 32" using that by (auto simp: iswcntrl_def word_less_nat_alt)
    then show ?thesis by (auto simp: narrow_def word_less_nat_alt unat_word_ariths)
  qed
  moreover have "narrow ?e" if "\<not> iswcntrl ?e"
    using that assms and_bound(4) [of c]
    by (auto simp: narrow_def iswcntrl_def word_less_nat_alt split: if_splits)
  ultimately show ?thesis by (auto simp: do_meta_def Let_def narrow_def)
qed

lemma do_cstyle_narrow:
  assumes "do_cstyle c flags nextc = Some out" "c < 256"
  shows "list_all narrow out"
  using assms
  by (auto simp: do_cstyle_def cstyle_letters_def narrow_def ISGRAPH_def iscgraph_def iswgraph_def
      word_less_nat_alt word_le_nat_alt split: if_splits)

lemma do_mbyte_narrow: "c < 256 \<Longrightarrow> list_all narrow (do_mbyte c flags nextc iswextra)"
  by (auto simp: do_mbyte_def do_octal_narrow do_meta_narrow split: option.splits
      dest: do_cstyle_narrow split: if_splits)

lemma mask_loop_u8: "mask_loop 8 0 (ucast (ucast c :: u32)) = [ucast c]" for c :: u8
proof -
  have eq: "(ucast (ucast c :: u32) :: u64) = ucast c"
    by (rule bit_word_eqI) (auto simp: bit_simps dest: bit_imp_le_length)
  have "unat (ucast c :: u64) < 256"
    using unsigned_less [of c, where ?'a = nat]
    by (simp add: unsigned_ucast_eq take_bit_nat_eq_self)
  then show ?thesis by (simp add: eq mask_loop_byte word_less_nat_alt)
qed

lemma do_svis_byte:
  "do_svis (ucast c) flags nextc extra =
     (let iswextra = wcschr extra (ucast c) in
      if \<not> iswextra \<and> (ISGRAPH flags (ucast c) \<or> iswwhite (ucast c) \<or>
           (flags AND VIS_SAFE \<noteq> 0 \<and> iswsafe (ucast c)))
      then [ucast c] else do_mbyte (ucast c) flags nextc iswextra)" for c :: u8
proof -
  have "(ucast (ucast c :: u64) :: u32) = ucast c"
    by (rule bit_word_eqI) (auto simp: bit_simps dest: bit_imp_le_length)
  then show ?thesis unfolding do_svis_def mask_loop_u8 by (simp add: Let_def)
qed

lemma do_svis_narrow: "list_all narrow (do_svis (ucast c) flags nextc extra)" for c :: u8
  using ucast32_less [of c] do_mbyte_narrow [of "ucast c"]
  by (auto simp: do_svis_byte Let_def narrow_def wcschr_def word_neq_0_conv)

lemma xtoa_narrow: "unat n < 16 \<Longrightarrow> narrow (xtoa n) \<and> narrow (XTOA n)"
  by (drule unat_less_cases) (auto simp: xtoa_def XTOA_def wstr_def narrow_def upt_rec)

lemma getvisfun_narrow: "list_all narrow (getvisfun flags (ucast c) flags' nextc extra)" for c :: u8
  using do_svis_narrow [of c flags' nextc extra] xtoa_narrow and_bound(3)
  by (auto simp: getvisfun_def do_hvis_def do_mvis_def narrow_def)
section \<open>Decoding what was encoded\<close>

text \<open>The flags the decoder needs are those of the style; backslashes are always decoded.\<close>

definition style_flags :: "u32 \<Rightarrow> u32" where
  "style_flags flags = flags AND (VIS_HTTP1808 OR VIS_MIMESTYLE)"

definition plain_flags :: "u32 \<Rightarrow> bool" where
  "plain_flags f \<longleftrightarrow> f AND VIS_NOESCAPE = 0 \<and> f AND VIS_HTTP1866 = 0 \<and> f AND UNVIS_END = 0"

lemma plain_style_flags: "plain_flags (style_flags flags)"
proof -
  have "(flags AND m) AND m' = 0" if "m AND m' = 0" for m m' :: u32
    by (simp add: and.assoc that)
  then show ?thesis by (simp add: plain_flags_def style_flags_def)
qed

lemma unvis_at:
  assumes "plain_flags f"
  shows "unvis t c S_START f = Some (unvis_start t c)"
    "unvis t c S_META f = Some (unvis_meta t c)" "unvis t c S_META1 f = Some (unvis_meta1 t c)"
    "unvis t c S_CTRL f = Some (unvis_ctrl t c)" "unvis t c S_OCTAL2 f = Some (unvis_octal2 t c)"
    "unvis t c S_OCTAL3 f = Some (unvis_octal3 t c)" "unvis t c S_HEX1 f = Some (unvis_hex1 t c)"
    "unvis t c S_HEX2 f = Some (unvis_hex2 t c)" "unvis t c S_MIME1 f = Some (unvis_mime1 t c)"
    "unvis t c S_MIME2 f = Some (unvis_mime2 t c)"
    "unvis t c S_GROUND f = Some (unvis_ground c S_GROUND f)"
  using assms by (simp_all add: unvis_def plain_flags_def)

definition emits :: "u32 \<Rightarrow> u8 list \<Rightarrow> u8 list \<Rightarrow> u8 \<Rightarrow> bool" where
  "emits f code rest c \<longleftrightarrow> (\<forall>d t. decode f d (code @ rest) t S_GROUND =
     emit_byte c d (\<lambda>d. decode f d rest 0 S_GROUND))"

lemma decode_ground_0: "(\<lambda>d. decode f d rest t S_GROUND) = (\<lambda>d. decode f d rest 0 S_GROUND)"
  using decode_ground by blast

lemma decode_backslash:
  assumes "plain_flags f"
  shows "decode f d (byte_of (CHR 0x5C) # src) t S_GROUND = decode f d src 0 S_START"
  by (rule decode_step(1)) (use assms in \<open>simp_all add: unvis_at unvis_ground_def plain_flags_def\<close>)

lemma emits_raw:
  assumes "plain_flags f" "c \<noteq> byte_of (CHR 0x5C)"
    "f AND VIS_HTTP1808 \<noteq> 0 \<Longrightarrow> c \<noteq> byte_of (CHR ''%'')"
    "f AND VIS_MIMESTYLE \<noteq> 0 \<Longrightarrow> c \<noteq> byte_of (CHR ''='')"
  shows "emits f [c] rest c"
proof -
  have "unvis t c S_GROUND f = Some (UNVIS_VALID, c, S_GROUND)" for t
    using assms by (auto simp: unvis_at unvis_ground_def plain_flags_def)
  from decode_step(2) [OF this] show ?thesis
    by (simp add: emits_def decode_ground_0 [of f rest c])
qed

lemma emits_start:
  assumes "plain_flags f" "unvis_start 0 l = (UNVIS_VALID, c, S_GROUND)"
  shows "emits f [byte_of (CHR 0x5C), l] rest c"
  using decode_step(2) [OF trans [OF unvis_at(1) [OF assms(1)]], of 0 l] assms
  by (simp add: emits_def decode_backslash decode_ground_0 [of f rest c])

lemma start_octal: "isoctal x \<Longrightarrow> unvis_start t x = (UNVIS_NOCHAR, x - 48, S_OCTAL2)"
  by (auto simp: unvis_start_def start_letter_def start_letters_def byte_of_def isoctal_def)

lemma emits_octal:
  assumes "plain_flags f" "isoctal x" "isoctal y" "isoctal z"
  shows "emits f [byte_of (CHR 0x5C), x, y, z] rest (push_bit 3 (push_bit 3 (x - 48) + (y - 48)) + (z - 48))"
    (is "emits f _ rest ?c")
proof -
  have "unvis 0 x S_START f = Some (UNVIS_NOCHAR, x - 48, S_OCTAL2)"
    "unvis (x - 48) y S_OCTAL2 f = Some (UNVIS_NOCHAR, push_bit 3 (x - 48) + (y - 48), S_OCTAL3)"
    "unvis (push_bit 3 (x - 48) + (y - 48)) z S_OCTAL3 f = Some (UNVIS_VALID, ?c, S_GROUND)"
    using assms
    by (simp_all add: unvis_at start_octal unvis_octal2_def unvis_octal3_def byte_of_def)
  from this(1,2) [THEN decode_step(1), OF refl] this(3) [THEN decode_step(2), OF refl]
  show ?thesis
    using assms(1) by (simp add: emits_def decode_backslash decode_ground_0 [of f rest ?c])
qed

text \<open>A NUL written \<open>\0\<close> ends at the next character, which must not be an octal digit.\<close>

lemma emits_nul:
  assumes "plain_flags f" "rest = [] \<or> \<not> isoctal (hd rest)"
  shows "emits f [byte_of (CHR 0x5C), byte_of (CHR ''0'')] rest 0"
proof -
  have "unvis 0 (byte_of (CHR ''0'')) S_START f = Some (UNVIS_NOCHAR, 0, S_OCTAL2)"
    using assms(1) start_octal [of 48 0] by (simp add: unvis_at byte_of_def isoctal_def)
  from decode_step(1) [OF this refl]
  have *: "decode f d ([byte_of (CHR 0x5C), byte_of (CHR ''0'')] @ rest) t S_GROUND =
      decode f d rest 0 S_OCTAL2" for d t
    using assms(1) by (simp add: decode_backslash)
  show ?thesis
  proof (cases rest)
    case Nil
    have "decode f d [] 0 S_OCTAL2 = emit_byte 0 d (\<lambda>d. decode f d [] 0 S_GROUND)" for d
      by (auto simp: decode_def emit_byte_def unvis_def unvis_end_def)
    then show ?thesis unfolding emits_def * by (simp add: Nil)
  next
    case (Cons x xs)
    then have "unvis 0 x S_OCTAL2 f = Some (UNVIS_VALIDPUSH, 0, S_GROUND)"
      using assms by (simp add: unvis_at unvis_octal2_def)
    from decode_step(3) [OF this refl] show ?thesis
      unfolding emits_def * by (simp add: Cons)
  qed
qed
lemma emits_ctrl:
  assumes "plain_flags f" "unvis_ctrl 0 x = (UNVIS_VALID, c, S_GROUND)"
  shows "emits f [byte_of (CHR 0x5C), byte_of (CHR ''^''), x] rest c"
proof -
  have "unvis 0 (byte_of (CHR ''^'')) S_START f = Some (UNVIS_NOCHAR, 0, S_CTRL)"
    using assms(1)
    by (simp add: unvis_at unvis_start_def start_letter_def start_letters_def isoctal_def byte_of_def)
  moreover have "unvis 0 x S_CTRL f = Some (UNVIS_VALID, c, S_GROUND)"
    using assms by (simp add: unvis_at)
  ultimately show ?thesis
    using assms(1) decode_step(1) [OF _ refl] decode_step(2) [OF _ refl]
    by (simp add: emits_def decode_backslash decode_ground_0 [of f rest c])
qed

lemma emits_meta:
  assumes "plain_flags f"
  shows "unvis_ctrl 0x80 x = (UNVIS_VALID, c, S_GROUND) \<Longrightarrow>
      emits f [byte_of (CHR 0x5C), byte_of (CHR ''M''), byte_of (CHR ''^''), x] rest c"
    "emits f [byte_of (CHR 0x5C), byte_of (CHR ''M''), byte_of (CHR ''-''), x] rest (0x80 OR x)"
proof -
  have M: "unvis 0 (byte_of (CHR ''M'')) S_START f = Some (UNVIS_NOCHAR, 0x80, S_META)"
    "unvis 0x80 (byte_of (CHR ''^'')) S_META f = Some (UNVIS_NOCHAR, 0x80, S_CTRL)"
    "unvis 0x80 (byte_of (CHR ''-'')) S_META f = Some (UNVIS_NOCHAR, 0x80, S_META1)"
    "unvis 0x80 x S_META1 f = Some (UNVIS_VALID, 0x80 OR x, S_GROUND)"
    "unvis 0x80 x S_CTRL f = Some (unvis_ctrl 0x80 x)"
    using assms(1)
    by (simp_all add: unvis_at unvis_start_def start_letter_def start_letters_def isoctal_def
        byte_of_def unvis_meta_def unvis_meta1_def)
  note steps = M(1-3) [THEN decode_step(1), OF refl] M(4) [THEN decode_step(2), OF refl]
  show "emits f [byte_of (CHR 0x5C), byte_of (CHR ''M''), byte_of (CHR ''-''), x] rest (0x80 OR x)"
    using steps assms by (simp add: emits_def decode_backslash decode_ground_0 [of f rest "0x80 OR x"])
  assume "unvis_ctrl 0x80 x = (UNVIS_VALID, c, S_GROUND)"
  then have "unvis 0x80 x S_CTRL f = Some (UNVIS_VALID, c, S_GROUND)" using M(5) by simp
  from decode_step(2) [OF this refl] steps
  show "emits f [byte_of (CHR 0x5C), byte_of (CHR ''M''), byte_of (CHR ''^''), x] rest c"
    using assms by (simp add: emits_def decode_backslash decode_ground_0 [of f rest c])
qed

lemma emits_http:
  assumes "plain_flags f" "f AND VIS_HTTP1808 \<noteq> 0" "isxdigit8 x" "isxdigit8 y"
  shows "emits f [byte_of (CHR ''%''), x, y] rest (xtod y OR push_bit 4 (xtod x))"
proof -
  have M: "unvis t (byte_of (CHR ''%'')) S_GROUND f = Some (UNVIS_NOCHAR, 0, S_HEX1)"
    "unvis 0 x S_HEX1 f = Some (UNVIS_NOCHAR, xtod x, S_HEX2)"
    "unvis (xtod x) y S_HEX2 f = Some (UNVIS_VALID, xtod y OR push_bit 4 (xtod x), S_GROUND)" for t
    using assms by (simp_all add: unvis_at unvis_ground_def unvis_hex1_def unvis_hex2_def)
  show ?thesis
    using M(1,2) [THEN decode_step(1), OF refl] M(3) [THEN decode_step(2), OF refl]
    by (simp add: emits_def decode_ground_0 [of f rest "xtod y OR push_bit 4 (xtod x)"])
qed

lemma emits_mime:
  assumes "plain_flags f" "f AND VIS_MIMESTYLE \<noteq> 0"
    "isxdigit8 x" "isxdigit8 y" "isdigit8 x \<or> isupper8 x" "isdigit8 y \<or> isupper8 y"
  shows "emits f [byte_of (CHR ''=''), x, y] rest (XTOD y OR push_bit 4 (XTOD x))"
proof -
  have nl: "x \<noteq> byte_of (CHR 0x0A)" "x \<noteq> byte_of (CHR 0x0D)"
    using assms(3) by (auto simp: isxdigit8_def isdigit8_def byte_of_def)
  have M: "unvis t (byte_of (CHR ''='')) S_GROUND f = Some (UNVIS_NOCHAR, 0, S_MIME1)"
    "unvis 0 x S_MIME1 f = Some (UNVIS_NOCHAR, XTOD x, S_MIME2)"
    "unvis (XTOD x) y S_MIME2 f = Some (UNVIS_VALID, XTOD y OR push_bit 4 (XTOD x), S_GROUND)" for t
    using assms nl by (simp_all add: unvis_at unvis_ground_def unvis_mime1_def unvis_mime2_def
        plain_flags_def)
  show ?thesis
    using M(1,2) [THEN decode_step(1), OF refl] M(3) [THEN decode_step(2), OF refl]
    by (simp add: emits_def decode_ground_0 [of f rest "XTOD y OR push_bit 4 (XTOD x)"])
qed

text \<open>The encoders of one byte.\<close>

lemma octal_value:
  "push_bit 3 (push_bit 3 (drop_bit 6 c AND 3) + (drop_bit 3 c AND 7)) + (c AND 7) = c" for c :: u8
proof -
  have "push_bit 3 (push_bit 3 (drop_bit 6 c AND 3) OR (drop_bit 3 c AND 7)) OR (c AND 7) = c"
    by (rule u8_eqI) (simp_all add: bit_simps)
  moreover have "push_bit 3 (drop_bit 6 c AND 3) AND (drop_bit 3 c AND 7) = 0"
    by (rule u8_eqI) (simp_all add: bit_simps)
  moreover have "push_bit 3 (push_bit 3 (drop_bit 6 c AND 3) OR (drop_bit 3 c AND 7)) AND (c AND 7) = 0"
    by (rule u8_eqI) (simp_all add: bit_simps)
  ultimately show ?thesis by (simp add: disjunctive_add_eq_or)
qed

lemma isoctal_digit: "unat x < 8 \<Longrightarrow> isoctal (x + 48)"
  by (drule unat_less_cases) (auto simp: isoctal_def upt_rec)

lemma nb_octal:
  "nb (do_octal (ucast c)) = [byte_of (CHR 0x5C), (drop_bit 6 c AND 3) + 48, (drop_bit 3 c AND 7) + 48,
     (c AND 7) + 48]" for c :: u8
proof -
  have "ucast c AND mask 8 = (ucast c :: u32)"
    by (rule bit_word_eqI) (auto simp: bit_simps dest: bit_imp_le_length)
  then have "ucast c AND 0xff = (ucast c :: u32)"
    by (simp add: mask_numeral)
  then show ?thesis by (simp add: do_octal_def ucast8_add ucast8_bits byte_of_def)
qed

lemma emits_do_octal:
  fixes c :: u8
  assumes "plain_flags f"
  shows "emits f (nb (do_octal (ucast c))) rest c"
proof -
  have "unat (drop_bit 6 c AND 3) < 8" using and_bound(1) [of "drop_bit 6 c"] by simp
  note emits_octal [OF assms isoctal_digit [OF this] isoctal_digit [OF and_bound(2)]
      isoctal_digit [OF and_bound(2)], of "drop_bit 3 c" c rest]
  then show ?thesis unfolding nb_octal add_diff_cancel_right' octal_value .
qed

lemma meta_value:
  "c AND 0x80 \<noteq> 0 \<Longrightarrow> 0x80 OR (c AND 0x7f) = c"
  "c AND 0x80 = 0 \<Longrightarrow> c AND 0x7f = c" for c :: u8
proof -
  assume "c AND 0x80 \<noteq> 0"
  then have "bit c 7" using and_exp_eq_0 [of c 7] by simp
  then show "0x80 OR (c AND 0x7f) = c" by (intro u8_eqI) (simp_all add: bit_simps)
next
  assume "c AND 0x80 = 0"
  then have "\<not> bit c 7" using and_exp_eq_0 [of c 7] by simp
  then show "c AND 0x7f = c" by (intro u8_eqI) (simp_all add: bit_simps)
qed

lemma ctrl_value:
  assumes "unat e < 32"
  shows "unvis_ctrl t (e + 64) = (UNVIS_VALID, t OR e, S_GROUND)"
proof -
  have "\<forall>e \<in> set (map of_nat [0..<32]). e + 64 \<noteq> byte_of (CHR ''?'') \<and> (e + 64) AND 0x1f = (e :: u8)"
    by code_simp
  from bspec [OF this unat_less_cases [OF assms]] show ?thesis by (simp add: unvis_ctrl_def)
qed

lemma ucast_zero_iff: "ucast c AND 0x80 = (0 :: u32) \<longleftrightarrow> c AND 0x80 = 0" for c :: u8
  using and_exp_eq_0 [of c 7] and_exp_eq_0 [of "ucast c :: u32" 7] by (simp add: bit_simps)

lemma ucast_and_7f: "ucast c AND 0x7f = (ucast (c AND 0x7f) :: u32)" for c :: u8
proof -
  have "ucast c AND mask 7 = (ucast (c AND mask 7) :: u32)"
    by (rule bit_word_eqI) (auto simp: bit_simps)
  then show ?thesis by (simp add: mask_numeral)
qed

lemma iswcntrl_ucast: "iswcntrl (ucast c) \<longleftrightarrow> unat c < 32 \<or> c = 127" for c :: u8
  by (simp add: iswcntrl_def word_less_nat_alt unat_ucast32 word_unat_eq_iff)

lemma nb_meta:
  fixes c :: u8
  assumes "flags AND VIS_NOSLASH = 0"
  shows "nb (do_meta (ucast c) flags) =
    [byte_of (CHR 0x5C)] @ (if c AND 0x80 \<noteq> 0 then [byte_of (CHR ''M'')] else []) @
    (let e = c AND 0x7f in
     if unat e < 32 \<or> e = 127 then [byte_of (CHR ''^''), if e = 127 then byte_of (CHR ''?'') else e + 64]
     else [byte_of (CHR ''-''), e])"
proof -
  have "(if ucast c AND 0x80 \<noteq> (0 :: u32) then ucast c AND 0x7f else ucast c) = (ucast (c AND 0x7f) :: u32)"
    by (simp add: ucast_zero_iff ucast_and_7f meta_value(2))
  moreover have "ucast e = (127 :: u32) \<longleftrightarrow> e = 127" for e :: u8
    by (simp add: word_unat_eq_iff unat_ucast32)
  ultimately show ?thesis
    using assms
    by (simp add: do_meta_def Let_def ucast_zero_iff iswcntrl_ucast ucast8_add ucast8_bits(3) byte_of_def)
qed

lemma emits_do_meta:
  fixes c :: u8
  assumes "plain_flags f" "flags AND VIS_NOSLASH = 0" "c AND 0x80 \<noteq> 0 \<or> iswcntrl (ucast c)"
  shows "emits f (nb (do_meta (ucast c) flags)) rest c"
proof -
  let ?e = "c AND 0x7f"
  have del: "unvis_ctrl t (byte_of (CHR ''?'')) = (UNVIS_VALID, t OR 0x7f, S_GROUND)" for t
    by (simp add: unvis_ctrl_def)
  show ?thesis
  proof (cases "c AND 0x80 = 0")
    case True
    then have "?e = c" by (rule meta_value)
    with True assms(3) show ?thesis
      using emits_ctrl [OF assms(1) ctrl_value, of c rest] emits_ctrl [OF assms(1) del, of rest]
      by (auto simp: nb_meta [OF assms(2)] Let_def iswcntrl_ucast)
  next
    case False
    then have e: "0x80 OR ?e = c" by (rule meta_value)
    with False show ?thesis
      using emits_meta(1) [OF assms(1) ctrl_value, of ?e rest] emits_meta(1) [OF assms(1) del, of rest]
        emits_meta(2) [OF assms(1), of ?e rest]
      by (auto simp: nb_meta [OF assms(2)] Let_def)
  qed
qed

text \<open>The escapes of \<open>VIS_CSTYLE\<close>, but for the letters the decoder reads in another way.\<close>

lemma iswoctal_ucast: "iswoctal (ucast c) \<longleftrightarrow> isoctal c" for c :: u8
proof -
  have "ucast c AND mask 8 = (ucast c :: u32)"
    by (rule bit_word_eqI) (auto simp: bit_simps dest: bit_imp_le_length)
  then have "ucast c AND 0xff = (ucast c :: u32)" by (simp add: mask_numeral)
  then show ?thesis
    by (simp add: iswoctal_def isoctal_def word_le_nat_alt unat_ucast32)
qed

lemma ISGRAPH_ucast: "ISGRAPH flags (ucast c) \<longleftrightarrow> isgraph8 c" for c :: u8
  by (simp add: ISGRAPH_def iscgraph_def iswgraph_def isgraph8_def word_le_nat_alt unat_ucast32)

lemma unvis_start_graph:
  assumes "isgraph8 c" "\<not> isoctal c" "c \<notin> set (bytes ''nrbavtfs0M^$xE'')"
  shows "unvis_start t c = (UNVIS_VALID, c, S_GROUND)"
  using assms
  by (auto simp: unvis_start_def start_letter_def start_letters_def byte_of_def isgraph8_def)

lemma ucast32_eq_0: "ucast c = (0 :: u32) \<longleftrightarrow> c = 0" for c :: u8
  using ucast32_eq [of c 0] by simp

lemma cstyle_letters_start:
  "\<forall>(w, l) \<in> set cstyle_letters. unvis_start 0 (ucast (wch l)) = (UNVIS_VALID, ucast w, S_GROUND)"
  by (simp add: cstyle_letters_def unvis_start_def start_letter_def start_letters_def byte_of_def)

lemma emits_do_cstyle:
  fixes c :: u8
  assumes "plain_flags f" "do_cstyle (ucast c) flags nextc = Some out"
    "c \<noteq> byte_of (CHR ''x'')" "c \<noteq> byte_of (CHR ''E'')"
    "c = 0 \<Longrightarrow> \<not> iswoctal nextc \<Longrightarrow> rest = [] \<or> \<not> isoctal (hd rest)"
  shows "emits f (nb out) rest c"
proof -
  consider l where "map_of cstyle_letters (ucast c) = Some l" "out = [92, wch l]"
    | "c = 0" "out = [92, 48] @ (if iswoctal nextc then [48, 48] else [])"
    | "isgraph8 c" "\<not> isoctal c" "out = [92, ucast c]" "ucast c \<notin> set (wstr cstyle_special)"
    using assms(2)
    by (auto simp: do_cstyle_def iswoctal_ucast ISGRAPH_ucast ucast32_eq_0
        split: option.splits if_splits)
  then show ?thesis
  proof cases
    case 1
    then have "unvis_start 0 (ucast (wch l)) = (UNVIS_VALID, c, S_GROUND)"
      using bspec [OF cstyle_letters_start map_of_SomeD [OF 1(1)]] by (simp add: ucast8_bits)
    from emits_start [OF assms(1) this, of rest] 1(2) show ?thesis by (simp add: byte_of_def)
  next
    case 2
    then show ?thesis
      using emits_nul [OF assms(1), of rest] assms(5) emits_octal [OF assms(1), of 48 48 48 rest]
      by (simp add: byte_of_def isoctal_def)
  next
    case 3
    then have "c \<notin> set (bytes ''nrbavtfs0M^$xE'')"
      using assms(3,4) by (auto simp: cstyle_special_def wstr_def byte_of_def)
    from emits_start [OF assms(1) unvis_start_graph [OF 3(1,2) this], of rest] 3(3) show ?thesis
      by (simp add: byte_of_def ucast8_bits)
  qed
qed

lemma high_or_control:
  fixes c :: u8
  assumes "\<not> isgraph8 c" "\<not> iswwhite (ucast c)"
  shows "c AND 0x80 \<noteq> 0 \<or> iswcntrl (ucast c)"
proof (rule disjCI)
  assume *: "\<not> iswcntrl (ucast c)"
  show "c AND 0x80 \<noteq> 0"
  proof
    assume "c AND 0x80 = 0"
    then have "unat c < 128" using meta_value(2) [of c] and_bound(4) [of c] by simp
    moreover have "unat c \<noteq> 32"
      using assms(2) by (simp add: iswwhite_def word_unat_eq_iff unat_ucast32)
    ultimately show False
      using assms(1) * by (simp add: isgraph8_def iswcntrl_ucast word_le_nat_alt word_unat_eq_iff)
  qed
qed

lemma emits_do_svis:
  fixes c :: u8
  assumes f: "plain_flags f" "flags AND VIS_NOSLASH = 0" "wch (CHR 0x5C) \<in> set extra"
    and xE: "flags AND VIS_CSTYLE \<noteq> 0 \<Longrightarrow> wch (CHR ''x'') \<notin> set extra \<and> wch (CHR ''E'') \<notin> set extra"
    and raw: "f AND VIS_HTTP1808 \<noteq> 0 \<Longrightarrow> c \<noteq> byte_of (CHR ''%'')"
      "f AND VIS_MIMESTYLE \<noteq> 0 \<Longrightarrow> c \<noteq> byte_of (CHR ''='')"
    and nul: "c = 0 \<Longrightarrow> \<not> iswoctal nextc \<Longrightarrow> rest = [] \<or> \<not> isoctal (hd rest)"
  shows "emits f (nb (do_svis (ucast c) flags nextc extra)) rest c"
proof (cases "\<not> wcschr extra (ucast c) \<and> (ISGRAPH flags (ucast c) \<or> iswwhite (ucast c) \<or>
    (flags AND VIS_SAFE \<noteq> 0 \<and> iswsafe (ucast c)))")
  case True
  then have "c \<noteq> byte_of (CHR 0x5C)"
    using f(3) by (auto simp: wcschr_def byte_of_def)
  with True emits_raw [OF f(1) _ raw, of rest] show ?thesis
    by (simp add: do_svis_byte ucast8_bits)
next
  case False
  then have eq: "do_svis (ucast c) flags nextc extra =
      do_mbyte (ucast c) flags nextc (wcschr extra (ucast c))"
    by (auto simp: do_svis_byte Let_def)
  have letters: "c \<noteq> byte_of (CHR ''x'') \<and> c \<noteq> byte_of (CHR ''E'')" if "flags AND VIS_CSTYLE \<noteq> 0"
    using False xE [OF that] by (auto simp: wcschr_def byte_of_def ISGRAPH_ucast isgraph8_def)
  have meta: "c AND 0x80 \<noteq> 0 \<or> iswcntrl (ucast c)" if "\<not> wcschr extra (ucast c)"
    using False that by (intro high_or_control) (auto simp: ISGRAPH_ucast)
  show ?thesis
  proof (cases "if flags AND VIS_CSTYLE \<noteq> 0 then do_cstyle (ucast c) flags nextc else None")
    case None
    then show ?thesis
      using emits_do_octal [OF f(1), of c rest] emits_do_meta [OF f(1,2) meta, of rest]
      by (simp add: eq do_mbyte_def)
  next
    case (Some out)
    then have "flags AND VIS_CSTYLE \<noteq> 0" "do_cstyle (ucast c) flags nextc = Some out"
      by (auto split: if_splits)
    with emits_do_cstyle [OF f(1) this(2) _ _ nul] letters show ?thesis
      by (simp add: eq do_mbyte_def)
  qed
qed

lemma hex_value: "(c AND 15) OR push_bit 4 (drop_bit 4 c AND 15) = c" for c :: u8
  by (rule u8_eqI) (simp_all add: bit_simps)

lemma xtoa_digit:
  assumes "unat n < 16"
  shows "isxdigit8 (ucast (xtoa n)) \<and> xtod (ucast (xtoa n)) = ucast n"
    "isxdigit8 (ucast (XTOA n)) \<and> (isdigit8 (ucast (XTOA n)) \<or> isupper8 (ucast (XTOA n))) \<and>
     XTOD (ucast (XTOA n)) = ucast n"
proof -
  have "\<forall>n \<in> set (map of_nat [0..<16]). isxdigit8 (ucast (xtoa n)) \<and> xtod (ucast (xtoa n)) = ucast n"
    "\<forall>n \<in> set (map of_nat [0..<16]).
       isxdigit8 (ucast (XTOA n)) \<and> (isdigit8 (ucast (XTOA n)) \<or> isupper8 (ucast (XTOA n))) \<and>
       XTOD (ucast (XTOA n)) = ucast n"
    by code_simp+
  then show "isxdigit8 (ucast (xtoa n)) \<and> xtod (ucast (xtoa n)) = ucast n"
    "isxdigit8 (ucast (XTOA n)) \<and> (isdigit8 (ucast (XTOA n)) \<or> isupper8 (ucast (XTOA n))) \<and>
     XTOD (ucast (XTOA n)) = ucast n"
    using unat_less_cases [OF assms] by blast+
qed

lemma emits_hex:
  fixes c :: u8
  assumes "plain_flags f"
  shows "f AND VIS_HTTP1808 \<noteq> 0 \<Longrightarrow>
      emits f (nb [wch (CHR ''%''), xtoa (drop_bit 4 (ucast c) AND 0xf), xtoa (ucast c AND 0xf)]) rest c"
    "f AND VIS_MIMESTYLE \<noteq> 0 \<Longrightarrow>
      emits f (nb [wch (CHR ''=''), XTOA (drop_bit 4 (ucast c) AND 0xf), XTOA (ucast c AND 0xf)]) rest c"
proof -
  have b: "unat (drop_bit 4 (ucast c) AND (0xf :: u32)) < 16" "unat (ucast c AND (0xf :: u32)) < 16"
    by (rule and_bound)+
  note x = b [THEN xtoa_digit(1)] and X = b [THEN xtoa_digit(2)]
  have v: "ucast (ucast c AND (0xf :: u32)) OR push_bit 4 (ucast (drop_bit 4 (ucast c) AND (0xf :: u32))) = c"
    unfolding ucast8_bits using hex_value [of c] by simp
  show "emits f (nb [wch (CHR ''%''), xtoa (drop_bit 4 (ucast c) AND 0xf), xtoa (ucast c AND 0xf)]) rest c"
    if "f AND VIS_HTTP1808 \<noteq> 0"
    using emits_http [OF assms that conjunct1 [OF x(1)] conjunct1 [OF x(2)], of rest] x v
    by (simp add: byte_of_def)
  show "emits f (nb [wch (CHR ''=''), XTOA (drop_bit 4 (ucast c) AND 0xf), XTOA (ucast c AND 0xf)]) rest c"
    if "f AND VIS_MIMESTYLE \<noteq> 0"
    using emits_mime [OF assms that conjunct1 [OF X(1)] conjunct1 [OF X(2)], of rest] X v
    by (simp add: byte_of_def)
qed

text \<open>One byte in any style.\<close>

lemma style_bits:
  "style_flags flags AND VIS_HTTP1808 = flags AND VIS_HTTP1808"
  "style_flags flags AND VIS_MIMESTYLE = flags AND VIS_MIMESTYLE"
  by (simp_all add: style_flags_def and.assoc)

definition decodable :: "u32 \<Rightarrow> wint list \<Rightarrow> bool" where
  "decodable flags extra \<longleftrightarrow>
     flags AND VIS_NOSLASH = 0 \<and> wch (CHR 0x5C) \<in> set extra \<and>
     (flags AND VIS_CSTYLE \<noteq> 0 \<longrightarrow> wch (CHR ''x'') \<notin> set extra \<and> wch (CHR ''E'') \<notin> set extra)"

lemma emits_enc:
  fixes c :: u8
  assumes "decodable flags extra"
    and nul: "c = 0 \<Longrightarrow> \<not> iswoctal nextc \<Longrightarrow> rest = [] \<or> \<not> isoctal (hd rest)"
  shows "emits (style_flags flags) (nb (getvisfun flags (ucast c) flags nextc extra)) rest c"
proof -
  let ?f = "style_flags flags"
  note svis = emits_do_svis [OF plain_style_flags, of flags extra flags c nextc rest]
  have dec: "flags AND VIS_NOSLASH = 0" "wch (CHR 0x5C) \<in> set extra"
    "flags AND VIS_CSTYLE \<noteq> 0 \<Longrightarrow> wch (CHR ''x'') \<notin> set extra \<and> wch (CHR ''E'') \<notin> set extra"
    using assms(1) by (auto simp: decodable_def)
  consider "flags AND VIS_HTTPSTYLE \<noteq> 0" "http_plain (ucast c)"
    | "flags AND VIS_HTTPSTYLE \<noteq> 0" "\<not> http_plain (ucast c)"
    | "flags AND VIS_HTTPSTYLE = 0" "flags AND VIS_MIMESTYLE \<noteq> 0"
    | "flags AND VIS_HTTPSTYLE = 0" "flags AND VIS_MIMESTYLE = 0"
    by blast
  then show ?thesis
  proof cases
    case 1
    have "c \<noteq> byte_of (CHR ''%'') \<and> c \<noteq> byte_of (CHR ''='')"
      using 1(2) by (auto simp: http_plain_def iswalnum_def wstr_def byte_of_def)
    with 1 svis [OF dec] nul show ?thesis
      by (simp add: getvisfun_def do_hvis_def style_bits)
  next
    case 2
    then show ?thesis
      using emits_hex(1) [OF plain_style_flags, of flags c rest]
      by (simp add: getvisfun_def do_hvis_def style_bits)
  next
    case 3
    have hex: "emits ?f (nb [wch (CHR ''=''), XTOA (drop_bit 4 (ucast c) AND 0xf), XTOA (ucast c AND 0xf)]) rest c"
      using emits_hex(2) [OF plain_style_flags, of flags c rest] 3 by (simp add: style_bits)
    show ?thesis
    proof (cases "c = byte_of (CHR ''='')")
      case True
      then have "do_mvis (ucast c) flags nextc extra =
          [wch (CHR ''=''), XTOA (drop_bit 4 (ucast c) AND 0xf), XTOA (ucast c AND 0xf)]"
        by (simp add: do_mvis_def iswspace_def byte_of_def)
      with hex 3 show ?thesis by (simp add: getvisfun_def)
    next
      case False
      with 3 svis [OF dec] nul hex show ?thesis
        by (simp add: getvisfun_def do_mvis_def style_bits)
    qed
  next
    case 4
    with svis [OF dec] nul show ?thesis
      by (simp add: getvisfun_def style_bits)
  qed
qed

lemma enc_first:
  fixes c :: u8
  assumes "flags AND VIS_NOSLASH = 0" "\<not> isoctal c"
  shows "nb (getvisfun flags (ucast c) flags nextc extra) \<noteq> [] \<and>
    \<not> isoctal (hd (nb (getvisfun flags (ucast c) flags nextc extra)))"
proof -
  have bs: "\<not> isoctal 92" "\<not> isoctal 37" "\<not> isoctal 61" by (simp_all add: isoctal_def)
  have "hd out = 92 \<and> out \<noteq> []" if "do_cstyle (ucast c) flags nextc = Some out" for out
    using that by (auto simp: do_cstyle_def split: option.splits if_splits)
  then have "hd (do_mbyte (ucast c) flags nextc e) = 92 \<and> do_mbyte (ucast c) flags nextc e \<noteq> []" for e
    using assms(1)
    by (auto simp: do_mbyte_def do_octal_def do_meta_def Let_def split: option.splits)
  then have "nb (do_svis (ucast c) flags nextc extra) \<noteq> [] \<and>
      \<not> isoctal (hd (nb (do_svis (ucast c) flags nextc extra)))"
    using assms(2) bs by (auto simp: do_svis_byte Let_def ucast8_bits nb_def hd_map)
  then show ?thesis
    using bs by (auto simp: getvisfun_def do_hvis_def do_mvis_def)
qed

text \<open>A whole text.\<close>

abbreviation enc_text :: "u32 \<Rightarrow> wint list \<Rightarrow> u8 list \<Rightarrow> u8 list" where
  "enc_text flags extra s \<equiv>
     nb (vis_main (getvisfun flags) flags extra (length s) (map (\<lambda>b. ucast b) s))"

lemma decode_enc_text:
  assumes "decodable flags extra"
  shows "decode (style_flags flags) d (enc_text flags extra s) t S_GROUND =
    (if length s < d then Inr s else Inl UN_ENOSPC)"
proof (induction s arbitrary: d t)
  case Nil
  then show ?case by (simp add: decode_def unvis_def unvis_end_def)
next
  case (Cons c s)
  let ?nextc = "(case map (\<lambda>b. ucast b) s of [] \<Rightarrow> 0 | nextc # _ \<Rightarrow> nextc) :: wint"
  have "flags AND VIS_NOSLASH = 0" using assms by (simp add: decodable_def)
  then have "emits (style_flags flags) (nb (getvisfun flags (ucast c) flags ?nextc extra))
      (enc_text flags extra s) c"
    using enc_first by (intro emits_enc [OF assms]) (cases s; auto simp: iswoctal_ucast)
  then show ?case
    using Cons by (auto simp: emits_def emit_byte_def)
qed

section \<open>istrsenvisx on bytes\<close>

lemma length_nb: "length (nb ws) = length ws"
  by simp

lemma input_loop_bytes:
  "input_loop env mem n True st =
     (if n \<le> length mem then Inr (map (\<lambda>b. ucast b) (take n mem), True) else Inl V_oob)"
proof (induction n arbitrary: mem st)
  case 0
  then show ?case by (simp add: input_loop.simps)
next
  case (Suc n)
  have "input_char env mem (Suc n) True st = Inr (1, ucast (hd mem), st, True)"
    by (simp add: input_char_def)
  then show ?case
    by (subst input_loop.simps) (cases mem; simp add: Suc)
qed

lemma signed_narrow: "narrow w \<Longrightarrow> (signed w :: u64) = ucast w"
proof -
  assume "narrow w"
  then have "w < 256" by (simp add: narrow_def)
  then have "\<not> bit w 31" using not_bit_byte [of w 31] by simp
  then have "bit w (min 31 n) = bit w n" for n
    using \<open>w < 256\<close> not_bit_byte [of w n] by (auto simp: min_def)
  then show ?thesis by (intro bit_word_eqI) (simp add: bit_simps)
qed

lemma mask_loop_narrow:
  assumes "narrow w"
  shows "map (\<lambda>b. ucast b :: u8) (mask_loop 8 0 (signed w)) = [ucast w]"
proof -
  have "unat w < 256" using assms by (simp add: narrow_def word_less_nat_alt)
  then have "(ucast w :: u64) < 256"
    by (simp add: word_less_nat_alt unsigned_ucast_eq take_bit_nat_eq_self)
  moreover have "(ucast (ucast w :: u64) :: u8) = ucast w"
    by (rule bit_word_eqI) (auto simp: bit_simps)
  ultimately show ?thesis using assms by (simp add: signed_narrow mask_loop_byte)
qed

lemma output_loop_bytes:
  assumes "list_all narrow ws" "olen < mx"
  shows "output_loop env mx olen ws True st =
    (if olen + length ws < mx then Inr (nb ws, True) else Inl V_ENOSPC)"
  using assms
proof (induction ws arbitrary: olen)
  case (Cons w ws)
  then have "output_char env mx olen w True st =
      (if olen + 1 \<ge> mx then Inl V_ENOSPC else Inr ([ucast w], st, True))"
    using mask_loop_narrow [of w] by (simp add: output_char_def Let_def)
  then show ?case using Cons.IH [of "olen + 1"] Cons.prems by auto
qed simp

lemma vis_main_narrow: "list_all narrow (vis_main (getvisfun flags) flags' extra n (map (\<lambda>b :: u8. ucast b) s))"
proof (induction n arbitrary: s)
  case (Suc n)
  then show ?case by (cases s) (auto simp: getvisfun_narrow)
qed simp

definition src_len :: "nat \<Rightarrow> nat" where
  "src_len mblength = (if mblength = 1 then 2 else mblength)"

definition all_extras :: "u32 \<Rightarrow> u8 list \<Rightarrow> wint list" where
  "all_extras flags mbextra = map (\<lambda>b. ucast b) mbextra @ flag_extras flags"

definition allocs :: "'st vis_env \<Rightarrow> bool" where
  "allocs env \<longleftrightarrow> alloc_psrc env \<and> alloc_pdst env \<and> alloc_mdst env \<and> alloc_extra env"

lemma istrsenvisx_nolocale:
  fixes mem mbextra :: "u8 list"
  assumes "flags AND VIS_NOLOCALE \<noteq> 0" "allocs env" "src_len mblength \<le> (SIZE_MAX - 1) div 16"
    "src_len mblength \<le> length mem"
  defines "out \<equiv> nb (vis_main (getvisfun flags) flags (all_extras flags mbextra) mblength
    (map (\<lambda>b. ucast b) (take (src_len mblength) mem)))"
  shows "istrsenvisx env have_dst dlen mem mblength flags mbextra cerr_ptr =
    err_bind (max_output env dlen (length out)) (\<lambda>mx.
      if length out < mx then Inr (out, map_option (\<lambda>_. True) cerr_ptr) else Inl V_ENOSPC)"
proof -
  define src :: "wint list" where "src = map (\<lambda>b. ucast b) (take (src_len mblength) mem)"
  let ?ws = "vis_main (getvisfun flags) flags (all_extras flags mbextra) mblength src"
  have sl: "mblength \<le> src_len mblength" by (simp add: src_len_def)
  have sl_eq: "(if mblength = 1 then mblength + 1 else mblength) = src_len mblength"
    by (simp add: src_len_def)
  have narrow: "list_all narrow ?ws" unfolding src_def by (rule vis_main_narrow)
  then have tw: "takeWhile (\<lambda>w. w \<noteq> 0) ?ws = ?ws"
    by (intro takeWhile_eq_all_conv [THEN iffD2]) (auto simp: list_all_iff narrow_def)
  have room: "\<not> length ?ws + 1 > 16 * src_len mblength + 1"
    using order_trans [OF length_vis_main mult_le_mono2 [OF sl]] by (simp add: not_less)
  have pos: "0 < mx" if "max_output env dlen n = Inr mx" for n mx
    using that by (auto simp: max_output_def split: option.splits if_splits)
  have extra: "makeextralist env flags mbextra = Some (all_extras flags mbextra)"
    using assms(1,2) by (simp add: makeextralist_def all_extras_def allocs_def)
  have outs: "err_bind (max_output env dlen (length ?ws)) (\<lambda>mx.
        err_bind (output_loop env mx 0 ?ws True (mbstate0 env)) (\<lambda>(out, cerr).
          Inr (out, map_option (\<lambda>_. cerr) cerr_ptr))) =
      err_bind (max_output env dlen (length ?ws)) (\<lambda>mx.
        if length ?ws < mx then Inr (nb ?ws, map_option (\<lambda>_. True) cerr_ptr) else Inl V_ENOSPC)"
    by (rule err_bind_cong) (auto simp: output_loop_bytes [OF narrow pos])
  have input: "input_loop env mem (src_len mblength) True st = Inr (src, True)" for st
    using assms(4) by (simp add: input_loop_bytes src_def)
  have len: "(if mblength < length src then mblength else length src) = mblength"
    using sl assms(4) by (simp add: src_def)
  show ?thesis
    unfolding istrsenvisx_def sl_eq out_def length_nb src_def [symmetric]
    using assms(1-4) room
    by (simp add: input allocs_def Let_def extra len tw outs)
qed

section \<open>Room and success\<close>

lemma length_getvisfun_byte: "length (getvisfun flags (ucast c) flags' nextc extra) \<le> 4" for c :: u8
proof -
  have "length (do_svis (ucast c) flags' nextc extra) \<le> 4"
    using length_do_mbyte by (auto simp: do_svis_byte Let_def)
  then show ?thesis by (auto simp: getvisfun_def do_hvis_def do_mvis_def)
qed

lemma length_vis_main_byte:
  "length (vis_main (getvisfun flags) flags' extra n (map (\<lambda>b :: u8. ucast b) s)) \<le> 4 * n"
proof (induction n arbitrary: s)
  case (Suc n)
  then show ?case
    using length_getvisfun_byte [of flags _ flags' _ extra] by (cases s) (auto intro: add_mono)
qed simp

lemma max_output_unlimited:
  assumes "0 < MB_LEN_MAX env" "MB_LEN_MAX env \<le> 8" "len \<le> 2 ^ 60"
  shows "max_output env None len = Inr (len * MB_LEN_MAX env + 1)"
proof -
  have "len * MB_LEN_MAX env \<le> 2 ^ 60 * 8" using assms by (intro mult_mono) auto
  then have "len * MB_LEN_MAX env \<le> SIZE_MAX - 1" by (simp add: SIZE_MAX_def)
  then have "len \<le> (SIZE_MAX - 1) div MB_LEN_MAX env"
    using assms(1) by (simp add: less_eq_div_iff_mult_less_eq)
  then show ?thesis by (simp add: max_output_def)
qed

lemma vis_main_nul:
  "vis_main f flags extra (length s) (map (\<lambda>b :: u8. ucast b) (s @ [0])) =
   vis_main f flags extra (length s) (map (\<lambda>b. ucast b) s)"
proof (induction s)
  case (Cons c s)
  have "(case map (\<lambda>b :: u8. ucast b :: wint) (s @ [0]) of [] \<Rightarrow> 0 | x # _ \<Rightarrow> x) =
      (case map (\<lambda>b :: u8. ucast b :: wint) s of [] \<Rightarrow> 0 | x # _ \<Rightarrow> x)"
    by (cases s) simp_all
  then show ?case using Cons by simp
qed (cases "map (\<lambda>b :: u8. ucast b :: wint) [0]"; simp)

lemma strsvisx_text:
  assumes "flags AND VIS_NOLOCALE \<noteq> 0" "allocs env" "0 < MB_LEN_MAX env" "MB_LEN_MAX env \<le> 8"
    "length s < 2 ^ 56"
  shows "strsvisx env (s @ [0]) (length s) flags mbextra = Inr (enc_text flags (all_extras flags mbextra) s)"
proof -
  let ?t = "take (src_len (length s)) (s @ [0])"
  let ?v = "\<lambda>t. vis_main (getvisfun flags) flags (all_extras flags mbextra) (length s) (map (\<lambda>b. ucast b) t)"
  have "?t = s \<or> ?t = s @ [0]" by (cases s) (auto simp: src_len_def)
  then have v: "?v ?t = ?v s" using vis_main_nul by metis
  have len: "length (?v s) \<le> 4 * length s" by (rule length_vis_main_byte)
  have sl: "src_len (length s) \<le> length s + 1" "src_len (length s) \<le> (SIZE_MAX - 1) div 16"
    using assms(5) by (auto simp: src_len_def SIZE_MAX_def)
  have "max_output env None (length (?v s)) = Inr (length (?v s) * MB_LEN_MAX env + 1)"
    using assms len by (intro max_output_unlimited) auto
  moreover have "n < n * MB_LEN_MAX env + 1" for n
    using mult_le_mono2 [of 1 "MB_LEN_MAX env" n] assms(3) by (simp add: Suc_le_eq less_Suc_eq_le)
  ultimately show ?thesis
    using istrsenvisx_nolocale [OF assms(1,2) sl(2), of "s @ [0]" True None mbextra None] sl(1) v
    by (simp add: strsvisx_def vis_text_def)
qed

lemma decodable_extras:
  assumes "flags AND VIS_NOSLASH = 0"
    "flags AND VIS_CSTYLE \<noteq> 0 \<longrightarrow> byte_of (CHR ''x'') \<notin> set mbextra \<and> byte_of (CHR ''E'') \<notin> set mbextra"
  shows "decodable flags (all_extras flags mbextra)"
proof -
  have "wch (CHR ''x'') \<notin> set (flag_extras flags)" "wch (CHR ''E'') \<notin> set (flag_extras flags)"
    by (simp_all add: flag_extras_def char_glob_def char_shell_def wstr_def)
  moreover have "ucast b = (120 :: u32) \<longleftrightarrow> b = 120" "ucast b = (69 :: u32) \<longleftrightarrow> b = 69" for b :: u8
    using ucast32_eq [of b 120] ucast32_eq [of b 69] by simp_all
  then have "wch (CHR ''x'') \<in> set (map (\<lambda>b. ucast b) mbextra) \<longleftrightarrow> byte_of (CHR ''x'') \<in> set mbextra"
    "wch (CHR ''E'') \<in> set (map (\<lambda>b. ucast b) mbextra) \<longleftrightarrow> byte_of (CHR ''E'') \<in> set mbextra"
    by (fastforce simp: byte_of_def image_iff)+
  ultimately have "wch (CHR ''x'') \<notin> set (all_extras flags mbextra) \<and>
      wch (CHR ''E'') \<notin> set (all_extras flags mbextra)" if "flags AND VIS_CSTYLE \<noteq> 0"
    unfolding all_extras_def set_append Un_iff using assms(2) that by blast
  moreover have "wch (CHR 0x5C) \<in> set (all_extras flags mbextra)"
    using assms(1) by (simp add: all_extras_def flag_extras_def)
  ultimately show ?thesis
    using assms(1) by (simp add: decodable_def)
qed

text \<open>No step reports an overrun of the wide buffer.\<close>

definition fits :: "vis_error + 'a \<Rightarrow> bool" where
  "fits r \<longleftrightarrow> r \<noteq> Inl V_overflow"

lemma fits_simps [simp]:
  "fits (Inr x)" "fits (Inl V_ENOSPC)" "fits (Inl V_ENOMEM)" "fits (Inl V_oob)" "fits (Inl V_abort)"
  by (simp_all add: fits_def)

lemma fits_bind: "fits r \<Longrightarrow> (\<And>x. r = Inr x \<Longrightarrow> fits (f x)) \<Longrightarrow> fits (err_bind r f)"
  by (cases r) (auto simp: fits_def)

lemma fits_input_loop: "fits (input_loop env mem n cerr st)"
proof (induction env mem n cerr st rule: input_loop.induct)
  case (1 env mem n cerr st)
  have "fits (input_char env mem n cerr st)"
    by (auto simp: input_char_def Let_def split: prod.splits)
  then show ?case
    using 1 by (subst input_loop.simps) (auto intro!: fits_bind)
qed

lemma fits_output_loop: "fits (output_loop env mx olen ws cerr st)"
proof (induction env mx olen ws cerr st rule: output_loop.induct)
  case (2 env mx olen w ws cerr st)
  have "fits (output_char env mx olen w cerr st)"
    by (auto simp: output_char_def Let_def split: prod.splits)
  then show ?case using 2 by (auto intro!: fits_bind)
qed simp

lemma fits_max_output: "fits (max_output env dlen n)"
  by (simp add: max_output_def split: option.splits)

lemma fits_istrsenvisx:
  "fits (istrsenvisx env have_dst dlen mbsrc mblength flags mbextra cerr_ptr)"
proof -
  let ?l = "if mblength = 1 then mblength + 1 else mblength"
  have room: "(length (vis_main (getvisfun flags) flags extra
      (if mblength < length src then mblength else length src) src) + 1 > 16 * ?l + 1) = False" for extra src
    using order_trans [OF length_vis_main [of flags flags extra _ src], of _ "16 * ?l"]
    by (simp add: not_less)
  show ?thesis
    unfolding istrsenvisx_def Let_def
    by (simp only: room if_False)
      (auto intro!: fits_bind fits_input_loop fits_output_loop fits_max_output split: option.split)
qed

section \<open>Properties\<close>

text \<open>
  An environment for concrete runs: every allocation succeeds, and no multibyte conversion does.
\<close>

definition byte_env :: "unit vis_env" where
  "byte_env = \<lparr>mbrtowc = (\<lambda>st bs. (- 1, 0, st)), wcrtomb = (\<lambda>st w. (- 1, [], st)),
     mbsrtowcs = (\<lambda>bs. None), mbstate0 = (), MB_LEN_MAX = 4, MB_CUR_MAX = 1,
     alloc_psrc = True, alloc_pdst = True, alloc_mdst = True, alloc_extra = True\<rparr>"

text \<open>
  C24. Encoding bytes (\<open>VIS_NOLOCALE\<close>) and decoding them gives the bytes back, NULs included, in
  the backslash, HTTP and MIME styles, with octal or C escapes, any of the other flags except
  \<open>VIS_NOSLASH\<close>, and any list of extra characters -- without \<open>x\<close> and \<open>E\<close> for C escapes.  The
  encoder succeeds, the decoder needs no more room than the data and a NUL, and the tool \<open>unvis\<close>
  prints the same bytes without a warning.
\<close>

theorem vis_unvis_roundtrip:
  assumes "flags AND VIS_NOLOCALE \<noteq> 0" "flags AND VIS_NOSLASH = 0"
    and "flags AND VIS_CSTYLE \<noteq> 0 \<longrightarrow> byte_of (CHR ''x'') \<notin> set mbextra \<and> byte_of (CHR ''E'') \<notin> set mbextra"
    and "allocs env" "0 < MB_LEN_MAX env" "MB_LEN_MAX env \<le> 8" "length s < 2 ^ 56"
  shows "\<exists>out. strsvisx env (s @ [0]) (length s) flags mbextra = Inr out \<and>
    strnunvisx (length s + 1) out (flags AND (VIS_HTTP1808 OR VIS_MIMESTYLE)) = Inr s \<and>
    unvis_process (flags AND (VIS_HTTP1808 OR VIS_MIMESTYLE)) outc out = Some (s, [])"
proof -
  have dec: "decode (style_flags flags) (length s + 1) (enc_text flags (all_extras flags mbextra) s) t
      S_GROUND = Inr s" for t
    using decode_enc_text [OF decodable_extras [OF assms(2,3)]] by simp
  from unvis_process_decode [OF this] this [of 0] strsvisx_text [OF assms(1,4-7)]
  show ?thesis by (simp add: strnunvisx_decode style_flags_def)
qed

theorem vis_unvis_roundtrip_witness:
  "\<exists>out. strsvisx byte_env ([65, 0, 128] @ [0]) (length [65, 0, 128 :: u8]) 0x4002 [98] = Inr out \<and>
    strnunvisx (length [65, 0, 128 :: u8] + 1) out (0x4002 AND (VIS_HTTP1808 OR VIS_MIMESTYLE)) =
      Inr [65, 0, 128] \<and>
    unvis_process (0x4002 AND (VIS_HTTP1808 OR VIS_MIMESTYLE)) 7 out = Some ([65, 0, 128], [])"
  by (rule vis_unvis_roundtrip) (simp_all add: byte_env_def allocs_def byte_of_def)

text \<open>
  C27. The wide buffer of \<open>istrsenvisx\<close>, sixteen characters for each byte of the source, is never
  overrun, in any locale and style.  On bytes, a text that is returned has at most four characters
  for each byte, as the documentation of \<open>strvis\<close> asks its callers to provide, and with a size
  given it fits together with its NUL.
\<close>

theorem vis_buffers_suffice:
  "istrsenvisx env have_dst dlen mbsrc mblength flags mbextra cerr_ptr \<noteq> Inl V_overflow \<and>
   (flags AND VIS_NOLOCALE \<noteq> 0 \<longrightarrow> allocs env \<longrightarrow>
    istrsenvisx env have_dst dlen mbsrc mblength flags mbextra cerr_ptr = Inr (out, ce) \<longrightarrow>
    length out \<le> 4 * mblength \<and> (\<forall>n. dlen = Some n \<longrightarrow> length out < n))"
proof (intro conjI impI)
  show "istrsenvisx env have_dst dlen mbsrc mblength flags mbextra cerr_ptr \<noteq> Inl V_overflow"
    using fits_istrsenvisx by (simp add: fits_def)
  assume *: "flags AND VIS_NOLOCALE \<noteq> 0" "allocs env"
    "istrsenvisx env have_dst dlen mbsrc mblength flags mbextra cerr_ptr = Inr (out, ce)"
  have "src_len mblength \<le> (SIZE_MAX - 1) div 16" "src_len mblength \<le> length mbsrc"
    using * by (auto simp: istrsenvisx_def src_len_def input_loop_bytes Let_def split: if_splits)
  note istr = istrsenvisx_nolocale [OF *(1,2) this, of have_dst dlen mbextra cerr_ptr]
  show "length out \<le> 4 * mblength"
    using *(3) length_vis_main_byte [of flags flags "all_extras flags mbextra" mblength]
    by (auto simp: istr err_bind_Inr split: if_splits)
  show "\<forall>n. dlen = Some n \<longrightarrow> length out < n"
    using *(3) by (auto simp: istr err_bind_Inr max_output_def split: if_splits)
qed

theorem vis_buffers_suffice_witness:
  "istrsenvisx byte_env True (Some 9) [65, 1] 2 0x4001 [] None \<noteq> Inl V_overflow \<and>
   length [65, 92, 48, 48, 49 :: u8] \<le> 4 * 2 \<and> length [65, 92, 48, 48, 49 :: u8] < 9"
proof -
  have "nb (vis_main (getvisfun 0x4001) 0x4001 (all_extras 0x4001 []) 2 (map (\<lambda>b. ucast b) [65, 1 :: u8])) =
      [65, 92, 48, 48, 49]"
    by code_simp
  then have "istrsenvisx byte_env True (Some 9) [65, 1] 2 0x4001 [] None =
      Inr ([65, 92, 48, 48, 49], None)"
    using istrsenvisx_nolocale [where flags = "0x4001" and env = byte_env and mblength = 2 and
        mem = "[65, 1]" and have_dst = True and dlen = "Some 9" and mbextra = "[]" and cerr_ptr = None]
    by (simp add: byte_env_def allocs_def src_len_def SIZE_MAX_def max_output_def)
  with vis_buffers_suffice [of byte_env True "Some 9" "[65, 1]" 2 "0x4001" "[]" None
      "[65, 92, 48, 48, 49]" None]
  show ?thesis by (simp add: byte_env_def allocs_def)
qed

text \<open>
  Two flaws of the encoder.  With \<open>VIS_CSTYLE\<close>, an extra character \<open>x\<close> or \<open>E\<close> is protected by
  a backslash, which the decoder reads as the start of a hexadecimal escape or as ESC, so that it
  does not come back.  A block of one byte makes the encoder read the byte after it.
\<close>

lemma vis_encoder_flaws:
  assumes "allocs env" "0 < MB_LEN_MAX env" "MB_LEN_MAX env \<le> 8" "flags AND VIS_NOLOCALE \<noteq> 0"
  shows "strsvisx env (bytes ''x'' @ [0]) 1 (VIS_NOLOCALE OR VIS_CSTYLE) (bytes ''xE'') =
      Inr ([92] @ bytes ''x'') \<and> strunvis ([92] @ bytes ''x'') = Inr [] \<and>
    strsvisx env (bytes ''E'' @ [0]) 1 (VIS_NOLOCALE OR VIS_CSTYLE) (bytes ''xE'') =
      Inr ([92] @ bytes ''E'') \<and> strunvis ([92] @ bytes ''E'') = Inr [27] \<and>
    strvisx env [b] 1 flags = Inl V_oob"
proof -
  have enc: "strsvisx env ([c] @ [0]) 1 0x4002 (bytes ''xE'') =
      Inr (enc_text 0x4002 (all_extras 0x4002 (bytes ''xE'')) [c])" for c
    using strsvisx_text [of "0x4002" env "[c]" "bytes ''xE''"] assms by simp
  have "enc_text 0x4002 (all_extras 0x4002 (bytes ''xE'')) (bytes ''x'') = [92] @ bytes ''x''"
    "enc_text 0x4002 (all_extras 0x4002 (bytes ''xE'')) (bytes ''E'') = [92] @ bytes ''E''"
    by code_simp+
  then have "strsvisx env (bytes ''x'' @ [0]) 1 0x4002 (bytes ''xE'') = Inr ([92] @ bytes ''x'')"
    "strsvisx env (bytes ''E'' @ [0]) 1 0x4002 (bytes ''xE'') = Inr ([92] @ bytes ''E'')"
    using enc [of "byte_of (CHR ''x'')"] enc [of "byte_of (CHR ''E'')"] by simp_all
  moreover have "strnunvisx SIZE_MAX ([92] @ bytes ''x'') 0 = Inr []"
    "strnunvisx SIZE_MAX ([92] @ bytes ''E'') 0 = Inr [27]"
    by (simp_all add: strnunvisx_def unvis_loop.simps(2) unvis_def unvis_ground_def unvis_start_def
        start_letter_def start_letters_def byte_of_def unvis_end_def isoctal_def SIZE_MAX_def)
  moreover have "strvisx env [b] 1 flags = Inl V_oob"
    using assms(1,4)
    by (simp add: strvisx_def vis_text_def istrsenvisx_def input_loop_bytes allocs_def SIZE_MAX_def)
  ultimately show ?thesis by (simp add: strunvis_def)
qed

end
