(* ===== verification/Heapsort.thy ===== *)
theory Heapsort
  imports Prelude "HOL-Library.Multiset"
begin

text \<open>
  \<open>heapsort\<close> (\<open>src/src.freebsd/compat/heapsort.c\<close>), used by the sorting tools where memory is short.

  The array is a list of records; a record of \<open>size\<close> bytes is one element, so that \<open>SWAP\<close> and
  \<open>COPY\<close> are single assignments.  As in the code, records are numbered from 1: \<open>base\<close> points one
  record below the array.  The comparison function is a parameter.
\<close>

section \<open>The code\<close>

definition rec :: "'a list \<Rightarrow> nat \<Rightarrow> 'a" where
  "rec a i = a ! (i - 1)"

definition COPY :: "'a list \<Rightarrow> nat \<Rightarrow> 'a \<Rightarrow> 'a list" where
  "COPY a i x = a[i - 1 := x]"

definition SWAP :: "'a list \<Rightarrow> nat \<Rightarrow> nat \<Rightarrow> 'a list" where
  "SWAP a i j = COPY (COPY a i (rec a j)) j (rec a i)"

text \<open>The larger child of record \<open>i\<close>.\<close>

definition larger_child :: "('a \<Rightarrow> 'a \<Rightarrow> int) \<Rightarrow> nat \<Rightarrow> nat \<Rightarrow> 'a list \<Rightarrow> nat" where
  "larger_child compar nmemb i a =
     (let child_i = i * 2 in
      if child_i < nmemb \<and> compar (rec a child_i) (rec a (child_i + 1)) < 0
      then child_i + 1 else child_i)"

lemma larger_child_cases: "larger_child compar nmemb i a \<in> {i * 2, i * 2 + 1}"
  by (simp add: larger_child_def Let_def)

text \<open>Records are numbered from 1, so the parent is never 0.\<close>

function CREATE :: "('a \<Rightarrow> 'a \<Rightarrow> int) \<Rightarrow> nat \<Rightarrow> nat \<Rightarrow> 'a list \<Rightarrow> 'a list" where
  "CREATE compar nmemb par_i a =
     (if 0 < par_i \<and> par_i * 2 \<le> nmemb then
        let child_i = larger_child compar nmemb par_i a in
        if compar (rec a child_i) (rec a par_i) \<le> 0 then a
        else CREATE compar nmemb child_i (SWAP a par_i child_i)
      else a)"
  by pat_completeness auto
termination
proof (relation "measure (\<lambda>(compar, nmemb, par_i, a). nmemb - par_i)", goal_cases)
  case (2 compar nmemb par_i a x)
  then show ?case using larger_child_cases [of compar nmemb par_i a] by auto
qed simp

declare CREATE.simps [simp del]

text \<open>The first loop of \<open>SELECT\<close>: the larger child is copied over its parent, down to a leaf.\<close>

function SELECT_down :: "('a \<Rightarrow> 'a \<Rightarrow> int) \<Rightarrow> nat \<Rightarrow> nat \<Rightarrow> 'a list \<Rightarrow> nat \<times> 'a list" where
  "SELECT_down compar nmemb par_i a =
     (if 0 < par_i \<and> par_i * 2 \<le> nmemb then
        let child_i = larger_child compar nmemb par_i a in
        SELECT_down compar nmemb child_i (COPY a par_i (rec a child_i))
      else (par_i, a))"
  by pat_completeness auto
termination
proof (relation "measure (\<lambda>(compar, nmemb, par_i, a). nmemb - par_i)", goal_cases)
  case (2 compar nmemb par_i a x)
  then show ?case using larger_child_cases [of compar nmemb par_i a] by auto
qed simp

declare SELECT_down.simps [simp del]

text \<open>The second loop: from the leaf up to the place of \<open>k\<close>.\<close>

function SELECT_up :: "('a \<Rightarrow> 'a \<Rightarrow> int) \<Rightarrow> 'a \<Rightarrow> nat \<Rightarrow> 'a list \<Rightarrow> 'a list" where
  "SELECT_up compar k child_i a =
     (let par_i = child_i div 2 in
      if child_i \<le> 1 \<or> compar k (rec a par_i) < 0 then COPY a child_i k
      else SELECT_up compar k par_i (COPY a child_i (rec a par_i)))"
  by pat_completeness auto
termination
  by (relation "measure (\<lambda>(compar, k, child_i, a). child_i)") auto

declare SELECT_up.simps [simp del]

definition SELECT :: "('a \<Rightarrow> 'a \<Rightarrow> int) \<Rightarrow> nat \<Rightarrow> 'a \<Rightarrow> 'a list \<Rightarrow> 'a list" where
  "SELECT compar nmemb k a =
     (case SELECT_down compar nmemb 1 a of (par_i, a) \<Rightarrow> SELECT_up compar k par_i a)"

text \<open>\<open>for (l = nmemb / 2 + 1; --l;)\<close>\<close>

primrec build :: "('a \<Rightarrow> 'a \<Rightarrow> int) \<Rightarrow> nat \<Rightarrow> nat \<Rightarrow> 'a list \<Rightarrow> 'a list" where
  "build compar nmemb 0 a = a"
| "build compar nmemb (Suc l) a = build compar nmemb l (CREATE compar nmemb (Suc l) a)"

text \<open>\<open>while (nmemb > 1)\<close>\<close>

fun unload :: "('a \<Rightarrow> 'a \<Rightarrow> int) \<Rightarrow> nat \<Rightarrow> 'a list \<Rightarrow> 'a list" where
  "unload compar nmemb a =
     (if nmemb > 1 then
        let k = rec a nmemb; a = COPY a nmemb (rec a 1); nmemb = nmemb - 1 in
        unload compar nmemb (SELECT compar nmemb k a)
      else a)"

declare unload.simps [simp del]

datatype heapsort_error = HS_EINVAL | HS_ENOMEM

definition heapsort ::
    "('a \<Rightarrow> 'a \<Rightarrow> int) \<Rightarrow> bool \<Rightarrow> nat \<Rightarrow> 'a list \<Rightarrow> heapsort_error + 'a list" where
  "heapsort compar alloc sz a =
     (let nmemb = length a in
      if nmemb \<le> 1 then Inr a
      else if sz = 0 then Inl HS_EINVAL
      else if \<not> alloc then Inl HS_ENOMEM
      else Inr (unload compar nmemb (build compar nmemb (nmemb div 2) a)))"

section \<open>Heaps\<close>

text \<open>
  What \<open>compar\<close> must satisfy: its sign changes with the order of its arguments, and it is
  transitive.
\<close>

definition comparator :: "('a \<Rightarrow> 'a \<Rightarrow> int) \<Rightarrow> bool" where
  "comparator compar \<longleftrightarrow> (\<forall>x y. compar x y < 0 \<longleftrightarrow> compar y x > 0) \<and>
     (\<forall>x y z. compar x y \<le> 0 \<longrightarrow> compar y z \<le> 0 \<longrightarrow> compar x z \<le> 0)"

abbreviation le_by :: "('a \<Rightarrow> 'a \<Rightarrow> int) \<Rightarrow> 'a \<Rightarrow> 'a \<Rightarrow> bool" where
  "le_by compar x y \<equiv> compar x y \<le> 0"

lemma comparator_facts:
  assumes "comparator compar"
  shows "le_by compar x x" "le_by compar x y \<Longrightarrow> le_by compar y z \<Longrightarrow> le_by compar x z"
    "\<not> le_by compar x y \<Longrightarrow> le_by compar y x" "\<not> compar x y < 0 \<Longrightarrow> le_by compar y x"
    "compar x y < 0 \<Longrightarrow> le_by compar x y"
  using assms unfolding comparator_def by (meson linorder_not_less order_less_imp_le)+

text \<open>The records \<open>1 \<dots> n\<close> are a heap from parent \<open>l\<close> on.\<close>

definition heap :: "('a \<Rightarrow> 'a \<Rightarrow> int) \<Rightarrow> nat \<Rightarrow> nat \<Rightarrow> 'a list \<Rightarrow> bool" where
  "heap compar l n a \<longleftrightarrow> (\<forall>j. j \<le> n \<longrightarrow> 0 < j div 2 \<longrightarrow> l \<le> j div 2 \<longrightarrow> le_by compar (rec a j) (rec a (j div 2)))"

lemma length_ops [simp]: "length (COPY a i x) = length a" "length (SWAP a i j) = length a"
  by (simp_all add: COPY_def SWAP_def)

lemma rec_COPY: "0 < i \<Longrightarrow> 0 < j \<Longrightarrow> j \<le> length a \<Longrightarrow> rec (COPY a i x) j = (if j = i then x else rec a j)"
  by (auto simp: rec_def COPY_def nth_list_update)

lemma mset_SWAP: "0 < i \<Longrightarrow> i \<le> length a \<Longrightarrow> 0 < j \<Longrightarrow> j \<le> length a \<Longrightarrow> mset (SWAP a i j) = mset a"
  by (simp add: SWAP_def COPY_def rec_def mset_swap)

section \<open>Building the heap\<close>

text \<open>
  A heap but for the children of record \<open>i\<close>, which are not above the parent of \<open>i\<close>.
\<close>

definition heap_but :: "('a \<Rightarrow> 'a \<Rightarrow> int) \<Rightarrow> nat \<Rightarrow> nat \<Rightarrow> nat \<Rightarrow> 'a list \<Rightarrow> bool" where
  "heap_but compar l n i a \<longleftrightarrow>
     (\<forall>j. j \<le> n \<longrightarrow> 0 < j div 2 \<longrightarrow> l \<le> j div 2 \<longrightarrow> j div 2 \<noteq> i \<longrightarrow> le_by compar (rec a j) (rec a (j div 2))) \<and>
     (\<forall>j. j \<le> n \<longrightarrow> j div 2 = i \<longrightarrow> 0 < i div 2 \<longrightarrow> l \<le> i div 2 \<longrightarrow> le_by compar (rec a j) (rec a (i div 2)))"

lemma div2_cases: "j div 2 = i \<longleftrightarrow> j = i * 2 \<or> j = i * 2 + 1" for i j :: nat
  by auto

lemma larger_child_props:
  fixes a :: "'a list"
  assumes "comparator compar" "0 < i" "i * 2 \<le> n"
  defines "c \<equiv> larger_child compar n i a"
  shows "i < c" "c \<le> n" "c div 2 = i"
    "\<And>j. j \<le> n \<Longrightarrow> j div 2 = i \<Longrightarrow> le_by compar (rec a j) (rec a c)"
proof -
  show "i < c" "c \<le> n" "c div 2 = i"
    using assms(2,3) by (auto simp: c_def larger_child_def Let_def)
  fix j assume j: "j \<le> n" "j div 2 = i"
  then show "le_by compar (rec a j) (rec a c)"
    using comparator_facts(1,4,5) [OF assms(1)]
    by (auto simp: c_def larger_child_def Let_def div2_cases not_less)
qed

lemma CREATE_heap:
  assumes "comparator compar" "0 < i" "n \<le> length a" "heap_but compar l n i a"
  shows "heap compar l n (CREATE compar n i a) \<and> mset (CREATE compar n i a) = mset a \<and>
    length (CREATE compar n i a) = length a"
  using assms
proof (induction compar n i a rule: CREATE.induct)
  case (1 compar n i a)
  define c where "c = larger_child compar n i a"
  show ?case
  proof (cases "i * 2 \<le> n")
    case False
    have "\<not> j div 2 = i" if "j \<le> n" for j using that False by auto
    with 1(5) False show ?thesis
      by (subst (1 2 3) CREATE.simps) (auto simp: heap_def heap_but_def)
  next
    case True
    note c = larger_child_props [OF 1(2,3) True, where a = a, folded c_def]
    note le = comparator_facts [OF 1(2)]
    show ?thesis
    proof (cases "compar (rec a c) (rec a i) \<le> 0")
      case le_c: True
      have "heap compar l n a"
        unfolding heap_def
      proof (intro allI impI)
        fix j assume "j \<le> n" "0 < j div 2" "l \<le> j div 2"
        then show "le_by compar (rec a j) (rec a (j div 2))"
          using 1(5) c(4) [of j] le_c le(2) by (cases "j div 2 = i") (auto simp: heap_but_def)
      qed
      then show ?thesis
        using True 1(3) le_c by (subst (1 2 3) CREATE.simps) (simp add: flip: c_def)
    next
      case False
      let ?a = "SWAP a i c"
      have len: "i \<le> length a" "c \<le> length a" using c 1(4) by auto
      have at: "rec ?a j = (if j = c then rec a i else if j = i then rec a c else rec a j)"
        if "0 < j" "j \<le> n" for j
        using that 1(3,4) c len by (simp add: SWAP_def rec_COPY)
      have "heap_but compar l n c ?a"
        unfolding heap_but_def
      proof (intro conjI allI impI)
        fix j assume j: "j \<le> n" "0 < j div 2" "l \<le> j div 2" "j div 2 \<noteq> c"
        have pos: "0 < j" "j div 2 \<le> n" using j by auto
        consider "j div 2 = i" "j = c" | "j div 2 = i" "j \<noteq> c" | "j div 2 \<noteq> i" "j = i"
          | "j div 2 \<noteq> i" "j \<noteq> i" by blast
        then show "le_by compar (rec ?a j) (rec ?a (j div 2))"
        proof cases
          case 1
          then show ?thesis using at [OF pos(1) j(1)] at [OF j(2) pos(2)] False le(3) c(1) by auto
        next
          case 2
          then show ?thesis
            using at [OF pos(1) j(1)] at [OF j(2) pos(2)] c(1) c(4) [of j] j by auto
        next
          case 3
          then show ?thesis
            using at [OF pos(1) j(1)] at [OF j(2) pos(2)] c "1.prems"(4) j by (auto simp: heap_but_def)
        next
          case 4
          then show ?thesis
            using at [OF pos(1) j(1)] at [OF j(2) pos(2)] c "1.prems"(4) j by (auto simp: heap_but_def)
        qed
      next
        fix j assume j: "j \<le> n" "j div 2 = c" "0 < c div 2" "l \<le> c div 2"
        have "rec ?a j = rec a j" "rec ?a (c div 2) = rec a c"
          using at [of j] at [of "c div 2"] j c 1(3) by auto
        moreover have "le_by compar (rec a j) (rec a (j div 2))"
          using "1.prems"(4) j c by (auto simp: heap_but_def)
        ultimately show "le_by compar (rec ?a j) (rec ?a (c div 2))" using j by simp
      qed
      moreover have "mset ?a = mset a" using 1(3) c len by (intro mset_SWAP) auto
      ultimately show ?thesis
        using 1(1) [of c] 1(2-4) True False c(1)
        by (subst (1 2 3) CREATE.simps) (simp add: flip: c_def)
    qed
  qed
qed

lemma build_heap:
  assumes "comparator compar" "n \<le> length a" "heap compar (Suc l) n a"
  shows "heap compar 1 n (build compar n l a) \<and> mset (build compar n l a) = mset a \<and>
    length (build compar n l a) = length a"
  using assms
proof (induction l arbitrary: a)
  case (Suc l)
  have "heap_but compar (Suc l) n (Suc l) a"
    using Suc.prems(3) by (auto simp: heap_def heap_but_def)
  from CREATE_heap [OF Suc.prems(1) _ Suc.prems(2) this] Suc show ?case by simp
qed simp

lemma heap_top:
  assumes "comparator compar" "heap compar 1 n a" "0 < j" "j \<le> n"
  shows "le_by compar (rec a j) (rec a 1)"
  using assms(3,4)
proof (induction j rule: less_induct)
  case (less j)
  show ?case
  proof (cases "j = 1")
    case False
    then have "0 < j div 2" "j div 2 < j" using less.prems by auto
    moreover from this have "le_by compar (rec a j) (rec a (j div 2))"
      using assms(2) less.prems by (simp add: heap_def)
    ultimately show ?thesis
      using less.IH [of "j div 2"] less.prems comparator_facts(2) [OF assms(1)] by (meson le_trans less_imp_le)
  qed (use comparator_facts(1) [OF assms(1)] in simp)
qed

section \<open>Taking the largest record out\<close>

text \<open>
  Both loops of \<open>SELECT\<close> keep a heap: the record that is overwritten next holds a copy of its
  parent.  What the record at the hole will be in the end is \<open>k\<close>.
\<close>

lemma heap_COPY:
  assumes "comparator compar" "heap compar 1 n a" "0 < i" "i \<le> n" "n \<le> length a"
    and "\<And>j. j \<le> n \<Longrightarrow> j div 2 = i \<Longrightarrow> le_by compar (rec a j) x"
    and "0 < i div 2 \<Longrightarrow> le_by compar x (rec a (i div 2))"
  shows "heap compar 1 n (COPY a i x)"
  unfolding heap_def
proof (intro allI impI)
  fix j assume j: "j \<le> n" "0 < j div 2" "1 \<le> j div 2"
  then have "0 < j" "j div 2 \<le> length a" "j div 2 \<noteq> j" "j \<le> length a" using assms(5) by auto
  with j assms show "le_by compar (rec (COPY a i x) j) (rec (COPY a i x) (j div 2))"
    by (auto simp: rec_COPY heap_def)
qed

lemma mset_COPY_move:
  assumes "0 < i" "i \<le> length a" "0 < j" "j \<le> length a" "i \<noteq> j"
  shows "mset (COPY (COPY a i (rec a j)) j k) = mset (COPY a i k)"
proof -
  have "COPY (COPY a i (rec a j)) j k = SWAP (COPY a i k) i j"
    using assms by (auto simp: SWAP_def COPY_def rec_def list_update_swap)
  then show ?thesis using assms by (simp add: mset_SWAP)
qed

lemma SELECT_down_heap:
  assumes "comparator compar" "heap compar 1 n a" "0 < i" "i \<le> n" "n \<le> length a"
    "SELECT_down compar n i a = (c, a')"
  shows "heap compar 1 n a'" "0 < c" "c \<le> n" "n < c * 2" "length a' = length a"
    "mset (COPY a' c k) = mset (COPY a i k)"
    "\<And>j. n < j \<Longrightarrow> j \<le> length a \<Longrightarrow> rec a' j = rec a j"
    "\<And>j. 0 < j \<Longrightarrow> j \<le> n \<Longrightarrow> (\<forall>j. 0 < j \<longrightarrow> j \<le> n \<longrightarrow> P (rec a j)) \<Longrightarrow> P (rec a' j)"
proof -
  have "heap compar 1 n a' \<and> 0 < c \<and> c \<le> n \<and> n < c * 2 \<and> length a' = length a \<and>
    mset (COPY a' c k) = mset (COPY a i k) \<and> (\<forall>j. n < j \<longrightarrow> j \<le> length a \<longrightarrow> rec a' j = rec a j) \<and>
    ((\<forall>j. 0 < j \<longrightarrow> j \<le> n \<longrightarrow> P (rec a j)) \<longrightarrow> (\<forall>j. 0 < j \<longrightarrow> j \<le> n \<longrightarrow> P (rec a' j)))"
    using assms
  proof (induction compar n i a rule: SELECT_down.induct)
    case (1 compar n i a)
    show ?case
    proof (cases "i * 2 \<le> n")
      case False
      then have "c = i" "a' = a" using 1(7) by (simp_all add: SELECT_down.simps [of compar n i a])
      then show ?thesis using 1(3-6) False by simp
    next
      case True
      define m where "m = larger_child compar n i a"
      note m = larger_child_props [OF 1(2,4) True, where a = a, folded m_def]
      let ?a = "COPY a i (rec a m)"
      have rest: "SELECT_down compar n m ?a = (c, a')"
        using 1(4,7) True by (simp add: SELECT_down.simps [of compar n i a] m_def Let_def)
      have "heap compar 1 n ?a"
        using 1(2-6) m by (intro heap_COPY) (auto simp: heap_def intro: comparator_facts(2) [OF 1(2)])
      moreover have "mset (COPY ?a m k) = mset (COPY a i k)"
        using 1(4-6) m by (intro mset_COPY_move) auto
      moreover have at: "rec ?a j = (if j = i then rec a m else rec a j)" if "0 < j" "j \<le> length a" for j
        using that 1(4) by (simp add: rec_COPY)
      ultimately show ?thesis
        using 1(1) [OF _ m_def, of] 1(2-6) True m(1,2) rest by auto
    qed
  qed
  then show "heap compar 1 n a'" "0 < c" "c \<le> n" "n < c * 2" "length a' = length a"
    "mset (COPY a' c k) = mset (COPY a i k)"
    "\<And>j. n < j \<Longrightarrow> j \<le> length a \<Longrightarrow> rec a' j = rec a j"
    "\<And>j. 0 < j \<Longrightarrow> j \<le> n \<Longrightarrow> (\<forall>j. 0 < j \<longrightarrow> j \<le> n \<longrightarrow> P (rec a j)) \<Longrightarrow> P (rec a' j)"
    by blast+
qed

lemma SELECT_up_heap:
  assumes "comparator compar" "heap compar 1 n a" "0 < c" "c \<le> n" "n \<le> length a"
    "\<And>j. j \<le> n \<Longrightarrow> j div 2 = c \<Longrightarrow> le_by compar (rec a j) k"
  shows "heap compar 1 n (SELECT_up compar k c a) \<and> length (SELECT_up compar k c a) = length a \<and>
    mset (SELECT_up compar k c a) = mset (COPY a c k) \<and>
    (\<forall>j. n < j \<longrightarrow> j \<le> length a \<longrightarrow> rec (SELECT_up compar k c a) j = rec a j) \<and>
    (P k \<longrightarrow> (\<forall>j. 0 < j \<longrightarrow> j \<le> n \<longrightarrow> P (rec a j)) \<longrightarrow>
      (\<forall>j. 0 < j \<longrightarrow> j \<le> n \<longrightarrow> P (rec (SELECT_up compar k c a) j)))"
  using assms
proof (induction compar k c a rule: SELECT_up.induct)
  case (1 compar k c a)
  note le = comparator_facts [OF 1(2)]
  have at: "rec (COPY a c x) j = (if j = c then x else rec a j)" if "0 < j" "j \<le> length a" for j x
    using that 1(4) by (simp add: rec_COPY)
  show ?case
  proof (cases "c \<le> 1 \<or> compar k (rec a (c div 2)) < 0")
    case True
    then have "SELECT_up compar k c a = COPY a c k" by (simp add: SELECT_up.simps [of compar k c a] Let_def)
    moreover have "heap compar 1 n (COPY a c k)"
      using 1(2-7) True le(5) by (intro heap_COPY) auto
    ultimately show ?thesis using at 1(5,6) by auto
  next
    case False
    let ?p = "c div 2" let ?a = "COPY a c (rec a ?p)"
    have p: "0 < ?p" "?p < c" "?p \<le> n" using False 1(4,5) by auto
    have up: "SELECT_up compar k c a = SELECT_up compar k ?p ?a"
      using False by (simp add: SELECT_up.simps [of compar k c a] Let_def)
    have c_p: "le_by compar (rec a c) (rec a ?p)" using 1(3,5) p by (simp add: heap_def)
    have heap: "heap compar 1 n ?a"
    proof (rule heap_COPY [OF 1(2-6)])
      fix j assume "j \<le> n" "j div 2 = c"
      then show "le_by compar (rec a j) (rec a ?p)"
        using 1(3,4) c_p le(2) by (auto simp: heap_def)
    qed (use le(1) in simp)
    have below: "le_by compar (rec ?a j) k" if "j \<le> n" "j div 2 = ?p" for j
    proof -
      have k: "le_by compar (rec a ?p) k" using False le(4) by simp
      have "le_by compar (rec a j) (rec a ?p)"
        using 1(3) that p by (auto simp: heap_def)
      then have "le_by compar (rec a j) k" using k by (rule le(2))
      moreover have "0 < j" "j \<le> length a" using that p 1(6) by auto
      ultimately show ?thesis using at [of j "rec a ?p"] k by simp
    qed
    have ms: "mset (COPY ?a ?p k) = mset (COPY a c k)"
      using 1(4-6) p by (intro mset_COPY_move) auto
    have "n \<le> length ?a" using 1(6) by simp
    note ih = 1(1) [OF refl False 1(2) heap p(1,3) this below]
    have "rec ?a j = rec a j" if "n < j" "j \<le> length a" for j using at [of j] that 1(5) by auto
    moreover have "\<forall>j. 0 < j \<longrightarrow> j \<le> n \<longrightarrow> P (rec ?a j)" if "\<forall>j. 0 < j \<longrightarrow> j \<le> n \<longrightarrow> P (rec a j)"
      using that at p 1(6) by auto
    ultimately show ?thesis
      unfolding up using ih ms by simp
  qed
qed

lemma SELECT_heap:
  assumes "comparator compar" "heap compar 1 n a" "0 < n" "n \<le> length a"
  shows "heap compar 1 n (SELECT compar n k a)" "length (SELECT compar n k a) = length a"
    "mset (SELECT compar n k a) = mset (COPY a 1 k)"
    "\<And>j. n < j \<Longrightarrow> j \<le> length a \<Longrightarrow> rec (SELECT compar n k a) j = rec a j"
    "\<And>j. 0 < j \<Longrightarrow> j \<le> n \<Longrightarrow> P k \<Longrightarrow> (\<forall>j. 0 < j \<longrightarrow> j \<le> n \<longrightarrow> P (rec a j)) \<Longrightarrow>
       P (rec (SELECT compar n k a) j)"
proof -
  obtain c a' where down: "SELECT_down compar n 1 a = (c, a')" by fastforce
  note d = SELECT_down_heap [OF assms(1,2) _ _ assms(4) down]
  have n: "0 < (1 :: nat)" "1 \<le> n" using assms(3) by auto
  have "n \<le> length a'" using d(5) [OF n] assms(4) by simp
  moreover have "\<And>j. j \<le> n \<Longrightarrow> j div 2 = c \<Longrightarrow> le_by compar (rec a' j) k"
    using d(4) [OF n] by auto
  ultimately have u: "heap compar 1 n (SELECT_up compar k c a') \<and>
    length (SELECT_up compar k c a') = length a' \<and>
    mset (SELECT_up compar k c a') = mset (COPY a' c k) \<and>
    (\<forall>j. n < j \<longrightarrow> j \<le> length a' \<longrightarrow> rec (SELECT_up compar k c a') j = rec a' j) \<and>
    (P k \<longrightarrow> (\<forall>j. 0 < j \<longrightarrow> j \<le> n \<longrightarrow> P (rec a' j)) \<longrightarrow>
      (\<forall>j. 0 < j \<longrightarrow> j \<le> n \<longrightarrow> P (rec (SELECT_up compar k c a') j)))" for P
    using SELECT_up_heap [OF assms(1) d(1) [OF n] d(2) [OF n] d(3) [OF n]] by blast
  have S: "SELECT compar n k a = SELECT_up compar k c a'" unfolding SELECT_def down by simp
  show "heap compar 1 n (SELECT compar n k a)" "length (SELECT compar n k a) = length a"
    "mset (SELECT compar n k a) = mset (COPY a 1 k)"
    "\<And>j. n < j \<Longrightarrow> j \<le> length a \<Longrightarrow> rec (SELECT compar n k a) j = rec a j"
    using u [of "\<lambda>_. True"] d(5-7) [OF n] by (simp_all add: S)
  show "\<And>j. 0 < j \<Longrightarrow> j \<le> n \<Longrightarrow> P k \<Longrightarrow> (\<forall>j. 0 < j \<longrightarrow> j \<le> n \<longrightarrow> P (rec a j)) \<Longrightarrow>
       P (rec (SELECT compar n k a) j)"
    using u [of P] d(8) [OF n, of _ P] unfolding S by blast
qed

section \<open>Sorting\<close>

text \<open>The records after \<open>n\<close> are in order, and none of those up to \<open>n\<close> is above them.\<close>

definition tail_sorted :: "('a \<Rightarrow> 'a \<Rightarrow> int) \<Rightarrow> nat \<Rightarrow> 'a list \<Rightarrow> bool" where
  "tail_sorted compar n a \<longleftrightarrow>
     (\<forall>i j. 0 < i \<longrightarrow> i \<le> j \<longrightarrow> n < j \<longrightarrow> j \<le> length a \<longrightarrow> le_by compar (rec a i) (rec a j))"

lemma unload_step:
  assumes "comparator compar" "heap compar 1 n a" "1 < n" "n \<le> length a" "tail_sorted compar n a"
  defines "b \<equiv> SELECT compar (n - 1) (rec a n) (COPY a n (rec a 1))"
  shows "heap compar 1 (n - 1) b" "length b = length a" "mset b = mset a" "tail_sorted compar (n - 1) b"
proof -
  let ?k = "rec a n" let ?a = "COPY a n (rec a 1)"
  note le = comparator_facts [OF assms(1)]
  have at: "rec ?a j = (if j = n then rec a 1 else rec a j)" if "0 < j" "j \<le> length a" for j
    using that assms(3) by (simp add: rec_COPY)
  have heap: "heap compar 1 (n - 1) ?a"
    unfolding heap_def
  proof (intro allI impI)
    fix j assume j: "j \<le> n - 1" "0 < j div 2" "1 \<le> j div 2"
    then have "rec ?a j = rec a j" "rec ?a (j div 2) = rec a (j div 2)"
      using at [of j] at [of "j div 2"] assms(3,4) by auto
    then show "le_by compar (rec ?a j) (rec ?a (j div 2))"
      using assms(2) j by (simp add: heap_def)
  qed
  have n: "0 < n - 1" "n - 1 \<le> length ?a" using assms(3,4) by auto
  note S = SELECT_heap [OF assms(1) heap n, where k = ?k, folded b_def]
  show "heap compar 1 (n - 1) b" by (rule S(1))
  show len: "length b = length a" using S(2) by simp
  have "COPY ?a 1 ?k = SWAP a n 1"
    using assms(3,4) by (auto simp: SWAP_def COPY_def rec_def list_update_swap)
  then show "mset b = mset a" using S(3) assms(3,4) by (simp add: mset_SWAP)
  show "tail_sorted compar (n - 1) b"
    unfolding tail_sorted_def
  proof (intro allI impI)
    fix i j assume ij: "0 < i" "i \<le> j" "n - 1 < j" "j \<le> length b"
    have tail: "rec b m = (if m = n then rec a 1 else rec a m)" if "n - 1 < m" "m \<le> length a" for m
      using S(4) [of m] at [of m] that assms(3) by simp
    have top: "le_by compar (rec a m) (rec b j)" if "0 < m" "m \<le> n" for m
      using that ij tail [of j] len heap_top [OF assms(1,2), of m] assms(3,5)
      by (cases "j = n") (auto simp: tail_sorted_def)
    show "le_by compar (rec b i) (rec b j)"
    proof (cases "i \<le> n - 1")
      case True
      have "\<forall>m. 0 < m \<longrightarrow> m \<le> n - 1 \<longrightarrow> le_by compar (rec ?a m) (rec b j)"
        using top at assms(3,4) by auto
      then show ?thesis
        using S(5) [of i "\<lambda>x. le_by compar x (rec b j)"] ij True top [of n] assms(3) by simp
    next
      case False
      then show ?thesis
        using ij tail [of i] tail [of j] len assms(3,5) le(1) top
        by (cases "i = n") (auto simp: tail_sorted_def)
    qed
  qed
qed

lemma unload_sorts:
  assumes "comparator compar" "heap compar 1 n a" "n \<le> length a" "tail_sorted compar n a"
  shows "tail_sorted compar 1 (unload compar n a) \<and> mset (unload compar n a) = mset a \<and>
    length (unload compar n a) = length a"
  using assms
proof (induction compar n a rule: unload.induct)
  case (1 compar n a)
  show ?case
  proof (cases "1 < n")
    case True
    note s = unload_step [OF 1(2,3) True 1(4,5)]
    have "n - 1 \<le> length a" using 1(4) by simp
    then show ?thesis
      using 1(1) [OF True refl refl refl 1(2)] s True by (simp add: unload.simps [of compar n a] Let_def)
  next
    case False
    then have "n = 0 \<or> n = 1" by auto
    then show ?thesis
      using 1(5) False by (auto simp: unload.simps [of compar n a] tail_sorted_def)
  qed
qed

section \<open>Properties\<close>

text \<open>
  C28. With a comparison function that is a total preorder, \<open>heapsort\<close> returns a permutation of the
  array in ascending order, and its only failures are a record size of zero and a failed
  allocation, for arrays of more than one record.
\<close>

theorem heapsort_sorts:
  assumes "comparator compar"
  shows "case heapsort compar alloc sz a of
      Inr b \<Rightarrow> sorted_wrt (\<lambda>x y. compar x y \<le> 0) b \<and> mset b = mset a
    | Inl e \<Rightarrow> length a > 1 \<and> (e = HS_EINVAL \<and> sz = 0 \<or> e = HS_ENOMEM \<and> sz \<noteq> 0 \<and> \<not> alloc)"
proof (cases "1 < length a \<and> sz \<noteq> 0 \<and> alloc")
  case True
  let ?n = "length a"
  have "heap compar (Suc (?n div 2)) ?n a" by (auto simp: heap_def dest: div_le_mono [of _ _ 2])
  from build_heap [OF assms order_refl this]
  have h: "heap compar 1 ?n (build compar ?n (?n div 2) a)"
    "mset (build compar ?n (?n div 2) a) = mset a" "length (build compar ?n (?n div 2) a) = ?n"
    by auto
  define b where "b = unload compar ?n (build compar ?n (?n div 2) a)"
  have b: "tail_sorted compar 1 b" "mset b = mset a" "length b = ?n"
    using unload_sorts [OF assms h(1)] h(2,3) by (auto simp: b_def tail_sorted_def)
  have "sorted_wrt (\<lambda>x y. compar x y \<le> 0) b"
    unfolding sorted_wrt_iff_nth_less
  proof (intro allI impI)
    fix i j assume "i < j" "j < length b"
    then show "compar (b ! i) (b ! j) \<le> 0"
      using b(1) [unfolded tail_sorted_def, rule_format, of "Suc i" "Suc j"] by (simp add: rec_def)
  qed
  with b True show ?thesis by (simp add: heapsort_def Let_def b_def)
next
  case False
  then show ?thesis
    by (cases a rule: list.exhaust [case_names Nil Cons])
      (auto simp: heapsort_def Let_def length_Suc_conv le_Suc_eq)
qed

theorem heapsort_sorts_witness:
  "case heapsort (\<lambda>x y :: int. x - y) True 8 [3, 1, 2] of
      Inr b \<Rightarrow> sorted_wrt (\<lambda>x y. x - y \<le> 0) b \<and> mset b = mset [3, 1, 2]
    | Inl e \<Rightarrow> length [3, 1, 2 :: int] > 1 \<and>
        (e = HS_EINVAL \<and> (8 :: nat) = 0 \<or> e = HS_ENOMEM \<and> (8 :: nat) \<noteq> 0 \<and> \<not> True)"
  by (rule heapsort_sorts) (simp add: comparator_def)

end
