(* ===== verification/Ohash.thy ===== *)
theory Ohash
  imports Prelude
begin

text \<open>
  The open hash table of the compatibility library (\<open>src/src.freebsd/compat/ohash.c\<close>), which keeps
  the macros of \<open>m4\<close>.

  An entry is an abstract pointer; the client's function \<open>key\<close> gives the name stored at its key
  offset.  The counters are \<open>unsigned int\<close>s: sums and products are taken modulo \<open>2 ^ 32\<close>.  The
  probing loops run until they meet a free slot, so they are partial: a run that does not end has
  no result.  The success of \<open>calloc\<close> in \<open>ohash_resize\<close> is a parameter; in \<open>ohash_init\<close> it is
  taken for granted, as the code does.
\<close>

section \<open>The code\<close>

datatype 'e slot_ptr = NULLP | DELETED | Ent 'e

record 'e slot =
  s_hv :: u32
  s_p :: "'e slot_ptr"

record 'e ohash =
  oh_t :: "'e slot list"
  oh_size :: nat
  oh_total :: nat
  oh_deleted :: nat

definition MINSIZE :: nat where "MINSIZE = 2 ^ 4"
definition MINDELETED :: nat where "MINDELETED = 4"
definition UINT_MAX :: nat where "UINT_MAX = 2 ^ 32 - 1"

definition u32_of :: "nat \<Rightarrow> nat" where
  "u32_of n = n mod 2 ^ 32"

definition sub32 :: "nat \<Rightarrow> nat \<Rightarrow> nat" where
  "sub32 a b = u32_of (a + (2 ^ 32 - b))"

lemma sub32_eq [simp]: "b \<le> a \<Longrightarrow> a < 2 ^ 32 \<Longrightarrow> sub32 a b = a - b"
  by (simp add: sub32_def u32_of_def mod_if)

definition free_slot :: "'e slot" where
  "free_slot = \<lparr>s_hv = 0, s_p = NULLP\<rparr>"

definition probe_start :: "u32 \<Rightarrow> nat \<Rightarrow> nat" where
  "probe_start hv sz = unat hv mod sz"

definition probe_incr :: "u32 \<Rightarrow> nat \<Rightarrow> nat" where
  "probe_incr hv sz = (unat hv mod (sz - 2)) div 2 * 2 + 1"

definition probe_next :: "nat \<Rightarrow> nat \<Rightarrow> nat \<Rightarrow> nat" where
  "probe_next sz incr i = (let i = u32_of (i + incr) in if i \<ge> sz then i - sz else i)"

text \<open>The search for a free slot in \<open>ohash_resize\<close>.\<close>

partial_function (option) place_free :: "'e slot list \<Rightarrow> nat \<Rightarrow> nat \<Rightarrow> nat \<Rightarrow> nat option" where
  "place_free n ns incr i =
     (if s_p (n ! i) \<noteq> NULLP then place_free n ns incr (probe_next ns incr i) else Some i)"

primrec rehash :: "nat \<Rightarrow> 'e slot list \<Rightarrow> 'e slot list \<Rightarrow> 'e slot list option" where
  "rehash ns [] n = Some n"
| "rehash ns (r # rs) n =
     (case s_p r of
        Ent e \<Rightarrow> Option.bind (place_free n ns (probe_incr (s_hv r) ns) (probe_start (s_hv r) ns))
          (\<lambda>i. rehash ns rs (n[i := \<lparr>s_hv = s_hv r, s_p = Ent e\<rparr>]))
      | _ \<Rightarrow> rehash ns rs n)"

definition new_size :: "'e ohash \<Rightarrow> nat" where
  "new_size h =
     (let ns = (if u32_of (4 * oh_deleted h) < oh_total h
                then if oh_size h \<ge> UINT_MAX div 2 then UINT_MAX else oh_size h * 2
                else if u32_of (3 * oh_deleted h) > u32_of (2 * oh_total h) then oh_size h div 2
                else oh_size h)
      in if ns < MINSIZE then MINSIZE else ns)"

definition ohash_resize :: "bool \<Rightarrow> 'e ohash \<Rightarrow> 'e ohash option" where
  "ohash_resize alloc h =
     (let ns = new_size h in
      if \<not> alloc then Some h
      else map_option (\<lambda>n. h\<lparr>oh_t := n, oh_size := ns, oh_total := sub32 (oh_total h) (oh_deleted h),
             oh_deleted := 0\<rparr>)
        (rehash ns (take (oh_size h) (oh_t h)) (replicate ns free_slot)))"

definition ohash_remove :: "bool \<Rightarrow> 'e ohash \<Rightarrow> nat \<Rightarrow> ('e option \<times> 'e ohash) option" where
  "ohash_remove alloc h i =
     (case s_p (oh_t h ! i) of
        Ent e \<Rightarrow>
          let h = h\<lparr>oh_t := (oh_t h)[i := (oh_t h ! i)\<lparr>s_p := DELETED\<rparr>],
                    oh_deleted := u32_of (oh_deleted h + 1)\<rparr>
          in if oh_deleted h \<ge> MINDELETED \<and> u32_of (4 * oh_deleted h) > oh_total h
             then map_option (\<lambda>h. (Some e, h)) (ohash_resize alloc h)
             else Some (Some e, h)
      | _ \<Rightarrow> Some (None, h))"

definition ohash_find :: "'e ohash \<Rightarrow> nat \<Rightarrow> 'e option" where
  "ohash_find h i = (case s_p (oh_t h ! i) of Ent e \<Rightarrow> Some e | _ \<Rightarrow> None)"

definition ohash_insert :: "bool \<Rightarrow> 'e ohash \<Rightarrow> nat \<Rightarrow> 'e \<Rightarrow> 'e ohash option" where
  "ohash_insert alloc h i p =
     (let t = (oh_t h)[i := (oh_t h ! i)\<lparr>s_p := Ent p\<rparr>] in
      if s_p (oh_t h ! i) = DELETED
      then Some (h\<lparr>oh_t := t, oh_deleted := sub32 (oh_deleted h) 1\<rparr>)
      else
        let h = h\<lparr>oh_t := t, oh_total := u32_of (oh_total h + 1)\<rparr> in
        if u32_of (oh_total h * 4) > u32_of (oh_size h * 3) then ohash_resize alloc h else Some h)"

definition ohash_entries :: "'e ohash \<Rightarrow> nat" where
  "ohash_entries h = sub32 (oh_total h) (oh_deleted h)"

function ohash_next :: "'e ohash \<Rightarrow> nat \<Rightarrow> 'e option \<times> nat" where
  "ohash_next h pos =
     (if pos < oh_size h then
        (case s_p (oh_t h ! pos) of Ent e \<Rightarrow> (Some e, pos + 1) | _ \<Rightarrow> ohash_next h (pos + 1))
      else (None, pos))"
  by pat_completeness auto
termination
  by (relation "measure (\<lambda>(h, pos). oh_size h - pos)") auto

declare ohash_next.simps [simp del]

definition ohash_first :: "'e ohash \<Rightarrow> 'e option \<times> nat" where
  "ohash_first h = ohash_next h 0"

definition ohash_init :: "nat \<Rightarrow> 'e ohash" where
  "ohash_init sz =
     (let n = u32_of (2 ^ sz); n = (if n < MINSIZE then MINSIZE else n)
      in \<lparr>oh_t = replicate n free_slot, oh_size = n, oh_total = 0, oh_deleted = 0\<rparr>)"

text \<open>The hash of a name; a character is signed.\<close>

definition ohash_interval :: "u8 list \<Rightarrow> u32" where
  "ohash_interval s =
     (case s of [] \<Rightarrow> 0
      | c # cs \<Rightarrow> foldl (\<lambda>k c. (push_bit 2 k OR drop_bit 30 k) XOR signed c) (signed c) cs)"

text \<open>
  The loop of \<open>ohash_lookup_interval\<close> and of \<open>ohash_lookup_memory\<close>, which differ in the comparison
  \<open>eq\<close> of an entry with the name.
\<close>

partial_function (option) lookup_loop ::
    "('e \<Rightarrow> bool) \<Rightarrow> u32 \<Rightarrow> nat \<Rightarrow> nat \<Rightarrow> 'e slot list \<Rightarrow> nat \<Rightarrow> nat \<Rightarrow> (nat \<times> 'e slot list) option" where
  "lookup_loop eq hv incr sz t i emp =
     (case s_p (t ! i) of
        NULLP \<Rightarrow> let i = (if emp \<noteq> sz then emp else i) in Some (i, t[i := (t ! i)\<lparr>s_hv := hv\<rparr>])
      | DELETED \<Rightarrow>
          lookup_loop eq hv incr sz t (probe_next sz incr i) (if emp = sz then i else emp)
      | Ent e \<Rightarrow>
          if s_hv (t ! i) = hv \<and> eq e then
            if emp \<noteq> sz
            then Some (emp, t[emp := \<lparr>s_hv = hv, s_p = Ent e\<rparr>, i := (t ! i)\<lparr>s_p := DELETED\<rparr>])
            else Some (i, t)
          else lookup_loop eq hv incr sz t (probe_next sz incr i) emp)"

definition lookup_with :: "('e \<Rightarrow> bool) \<Rightarrow> 'e ohash \<Rightarrow> u32 \<Rightarrow> (nat \<times> 'e ohash) option" where
  "lookup_with eq h hv =
     map_option (\<lambda>(i, t). (i, h\<lparr>oh_t := t\<rparr>))
       (lookup_loop eq hv (probe_incr hv (oh_size h)) (oh_size h) (oh_t h)
          (probe_start hv (oh_size h)) (oh_size h))"

text \<open>
  \<open>strncmp\<close> finds the name at the start of the key, and the key ends there; neither the name nor
  the key has a NUL inside.
\<close>

definition ohash_lookup_interval ::
    "('e \<Rightarrow> u8 list) \<Rightarrow> 'e ohash \<Rightarrow> u8 list \<Rightarrow> u32 \<Rightarrow> (nat \<times> 'e ohash) option" where
  "ohash_lookup_interval key h s hv =
     lookup_with (\<lambda>e. take (length s) (key e) = s \<and> length (key e) = length s) h hv"

definition ohash_lookup_memory ::
    "('e \<Rightarrow> u8 list) \<Rightarrow> 'e ohash \<Rightarrow> u8 list \<Rightarrow> u32 \<Rightarrow> (nat \<times> 'e ohash) option" where
  "ohash_lookup_memory mem h k hv = lookup_with (\<lambda>e. take (length k) (mem e) = k) h hv"

definition ohash_qlookup :: "('e \<Rightarrow> u8 list) \<Rightarrow> 'e ohash \<Rightarrow> u8 list \<Rightarrow> (nat \<times> 'e ohash) option" where
  "ohash_qlookup key h s = ohash_lookup_interval key h s (ohash_interval s)"

section \<open>Probing\<close>

text \<open>
  The table size is a power of two and the increment is odd, so the probes of a hash value visit
  every slot.
\<close>

definition size_ok :: "nat \<Rightarrow> bool" where
  "size_ok sz \<longleftrightarrow> (\<exists>m. 4 \<le> m \<and> m \<le> 30 \<and> sz = 2 ^ m)"

lemma size_ok_bounds: "size_ok sz \<Longrightarrow> 16 \<le> sz \<and> sz \<le> 2 ^ 30"
proof -
  assume "size_ok sz"
  then obtain m where "4 \<le> m" "m \<le> 30" "sz = 2 ^ m" by (auto simp: size_ok_def)
  then show ?thesis
    using power_increasing [of 4 m "2 :: nat"] power_increasing [of m 30 "2 :: nat"] by simp
qed

definition probe :: "u32 \<Rightarrow> nat \<Rightarrow> nat \<Rightarrow> nat" where
  "probe hv sz k = (probe_start hv sz + k * probe_incr hv sz) mod sz"

lemma probe_incr_bound: "16 \<le> sz \<Longrightarrow> probe_incr hv sz \<le> sz - 2"
proof -
  assume "16 \<le> sz"
  then have "unat hv mod (sz - 2) < sz - 2" by simp
  then have "(unat hv mod (sz - 2)) div 2 * 2 < sz - 2" by linarith
  then show ?thesis by (simp add: probe_incr_def)
qed

lemma probe_0: "16 \<le> sz \<Longrightarrow> probe hv sz 0 = probe_start hv sz"
  by (simp add: probe_def probe_start_def)

lemma probe_less: "16 \<le> sz \<Longrightarrow> probe hv sz k < sz"
  by (simp add: probe_def)

lemma probe_next_probe:
  assumes "size_ok sz"
  shows "probe_next sz (probe_incr hv sz) (probe hv sz k) = probe hv sz (Suc k)"
proof -
  have sz: "16 \<le> sz" "sz \<le> 2 ^ 30" using size_ok_bounds [OF assms] by auto
  let ?i = "probe hv sz k" and ?d = "probe_incr hv sz"
  have "?i < sz" "?d < sz" using probe_less [of sz hv k] probe_incr_bound [of sz hv] sz by auto
  then have "u32_of (?i + ?d) = ?i + ?d" using sz by (simp add: u32_of_def)
  moreover have "(if sz \<le> ?i + ?d then ?i + ?d - sz else ?i + ?d) = (?i + ?d) mod sz"
    using \<open>?i < sz\<close> \<open>?d < sz\<close> by (simp add: mod_if le_mod_geq)
  moreover have "(?i + ?d) mod sz = probe hv sz (Suc k)"
    by (simp add: probe_def mod_simps algebra_simps)
  ultimately show ?thesis by (simp add: probe_next_def Let_def)
qed

lemma probe_inj:
  assumes "size_ok sz"
  shows "inj_on (probe hv sz) {..<sz}"
proof (rule linorder_inj_onI')
  fix x y assume xy: "x \<in> {..<sz}" "y \<in> {..<sz}" "x < y"
  let ?s = "probe_start hv sz" and ?d = "probe_incr hv sz"
  show "probe hv sz x \<noteq> probe hv sz y"
  proof
    assume "probe hv sz x = probe hv sz y"
    then have "(?s + y * ?d) mod sz = (?s + x * ?d) mod sz" by (simp add: probe_def)
    then have "sz dvd (?s + y * ?d) - (?s + x * ?d)"
      using xy(3) by (subst (asm) mod_eq_dvd_iff_nat) simp_all
    then have "sz dvd (y - x) * ?d" by (simp add: diff_mult_distrib)
    moreover have "coprime sz ?d"
      using assms by (auto simp: size_ok_def probe_incr_def)
    ultimately have "sz dvd y - x" by (simp add: coprime_dvd_mult_left_iff)
    then show False using xy by (auto dest: dvd_imp_le)
  qed
qed

lemma probe_surj:
  assumes "size_ok sz" "i < sz"
  shows "\<exists>k. k < sz \<and> probe hv sz k = i"
proof -
  have "probe hv sz ` {..<sz} = {..<sz}"
    using probe_inj [OF assms(1)] probe_less size_ok_bounds [OF assms(1)]
    by (intro endo_inj_surj) auto
  then have "i \<in> probe hv sz ` {..<sz}" using assms(2) by simp
  then show ?thesis by auto
qed

section \<open>Tables\<close>

definition ent :: "'e slot list \<Rightarrow> nat \<Rightarrow> 'e \<Rightarrow> bool" where
  "ent t i e \<longleftrightarrow> i < length t \<and> s_p (t ! i) = Ent e"

text \<open>Slot \<open>i\<close> is met by the probes for \<open>hv\<close>, with no free slot before it.\<close>

definition on_path :: "u32 \<Rightarrow> 'e slot list \<Rightarrow> nat \<Rightarrow> bool" where
  "on_path hv t i \<longleftrightarrow> (\<exists>k. probe hv (length t) k = i \<and>
     (\<forall>j<k. s_p (t ! probe hv (length t) j) \<noteq> NULLP))"

text \<open>
  Every entry is stored with the hash of its name where a search for it gets, and a name has at
  most one entry.
\<close>

definition table_ok :: "('e \<Rightarrow> u8 list) \<Rightarrow> (u8 list \<Rightarrow> u32) \<Rightarrow> 'e slot list \<Rightarrow> bool" where
  "table_ok key hash t \<longleftrightarrow>
     (\<forall>i e. ent t i e \<longrightarrow> s_hv (t ! i) = hash (key e) \<and> on_path (hash (key e)) t i) \<and>
     (\<forall>i j e e'. ent t i e \<longrightarrow> ent t j e' \<longrightarrow> key e = key e' \<longrightarrow> i = j)"

definition has_free :: "'e slot list \<Rightarrow> bool" where
  "has_free t \<longleftrightarrow> (\<exists>i<length t. s_p (t ! i) = NULLP)"

lemma on_path_mono:
  assumes "on_path hv t i" "length t' = length t"
    "\<And>j. j < length t \<Longrightarrow> s_p (t ! j) \<noteq> NULLP \<Longrightarrow> s_p (t' ! j) \<noteq> NULLP" "16 \<le> length t"
  shows "on_path hv t' i"
  using assms probe_less [OF assms(4)] unfolding on_path_def by (metis (no_types, lifting))

lemma table_ok_mono:
  assumes "table_ok key hash t" "length t' = length t" "16 \<le> length t"
    and "\<And>j. j < length t \<Longrightarrow> s_p (t ! j) \<noteq> NULLP \<Longrightarrow> s_p (t' ! j) \<noteq> NULLP"
    and "\<And>i e. ent t' i e \<Longrightarrow>
      ent t i e \<and> s_hv (t' ! i) = s_hv (t ! i) \<or> s_hv (t' ! i) = hash (key e) \<and> on_path (hash (key e)) t i"
    and "\<And>i j e e'. ent t' i e \<Longrightarrow> ent t' j e' \<Longrightarrow> key e = key e' \<Longrightarrow> i = j"
  shows "table_ok key hash t'"
  unfolding table_ok_def
proof (intro conjI allI impI)
  fix i e assume e: "ent t' i e"
  then have "s_hv (t' ! i) = hash (key e) \<and> on_path (hash (key e)) t i"
    using assms(1) assms(5) [OF e] by (auto simp: table_ok_def)
  then show "s_hv (t' ! i) = hash (key e)" "on_path (hash (key e)) t' i"
    using on_path_mono [of "hash (key e)" t i t'] assms(2-4) by auto
qed (use assms(6) in blast)

lemma path_to_free:
  assumes "size_ok (length t)" "has_free t"
  shows "\<exists>k. s_p (t ! probe hv (length t) k) = NULLP \<and>
    (\<forall>j<k. s_p (t ! probe hv (length t) j) \<noteq> NULLP)"
proof -
  obtain k where "s_p (t ! probe hv (length t) k) = NULLP"
    using assms probe_surj [OF assms(1)] unfolding has_free_def by metis
  then show ?thesis by (rule ex_least_nat_le [of "\<lambda>k. s_p (t ! probe hv (length t) k) = NULLP", THEN exE])
      (use not_less_Least in auto)
qed

lemma place_free_finds:
  assumes "size_ok (length t)" "has_free t"
  shows "\<exists>i. place_free t (length t) (probe_incr hv (length t)) (probe_start hv (length t)) = Some i \<and>
    i < length t \<and> s_p (t ! i) = NULLP \<and> on_path hv t i"
proof -
  let ?p = "probe hv (length t)" and ?f = "place_free t (length t) (probe_incr hv (length t))"
  have sz: "16 \<le> length t" using size_ok_bounds [OF assms(1)] by simp
  obtain k where k: "s_p (t ! ?p k) = NULLP" "\<forall>j<k. s_p (t ! ?p j) \<noteq> NULLP"
    using path_to_free [OF assms] by blast
  have "?f (?p 0) = ?f (?p j)" if "j \<le> k" for j
    using that
  proof (induction j)
    case (Suc j)
    then have "?f (?p j) = ?f (?p (Suc j))"
      using k(2) probe_next_probe [OF assms(1), of hv j] by (subst place_free.simps) simp
    with Suc show ?case by simp
  qed simp
  from this [OF order_refl] have "?f (probe_start hv (length t)) = Some (?p k)"
    using k(1) sz by (simp add: probe_0 place_free.simps [of t "length t" _ "?p k"])
  then show ?thesis using k probe_less [OF sz] by (auto simp: on_path_def)
qed

section \<open>Counting slots\<close>

definition used :: "'e slot list \<Rightarrow> nat" where
  "used t = length (filter (\<lambda>r. s_p r \<noteq> NULLP) t)"

definition dead :: "'e slot list \<Rightarrow> nat" where
  "dead t = length (filter (\<lambda>r. s_p r = DELETED) t)"

lemma length_filter_update:
  assumes "i < length xs"
  shows "length (filter P (xs[i := x])) + (if P (xs ! i) then 1 else 0) =
    length (filter P xs) + (if P x then 1 else 0)"
  using assms
proof (induction xs arbitrary: i)
  case (Cons y xs)
  then show ?case by (cases i) (auto dest: Cons.IH)
qed simp

lemma used_update: "i < length t \<Longrightarrow>
    used (t[i := r]) + (if s_p (t ! i) \<noteq> NULLP then 1 else 0) = used t + (if s_p r \<noteq> NULLP then 1 else 0)"
  unfolding used_def by (rule length_filter_update)

lemma dead_update: "i < length t \<Longrightarrow>
    dead (t[i := r]) + (if s_p (t ! i) = DELETED then 1 else 0) = dead t + (if s_p r = DELETED then 1 else 0)"
  unfolding dead_def by (rule length_filter_update)

lemma used_less_free: "used t < length t \<Longrightarrow> has_free t"
proof -
  assume "used t < length t"
  then have "filter (\<lambda>r. s_p r \<noteq> NULLP) t \<noteq> t" by (auto simp: used_def)
  then show ?thesis by (auto simp: has_free_def filter_id_conv in_set_conv_nth)
qed

lemma dead_le_used: "dead t \<le> used t"
  unfolding dead_def used_def by (induction t) auto

lemma used_le_length: "used t \<le> length t"
  unfolding used_def by (rule length_filter_le)

section \<open>The entries of a table\<close>

fun elist :: "'e slot list \<Rightarrow> 'e list" where
  "elist [] = []"
| "elist (r # rs) = (case s_p r of Ent e \<Rightarrow> e # elist rs | _ \<Rightarrow> elist rs)"

lemma set_elist: "e \<in> set (elist t) \<longleftrightarrow> (\<exists>i. ent t i e)"
proof -
  have "e \<in> set (elist t) \<longleftrightarrow> (\<exists>r \<in> set t. s_p r = Ent e)"
    by (induction t) (auto split: slot_ptr.splits)
  then show ?thesis unfolding ent_def by (metis in_set_conv_nth)
qed

lemma used_split: "used t = length (elist t) + dead t"
  unfolding used_def dead_def by (induction t) (auto split: slot_ptr.splits)

lemma distinct_elist:
  assumes "\<And>i j e e'. ent t i e \<Longrightarrow> ent t j e' \<Longrightarrow> key e = key e' \<Longrightarrow> i = j"
  shows "distinct (map key (elist t))"
  using assms
proof (induction t)
  case (Cons r t)
  have shift: "ent (r # t) (Suc i) e" if "ent t i e" for i e
    using that by (simp add: ent_def)
  then have IH: "distinct (map key (elist t))"
    using Cons.prems by (intro Cons.IH) (metis Suc_inject)
  show ?case
  proof (cases "s_p r")
    case (Ent e)
    then have "ent (r # t) 0 e" by (simp add: ent_def)
    then have "key e \<notin> key ` set (elist t)"
      using Cons.prems shift by (fastforce simp: set_elist)
    then show ?thesis using IH Ent by simp
  qed (use IH in simp_all)
qed simp

definition abs_table :: "('e \<Rightarrow> u8 list) \<Rightarrow> 'e slot list \<Rightarrow> u8 list \<rightharpoonup> 'e" where
  "abs_table key t = map_of (map (\<lambda>e. (key e, e)) (elist t))"

lemma abs_table_Some:
  assumes "table_ok key hash t"
  shows "abs_table key t s = Some e \<longleftrightarrow> (\<exists>i. ent t i e) \<and> key e = s"
proof -
  have "distinct (map key (elist t))"
    using assms by (intro distinct_elist) (auto simp: table_ok_def)
  then have "distinct (map fst (map (\<lambda>e. (key e, e)) (elist t)))" by (simp add: comp_def)
  then show ?thesis by (auto simp: abs_table_def map_of_eq_Some_iff simp flip: set_elist)
qed

lemma abs_table_eqI:
  assumes "table_ok key hash t" "table_ok key hash t'" "\<And>e. (\<exists>i. ent t i e) \<longleftrightarrow> (\<exists>i. ent t' i e)"
  shows "abs_table key t = abs_table key t'"
proof
  fix s
  show "abs_table key t s = abs_table key t' s"
    using abs_table_Some [OF assms(1)] abs_table_Some [OF assms(2)] assms(3)
    by (metis not_Some_eq)
qed

lemma ent_update: "i < length t \<Longrightarrow> ent (t[i := r]) j e \<longleftrightarrow> (if j = i then s_p r = Ent e else ent t j e)"
  by (auto simp: ent_def nth_list_update)

lemma ents_insert:
  assumes "i < length t" "\<And>e'. s_p (t ! i) \<noteq> Ent e'" "s_p r = Ent e"
  shows "(\<exists>j. ent (t[i := r]) j x) \<longleftrightarrow> (\<exists>j. ent t j x) \<or> x = e"
proof
  assume "(\<exists>j. ent t j x) \<or> x = e"
  then consider j where "ent t j x" "j \<noteq> i" | "x = e" using assms(2) by (auto simp: ent_def)
  then show "\<exists>j. ent (t[i := r]) j x"
    using assms(1,3) by cases (auto simp: ent_update)
qed (use assms in \<open>auto simp: ent_update split: if_splits\<close>)

section \<open>Resizing\<close>

lemma table_ok_insert:
  assumes "table_ok key hash t" "16 \<le> length t" "i < length t"
    "\<And>e'. s_p (t ! i) \<noteq> Ent e'" "on_path (hash (key e)) t i" "\<And>j e'. ent t j e' \<Longrightarrow> key e' \<noteq> key e"
    "s_p r = Ent e" "s_hv r = hash (key e)"
  shows "table_ok key hash (t[i := r])"
proof (rule table_ok_mono [OF assms(1)])
  show "16 \<le> length t" by (rule assms(2))
  fix j assume "j < length t" "s_p (t ! j) \<noteq> NULLP"
  then show "s_p (t[i := r] ! j) \<noteq> NULLP" using assms(3,7) by (cases "j = i") simp_all
next
  fix j x assume "ent (t[i := r]) j x"
  then show "ent t j x \<and> s_hv (t[i := r] ! j) = s_hv (t ! j) \<or>
      s_hv (t[i := r] ! j) = hash (key x) \<and> on_path (hash (key x)) t j"
    using assms(3,5,7,8) by (auto simp: ent_update nth_list_update split: if_splits)
next
  fix a b x y assume *: "ent (t[i := r]) a x" "ent (t[i := r]) b y" "key x = key y"
  have "\<And>a b x y. ent t a x \<Longrightarrow> ent t b y \<Longrightarrow> key x = key y \<Longrightarrow> a = b"
    using assms(1) by (auto simp: table_ok_def)
  with * show "a = b"
    using assms(3,7) assms(6) [of a x] assms(6) [of b y] by (auto simp: ent_update split: if_splits)
qed simp

lemma rehash_ok:
  assumes "size_ok ns" "length n = ns" "table_ok key hash n"
    "\<And>r e. r \<in> set rs \<Longrightarrow> s_p r = Ent e \<Longrightarrow> s_hv r = hash (key e)"
    "distinct (map key (elist rs))"
    "\<And>i x y. ent n i x \<Longrightarrow> y \<in> set (elist rs) \<Longrightarrow> key x \<noteq> key y"
    "used n + length (elist rs) \<le> ns"
  shows "\<exists>n'. rehash ns rs n = Some n' \<and> length n' = ns \<and> table_ok key hash n' \<and>
    used n' = used n + length (elist rs) \<and> dead n' = dead n \<and>
    (\<forall>e. (\<exists>i. ent n' i e) \<longleftrightarrow> (\<exists>i. ent n i e) \<or> e \<in> set (elist rs))"
  using assms(2-)
proof (induction rs arbitrary: n)
  case (Cons r rs)
  show ?case
  proof (cases "s_p r")
    case (Ent e)
    let ?r = "\<lparr>s_hv = s_hv r, s_p = Ent e\<rparr>"
    have hv: "s_hv r = hash (key e)" using Cons.prems(3) Ent by simp
    have "has_free n" using Cons.prems(1,6) Ent by (intro used_less_free) simp
    then obtain i where i: "place_free n ns (probe_incr (s_hv r) ns) (probe_start (s_hv r) ns) = Some i"
      "i < ns" "s_p (n ! i) = NULLP" "on_path (s_hv r) n i"
      using place_free_finds [of n "s_hv r"] assms(1) Cons.prems(1) by auto
    let ?n = "n[i := ?r]"
    have sz: "16 \<le> length n" using size_ok_bounds [OF assms(1)] Cons.prems(1) by simp
    have fresh: "key x \<noteq> key e" if "ent n j x" for j x using Cons.prems(5) [OF that] Ent by simp
    have ok: "table_ok key hash ?n"
      using i hv Cons.prems(1) fresh by (intro table_ok_insert [OF Cons.prems(2) sz]) auto
    have cnt: "used ?n = used n + 1" "dead ?n = dead n"
      using used_update [of i n ?r] dead_update [of i n ?r] i Cons.prems(1) by simp_all
    have ents: "(\<exists>j. ent ?n j x) \<longleftrightarrow> (\<exists>j. ent n j x) \<or> x = e" for x
      using i Cons.prems(1) by (intro ents_insert) auto
    have "\<exists>n'. rehash ns rs ?n = Some n' \<and> length n' = ns \<and> table_ok key hash n' \<and>
      used n' = used ?n + length (elist rs) \<and> dead n' = dead ?n \<and>
      (\<forall>x. (\<exists>i. ent n' i x) \<longleftrightarrow> (\<exists>i. ent ?n i x) \<or> x \<in> set (elist rs))"
    proof (rule Cons.IH)
      fix j x y assume "ent ?n j x" "y \<in> set (elist rs)"
      then show "key x \<noteq> key y"
        using Cons.prems(4,5) Ent ents [of x] by auto
    qed (use Cons.prems Ent ok cnt in auto)
    then show ?thesis using Ent i(1) cnt ents by auto
  qed (use Cons in auto)
qed simp

section \<open>Looking up\<close>

definition stops :: "('e \<Rightarrow> bool) \<Rightarrow> u32 \<Rightarrow> 'e slot \<Rightarrow> bool" where
  "stops eq hv r \<longleftrightarrow> (case s_p r of NULLP \<Rightarrow> True | DELETED \<Rightarrow> False | Ent e \<Rightarrow> s_hv r = hv \<and> eq e)"

text \<open>The first deleted slot among the first \<open>k\<close> probes.\<close>

fun first_dead :: "u32 \<Rightarrow> 'e slot list \<Rightarrow> nat \<Rightarrow> nat" where
  "first_dead hv t 0 = length t"
| "first_dead hv t (Suc k) =
     (if s_p (t ! probe hv (length t) k) = DELETED \<and> first_dead hv t k = length t
      then probe hv (length t) k else first_dead hv t k)"

lemma first_dead:
  assumes "16 \<le> length t"
  shows "first_dead hv t k = length t \<or>
    (\<exists>j<k. first_dead hv t k = probe hv (length t) j \<and> s_p (t ! probe hv (length t) j) = DELETED)"
  by (induction k) (auto simp: less_Suc_eq)

lemma lookup_loop_run:
  assumes "size_ok (length t)" "\<forall>j<k. \<not> stops eq hv (t ! probe hv (length t) j)"
  shows "lookup_loop eq hv (probe_incr hv (length t)) (length t) t (probe_start hv (length t)) (length t) =
    lookup_loop eq hv (probe_incr hv (length t)) (length t) t (probe hv (length t) k) (first_dead hv t k)"
  using assms(2)
proof (induction k)
  case 0
  then show ?case using size_ok_bounds [OF assms(1)] by (simp add: probe_0)
next
  case (Suc k)
  have "\<not> stops eq hv (t ! probe hv (length t) k)" using Suc.prems by simp
  then show ?case
    using Suc probe_next_probe [OF assms(1), of hv k]
      lookup_loop.simps [of eq hv "probe_incr hv (length t)" "length t" t "probe hv (length t) k"
        "first_dead hv t k"]
    by (auto simp: stops_def split: slot_ptr.splits if_splits)
qed

text \<open>
  What a lookup returns and leaves behind.
\<close>

definition lookup_result ::
    "('e \<Rightarrow> u8 list) \<Rightarrow> (u8 list \<Rightarrow> u32) \<Rightarrow> 'e slot list \<Rightarrow> u8 list \<Rightarrow> nat \<Rightarrow> 'e slot list \<Rightarrow> bool" where
  "lookup_result key hash t s i t' \<longleftrightarrow>
     i < length t \<and> length t' = length t \<and> table_ok key hash t' \<and> used t' = used t \<and> dead t' = dead t \<and>
     (\<forall>e. (\<exists>j. ent t' j e) \<longleftrightarrow> (\<exists>j. ent t j e)) \<and>
     ((\<exists>e. s_p (t' ! i) = Ent e \<and> key e = s) \<or>
      (\<forall>e. s_p (t' ! i) \<noteq> Ent e) \<and> (\<forall>j e. ent t' j e \<longrightarrow> key e \<noteq> s) \<and>
      s_hv (t' ! i) = hash s \<and> on_path (hash s) t' i)"

lemma lookup_free:
  assumes "size_ok (length t)" "table_ok key hash t"
    "s_p (t ! probe (hash s) (length t) k) = NULLP" "i = probe (hash s) (length t) j"
    "\<forall>j<k. \<not> stops (\<lambda>e. key e = s) (hash s) (t ! probe (hash s) (length t) j)" "j \<le> k"
    "\<And>e. s_p (t ! i) \<noteq> Ent e"
  shows "lookup_result key hash t s i (t[i := (t ! i)\<lparr>s_hv := hash s\<rparr>])"
proof -
  let ?p = "probe (hash s) (length t)" and ?r = "(t ! i)\<lparr>s_hv := hash s\<rparr>"
  let ?t = "t[i := ?r]"
  have sz: "16 \<le> length t" using size_ok_bounds [OF assms(1)] by simp
  have i: "i < length t" using assms(4) probe_less [OF sz] by auto
  have ptr: "s_p (?t ! a) = s_p (t ! a)" if "a < length t" for a
    using that by (cases "a = i") simp_all
  have ent_eq: "ent ?t a e \<longleftrightarrow> ent t a e" for a e using ptr by (auto simp: ent_def)
  have path: "\<forall>a<k. s_p (t ! ?p a) \<noteq> NULLP" using assms(5) by (auto simp: stops_def)
  have "table_ok key hash ?t"
  proof (rule table_ok_mono [OF assms(2) _ sz])
    fix a e assume "ent ?t a e"
    then have "ent t a e" "a \<noteq> i" using assms(7) by (auto simp: ent_eq) (auto simp: ent_def)
    then show "ent t a e \<and> s_hv (?t ! a) = s_hv (t ! a) \<or>
        s_hv (?t ! a) = hash (key e) \<and> on_path (hash (key e)) t a"
      by simp
  next
    show "\<And>a b e e'. ent ?t a e \<Longrightarrow> ent ?t b e' \<Longrightarrow> key e = key e' \<Longrightarrow> a = b"
      using assms(2) by (simp add: ent_eq table_ok_def)
  qed (use ptr in auto)
  moreover have "key e \<noteq> s" if e: "ent t a e" for a e
  proof
    assume key: "key e = s"
    then obtain b where b: "?p b = a" "\<forall>c<b. s_p (t ! ?p c) \<noteq> NULLP" "s_hv (t ! a) = hash s"
      using assms(2) e by (auto simp: table_ok_def on_path_def)
    have "b \<noteq> k" using assms(3) b(1) e by (auto simp: ent_def)
    moreover have "\<not> k < b" using b(2) assms(3) by auto
    ultimately have "b < k" by simp
    then show False using assms(5) b(1,3) e key by (auto simp: stops_def ent_def)
  qed
  moreover have "on_path (hash s) ?t i"
  proof -
    have "on_path (hash s) t i"
      unfolding on_path_def using path assms(4,6) by (intro exI [of _ j]) simp
    then show ?thesis by (rule on_path_mono) (simp_all add: ptr sz)
  qed
  ultimately show ?thesis
    using i used_update [OF i, of ?r] dead_update [OF i, of ?r] assms(7)
    by (simp add: lookup_result_def ent_eq)
qed

lemma lookup_moved:
  assumes "size_ok (length t)" "table_ok key hash t"
    "ent t i e" "key e = s" "emp < length t" "s_p (t ! emp) = DELETED" "on_path (hash s) t emp"
  shows "lookup_result key hash t s emp
    (t[emp := \<lparr>s_hv = hash s, s_p = Ent e\<rparr>, i := (t ! i)\<lparr>s_p := DELETED\<rparr>])"
proof -
  let ?r = "\<lparr>s_hv = hash s, s_p = Ent e\<rparr>" and ?d = "(t ! i)\<lparr>s_p := DELETED\<rparr>"
  let ?t = "t[emp := ?r, i := ?d]"
  have sz: "16 \<le> length t" using size_ok_bounds [OF assms(1)] by simp
  have i: "i < length t" "i \<noteq> emp" "s_p (t ! i) = Ent e" using assms(3,6) by (auto simp: ent_def)
  have ent_t: "ent ?t a x \<longleftrightarrow> a = emp \<and> x = e \<or> a \<noteq> emp \<and> a \<noteq> i \<and> ent t a x" for a x
    using assms(5) i by (auto simp: ent_update)
  have uniq: "\<And>a b x y. ent t a x \<Longrightarrow> ent t b y \<Longrightarrow> key x = key y \<Longrightarrow> a = b"
    using assms(2) by (auto simp: table_ok_def)
  have "table_ok key hash ?t"
  proof (rule table_ok_mono [OF assms(2) _ sz])
    show "\<And>a x. ent ?t a x \<Longrightarrow> ent t a x \<and> s_hv (?t ! a) = s_hv (t ! a) \<or>
        s_hv (?t ! a) = hash (key x) \<and> on_path (hash (key x)) t a"
      using assms(4,5,7) i by (auto simp: ent_t nth_list_update)
    show "\<And>a b x y. ent ?t a x \<Longrightarrow> ent ?t b y \<Longrightarrow> key x = key y \<Longrightarrow> a = b"
      using uniq assms(3) by (auto simp: ent_t)
  qed (use assms(5) i in \<open>auto simp: nth_list_update\<close>)
  moreover have "used ?t = used t" "dead ?t = dead t"
    using used_update [of emp t ?r] used_update [of i "t[emp := ?r]" ?d]
      dead_update [of emp t ?r] dead_update [of i "t[emp := ?r]" ?d] assms(5,6) i by simp_all
  moreover have "(\<exists>j. ent ?t j x) \<longleftrightarrow> (\<exists>j. ent t j x)" for x
  proof
    assume "\<exists>j. ent t j x"
    then obtain j where j: "ent t j x" by blast
    show "\<exists>j. ent ?t j x"
    proof (cases "j = i")
      case True
      then have "x = e" using j i(3) by (simp add: ent_def)
      then have "ent ?t emp x" by (simp add: ent_t)
      then show ?thesis by blast
    next
      case False
      then have "j \<noteq> emp" using j assms(6) by (auto simp: ent_def)
      with False j show ?thesis by (auto simp: ent_t)
    qed
  qed (use assms(3) in \<open>auto simp: ent_t\<close>)
  ultimately show ?thesis
    using assms(4,5) i by (simp add: lookup_result_def)
qed

lemma lookup_loop_result:
  assumes "size_ok (length t)" "table_ok key hash t" "has_free t"
  shows "\<exists>i t'. lookup_loop (\<lambda>e. key e = s) (hash s) (probe_incr (hash s) (length t)) (length t) t
      (probe_start (hash s) (length t)) (length t) = Some (i, t') \<and> lookup_result key hash t s i t'"
proof -
  let ?p = "probe (hash s) (length t)" and ?st = "stops (\<lambda>e. key e = s) (hash s)"
  have sz: "16 \<le> length t" using size_ok_bounds [OF assms(1)] by simp
  obtain k0 where "s_p (t ! ?p k0) = NULLP" using path_to_free [OF assms(1,3), of "hash s"] by blast
  then have "?st (t ! ?p k0)" by (simp add: stops_def)
  then have "\<exists>k. ?st (t ! ?p k)" by blast
  then obtain k where k: "?st (t ! ?p k)" "\<forall>j<k. \<not> ?st (t ! ?p j)"
    using exists_least_iff [of "\<lambda>k. ?st (t ! ?p k)"] by auto
  define emp where "emp = first_dead (hash s) t k"
  note run = lookup_loop_run [OF assms(1) k(2), folded emp_def]
  have emp: "emp = length t \<or> (\<exists>j<k. emp = ?p j \<and> s_p (t ! ?p j) = DELETED)"
    unfolding emp_def by (rule first_dead [OF sz])
  have "\<forall>a<k. s_p (t ! ?p a) \<noteq> NULLP" using k(2) by (auto simp: stops_def)
  then have path: "on_path (hash s) t (?p j)" if "j \<le> k" for j
    unfolding on_path_def using that by (intro exI [of _ j]) simp
  consider "s_p (t ! ?p k) = NULLP" | e where "s_p (t ! ?p k) = Ent e" "s_hv (t ! ?p k) = hash s" "key e = s"
    using k(1) by (auto simp: stops_def split: slot_ptr.splits)
  then show ?thesis
  proof cases
    case 1
    define i where "i = (if emp \<noteq> length t then emp else ?p k)"
    have "\<exists>j. i = ?p j \<and> j \<le> k"
    proof (cases "emp = length t")
      case False
      then show ?thesis using emp by (auto simp: i_def intro: less_imp_le)
    qed (auto simp: i_def)
    then obtain j where j: "i = ?p j" "j \<le> k" by blast
    have "s_p (t ! i) \<noteq> Ent e" for e using emp 1 by (auto simp: i_def)
    from lookup_free [OF assms(1,2) 1 j(1) k(2) j(2) this]
    show ?thesis
      unfolding run by (subst lookup_loop.simps) (simp add: 1 i_def Let_def)
  next
    case (2 e)
    then have e: "ent t (?p k) e" using probe_less [OF sz] by (simp add: ent_def)
    show ?thesis
    proof (cases "emp = length t")
      case True
      have "lookup_result key hash t s (?p k) t"
        using 2 assms(2) probe_less [OF sz] by (auto simp: lookup_result_def)
      then show ?thesis
        unfolding run by (subst lookup_loop.simps) (simp add: 2 True)
    next
      case False
      then obtain j where j: "j < k" "emp = ?p j" "s_p (t ! emp) = DELETED" using emp by auto
      then have "emp < length t" "on_path (hash s) t emp" using probe_less [OF sz] path by auto
      from lookup_moved [OF assms(1,2) e 2(3) this(1) j(3) this(2)]
      show ?thesis
        unfolding run by (subst lookup_loop.simps) (simp add: 2 False)
    qed
  qed
qed

section \<open>The table as a map\<close>

definition counts_ok :: "('e \<Rightarrow> u8 list) \<Rightarrow> (u8 list \<Rightarrow> u32) \<Rightarrow> 'e ohash \<Rightarrow> bool" where
  "counts_ok key hash h \<longleftrightarrow>
     size_ok (oh_size h) \<and> length (oh_t h) = oh_size h \<and> table_ok key hash (oh_t h) \<and>
     oh_total h = used (oh_t h) \<and> oh_deleted h = dead (oh_t h)"

definition ohash_ok :: "('e \<Rightarrow> u8 list) \<Rightarrow> 'e ohash \<Rightarrow> bool" where
  "ohash_ok key h \<longleftrightarrow> counts_ok key ohash_interval h \<and> oh_total h * 4 \<le> oh_size h * 3"

definition abs_ohash :: "('e \<Rightarrow> u8 list) \<Rightarrow> 'e ohash \<Rightarrow> u8 list \<rightharpoonup> 'e" where
  "abs_ohash key h = abs_table key (oh_t h)"

lemma ohash_ok_free: "ohash_ok key h \<Longrightarrow> has_free (oh_t h)"
  using size_ok_bounds [of "oh_size h"]
  by (intro used_less_free) (auto simp: ohash_ok_def counts_ok_def)

lemma interval_eq: "(take (length s) k = s \<and> length k = length s) = (k = s)"
  by auto

lemma qlookup_result:
  assumes "ohash_ok key h"
  shows "\<exists>i t'. ohash_qlookup key h s = Some (i, h\<lparr>oh_t := t'\<rparr>) \<and>
    lookup_result key ohash_interval (oh_t h) s i t'"
proof -
  have h: "size_ok (length (oh_t h))" "table_ok key ohash_interval (oh_t h)" "oh_size h = length (oh_t h)"
    using assms by (auto simp: ohash_ok_def counts_ok_def)
  from lookup_loop_result [OF h(1,2) ohash_ok_free [OF assms], of s] h(3) show ?thesis
    by (auto simp: ohash_qlookup_def ohash_lookup_interval_def lookup_with_def interval_eq)
qed

lemma lookup_result_find:
  assumes "lookup_result key hash t s i t'"
  shows "(case s_p (t' ! i) of Ent e \<Rightarrow> Some e | _ \<Rightarrow> None) = abs_table key t' s"
proof -
  have ok: "table_ok key hash t'" and i: "i < length t'" using assms by (auto simp: lookup_result_def)
  note abs = abs_table_Some [OF ok, of s]
  from assms consider e where "s_p (t' ! i) = Ent e" "key e = s"
    | "\<forall>e. s_p (t' ! i) \<noteq> Ent e" "\<forall>j e. ent t' j e \<longrightarrow> key e \<noteq> s"
    by (auto simp: lookup_result_def)
  then show ?thesis
  proof cases
    case (1 e)
    then have "abs_table key t' s = Some e" using abs i by (auto simp: ent_def)
    with 1 show ?thesis by simp
  next
    case 2
    then have "abs_table key t' s = None" using abs by (metis not_Some_eq)
    with 2 show ?thesis by (auto split: slot_ptr.splits)
  qed
qed

lemma qlookup_ok:
  assumes "ohash_ok key h"
  shows "\<exists>i h'. ohash_qlookup key h s = Some (i, h') \<and> ohash_ok key h' \<and> oh_size h' = oh_size h \<and>
    abs_ohash key h' = abs_ohash key h \<and> ohash_find h' i = abs_ohash key h s \<and>
    lookup_result key ohash_interval (oh_t h') s i (oh_t h')"
proof -
  obtain i t' where l: "ohash_qlookup key h s = Some (i, h\<lparr>oh_t := t'\<rparr>)"
    and r: "lookup_result key ohash_interval (oh_t h) s i t'"
    using qlookup_result [OF assms] by blast
  let ?h = "h\<lparr>oh_t := t'\<rparr>"
  have t: "length t' = length (oh_t h)" "table_ok key ohash_interval t'" "used t' = used (oh_t h)"
    "dead t' = dead (oh_t h)" "\<And>e. (\<exists>j. ent t' j e) \<longleftrightarrow> (\<exists>j. ent (oh_t h) j e)"
    using r by (auto simp: lookup_result_def)
  have ok: "ohash_ok key ?h" using assms t by (simp add: ohash_ok_def counts_ok_def)
  have abs: "abs_ohash key ?h = abs_ohash key h"
    using assms t abs_table_eqI [of key ohash_interval t' "oh_t h"]
    by (simp add: abs_ohash_def ohash_ok_def counts_ok_def)
  moreover have "ohash_find ?h i = abs_ohash key ?h s"
    using lookup_result_find [OF r] by (simp add: ohash_find_def abs_ohash_def)
  moreover have "lookup_result key ohash_interval t' s i t'"
    using r t by (simp add: lookup_result_def)
  ultimately show ?thesis using l ok by auto
qed

lemma new_size_ok:
  assumes "size_ok (oh_size h)" "oh_total h * 4 \<le> oh_size h * 3 + 4" "oh_deleted h \<le> oh_total h"
    "oh_size h \<le> 2 ^ 29"
  shows "size_ok (new_size h)" "(oh_total h - oh_deleted h) * 4 \<le> new_size h * 3"
    "new_size h \<le> 2 * oh_size h"
proof -
  obtain m where m: "4 \<le> m" "oh_size h = 2 ^ m" using assms(1) by (auto simp: size_ok_def)
  have "(2 :: nat) ^ m \<le> 2 ^ 29" using assms(4) unfolding m(2) .
  then have m29: "m \<le> 29" by (rule power_le_imp_le_exp [rotated]) simp
  have sz: "16 \<le> oh_size h" using size_ok_bounds [OF assms(1)] by simp
  have wrap: "u32_of (4 * oh_deleted h) = 4 * oh_deleted h" "u32_of (3 * oh_deleted h) = 3 * oh_deleted h"
    "u32_of (2 * oh_total h) = 2 * oh_total h"
    using assms(2-4) by (auto simp: u32_of_def)
  have grow: "\<not> oh_size h \<ge> UINT_MAX div 2" using assms(4) by (simp add: UINT_MAX_def)
  have half: "oh_size h div 2 = 2 ^ (m - 1)" using m by (simp add: power_diff)
  have ns: "new_size h =
      (if 4 * oh_deleted h < oh_total h then oh_size h * 2
       else if 3 * oh_deleted h > 2 * oh_total h then (if m = 4 then 16 else oh_size h div 2)
       else oh_size h)"
  proof -
    have "oh_size h div 2 < 16 \<longleftrightarrow> m = 4"
    proof
      assume "oh_size h div 2 < 16"
      then have "(2 :: nat) ^ (m - 1) < 2 ^ 4" by (simp add: half)
      then have "m - 1 < 4" by (rule power_less_imp_less_exp [rotated]) simp
      then show "m = 4" using m(1) by simp
    qed (simp add: m(2))
    then show ?thesis using wrap grow sz by (auto simp: new_size_def Let_def MINSIZE_def)
  qed
  show "size_ok (new_size h)"
    unfolding ns size_ok_def
    using m m29 half by (auto intro: exI [of _ "Suc m"] exI [of _ 4] exI [of _ "m - 1"])
  have h16: "m \<noteq> 4 \<Longrightarrow> oh_size h div 2 * 2 = oh_size h" "m = 4 \<Longrightarrow> oh_size h = 16"
    using m by (auto simp: half simp flip: power_Suc2)
  show "(oh_total h - oh_deleted h) * 4 \<le> new_size h * 3"
    unfolding ns using assms(2,3) sz h16 by auto
  show "new_size h \<le> 2 * oh_size h"
    unfolding ns using sz by auto
qed

lemma resize_ok:
  assumes "counts_ok key hash h" "oh_total h * 4 \<le> oh_size h * 3 + 4" "oh_size h \<le> 2 ^ 29"
  shows "\<exists>h'. ohash_resize True h = Some h' \<and> counts_ok key hash h' \<and> oh_total h' * 4 \<le> oh_size h' * 3 \<and>
    abs_ohash key h' = abs_ohash key h \<and> oh_size h' \<le> 2 * oh_size h"
proof -
  let ?ns = "new_size h" and ?t = "oh_t h"
  have h: "size_ok (oh_size h)" "length ?t = oh_size h" "table_ok key hash ?t" "oh_total h = used ?t"
    "oh_deleted h = dead ?t"
    using assms(1) by (auto simp: counts_ok_def)
  have "oh_deleted h \<le> oh_total h" using h(4,5) dead_le_used by simp
  note ns = new_size_ok [OF h(1) assms(2) this assms(3)]
  have live: "length (elist ?t) = oh_total h - oh_deleted h" using used_split [of ?t] h(4,5) by simp
  let ?n = "replicate ?ns free_slot :: 'a slot list"
  have n: "\<not> ent ?n i e" "used ?n = 0" "dead ?n = 0" for i e
    by (auto simp: ent_def free_slot_def used_def dead_def)
  have "\<exists>n'. rehash ?ns ?t ?n = Some n' \<and> length n' = ?ns \<and> table_ok key hash n' \<and>
    used n' = used ?n + length (elist ?t) \<and> dead n' = dead ?n \<and>
    (\<forall>e. (\<exists>i. ent n' i e) \<longleftrightarrow> (\<exists>i. ent ?n i e) \<or> e \<in> set (elist ?t))"
  proof (rule rehash_ok [OF ns(1)])
    show "table_ok key hash ?n" using n(1) by (simp add: table_ok_def)
    fix r e assume "r \<in> set ?t" "s_p r = Ent e"
    then show "s_hv r = hash (key e)"
      using h(3) by (auto simp: table_ok_def ent_def in_set_conv_nth)
  next
    show "distinct (map key (elist ?t))"
      using h(3) by (intro distinct_elist) (auto simp: table_ok_def)
    show "used ?n + length (elist ?t) \<le> ?ns" using ns(2) live n(2) by simp
  qed (use n in auto)
  then obtain n' where n': "rehash ?ns ?t ?n = Some n'" "length n' = ?ns" "table_ok key hash n'"
    "used n' = length (elist ?t)" "dead n' = 0" "\<And>e. (\<exists>i. ent n' i e) \<longleftrightarrow> (\<exists>i. ent ?t i e)"
    using n by (auto simp: set_elist)
  have "abs_table key n' = abs_table key ?t"
    using abs_table_eqI [OF n'(3) h(3) n'(6)] .
  moreover have "sub32 (oh_total h) (oh_deleted h) = oh_total h - oh_deleted h"
    using h size_ok_bounds [OF h(1)] dead_le_used [of ?t] used_le_length [of ?t] by simp
  ultimately show ?thesis
    using n' h ns live by (simp add: ohash_resize_def Let_def counts_ok_def abs_ohash_def)
qed

section \<open>Inserting and removing\<close>

lemma opt_eqI: "(\<And>y. x = Some y \<longleftrightarrow> x' = Some y) \<Longrightarrow> x = x'"
  by (cases x; cases x') auto

lemma insert_ok:
  assumes "ohash_ok key h" "lookup_result key ohash_interval (oh_t h) s i (oh_t h)"
    "ohash_find h i = None" "key p = s" "oh_size h \<le> 2 ^ 29"
  shows "\<exists>h'. ohash_insert True h i p = Some h' \<and> ohash_ok key h' \<and>
    abs_ohash key h' = (abs_ohash key h)(s \<mapsto> p) \<and> oh_size h' \<le> 2 * oh_size h"
proof -
  let ?t = "oh_t h" and ?r = "(oh_t h ! i)\<lparr>s_p := Ent p\<rparr>"
  let ?t' = "?t[i := ?r]"
  have h: "size_ok (oh_size h)" "length ?t = oh_size h" "table_ok key ohash_interval ?t"
    "oh_total h = used ?t" "oh_deleted h = dead ?t" "oh_total h * 4 \<le> oh_size h * 3"
    using assms(1) by (auto simp: ohash_ok_def counts_ok_def)
  have i: "i < length ?t" "\<And>e. s_p (?t ! i) \<noteq> Ent e" "\<And>j e. ent ?t j e \<Longrightarrow> key e \<noteq> key p"
    "s_hv (?t ! i) = ohash_interval (key p)" "on_path (ohash_interval (key p)) ?t i"
    using assms(2-4) by (auto simp: lookup_result_def ohash_find_def)
  have sz: "16 \<le> length ?t" "length ?t \<le> 2 ^ 29" using size_ok_bounds [OF h(1)] h(2) assms(5) by auto
  have ok: "table_ok key ohash_interval ?t'"
    using i by (intro table_ok_insert [OF h(3) sz(1)]) auto
  have "(\<exists>j. ent ?t' j x) \<longleftrightarrow> (\<exists>j. ent ?t j x) \<or> x = p" for x
    using i(1,2) by (intro ents_insert) auto
  then have abs: "abs_table key ?t' = (abs_table key ?t)(s \<mapsto> p)"
    using abs_table_Some [OF ok] abs_table_Some [OF h(3)] i(3) assms(4)
    by (intro ext opt_eqI) auto
  have cnt: "used ?t' = used ?t + (if s_p (?t ! i) = DELETED then 0 else 1)"
    "dead ?t' = dead ?t - (if s_p (?t ! i) = DELETED then 1 else 0)"
    using used_update [OF i(1), of ?r] dead_update [OF i(1), of ?r] i(2)
    by (cases "s_p (?t ! i)"; simp)+
  show ?thesis
  proof (cases "s_p (?t ! i) = DELETED")
    case True
    have "0 < dead ?t" using True i(1) by (auto simp: dead_def filter_empty_conv)
    then have "sub32 (oh_deleted h) 1 = oh_deleted h - 1"
      using h sz dead_le_used [of ?t] used_le_length [of ?t] by simp
    with True show ?thesis
      using h ok abs cnt by (simp add: ohash_insert_def Let_def ohash_ok_def counts_ok_def abs_ohash_def)
  next
    case False
    let ?h = "h\<lparr>oh_t := ?t', oh_total := used ?t'\<rparr>"
    have c: "counts_ok key ohash_interval ?h" using h ok cnt False by (simp add: counts_ok_def)
    have wrap: "u32_of (oh_total h + 1) = used ?t'" "u32_of (used ?t' * 4) = used ?t' * 4"
      "u32_of (oh_size h * 3) = oh_size h * 3"
      using h cnt False sz by (simp_all add: u32_of_def)
    have step: "ohash_insert True h i p =
        (if used ?t' * 4 > oh_size h * 3 then ohash_resize True ?h else Some ?h)"
      using False wrap by (simp add: ohash_insert_def Let_def)
    obtain h' where h': "ohash_resize True ?h = Some h'" "counts_ok key ohash_interval h'"
      "oh_total h' * 4 \<le> oh_size h' * 3" "abs_ohash key h' = abs_ohash key ?h" "oh_size h' \<le> 2 * oh_size h"
      using resize_ok [OF c] h cnt False assms(5) by auto
    then show ?thesis
      using c abs step by (cases "used ?t' * 4 > oh_size h * 3") (simp_all add: ohash_ok_def abs_ohash_def)
  qed
qed

lemma remove_ok:
  assumes "ohash_ok key h" "lookup_result key ohash_interval (oh_t h) s i (oh_t h)" "oh_size h \<le> 2 ^ 29"
  shows "\<exists>h'. ohash_remove True h i = Some (abs_ohash key h s, h') \<and> ohash_ok key h' \<and>
    abs_ohash key h' = (abs_ohash key h)(s := None) \<and> oh_size h' \<le> 2 * oh_size h"
proof -
  let ?t = "oh_t h" and ?r = "(oh_t h ! i)\<lparr>s_p := DELETED\<rparr>"
  let ?t' = "?t[i := ?r]"
  have h: "size_ok (oh_size h)" "length ?t = oh_size h" "table_ok key ohash_interval ?t"
    "oh_total h = used ?t" "oh_deleted h = dead ?t" "oh_total h * 4 \<le> oh_size h * 3"
    using assms(1) by (auto simp: ohash_ok_def counts_ok_def)
  have sz: "16 \<le> length ?t" "length ?t \<le> 2 ^ 29" using size_ok_bounds [OF h(1)] h(2) assms(3) by auto
  have i: "i < length ?t" using assms(2) by (simp add: lookup_result_def)
  note find = lookup_result_find [OF assms(2)]
  show ?thesis
  proof (cases "s_p (?t ! i)")
    case (Ent e)
    then have e: "ent ?t i e" "abs_table key ?t s = Some e" using i find by (auto simp: ent_def)
    then have key: "key e = s" using abs_table_Some [OF h(3)] by blast
    have uniq: "a = b" if "ent ?t a x" "ent ?t b y" "key x = key y" for a b x y
      using that h(3) by (auto simp: table_ok_def)
    have ent': "ent ?t' j x \<longleftrightarrow> j \<noteq> i \<and> ent ?t j x" for j x using i by (simp add: ent_update)
    have ok: "table_ok key ohash_interval ?t'"
    proof (rule table_ok_mono [OF h(3) _ sz(1)])
      show "\<And>a b x y. ent ?t' a x \<Longrightarrow> ent ?t' b y \<Longrightarrow> key x = key y \<Longrightarrow> a = b"
        using uniq unfolding ent' by blast
    qed (use i in \<open>auto simp: ent' nth_list_update\<close>)
    have "(\<exists>j. ent ?t' j x) \<longleftrightarrow> (\<exists>j. ent ?t j x) \<and> key x \<noteq> s" for x
    proof
      assume "\<exists>j. ent ?t' j x"
      then obtain j where j: "j \<noteq> i" "ent ?t j x" by (auto simp: ent')
      then have "key x \<noteq> s" using uniq [OF e(1), of j x] key by auto
      with j show "(\<exists>j. ent ?t j x) \<and> key x \<noteq> s" by blast
    next
      assume *: "(\<exists>j. ent ?t j x) \<and> key x \<noteq> s"
      then obtain j where j: "ent ?t j x" by blast
      moreover have "j \<noteq> i" using j * Ent key by (auto simp: ent_def)
      ultimately have "ent ?t' j x" by (simp add: ent')
      then show "\<exists>j. ent ?t' j x" by blast
    qed
    then have abs: "abs_table key ?t' = (abs_table key ?t)(s := None)"
      using abs_table_Some [OF ok] abs_table_Some [OF h(3)]
      by (intro ext opt_eqI) auto
    have cnt: "used ?t' = used ?t" "dead ?t' = dead ?t + 1"
      using used_update [OF i, of ?r] dead_update [OF i, of ?r] Ent by simp_all
    let ?h = "h\<lparr>oh_t := ?t', oh_deleted := dead ?t'\<rparr>"
    have c: "counts_ok key ohash_interval ?h" using h ok cnt by (simp add: counts_ok_def)
    have "dead ?t + 1 \<le> used ?t" using cnt dead_le_used [of ?t'] by simp
    then have wrap: "u32_of (oh_deleted h + 1) = dead ?t'"
      using h cnt sz by (simp add: u32_of_def)
    obtain h' where h': "ohash_resize True ?h = Some h'" "counts_ok key ohash_interval h'"
      "oh_total h' * 4 \<le> oh_size h' * 3" "abs_ohash key h' = abs_ohash key ?h" "oh_size h' \<le> 2 * oh_size h"
      using resize_ok [OF c] h assms(3) by auto
    have "ohash_ok key ?h" using c h by (simp add: ohash_ok_def)
    then show ?thesis
      using Ent wrap h' abs e(2)
      by (simp add: ohash_remove_def Let_def ohash_ok_def abs_ohash_def)
  next
    case NULLP
    then have "abs_table key ?t s = None" using find by simp
    then show ?thesis
      using NULLP assms(1) by (simp add: ohash_remove_def abs_ohash_def fun_upd_idem)
  next
    case DELETED
    then have "abs_table key ?t s = None" using find by simp
    then show ?thesis
      using DELETED assms(1) by (simp add: ohash_remove_def abs_ohash_def fun_upd_idem)
  qed
qed

lemma init_ok: "ohash_ok key (ohash_init sz)" "abs_ohash key (ohash_init sz) = Map.empty" if "sz \<le> 30"
proof -
  let ?n = "(if (2 :: nat) ^ sz < 16 then 16 else 2 ^ sz) :: nat"
  let ?t = "replicate ?n free_slot :: 'a slot list"
  have pow: "(2 :: nat) ^ sz \<le> 2 ^ 30" using that by (intro power_increasing) auto
  then have init: "ohash_init sz = \<lparr>oh_t = ?t, oh_size = ?n, oh_total = 0, oh_deleted = 0\<rparr>"
    by (simp add: ohash_init_def u32_of_def MINSIZE_def Let_def)
  have "size_ok ?n"
  proof (cases "sz < 4")
    case True
    then have "(2 :: nat) ^ sz < 2 ^ 4" by (intro power_strict_increasing) auto
    then have "?n = 2 ^ 4" by simp
    then show ?thesis unfolding size_ok_def by (intro exI [of _ 4]) simp
  next
    case False
    then have "(2 :: nat) ^ 4 \<le> 2 ^ sz" by (intro power_increasing) auto
    then have "?n = 2 ^ sz" by simp
    then show ?thesis unfolding size_ok_def using False that by (intro exI [of _ sz]) simp
  qed
  moreover have "\<not> ent ?t i e" "used ?t = 0" "dead ?t = 0" for i e
    by (auto simp: ent_def free_slot_def used_def dead_def)
  ultimately show "ohash_ok key (ohash_init sz)"
    unfolding init by (simp add: ohash_ok_def counts_ok_def table_ok_def)
  have "elist (replicate n (free_slot :: 'a slot)) = []" for n by (induction n) (simp_all add: free_slot_def)
  then show "abs_ohash key (ohash_init sz) = Map.empty"
    unfolding init by (simp add: abs_ohash_def abs_table_def)
qed

section \<open>The interface to clients\<close>

text \<open>
  What a client of the table relies on: an index from a lookup finds the entry of the name, a free
  one takes an entry of that name, and both loops come back.
\<close>

locale name_table =
  fixes inv :: "'h \<Rightarrow> bool" and abs :: "'h \<Rightarrow> 'k \<rightharpoonup> 'e" and room :: "'h \<Rightarrow> bool"
    and lookup :: "'h \<Rightarrow> 'k \<Rightarrow> (nat \<times> 'h) option" and find :: "'h \<Rightarrow> nat \<Rightarrow> 'e option"
    and insert :: "'h \<Rightarrow> nat \<Rightarrow> 'e \<Rightarrow> 'h option" and remove :: "'h \<Rightarrow> nat \<Rightarrow> ('e option \<times> 'h) option"
    and key :: "'e \<Rightarrow> 'k"
  assumes lookup_law: "inv h \<Longrightarrow> \<exists>i h'. lookup h k = Some (i, h') \<and> inv h' \<and> abs h' = abs h \<and>
      room h' = room h \<and> find h' i = abs h k"
    and insert_law: "inv h \<Longrightarrow> room h \<Longrightarrow> lookup h (key e) = Some (i, h') \<Longrightarrow> abs h (key e) = None \<Longrightarrow>
      \<exists>h''. insert h' i e = Some h'' \<and> inv h'' \<and> abs h'' = (abs h)(key e \<mapsto> e)"
    and remove_law: "inv h \<Longrightarrow> room h \<Longrightarrow> lookup h k = Some (i, h') \<Longrightarrow>
      \<exists>h''. remove h' i = Some (abs h k, h'') \<and> inv h'' \<and> abs h'' = (abs h)(k := None)"
begin

lemma put_get:
  assumes "inv h" "room h" "abs h (key e) = None"
  shows "\<exists>i h1 h2 j h3. lookup h (key e) = Some (i, h1) \<and> insert h1 i e = Some h2 \<and>
    lookup h2 k = Some (j, h3) \<and> find h3 j = (if k = key e then Some e else abs h k)"
proof -
  obtain i h1 where l: "lookup h (key e) = Some (i, h1)" using lookup_law [OF assms(1)] by blast
  obtain h2 where h2: "insert h1 i e = Some h2" "inv h2" "abs h2 = (abs h)(key e \<mapsto> e)"
    using insert_law [OF assms(1,2) l assms(3)] by blast
  obtain j h3 where "lookup h2 k = Some (j, h3)" "find h3 j = abs h2 k"
    using lookup_law [OF h2(2)] by blast
  with l h2 show ?thesis by (metis fun_upd_apply)
qed

lemma drop_get:
  assumes "inv h" "room h"
  shows "\<exists>i h1 h2 j h3. lookup h k' = Some (i, h1) \<and> remove h1 i = Some (abs h k', h2) \<and>
    lookup h2 k = Some (j, h3) \<and> find h3 j = (if k = k' then None else abs h k)"
proof -
  obtain i h1 where l: "lookup h k' = Some (i, h1)" using lookup_law [OF assms(1)] by blast
  obtain h2 where h2: "remove h1 i = Some (abs h k', h2)" "inv h2" "abs h2 = (abs h)(k' := None)"
    using remove_law [OF assms(1,2) l] by blast
  obtain j h3 where "lookup h2 k = Some (j, h3)" "find h3 j = abs h2 k"
    using lookup_law [OF h2(2)] by blast
  with l h2 show ?thesis by (metis fun_upd_apply)
qed

end

interpretation oh: name_table "ohash_ok key" "abs_ohash key" "\<lambda>h. oh_size h \<le> 2 ^ 29"
  "ohash_qlookup key" ohash_find "ohash_insert True" "ohash_remove True" key
  for key :: "'e \<Rightarrow> u8 list"
proof unfold_locales
  fix h :: "'e ohash" and k assume "ohash_ok key h"
  from qlookup_ok [OF this, of k] obtain i h' where "ohash_qlookup key h k = Some (i, h')"
    "ohash_ok key h'" "oh_size h' = oh_size h" "abs_ohash key h' = abs_ohash key h"
    "ohash_find h' i = abs_ohash key h k" by blast
  then show "\<exists>i h'. ohash_qlookup key h k = Some (i, h') \<and> ohash_ok key h' \<and> abs_ohash key h' = abs_ohash key h \<and>
      (oh_size h' \<le> 2 ^ 29) = (oh_size h \<le> 2 ^ 29) \<and> ohash_find h' i = abs_ohash key h k"
    by (intro exI [of _ i] exI [of _ h']) simp
next
  fix h h' :: "'e ohash" and e i
  assume h: "ohash_ok key h" "oh_size h \<le> 2 ^ 29" "ohash_qlookup key h (key e) = Some (i, h')"
    "abs_ohash key h (key e) = None"
  from qlookup_ok [OF h(1), of "key e"] h(3) have "ohash_ok key h'" "oh_size h' = oh_size h"
    "abs_ohash key h' = abs_ohash key h" "ohash_find h' i = abs_ohash key h (key e)"
    "lookup_result key ohash_interval (oh_t h') (key e) i (oh_t h')"
    by simp_all
  with insert_ok [of key h' "key e" i e] h(2,4)
  show "\<exists>h''. ohash_insert True h' i e = Some h'' \<and> ohash_ok key h'' \<and>
      abs_ohash key h'' = (abs_ohash key h)(key e \<mapsto> e)"
    by metis
next
  fix h h' :: "'e ohash" and k i
  assume h: "ohash_ok key h" "oh_size h \<le> 2 ^ 29" "ohash_qlookup key h k = Some (i, h')"
  from qlookup_ok [OF h(1), of k] h(3) have "ohash_ok key h'" "oh_size h' = oh_size h"
    "abs_ohash key h' = abs_ohash key h" "lookup_result key ohash_interval (oh_t h') k i (oh_t h')"
    by simp_all
  with remove_ok [of key h' k i] h(2)
  show "\<exists>h''. ohash_remove True h' i = Some (abs_ohash key h k, h'') \<and> ohash_ok key h'' \<and>
      abs_ohash key h'' = (abs_ohash key h)(k := None)"
    by metis
qed

section \<open>A full table\<close>

lemma lookup_loop_stops:
  assumes "lookup_loop eq hv incr sz t i emp = Some r"
  shows "i < sz \<longrightarrow> incr < sz \<longrightarrow> sz \<le> 2 ^ 30 \<longrightarrow> (\<exists>j. j < sz \<and> stops eq hv (t ! j))"
    (is "?P eq hv incr sz t i emp r")
proof (rule lookup_loop.raw_induct [where P = ?P, OF _ assms])
  fix loop eq hv incr sz t i emp r
  assume IH: "\<And>eq hv incr sz t i emp r. loop eq hv incr sz t i emp = Some r \<Longrightarrow> ?P eq hv incr sz t i emp r"
    and step: "(case s_p (t ! i) of
        NULLP \<Rightarrow> let i = (if emp \<noteq> sz then emp else i) in Some (i, t[i := (t ! i)\<lparr>s_hv := hv\<rparr>])
      | DELETED \<Rightarrow> loop eq hv incr sz t (probe_next sz incr i) (if emp = sz then i else emp)
      | Ent e \<Rightarrow>
          if s_hv (t ! i) = hv \<and> eq e then
            if emp \<noteq> sz
            then Some (emp, t[emp := \<lparr>s_hv = hv, s_p = Ent e\<rparr>, i := (t ! i)\<lparr>s_p := DELETED\<rparr>])
            else Some (i, t)
          else loop eq hv incr sz t (probe_next sz incr i) emp) = Some r"
  show "?P eq hv incr sz t i emp r"
  proof (intro impI)
    assume b: "i < sz" "incr < sz" "sz \<le> 2 ^ 30"
    then have "probe_next sz incr i < sz"
      by (auto simp: probe_next_def u32_of_def Let_def)
    moreover have "stops eq hv (t ! i) \<or>
        (\<exists>emp'. loop eq hv incr sz t (probe_next sz incr i) emp' = Some r)"
      using step by (auto simp: stops_def split: slot_ptr.splits if_splits)
    ultimately show "\<exists>j. j < sz \<and> stops eq hv (t ! j)"
      using IH b by blast
  qed
qed

section \<open>Counting and walking through the entries\<close>

lemma entries_ok:
  assumes "ohash_ok key h"
  shows "ohash_entries h = card (dom (abs_ohash key h))"
proof -
  let ?t = "oh_t h"
  have h: "size_ok (oh_size h)" "length ?t = oh_size h" "table_ok key ohash_interval ?t"
    "oh_total h = used ?t" "oh_deleted h = dead ?t"
    using assms by (auto simp: ohash_ok_def counts_ok_def)
  have "dom (abs_ohash key h) = key ` set (elist ?t)"
    by (simp add: abs_ohash_def abs_table_def dom_map_of_conv_image_fst image_image)
  moreover have "distinct (map key (elist ?t))"
    using h(3) by (intro distinct_elist) (auto simp: table_ok_def)
  ultimately have "card (dom (abs_ohash key h)) = length (elist ?t)"
    using distinct_card [of "map key (elist ?t)"] by simp
  moreover have "ohash_entries h = used ?t - dead ?t"
    using h size_ok_bounds [OF h(1)] dead_le_used [of ?t] used_le_length [of ?t]
    by (simp add: ohash_entries_def)
  ultimately show ?thesis using used_split [of ?t] by simp
qed

lemma next_ok:
  assumes "length (oh_t h) = oh_size h"
  shows "elist (drop pos (oh_t h)) =
    (case ohash_next h pos of (None, _) \<Rightarrow> [] | (Some e, pos') \<Rightarrow> e # elist (drop pos' (oh_t h)))"
  using assms
proof (induction h pos rule: ohash_next.induct)
  case (1 h pos)
  show ?case
  proof (cases "pos < oh_size h")
    case True
    then have "drop pos (oh_t h) = oh_t h ! pos # drop (pos + 1) (oh_t h)"
      using 1(3) by (simp add: Cons_nth_drop_Suc)
    then show ?thesis
      using True 1 by (simp add: ohash_next.simps [of h pos] split: slot_ptr.split)
  qed (use 1(3) in \<open>simp add: ohash_next.simps [of h pos]\<close>)
qed

section \<open>Properties\<close>

lemma init_16:
  "ohash_ok (\<lambda>e. e) (ohash_init 4 :: u8 list ohash)" "oh_size (ohash_init 4 :: u8 list ohash) \<le> 2 ^ 29"
  "abs_ohash (\<lambda>e. e) (ohash_init 4 :: u8 list ohash) k = None"
  using init_ok(1) [of 4 "\<lambda>e :: u8 list. e"] init_ok(2) [of 4 "\<lambda>e :: u8 list. e"]
  by (simp_all add: ohash_init_def [of 4] Let_def MINSIZE_def u32_of_def)

text \<open>
  C39. The table refines a map from names to entries.  A fresh table is the empty map, and
  \<open>ohash_entries\<close> counts the names of the map.  On every
  table in order, a lookup comes back with an index at which \<open>ohash_find\<close> gives the value of the
  map, although it may have moved an entry; inserting there, where nothing was found, adds the
  entry, and removing there takes the name out of the map.  Resizing, forced by either, loses
  nothing.  Tables of up to \<open>2 ^ 29\<close> slots, where the counters cannot wrap, and successful
  allocations are assumed.
\<close>

theorem ohash_refines_map:
  assumes "ohash_ok key h" "oh_size h \<le> 2 ^ 29" "sz \<le> 30"
  shows "ohash_ok key (ohash_init sz) \<and> abs_ohash key (ohash_init sz) = Map.empty \<and>
    ohash_entries h = card (dom (abs_ohash key h)) \<and>
    (\<exists>i h'. ohash_qlookup key h s = Some (i, h') \<and> ohash_ok key h' \<and>
       abs_ohash key h' = abs_ohash key h \<and> ohash_find h' i = abs_ohash key h s \<and>
       (abs_ohash key h s = None \<longrightarrow> key p = s \<longrightarrow>
          (\<exists>h''. ohash_insert True h' i p = Some h'' \<and> ohash_ok key h'' \<and>
             abs_ohash key h'' = (abs_ohash key h)(s \<mapsto> p))) \<and>
       (\<exists>h''. ohash_remove True h' i = Some (abs_ohash key h s, h'') \<and> ohash_ok key h'' \<and>
          abs_ohash key h'' = (abs_ohash key h)(s := None)))"
proof -
  obtain i h' where l: "ohash_qlookup key h s = Some (i, h')" "ohash_ok key h'"
    "abs_ohash key h' = abs_ohash key h" "ohash_find h' i = abs_ohash key h s"
    using oh.lookup_law [OF assms(1), of s] by blast
  have ins: "\<exists>h''. ohash_insert True h' i p = Some h'' \<and> ohash_ok key h'' \<and>
      abs_ohash key h'' = (abs_ohash key h)(s \<mapsto> p)" if "abs_ohash key h s = None" "key p = s"
    using oh.insert_law [OF assms(1,2), of p i h'] l(1) that by simp
  note rem = oh.remove_law [OF assms(1,2) l(1)]
  have "ohash_qlookup key h s = Some (i, h') \<and> ohash_ok key h' \<and>
       abs_ohash key h' = abs_ohash key h \<and> ohash_find h' i = abs_ohash key h s \<and>
       (abs_ohash key h s = None \<longrightarrow> key p = s \<longrightarrow>
          (\<exists>h''. ohash_insert True h' i p = Some h'' \<and> ohash_ok key h'' \<and>
             abs_ohash key h'' = (abs_ohash key h)(s \<mapsto> p))) \<and>
       (\<exists>h''. ohash_remove True h' i = Some (abs_ohash key h s, h'') \<and> ohash_ok key h'' \<and>
          abs_ohash key h'' = (abs_ohash key h)(s := None))"
    using l ins rem by simp
  then show ?thesis
    using init_ok [OF assms(3), of key] entries_ok [OF assms(1)] by - ((rule conjI, assumption)+, rule exI, rule exI, assumption)
qed

theorem ohash_refines_map_witness:
  "\<exists>i h'. ohash_qlookup (\<lambda>e. e) (ohash_init 4) [97] = Some (i, h') \<and>
     ohash_find h' i = (None :: u8 list option)"
  using ohash_refines_map [OF init_16(1,2), of 4 "[97]" "[97]"]
  by (simp add: init_16(3)) (elim conjE exE, blast)

text \<open>
  C40. Entering a name and looking up any name afterwards finds the new entry under its name and
  what was there under every other, whatever resizing happens in between.  In contrast, when a
  table has no free slot left -- which only failed allocations of \<open>ohash_resize\<close>, ignored by
  \<open>ohash_insert\<close>, can bring about -- the lookup of a name that is not in the table never returns.
\<close>

theorem ohash_put_get_and_full:
  assumes "ohash_ok key h" "oh_size h \<le> 2 ^ 29" "abs_ohash key h (key e) = None"
    and "size_ok (oh_size g)" "length (oh_t g) = oh_size g" "\<not> has_free (oh_t g)"
    and "\<forall>j x. ent (oh_t g) j x \<longrightarrow> key x \<noteq> s"
  shows "(\<exists>i h1 h2 j h3. ohash_qlookup key h (key e) = Some (i, h1) \<and>
      ohash_insert True h1 i e = Some h2 \<and> ohash_qlookup key h2 k = Some (j, h3) \<and>
      ohash_find h3 j = (if k = key e then Some e else abs_ohash key h k)) \<and>
    ohash_qlookup key g s = None"
proof
  show "\<exists>i h1 h2 j h3. ohash_qlookup key h (key e) = Some (i, h1) \<and>
      ohash_insert True h1 i e = Some h2 \<and> ohash_qlookup key h2 k = Some (j, h3) \<and>
      ohash_find h3 j = (if k = key e then Some e else abs_ohash key h k)"
    by (rule oh.put_get) (use assms(1-3) in simp_all)
  let ?t = "oh_t g" and ?hv = "ohash_interval s"
  have sz: "16 \<le> oh_size g" "oh_size g \<le> 2 ^ 30" using size_ok_bounds [OF assms(4)] by auto
  have "\<not> stops (\<lambda>x. key x = s) ?hv (?t ! j)" if "j < oh_size g" for j
    using that assms(5-7) by (auto simp: stops_def has_free_def ent_def split: slot_ptr.splits)
  moreover have "probe_start ?hv (oh_size g) < oh_size g" "probe_incr ?hv (oh_size g) < oh_size g"
    using sz probe_incr_bound [OF sz(1), of ?hv] by (simp_all add: probe_start_def)
  ultimately have "lookup_loop (\<lambda>x. key x = s) ?hv (probe_incr ?hv (oh_size g)) (oh_size g) ?t
      (probe_start ?hv (oh_size g)) (oh_size g) = None"
    using lookup_loop_stops [of "\<lambda>x. key x = s" ?hv "probe_incr ?hv (oh_size g)" "oh_size g" ?t
        "probe_start ?hv (oh_size g)" "oh_size g"] sz(2) by (metis not_Some_eq)
  then show "ohash_qlookup key g s = None"
    by (simp add: ohash_qlookup_def ohash_lookup_interval_def lookup_with_def interval_eq)
qed

theorem ohash_put_get_and_full_witness:
  "ohash_qlookup (\<lambda>e. e) \<lparr>oh_t = replicate 16 \<lparr>s_hv = 0, s_p = DELETED\<rparr>, oh_size = 16, oh_total = 16,
     oh_deleted = 16\<rparr> [97] = (None :: (nat \<times> u8 list ohash) option)"
proof -
  let ?g = "\<lparr>oh_t = replicate 16 \<lparr>s_hv = 0, s_p = DELETED\<rparr>, oh_size = 16, oh_total = 16,
     oh_deleted = 16\<rparr> :: u8 list ohash"
  have "size_ok (oh_size ?g)" by (auto simp: size_ok_def intro: exI [of _ 4])
  moreover have "\<not> has_free (oh_t ?g)" "\<forall>j x. ent (oh_t ?g) j x \<longrightarrow> x \<noteq> [97]"
    by (auto simp: has_free_def ent_def)
  moreover have "length (oh_t ?g) = oh_size ?g" by simp
  ultimately show ?thesis
    using ohash_put_get_and_full [OF init_16, of ?g "[97]"] by blast
qed

end
