(* ===== verification/Sh_Lex.thy ===== *)
theory Sh_Lex
  imports Numbers
begin

text \<open>
  The lexer of shell arithmetic, \<open>src/src.freebsd/sh/arith_yylex.c\<close>: the conversion of number texts
  and the function \<open>yylex\<close>.

  \<open>arith_t\<close> is a 64-bit word read as a signed number.  A token is its number in \<open>arith_yacc.h\<close>, since
  the code computes with these numbers; the end of the text is the token 0.  The text is the list
  of its characters before the NUL.  The address at which \<open>yylex\<close> stores a name is a parameter: it
  depends on where in the text the name stands.
\<close>

section \<open>Tokens\<close>

type_synonym arith_t = u64

abbreviation ARITH_MIN :: arith_t where "ARITH_MIN \<equiv> 0x8000000000000000"
abbreviation ARITH_MAX :: arith_t where "ARITH_MAX \<equiv> 0x7FFFFFFFFFFFFFFF"

abbreviation ARITH_ASS :: nat where "ARITH_ASS \<equiv> 1"
abbreviation ARITH_OR :: nat where "ARITH_OR \<equiv> 2"
abbreviation ARITH_AND :: nat where "ARITH_AND \<equiv> 3"
abbreviation ARITH_BAD :: nat where "ARITH_BAD \<equiv> 4"
abbreviation ARITH_NUM :: nat where "ARITH_NUM \<equiv> 5"
abbreviation ARITH_VAR :: nat where "ARITH_VAR \<equiv> 6"
abbreviation ARITH_NOT :: nat where "ARITH_NOT \<equiv> 7"
abbreviation ARITH_BINOP_MIN :: nat where "ARITH_BINOP_MIN \<equiv> 8"
abbreviation ARITH_LE :: nat where "ARITH_LE \<equiv> 8"
abbreviation ARITH_GE :: nat where "ARITH_GE \<equiv> 9"
abbreviation ARITH_LT :: nat where "ARITH_LT \<equiv> 10"
abbreviation ARITH_GT :: nat where "ARITH_GT \<equiv> 11"
abbreviation ARITH_EQ :: nat where "ARITH_EQ \<equiv> 12"
abbreviation ARITH_REM :: nat where "ARITH_REM \<equiv> 13"
abbreviation ARITH_BAND :: nat where "ARITH_BAND \<equiv> 14"
abbreviation ARITH_LSHIFT :: nat where "ARITH_LSHIFT \<equiv> 15"
abbreviation ARITH_RSHIFT :: nat where "ARITH_RSHIFT \<equiv> 16"
abbreviation ARITH_MUL :: nat where "ARITH_MUL \<equiv> 17"
abbreviation ARITH_ADD :: nat where "ARITH_ADD \<equiv> 18"
abbreviation ARITH_BOR :: nat where "ARITH_BOR \<equiv> 19"
abbreviation ARITH_SUB :: nat where "ARITH_SUB \<equiv> 20"
abbreviation ARITH_BXOR :: nat where "ARITH_BXOR \<equiv> 21"
abbreviation ARITH_DIV :: nat where "ARITH_DIV \<equiv> 22"
abbreviation ARITH_NE :: nat where "ARITH_NE \<equiv> 23"
abbreviation ARITH_BINOP_MAX :: nat where "ARITH_BINOP_MAX \<equiv> 24"
abbreviation ARITH_ASS_MIN :: nat where "ARITH_ASS_MIN \<equiv> 24"
abbreviation ARITH_ASS_MAX :: nat where "ARITH_ASS_MAX \<equiv> 34"
abbreviation ARITH_LPAREN :: nat where "ARITH_LPAREN \<equiv> 34"
abbreviation ARITH_RPAREN :: nat where "ARITH_RPAREN \<equiv> 35"
abbreviation ARITH_BNOT :: nat where "ARITH_BNOT \<equiv> 36"
abbreviation ARITH_QMARK :: nat where "ARITH_QMARK \<equiv> 37"
abbreviation ARITH_COLON :: nat where "ARITH_COLON \<equiv> 38"

text \<open>The union of a value and a name; a name carries the bits of its address.\<close>

datatype yystype = Y_val arith_t | Y_name string arith_t

section \<open>Numbers\<close>

text \<open>
  The part of \<open>strtoimax\<close> and \<open>strtoumax\<close> in base 0 after white space: the magnitude and the rest
  of the text, or nothing when there is no digit.
\<close>

definition c_integer :: "string \<Rightarrow> (int \<times> string) option" where
  "c_integer s =
     (let s = (if s \<noteq> [] \<and> hd s \<in> {CHR ''-'', CHR ''+''} then tl s else s)
      in if s = [] \<or> \<not> isdigit (hd s) then None else Some (strtoumax0 s))"

text \<open>
  The value, whether \<open>errno\<close> is set, and the rest of the text.  Where nothing can be converted, C
  libraries differ in setting \<open>errno\<close>: this is the parameter \<open>einval\<close>.
\<close>

definition strtoarith_t :: "bool \<Rightarrow> string \<Rightarrow> arith_t \<times> bool \<times> string" where
  "strtoarith_t einval nptr =
     (let nptr = dropWhile isspace nptr in
      case c_integer nptr of
        None \<Rightarrow> (0, einval, nptr)
      | Some (v, endptr) \<Rightarrow>
          if hd nptr = CHR ''-'' then
            (if v > 0x8000000000000000 then (ARITH_MIN, True, endptr)
             else (of_int (- v), False, endptr))
          else
            let val = of_int (min v UINTMAX_MAX); range = (v > UINTMAX_MAX) in
            if hd nptr = CHR ''0'' then (val, range, endptr)
            else if 0 \<le> sint val then (val, range, endptr)
            else if val = ARITH_MIN then (ARITH_MIN, True, endptr)
            else (ARITH_MAX, True, endptr))"

section \<open>The lexer\<close>

definition is_name :: "char \<Rightarrow> bool" where
  "is_name c \<longleftrightarrow>
     (let n = of_char c in (65 \<le> n \<and> n \<le> 90) \<or> (97 \<le> n \<and> n \<le> (122 :: nat)) \<or> n = 95)"

definition is_in_name :: "char \<Rightarrow> bool" where
  "is_in_name c \<longleftrightarrow> is_name c \<or> isdigit c"

text \<open>The character at a position, NUL at the end of the text.\<close>

definition cur :: "string \<Rightarrow> char" where
  "cur buf = (if buf = [] then CHR 0x00 else hd buf)"

definition blank :: "char \<Rightarrow> bool" where
  "blank c \<longleftrightarrow> c = CHR '' '' \<or> c = CHR 0x09 \<or> c = CHR 0x0A"

definition checkeqcur :: "nat \<Rightarrow> string \<Rightarrow> nat \<times> string" where
  "checkeqcur value buf = (if cur buf = CHR ''='' then (value + 11, tl buf) else (value, buf))"

text \<open>The token of an operator and the text behind it; the text starts with the operator.\<close>

definition yylex_op :: "string \<Rightarrow> (nat \<times> string) option" where
  "yylex_op buf =
     (let c = cur buf; r = tl buf in
      if c = CHR ''='' then Some (checkeqcur ARITH_ASS r)
      else if c = CHR ''>'' then
        Some (if cur r = CHR ''='' then (ARITH_GE, tl r)
              else if cur r = CHR ''>'' then checkeqcur ARITH_RSHIFT (tl r) else (ARITH_GT, r))
      else if c = CHR ''<'' then
        Some (if cur r = CHR ''='' then (ARITH_LE, tl r)
              else if cur r = CHR ''<'' then checkeqcur ARITH_LSHIFT (tl r) else (ARITH_LT, r))
      else if c = CHR ''|'' then
        Some (if cur r \<noteq> CHR ''|'' then checkeqcur ARITH_BOR r else (ARITH_OR, tl r))
      else if c = CHR ''&'' then
        Some (if cur r \<noteq> CHR ''&'' then checkeqcur ARITH_BAND r else (ARITH_AND, tl r))
      else if c = CHR ''!'' then
        Some (if cur r \<noteq> CHR ''='' then (ARITH_NOT, r) else (ARITH_NE, tl r))
      else if c = CHR 0x00 then Some (0, buf)
      else if c = CHR ''('' then Some (ARITH_LPAREN, r)
      else if c = CHR '')'' then Some (ARITH_RPAREN, r)
      else if c = CHR ''*'' then Some (checkeqcur ARITH_MUL r)
      else if c = CHR ''/'' then Some (checkeqcur ARITH_DIV r)
      else if c = CHR ''%'' then Some (checkeqcur ARITH_REM r)
      else if c = CHR ''+'' then if cur r = CHR ''+'' then None else Some (checkeqcur ARITH_ADD r)
      else if c = CHR ''-'' then if cur r = CHR ''-'' then None else Some (checkeqcur ARITH_SUB r)
      else if c = CHR ''~'' then Some (ARITH_BNOT, r)
      else if c = CHR ''^'' then Some (checkeqcur ARITH_BXOR r)
      else if c = CHR ''?'' then Some (ARITH_QMARK, r)
      else if c = CHR '':'' then Some (ARITH_COLON, r)
      else None)"

text \<open>
  \<open>yylex\<close> on the text \<open>arith_buf\<close> and the value \<open>yylval\<close>: the token, and both afterwards.  A bad
  character leaves the text as it was.
\<close>

definition yylex :: "(string \<Rightarrow> arith_t) \<Rightarrow> string \<Rightarrow> yystype \<Rightarrow> nat \<times> string \<times> yystype" where
  "yylex addr arith_buf yl =
     (let buf = dropWhile blank arith_buf; c = cur buf in
      if isdigit c then
        (case strtoarith_t False buf of (v, _, endptr) \<Rightarrow> (ARITH_NUM, endptr, Y_val v))
      else if is_name c then
        (ARITH_VAR, dropWhile is_in_name buf, Y_name (takeWhile is_in_name buf) (addr buf))
      else (case yylex_op buf of
              Some (value, buf) \<Rightarrow> (value, buf, yl)
            | None \<Rightarrow> (ARITH_BAD, arith_buf, yl)))"

section \<open>Every token consumes text\<close>

definition real_tok :: "nat \<Rightarrow> nat" where
  "real_tok t = (if t = 0 \<or> t = ARITH_BAD then 0 else 1)"

lemma digits_val_length: "length (snd (digits_val b s n)) \<le> length s"
  by (induction b s n rule: digits_val.induct) (auto split: option.splits simp: le_SucI)

lemma digits_val_consumes:
  "s \<noteq> [] \<Longrightarrow> digit_val b (hd s) \<noteq> None \<Longrightarrow> length (snd (digits_val b s n)) < length s"
  using digits_val_length [of b "tl s"] by (cases s) (auto simp: less_Suc_eq_le)

lemma strtoumax0_consumes:
  assumes "s \<noteq> []" "isdigit (hd s)"
  shows "length (snd (strtoumax0 s)) < length s"
proof -
  have "digit_val 10 (hd s) \<noteq> None" using assms(2) by (simp add: digit_val_def isdigit_def Let_def)
  moreover have "digit_val 8 (CHR ''0'') \<noteq> None" by (simp add: digit_val_def)
  moreover have "length (snd (digits_val 16 (drop 2 s) 0)) < length s"
    if "length s > 2" using digits_val_length [of 16 "drop 2 s" 0] that by simp
  ultimately show ?thesis using assms(1) digits_val_consumes
    by (simp add: strtoumax0_def)
qed

lemma isdigit_char:
  assumes "isdigit c"
  shows "\<not> isspace c" "c \<noteq> CHR ''-''" "c \<noteq> CHR ''+''" "\<not> blank c" "c \<noteq> CHR 0x00"
  using assms by (auto simp: isdigit_def isspace_def blank_def Let_def of_char_int)

lemma strtoarith_digit:
  assumes "buf \<noteq> []" "isdigit (hd buf)"
  shows "snd (snd (strtoarith_t ei buf)) = snd (strtoumax0 buf)"
proof -
  have "dropWhile isspace buf = buf" using assms isdigit_char by (cases buf) auto
  moreover have "c_integer buf = Some (strtoumax0 buf)"
    using assms isdigit_char by (auto simp: c_integer_def)
  ultimately show ?thesis using assms isdigit_char(2)
    by (auto simp: strtoarith_t_def Let_def split: prod.split)
qed

lemma yylex_op_consumes:
  assumes "yylex_op buf = Some (t, buf')"
  shows "length buf' + real_tok t \<le> length buf"
proof (cases buf)
  case Nil
  then show ?thesis using assms by (simp add: yylex_op_def cur_def real_tok_def)
next
  case (Cons c r)
  have *: "length (tl r) \<le> length r" "length (tl (tl r)) \<le> length r" by simp_all
  show ?thesis using assms Cons *
    by (auto simp: yylex_op_def cur_def checkeqcur_def real_tok_def Let_def split: if_splits)
qed


lemma length_dropWhile_hd: "buf \<noteq> [] \<Longrightarrow> P (hd buf) \<Longrightarrow> length (dropWhile P buf) < length buf"
  by (cases buf) (auto simp: less_Suc_eq_le length_dropWhile_le)

lemma yylex_consumes:
  assumes "yylex ad buf yl = (t, buf', yl')"
  shows "length buf' + real_tok t \<le> length buf"
proof -
  let ?b = "dropWhile blank buf"
  have b: "length ?b \<le> length buf" by (rule length_dropWhile_le)
  have ne: "?b \<noteq> []" "hd ?b = cur ?b" if "isdigit (cur ?b) \<or> is_name (cur ?b)"
    using that by (auto simp: cur_def isdigit_def is_name_def Let_def split: if_splits)
  show ?thesis
  proof (cases "isdigit (cur ?b)")
    case True
    then have "length (snd (strtoumax0 ?b)) < length ?b"
      using ne by (intro strtoumax0_consumes) auto
    moreover have "buf' = snd (strtoumax0 ?b)"
      using True assms strtoarith_digit [of ?b False] ne
      by (auto simp: yylex_def Let_def split: prod.splits)
    ultimately show ?thesis using b by (simp add: real_tok_def)
  next
    case digit: False
    show ?thesis
    proof (cases "is_name (cur ?b)")
      case True
      then have "length (dropWhile is_in_name ?b) < length ?b"
        using ne by (intro length_dropWhile_hd) (auto simp: is_in_name_def)
      then show ?thesis using assms True digit b by (auto simp: yylex_def Let_def real_tok_def)
    next
      case False
      then show ?thesis using assms digit b yylex_op_consumes [of ?b]
        by (fastforce simp: yylex_def Let_def real_tok_def split: option.splits prod.splits)
    qed
  qed
qed

end
