(* ===== verification/Sh_Arith.thy ===== *)
theory Sh_Arith
  imports Sh_Lex "HOL-Library.Signed_Division"
begin

text \<open>
  Shell arithmetic, \<open>src/src.freebsd/sh/arith_yacc.c\<close>: a parser by precedence climbing that
  evaluates while it parses.

  The functions of the parser call each other without a bound that is visible in the code, so they
  are one partial function on a datatype of calls; a call that did not return would have no value.
  The variables of the shell are an abstract state with \<open>lookupvar\<close> and \<open>setvar\<close> of \<open>var.c\<close> as its operations.  An
  error leaves the evaluation but not the assignments made before it, so it comes with the state of
  the variables.  Where the code is told not to evaluate (\<open>noeval\<close>), it takes the address of a
  variable's name for its value, as the model does.  Negation wraps around; the code negates a
  signed number, which is undefined for \<open>ARITH_MIN\<close> alone.
\<close>

section \<open>State and errors\<close>

datatype arith_error =
    Expecting_rparen | Expecting_primary | Expecting_colon | Expecting_EOF
  | Division_by_zero | Divide_error | Variable_not_set | Variable_conversion
  | Setvar_failed

record 'v arith_env =
  addr :: "string \<Rightarrow> arith_t"
  einval :: bool
  uflag :: bool
  get_value :: "'v \<Rightarrow> string \<Rightarrow> string option"
  set_value :: "'v \<Rightarrow> string \<Rightarrow> string \<Rightarrow> 'v + 'v"

record 'v arith_state =
  arith_buf :: string
  yylval :: yystype
  last_token :: nat
  vars :: 'v

type_synonym 'v arith_result = "(arith_error \<times> 'v) + (arith_t \<times> 'v arith_state)"

definition lex :: "'v arith_env \<Rightarrow> 'v arith_state \<Rightarrow> nat \<times> 'v arith_state" where
  "lex E st =
     (case yylex (addr E) (arith_buf st) (yylval st) of (t, buf, yl) \<Rightarrow>
        (t, st\<lparr>arith_buf := buf, yylval := yl\<rparr>))"

definition yyerror :: "arith_error \<Rightarrow> 'v arith_state \<Rightarrow> 'v arith_result option" where
  "yyerror e st = Some (Inl (e, vars st))"

definition return :: "arith_t \<Rightarrow> 'v arith_state \<Rightarrow> 'v arith_result option" where
  "return v st = Some (Inr (v, st))"

definition and_then :: "('e + 'a) option \<Rightarrow> ('a \<Rightarrow> ('e + 'b) option) \<Rightarrow> ('e + 'b) option" where
  "and_then m f =
     Option.bind m (\<lambda>r. case r of Inl e \<Rightarrow> Some (Inl e) | Inr x \<Rightarrow> f x)"

lemma case_mono [partial_function_mono]:
  "(\<And>x y. mono_option (\<lambda>f. A x y f)) \<Longrightarrow> mono_option (\<lambda>f. case p of (x, y) \<Rightarrow> A x y f)"
  "(\<And>x. mono_option (\<lambda>f. B x f)) \<Longrightarrow> (\<And>x. mono_option (\<lambda>f. C x f)) \<Longrightarrow>
   mono_option (\<lambda>f. case r of Inl x \<Rightarrow> B x f | Inr x \<Rightarrow> C x f)"
  by (cases p; simp) (cases r; simp)

lemma and_then_mono [partial_function_mono]:
  assumes "mono_option B" and "\<And>y. mono_option (\<lambda>f. C y f)"
  shows "mono_option (\<lambda>f. and_then (B f) (\<lambda>y. C y f))"
  unfolding and_then_def
  by (intro bind_mono case_mono option.const_mono assms)

lemma and_then_simps [simp]:
  "and_then None f = None"
  "and_then (Some (Inl e)) f = Some (Inl e)"
  "and_then (Some (Inr x)) f = f x"
  by (simp_all add: and_then_def)

section \<open>Operators\<close>

definition arith_prec :: "nat \<Rightarrow> nat" where
  "arith_prec op =
     (if op \<in> {ARITH_MUL, ARITH_DIV, ARITH_REM} then 0
      else if op \<in> {ARITH_ADD, ARITH_SUB} then 1
      else if op \<in> {ARITH_LSHIFT, ARITH_RSHIFT} then 2
      else if op \<in> {ARITH_LT, ARITH_LE, ARITH_GT, ARITH_GE} then 3
      else if op \<in> {ARITH_EQ, ARITH_NE} then 4
      else if op = ARITH_BAND then 5
      else if op = ARITH_BXOR then 6
      else 7)"

abbreviation ARITH_MAX_PREC :: nat where "ARITH_MAX_PREC \<equiv> 8"

definition higher_prec :: "nat \<Rightarrow> nat \<Rightarrow> bool" where
  "higher_prec op1 op2 \<longleftrightarrow> arith_prec op1 < arith_prec op2"

definition is_binop :: "nat \<Rightarrow> bool" where
  "is_binop op \<longleftrightarrow> ARITH_BINOP_MIN \<le> op \<and> op < ARITH_BINOP_MAX"

definition do_binop :: "nat \<Rightarrow> arith_t \<Rightarrow> arith_t \<Rightarrow> arith_error + arith_t" where
  "do_binop op a b =
     (if op = ARITH_MUL then Inr (a * b)
      else if op = ARITH_ADD then Inr (a + b)
      else if op = ARITH_SUB then Inr (a - b)
      else if op = ARITH_LSHIFT then Inr (push_bit (unat (b AND 63)) a)
      else if op = ARITH_RSHIFT then Inr (signed_drop_bit (unat (b AND 63)) a)
      else if op = ARITH_LT then Inr (of_bool (sint a < sint b))
      else if op = ARITH_LE then Inr (of_bool (sint a \<le> sint b))
      else if op = ARITH_GT then Inr (of_bool (sint a > sint b))
      else if op = ARITH_GE then Inr (of_bool (sint a \<ge> sint b))
      else if op = ARITH_EQ then Inr (of_bool (a = b))
      else if op = ARITH_NE then Inr (of_bool (a \<noteq> b))
      else if op = ARITH_BAND then Inr (a AND b)
      else if op = ARITH_BXOR then Inr (a XOR b)
      else if op = ARITH_BOR then Inr (a OR b)
      else if b = 0 then Inl Division_by_zero
      else if a = ARITH_MIN \<and> b = - 1 then Inl Divide_error
      else Inr (of_int (if op = ARITH_REM then sint a smod sint b else sint a sdiv sint b)))"

definition lift_error :: "arith_error + 'a \<Rightarrow> 'v \<Rightarrow> (arith_error \<times> 'v) + 'a" where
  "lift_error r v = map_sum (\<lambda>e. (e, v)) id r"

definition arith_lookupvarint :: "'v arith_env \<Rightarrow> 'v \<Rightarrow> string \<Rightarrow> arith_error + arith_t" where
  "arith_lookupvarint E v varname =
     (let str = get_value E v varname in
      if uflag E \<and> str = None then Inl Variable_not_set
      else
        let str = (case str of None \<Rightarrow> ''0'' | Some s \<Rightarrow> if s = [] then ''0'' else s) in
        (case strtoarith_t (einval E) str of (result, errno, p) \<Rightarrow>
           if errno \<or> p \<noteq> [] then Inl Variable_conversion else Inr result))"

text \<open>The two members of the union.\<close>

fun y_value :: "yystype \<Rightarrow> arith_t" where
  "y_value (Y_val v) = v"
| "y_value (Y_name n p) = p"

fun y_text :: "yystype \<Rightarrow> string" where
  "y_text (Y_name n p) = n"
| "y_text (Y_val v) = []"

section \<open>The parser\<close>

datatype call =
    Primary nat yystype nat
  | Binop2 arith_t nat nat
  | Binop nat yystype nat
  | And nat yystype nat
  | Or nat yystype nat
  | Cond nat yystype nat
  | Assignment nat

text \<open>
  Each function of the parser takes the recursion \<open>rec\<close> as an argument; \<open>parse\<close> ties the knot.
\<close>

type_synonym 'v parser = "bool \<Rightarrow> 'v arith_state \<Rightarrow> 'v arith_result option"

definition primary :: "'v arith_env \<Rightarrow> (call \<Rightarrow> 'v parser) \<Rightarrow> nat \<Rightarrow> yystype \<Rightarrow> nat \<Rightarrow> 'v parser" where
  "primary E rec token val op noeval st =
     (if token = ARITH_LPAREN then
        and_then (rec (Assignment op) noeval st) (\<lambda>(result, st).
          if last_token st \<noteq> ARITH_RPAREN then yyerror Expecting_rparen st
          else case lex E st of (t, st) \<Rightarrow> return result (st\<lparr>last_token := t\<rparr>))
      else if token = ARITH_NUM then return (y_value val) (st\<lparr>last_token := op\<rparr>)
      else if token = ARITH_VAR then
        let st = st\<lparr>last_token := op\<rparr> in
        if noeval then return (y_value val) st
        else (case arith_lookupvarint E (vars st) (y_text val) of
                Inl e \<Rightarrow> yyerror e st
              | Inr v \<Rightarrow> return v st)
      else if token = ARITH_ADD then
        case lex E st of (op', st') \<Rightarrow> rec (Primary op (yylval st) op') noeval st'
      else if token = ARITH_SUB then
        case lex E st of (op', st') \<Rightarrow>
          and_then (rec (Primary op (yylval st) op') noeval st') (\<lambda>(v, st). return (- v) st)
      else if token = ARITH_NOT then
        case lex E st of (op', st') \<Rightarrow>
          and_then (rec (Primary op (yylval st) op') noeval st')
            (\<lambda>(v, st). return (of_bool (v = 0)) st)
      else if token = ARITH_BNOT then
        case lex E st of (op', st') \<Rightarrow>
          and_then (rec (Primary op (yylval st) op') noeval st') (\<lambda>(v, st). return (NOT v) st)
      else yyerror Expecting_primary st)"

text \<open>
  The start of an operand: the code reads two tokens and keeps the value of the first.
\<close>

definition operand :: "'v arith_env \<Rightarrow> (nat \<Rightarrow> yystype \<Rightarrow> nat \<Rightarrow> 'v parser) \<Rightarrow> 'v parser" where
  "operand E f noeval st =
     (case lex E st of (token, st) \<Rightarrow>
      case lex E st of (op, st') \<Rightarrow> f token (yylval st) op noeval st')"

definition binop2 :: "'v arith_env \<Rightarrow> (call \<Rightarrow> 'v parser) \<Rightarrow> arith_t \<Rightarrow> nat \<Rightarrow> nat \<Rightarrow> 'v parser" where
  "binop2 E rec a op precedence noeval st =
     and_then (operand E (\<lambda>t v p. rec (Primary t v p)) noeval st) (\<lambda>(b, st).
     and_then (if is_binop (last_token st) \<and> higher_prec (last_token st) op
               then rec (Binop2 b (last_token st) (arith_prec op)) noeval st
               else return b st) (\<lambda>(b, st).
     case (if noeval then Inr b else do_binop op a b) of
       Inl e \<Rightarrow> yyerror e st
     | Inr a \<Rightarrow>
         if \<not> is_binop (last_token st) \<or> arith_prec (last_token st) \<ge> precedence then return a st
         else rec (Binop2 a (last_token st) precedence) noeval st))"

definition binop :: "'v arith_env \<Rightarrow> (call \<Rightarrow> 'v parser) \<Rightarrow> nat \<Rightarrow> yystype \<Rightarrow> nat \<Rightarrow> 'v parser" where
  "binop E rec token val op noeval st =
     and_then (rec (Primary token val op) noeval st) (\<lambda>(a, st).
       if \<not> is_binop (last_token st) then return a st
       else rec (Binop2 a (last_token st) ARITH_MAX_PREC) noeval st)"

definition and_parse :: "'v arith_env \<Rightarrow> (call \<Rightarrow> 'v parser) \<Rightarrow> nat \<Rightarrow> yystype \<Rightarrow> nat \<Rightarrow> 'v parser" where
  "and_parse E rec token val op noeval st =
     and_then (rec (Binop token val op) noeval st) (\<lambda>(a, st).
       if last_token st \<noteq> ARITH_AND then return a st
       else and_then (operand E (\<lambda>t v p. rec (And t v p)) (noeval \<or> a = 0) st) (\<lambda>(b, st).
         return (of_bool (a \<noteq> 0 \<and> b \<noteq> 0)) st))"

definition or_parse :: "'v arith_env \<Rightarrow> (call \<Rightarrow> 'v parser) \<Rightarrow> nat \<Rightarrow> yystype \<Rightarrow> nat \<Rightarrow> 'v parser" where
  "or_parse E rec token val op noeval st =
     and_then (rec (And token val op) noeval st) (\<lambda>(a, st).
       if last_token st \<noteq> ARITH_OR then return a st
       else and_then (operand E (\<lambda>t v p. rec (Or t v p)) (noeval \<or> a \<noteq> 0) st) (\<lambda>(b, st).
         return (of_bool (a \<noteq> 0 \<or> b \<noteq> 0)) st))"

definition cond :: "'v arith_env \<Rightarrow> (call \<Rightarrow> 'v parser) \<Rightarrow> nat \<Rightarrow> yystype \<Rightarrow> nat \<Rightarrow> 'v parser" where
  "cond E rec token val op noeval st =
     and_then (rec (Or token val op) noeval st) (\<lambda>(a, st).
       if last_token st \<noteq> ARITH_QMARK then return a st
       else case lex E st of (token, st) \<Rightarrow>
         and_then (rec (Assignment token) (noeval \<or> a = 0) st) (\<lambda>(b, st).
           if last_token st \<noteq> ARITH_COLON then yyerror Expecting_colon st
           else and_then (operand E (\<lambda>t v p. rec (Cond t v p)) (noeval \<or> a \<noteq> 0) st) (\<lambda>(c, st).
             return (if a \<noteq> 0 then b else c) st)))"

definition assignment :: "'v arith_env \<Rightarrow> (call \<Rightarrow> 'v parser) \<Rightarrow> nat \<Rightarrow> 'v parser" where
  "assignment E rec var noeval st =
     (let val = yylval st in
      case lex E st of (op, st) \<Rightarrow>
        if var \<noteq> ARITH_VAR \<or> (op \<noteq> ARITH_ASS \<and> (op < ARITH_ASS_MIN \<or> op \<ge> ARITH_ASS_MAX))
        then rec (Cond var val op) noeval st
        else case lex E st of (token, st) \<Rightarrow>
          and_then (rec (Assignment token) noeval st) (\<lambda>(result, st).
            if noeval then return result st
            else case (if op \<noteq> ARITH_ASS
                       then err_bind (arith_lookupvarint E (vars st) (y_text val))
                         (\<lambda>v. do_binop (op - 11) v result)
                       else Inr result) of
              Inl e \<Rightarrow> yyerror e st
            | Inr result \<Rightarrow>
                (case set_value E (vars st) (y_text val) (dec_int (sint result)) of
                   Inl v \<Rightarrow> Some (Inl (Setvar_failed, v))
                 | Inr v \<Rightarrow> return result (st\<lparr>vars := v\<rparr>))))"

text \<open>All of them are monotone in the recursion.\<close>

lemma operand_mono [partial_function_mono]:
  assumes "\<And>t v p ne st. mono_option (\<lambda>f. R f t v p ne st)"
  shows "mono_option (\<lambda>f. operand E (R f) noeval st)"
  unfolding operand_def by (intro case_mono assms)

lemma parser_mono [partial_function_mono]:
  assumes "\<And>c ne st. mono_option (\<lambda>f. R f c ne st)"
  shows "mono_option (\<lambda>f. primary E (R f) token val op noeval st)"
    "mono_option (\<lambda>f. binop2 E (R f) a op precedence noeval st)"
    "mono_option (\<lambda>f. binop E (R f) token val op noeval st)"
    "mono_option (\<lambda>f. and_parse E (R f) token val op noeval st)"
    "mono_option (\<lambda>f. or_parse E (R f) token val op noeval st)"
    "mono_option (\<lambda>f. cond E (R f) token val op noeval st)"
    "mono_option (\<lambda>f. assignment E (R f) var noeval st)"
  unfolding primary_def binop2_def binop_def and_parse_def or_parse_def cond_def assignment_def Let_def
  by (intro and_then_mono operand_mono case_mono if_mono option.const_mono assms)+

partial_function (option) parse :: "'v arith_env \<Rightarrow> call \<Rightarrow> 'v parser" where
  "parse E c noeval st = (case c of
     Primary token val op \<Rightarrow> primary E (parse E) token val op noeval st
   | Binop2 a op precedence \<Rightarrow> binop2 E (parse E) a op precedence noeval st
   | Binop token val op \<Rightarrow> binop E (parse E) token val op noeval st
   | And token val op \<Rightarrow> and_parse E (parse E) token val op noeval st
   | Or token val op \<Rightarrow> or_parse E (parse E) token val op noeval st
   | Cond token val op \<Rightarrow> cond E (parse E) token val op noeval st
   | Assignment var \<Rightarrow> assignment E (parse E) var noeval st)"

declare parse.simps [code]

definition arith :: "'v arith_env \<Rightarrow> 'v \<Rightarrow> string \<Rightarrow> ((arith_error \<times> 'v) + (arith_t \<times> 'v)) option" where
  "arith E v s =
     (let st = \<lparr>arith_buf = s, yylval = Y_val 0, last_token = 0, vars = v\<rparr> in
      case lex E st of (token, st) \<Rightarrow>
        and_then (parse E (Assignment token) False st) (\<lambda>(result, st).
          if last_token st \<noteq> 0 then Some (Inl (Expecting_EOF, vars st))
          else Some (Inr (result, vars st))))"

text \<open>The arguments of \<open>let\<close> are joined by blanks; its exit status is 1 for the value 0.\<close>

fun concat_args :: "string list \<Rightarrow> string" where
  "concat_args [] = []"
| "concat_args [p] = p"
| "concat_args (p # ps) = p @ CHR '' '' # concat_args ps"

definition letcmd :: "'v arith_env \<Rightarrow> 'v \<Rightarrow> string list \<Rightarrow>
    ((arith_error \<times> 'v) + (string \<times> nat \<times> 'v)) option" where
  "letcmd E v args =
     and_then (arith E v (concat_args args)) (\<lambda>(i, v).
       Some (Inr (dec_int (sint i) @ [CHR 0x0A], of_bool (i = 0), v)))"

section \<open>The parser returns\<close>

definition left :: "'v arith_state \<Rightarrow> nat" where
  "left st = length (arith_buf st)"

lemma lex_consumes: "lex E st = (t, st') \<Longrightarrow> left st' + real_tok t \<le> left st"
  using yylex_consumes [of "addr E" "arith_buf st" "yylval st"]
  by (auto simp: lex_def left_def split: prod.splits)

text \<open>The text and the tokens a call has before it; its rank in the order of calls.\<close>

fun mass :: "call \<Rightarrow> 'v arith_state \<Rightarrow> nat" where
  "mass (Binop2 a op p) st = left st"
| "mass (Assignment t) st = left st + real_tok t"
| "mass (Primary t v p) st = left st + real_tok t + real_tok p"
| "mass (Binop t v p) st = left st + real_tok t + real_tok p"
| "mass (And t v p) st = left st + real_tok t + real_tok p"
| "mass (Or t v p) st = left st + real_tok t + real_tok p"
| "mass (Cond t v p) st = left st + real_tok t + real_tok p"

fun rank :: "call \<Rightarrow> nat" where
  "rank (Primary t v p) = 1"
| "rank (Binop2 a op p) = 2"
| "rank (Binop t v p) = 3"
| "rank (And t v p) = 4"
| "rank (Or t v p) = 5"
| "rank (Cond t v p) = 6"
| "rank (Assignment t) = 7"

definition weight :: "call \<Rightarrow> 'v arith_state \<Rightarrow> nat" where
  "weight c st = 8 * mass c st + rank c"

definition returns :: "nat \<Rightarrow> 'v arith_result option \<Rightarrow> bool" where
  "returns m r \<longleftrightarrow> (case r of None \<Rightarrow> False | Some (Inl e) \<Rightarrow> True
     | Some (Inr (v, st)) \<Rightarrow> left st + real_tok (last_token st) < m)"

lemma returns_simps [simp]:
  "returns m (return v st) \<longleftrightarrow> left st + real_tok (last_token st) < m"
  "returns m (yyerror e st)"
  "returns m (Some (Inl ev))"
  by (simp_all add: returns_def return_def yyerror_def)

lemma returns_and_then:
  assumes "returns m r"
    and "\<And>v st. left st + real_tok (last_token st) < m \<Longrightarrow> returns m' (g v st)"
  shows "returns m' (and_then r (\<lambda>(v, st). g v st))"
proof (cases r)
  case (Some x)
  then show ?thesis using assms by (cases x) (auto simp: returns_def)
qed (use assms(1) in \<open>simp add: returns_def\<close>)

lemma returns_mono: "returns m r \<Longrightarrow> m \<le> m' \<Longrightarrow> returns m' r"
  by (auto simp: returns_def split: option.splits sum.splits)

lemma returns_lex:
  assumes "\<And>t st'. lex E st = (t, st') \<Longrightarrow> left st' + real_tok t \<le> left st \<Longrightarrow> returns m (g t st')"
  shows "returns m (case lex E st of (t, st') \<Rightarrow> g t st')"
  using assms by (auto split: prod.split dest: lex_consumes)

lemma left_update [simp]:
  "left (st\<lparr>last_token := t\<rparr>) = left st" "left (st\<lparr>vars := v\<rparr>) = left st"
  by (simp_all add: left_def)

lemma real_tok_simps [simp]:
  "real_tok 0 = 0" "real_tok ARITH_BAD = 0" "t \<noteq> 0 \<Longrightarrow> t \<noteq> ARITH_BAD \<Longrightarrow> real_tok t = 1"
  "real_tok t \<le> 1"
  by (simp_all add: real_tok_def)

lemma real_binop: "is_binop t \<Longrightarrow> real_tok t = 1"
  by (simp add: is_binop_def)

lemma returns_operand:
  assumes "\<And>t v p st'. left st' + real_tok t + real_tok p \<le> left st \<Longrightarrow> returns m (f t v p noeval st')"
  shows "returns m (operand E f noeval st)"
proof -
  obtain t st1 where l1: "lex E st = (t, st1)" by fastforce
  obtain p st2 where l2: "lex E st1 = (p, st2)" by fastforce
  show ?thesis using assms [of st2 t p] lex_consumes [OF l1] lex_consumes [OF l2]
    by (simp add: operand_def l1 l2)
qed


text \<open>Each function returns when the calls below it do.\<close>

definition below :: "(call \<Rightarrow> 'v parser) \<Rightarrow> nat \<Rightarrow> bool" where
  "below rec w \<longleftrightarrow> (\<forall>c ne st. weight c st < w \<longrightarrow> returns (mass c st) (rec c ne st))"

lemma belowD:
  "below rec w \<Longrightarrow> weight c st < w \<Longrightarrow> mass c st \<le> m \<Longrightarrow> returns m (rec c ne st)"
  by (auto simp: below_def intro: returns_mono)

lemma primary_returns:
  assumes rec: "below rec (weight (Primary t v p) st)"
  shows "returns (left st + real_tok t + real_tok p) (primary E rec t v p ne st)"
proof -
  have assg: "returns (left st + real_tok p) (rec (Assignment p) ne st)" if "t = ARITH_LPAREN"
    using that by (intro belowD [OF rec]) (simp_all add: weight_def)
  have sub: "returns (left st + real_tok p) (rec (Primary p y p') ne st')"
    if "left st' + real_tok p' \<le> left st" "t \<in> {ARITH_ADD, ARITH_SUB, ARITH_NOT, ARITH_BNOT}" for p' st' y
    using that by (intro belowD [OF rec]) (auto simp: weight_def)
  consider "t = ARITH_LPAREN" | "t = ARITH_ADD" | "t \<in> {ARITH_SUB, ARITH_NOT, ARITH_BNOT}"
    | "t \<notin> {ARITH_LPAREN, ARITH_ADD, ARITH_SUB, ARITH_NOT, ARITH_BNOT}" by blast
  then show ?thesis
  proof cases
    case 1
    then show ?thesis
      by (auto simp: primary_def intro!: returns_and_then [OF assg] returns_lex)
  next
    case 2
    then show ?thesis
      by (auto simp: primary_def intro!: returns_lex returns_mono [OF sub])
  next
    case 3
    then show ?thesis
      by (auto simp: primary_def intro!: returns_lex returns_and_then [OF sub])
  next
    case 4
    then show ?thesis by (simp add: primary_def Let_def split: sum.split)
  qed
qed

lemma binop2_returns:
  assumes rec: "below rec (weight (Binop2 a op q) st)"
  shows "returns (left st) (binop2 E rec a op q ne st)"
proof -
  have more: "returns (left st) (rec (Binop2 b t q') ne st')"
    if "left st' + real_tok t < left st" "is_binop t" for b t q' ne st'
    using that real_binop [OF that(2)] by (intro belowD [OF rec]) (simp_all add: weight_def)
  have first: "returns (left st) (operand E (\<lambda>t v p. rec (Primary t v p)) ne st)"
    by (intro returns_operand belowD [OF rec]) (simp_all add: weight_def)
  show ?thesis
    unfolding binop2_def
    by (intro returns_and_then [OF first] returns_and_then [where m = "left st"])
      (auto split: sum.split intro: more)
qed


lemma binop_returns:
  assumes rec: "below rec (weight (Binop t v p) st)"
  shows "returns (left st + real_tok t + real_tok p) (binop E rec t v p ne st)"
proof -
  let ?m = "left st + real_tok t + real_tok p"
  have first: "returns ?m (rec (Primary t v p) ne st)"
    by (intro belowD [OF rec]) (simp_all add: weight_def)
  have "returns ?m (rec (Binop2 a (last_token st') q) ne st')"
    if "left st' + real_tok (last_token st') < ?m" "is_binop (last_token st')" for a q st'
    using that real_binop [OF that(2)] by (intro belowD [OF rec]) (simp_all add: weight_def)
  then show ?thesis
    unfolding binop_def by (intro returns_and_then [OF first]) auto
qed

text \<open>An operand behind a token that has been read.\<close>

lemma operand_returns:
  fixes st :: "'v arith_state"
  assumes rec: "below rec w" and "left st < m" "8 * m \<le> w"
    and "\<And>t v p (st' :: 'v arith_state). mass (C t v p) st' = left st' + real_tok t + real_tok p"
    and "\<And>t v p. rank (C t v p) < 8"
  shows "returns m (operand E (\<lambda>t v p. rec (C t v p)) ne st)"
proof (rule returns_operand)
  fix t v p and st' :: "'v arith_state"
  assume *: "left st' + real_tok t + real_tok p \<le> left st"
  show "returns m (rec (C t v p) ne st')"
    using * assms(2,3) assms(5) [of t v p]
    by (intro belowD [OF rec]) (simp_all add: weight_def assms(4))
qed

lemma and_returns:
  assumes rec: "below rec (weight (And t v p) st)"
  shows "returns (left st + real_tok t + real_tok p) (and_parse E rec t v p ne st)"
proof -
  let ?m = "left st + real_tok t + real_tok p"
  have first: "returns ?m (rec (Binop t v p) ne st)"
    by (intro belowD [OF rec]) (simp_all add: weight_def)
  show ?thesis
    unfolding and_parse_def
    by (rule returns_and_then [OF first])
      (auto intro!: returns_and_then [OF operand_returns [OF rec]] simp: weight_def)
qed

lemma or_returns:
  assumes rec: "below rec (weight (Or t v p) st)"
  shows "returns (left st + real_tok t + real_tok p) (or_parse E rec t v p ne st)"
proof -
  let ?m = "left st + real_tok t + real_tok p"
  have first: "returns ?m (rec (And t v p) ne st)"
    by (intro belowD [OF rec]) (simp_all add: weight_def)
  show ?thesis
    unfolding or_parse_def
    by (rule returns_and_then [OF first])
      (auto intro!: returns_and_then [OF operand_returns [OF rec, of _ ?m]] simp: weight_def)
qed

lemma cond_returns:
  assumes rec: "below rec (weight (Cond t v p) st)"
  shows "returns (left st + real_tok t + real_tok p) (cond E rec t v p ne st)"
proof -
  let ?m = "left st + real_tok t + real_tok p"
  have first: "returns ?m (rec (Or t v p) ne st)"
    by (intro belowD [OF rec]) (simp_all add: weight_def)
  have assg: "returns ?m (rec (Assignment t') ne' st2)"
    if "left st1 + 1 < ?m" "left st2 + real_tok t' \<le> left st1" for t' ne' st1 st2
    using that by (intro belowD [OF rec]) (simp_all add: weight_def)
  have last: "returns ?m (and_then (operand E (\<lambda>t v p. rec (Cond t v p)) ne' st3) (\<lambda>(c, st). return (g c) st))"
    if "left st3 < ?m" for ne' st3 g
    by (intro returns_and_then [OF operand_returns [OF rec that]]) (simp_all add: weight_def)
  show ?thesis
    unfolding cond_def
    by (rule returns_and_then [OF first])
      (auto intro!: returns_lex returns_and_then [OF assg] last)
qed

lemma assignment_returns:
  assumes rec: "below rec (weight (Assignment t) st)"
  shows "returns (left st + real_tok t) (assignment E rec t ne st)"
proof -
  let ?m = "left st + real_tok t"
  have cond: "returns ?m (rec (Cond t v p) ne st1)" if "left st1 + real_tok p \<le> left st" for v p st1
    using that by (intro belowD [OF rec]) (simp_all add: weight_def)
  have assg: "returns ?m (rec (Assignment t') ne st2)"
    if "left st1 + 1 \<le> left st" "left st2 + real_tok t' \<le> left st1" for t' st1 st2
    using that by (intro belowD [OF rec]) (simp_all add: weight_def)
  show ?thesis
    unfolding assignment_def Let_def
    by (rule returns_lex) (auto intro!: cond returns_lex returns_and_then [OF assg] split: sum.split)
qed

lemma parse_calls:
  "parse E (Primary t v p) ne st = primary E (parse E) t v p ne st"
  "parse E (Binop2 a op q) ne st = binop2 E (parse E) a op q ne st"
  "parse E (Binop t v p) ne st = binop E (parse E) t v p ne st"
  "parse E (And t v p) ne st = and_parse E (parse E) t v p ne st"
  "parse E (Or t v p) ne st = or_parse E (parse E) t v p ne st"
  "parse E (Cond t v p) ne st = cond E (parse E) t v p ne st"
  "parse E (Assignment t) ne st = assignment E (parse E) t ne st"
  by (simp_all add: parse.simps)

lemma parse_returns: "returns (mass c st) (parse E c ne st)"
proof (induction "weight c st" arbitrary: c ne st rule: less_induct)
  case less
  then have "below (parse E) (weight c st)" by (simp add: below_def)
  then show ?case
    by (cases c)
      (simp_all add: parse_calls primary_returns binop2_returns binop_returns and_returns
        or_returns cond_returns assignment_returns)
qed

lemma arith_returns: "\<exists>r. arith E v s = Some r"
proof -
  obtain t st where l: "lex E \<lparr>arith_buf = s, yylval = Y_val 0, last_token = 0, vars = v\<rparr> = (t, st)"
    by fastforce
  show ?thesis
    using parse_returns [of "Assignment t" st E False]
    by (auto simp: arith_def l Let_def returns_def and_then_def split: option.splits sum.splits)
qed

section \<open>Bounds of the operators\<close>

lemma sint_of_int_small:
  assumes "- (2 ^ 63) \<le> n" "n < 2 ^ 63"
  shows "sint (of_int n :: arith_t) = n"
  using assms by (simp add: signed_of_int signed_take_bit_int_eq_self)

lemma sdiv_small:
  assumes "b \<noteq> 0" "\<not> (a = - (2 ^ 63) \<and> b = - 1)" "- (2 ^ 63) \<le> a" "a < (2 ^ 63 :: int)"
  shows "- (2 ^ 63) \<le> a sdiv b" "a sdiv b < 2 ^ 63"
proof -
  have le: "\<bar>a sdiv b\<bar> \<le> \<bar>a\<bar>"
    using zdiv_mono2 [of "\<bar>a\<bar>" 1 "\<bar>b\<bar>"] assms(1) pos_imp_zdiv_nonneg_iff [of "\<bar>b\<bar>" "\<bar>a\<bar>"]
    by (simp add: signed_divide_int_def abs_mult abs_sgn_eq)
  then show "- (2 ^ 63) \<le> a sdiv b" using assms(3,4) by arith
  show "a sdiv b < 2 ^ 63"
  proof (cases "a = - (2 ^ 63)")
    case True
    then have "b \<noteq> -1" using assms(2) by blast
    show ?thesis
    proof (cases "b < 0")
      case False
      then have "a sdiv b = - (\<bar>a\<bar> div \<bar>b\<bar>)" using True assms(1) by (simp add: signed_divide_int_def sgn_if)
      moreover have "0 \<le> \<bar>a\<bar> div \<bar>b\<bar>" by (simp add: pos_imp_zdiv_nonneg_iff assms(1))
      ultimately show ?thesis by simp
    next
      case neg: True
      then have "2 \<le> \<bar>b\<bar>" using \<open>b \<noteq> -1\<close> by simp
      have "a sdiv b = \<bar>a\<bar> div \<bar>b\<bar>" using True neg by (simp add: signed_divide_int_def sgn_if)
      also have "\<dots> \<le> \<bar>a\<bar> div 2" using \<open>2 \<le> \<bar>b\<bar>\<close> by (intro zdiv_mono2) simp_all
      finally show ?thesis using True by simp
    qed
  next
    case False
    then show ?thesis using le assms(3,4) by arith
  qed
qed

lemma smod_small:
  assumes "b \<noteq> (0 :: int)"
  shows "\<bar>a smod b\<bar> < \<bar>b\<bar>" "a smod b = 0 \<or> sgn (a smod b) = sgn a"
proof -
  have "a smod b = sgn a * (\<bar>a\<bar> mod \<bar>b\<bar>)"
    unfolding signed_modulo_int_def signed_divide_int_def
    by (simp add: minus_div_mult_eq_mod [symmetric] algebra_simps abs_sgn mult_sgn_abs)
  moreover have "0 \<le> \<bar>a\<bar> mod \<bar>b\<bar>" "\<bar>a\<bar> mod \<bar>b\<bar> < \<bar>b\<bar>" using assms by simp_all
  ultimately show "\<bar>a smod b\<bar> < \<bar>b\<bar>" "a smod b = 0 \<or> sgn (a smod b) = sgn a"
    by (auto simp: abs_mult sgn_mult sgn_if split: if_splits)
qed

lemma and_63: "unat (b AND 63 :: arith_t) = unat b mod 64"
proof -
  have "b AND 63 = take_bit 6 b" by (simp add: take_bit_eq_mask mask_eq_exp_minus_1)
  then show ?thesis by (simp add: take_bit_eq_mod unat_mod)
qed

lemma rshift_exact: "sint (signed_drop_bit n (a :: arith_t)) = sint a div 2 ^ n"
  by (simp add: sint_signed_drop_bit_eq drop_bit_eq_div)

text \<open>
  The binary operators on signed numbers of 64 bits: sums, differences, products and left
  shifts are the exact results modulo \<open>2 ^ 64\<close>; shift counts are taken modulo 64; a right shift
  rounds down; division and remainder fail exactly for the divisor 0 and for the one quotient that
  does not fit, and else satisfy the division law with a remainder that has the sign of the dividend.
\<close>

lemma do_binop_exact:
  "do_binop ARITH_ADD a b = Inr (of_int (sint a + sint b)) \<and>
   do_binop ARITH_SUB a b = Inr (of_int (sint a - sint b)) \<and>
   do_binop ARITH_MUL a b = Inr (of_int (sint a * sint b)) \<and>
   do_binop ARITH_LSHIFT a b = Inr (of_int (sint a * 2 ^ (unat b mod 64))) \<and>
   do_binop ARITH_RSHIFT a b = Inr (of_int (sint a div 2 ^ (unat b mod 64))) \<and>
   (if b = 0 then do_binop ARITH_DIV a b = Inl Division_by_zero \<and> do_binop ARITH_REM a b = Inl Division_by_zero
    else if sint a = - (2 ^ 63) \<and> sint b = - 1
    then do_binop ARITH_DIV a b = Inl Divide_error \<and> do_binop ARITH_REM a b = Inl Divide_error
    else \<exists>q r. do_binop ARITH_DIV a b = Inr q \<and> do_binop ARITH_REM a b = Inr r \<and>
      sint a = sint q * sint b + sint r \<and> \<bar>sint r\<bar> < \<bar>sint b\<bar> \<and> (r = 0 \<or> sgn (sint r) = sgn (sint a)))"
proof (intro conjI)
  have r: "(of_int (sint a div 2 ^ (unat b mod 64)) :: arith_t) = signed_drop_bit (unat b mod 64) a"
    by (simp flip: rshift_exact)
  show "do_binop ARITH_RSHIFT a b = Inr (of_int (sint a div 2 ^ (unat b mod 64)))"
    by (simp add: do_binop_def and_63 r)
  have edge: "a = ARITH_MIN \<and> b = - 1 \<longleftrightarrow> sint a = - (2 ^ 63) \<and> sint b = - 1"
  proof -
    have "sint (ARITH_MIN :: arith_t) = - (2 ^ 63)" "sint (- 1 :: arith_t) = - 1" by simp_all
    then show ?thesis using signed_word_eqI [of a ARITH_MIN] signed_word_eqI [of b "- 1"] by metis
  qed
  show "if b = 0 then do_binop ARITH_DIV a b = Inl Division_by_zero \<and> do_binop ARITH_REM a b = Inl Division_by_zero
    else if sint a = - (2 ^ 63) \<and> sint b = - 1
    then do_binop ARITH_DIV a b = Inl Divide_error \<and> do_binop ARITH_REM a b = Inl Divide_error
    else \<exists>q r. do_binop ARITH_DIV a b = Inr q \<and> do_binop ARITH_REM a b = Inr r \<and>
      sint a = sint q * sint b + sint r \<and> \<bar>sint r\<bar> < \<bar>sint b\<bar> \<and> (r = 0 \<or> sgn (sint r) = sgn (sint a))"
  proof (cases "b = 0 \<or> sint a = - (2 ^ 63) \<and> sint b = - 1")
    case True
    then show ?thesis using edge by (auto simp: do_binop_def)
  next
    case False
    have ab: "- (2 ^ 63) \<le> sint a" "sint a < 2 ^ 63" "- (2 ^ 63) \<le> sint b" "sint b < 2 ^ 63" "sint b \<noteq> 0"
      using False sint_range_size [of a] sint_range_size [of b] by (simp_all add: word_size signed_eq_0_iff)
    note m = smod_small [OF ab(5), of "sint a"]
    let ?q = "sint a sdiv sint b" and ?r = "sint a smod sint b"
    have q: "sint (of_int ?q :: arith_t) = ?q"
      using sdiv_small [of "sint b" "sint a"] ab False by (intro sint_of_int_small) auto
    have r: "sint (of_int ?r :: arith_t) = ?r" using m(1) ab by (intro sint_of_int_small) auto
    have "do_binop ARITH_DIV a b = Inr (of_int ?q)" "do_binop ARITH_REM a b = Inr (of_int ?r)"
      using False edge by (auto simp: do_binop_def)
    moreover have "sint a = ?q * sint b + ?r" using sdiv_mult_smod_eq [of "sint a" "sint b"] by simp
    moreover have "(of_int ?r :: arith_t) = 0 \<or> sgn ?r = sgn (sint a)" using m(2) by auto
    ultimately show ?thesis using False q r m(1) by auto
  qed
qed (simp_all add: do_binop_def and_63 push_bit_eq_mult)

section \<open>Totality\<close>

text \<open>
  C15. Evaluation and the \<open>let\<close> command return on every text, with a value or an error: the mutually
  recursive functions of the parser always come to an end.
\<close>

theorem arith_always_returns:
  "(\<exists>r. arith E v s = Some r) \<and> (\<exists>r. letcmd E v args = Some r)"
  using arith_returns [of E v s] arith_returns [of E v "concat_args args"]
  by (auto simp: letcmd_def and_then_def split: sum.split)

end
