(* ===== verification/Sh_Expr.thy ===== *)
theory Sh_Expr
  imports Sh_Arith
begin

text \<open>
  A reference for shell arithmetic: expressions as trees, their tokens with the parentheses that the
  precedences of the operators ask for, and their values by structural recursion.  The parser of
  \<open>Sh_Arith\<close>, which climbs precedences and evaluates while it reads, computes these values.
\<close>

section \<open>Expressions\<close>

datatype stok = SNum arith_t | SVar string | SOp nat

fun tok :: "stok \<Rightarrow> nat" where
  "tok (SNum v) = ARITH_NUM"
| "tok (SVar n) = ARITH_VAR"
| "tok (SOp op) = op"

fun has_val :: "stok \<Rightarrow> yystype \<Rightarrow> bool" where
  "has_val (SNum v) y \<longleftrightarrow> y = Y_val v"
| "has_val (SVar n) y \<longleftrightarrow> (\<exists>p. y = Y_name n p)"
| "has_val (SOp op) y \<longleftrightarrow> True"

datatype aexp =
    Num nat
  | Var string
  | Unary nat aexp
  | Bin nat aexp aexp
  | Conj aexp aexp
  | Disj aexp aexp
  | Choice aexp aexp aexp
  | Asg nat string aexp
  | Par aexp

fun level :: "aexp \<Rightarrow> nat" where
  "level (Bin op a b) = arith_prec op + 1"
| "level (Conj a b) = 9"
| "level (Disj a b) = 10"
| "level (Choice a b c) = 11"
| "level (Asg op x e) = 12"
| "level e = 0"

definition wrap :: "bool \<Rightarrow> stok list \<Rightarrow> stok list" where
  "wrap b ts = (if b then ts else SOp ARITH_LPAREN # ts @ [SOp ARITH_RPAREN])"

fun body :: "aexp \<Rightarrow> stok list" where
  "body (Num n) = [SNum (of_nat n)]"
| "body (Var x) = [SVar x]"
| "body (Unary op e) = SOp op # wrap (level e \<le> 0) (body e)"
| "body (Bin op a b) = wrap (level a \<le> arith_prec op + 1) (body a) @ SOp op #
     wrap (level b \<le> arith_prec op) (body b)"
| "body (Conj a b) = wrap (level a \<le> 8) (body a) @ SOp ARITH_AND # wrap (level b \<le> 9) (body b)"
| "body (Disj a b) = wrap (level a \<le> 9) (body a) @ SOp ARITH_OR # wrap (level b \<le> 10) (body b)"
| "body (Choice a b c) = wrap (level a \<le> 10) (body a) @ SOp ARITH_QMARK # body b @
     SOp ARITH_COLON # wrap (level c \<le> 11) (body c)"
| "body (Asg op x e) = SVar x # SOp op # body e"
| "body (Par e) = SOp ARITH_LPAREN # body e @ [SOp ARITH_RPAREN]"

text \<open>An expression where operators that bind up to level \<open>k\<close> may stand.\<close>

definition pr :: "nat \<Rightarrow> aexp \<Rightarrow> stok list" where
  "pr k e = wrap (level e \<le> k) (body e)"

definition is_assop :: "nat \<Rightarrow> bool" where
  "is_assop op \<longleftrightarrow> op = ARITH_ASS \<or> ARITH_ASS_MIN \<le> op \<and> op < ARITH_ASS_MAX"

fun valid :: "aexp \<Rightarrow> bool" where
  "valid (Num n) \<longleftrightarrow> n < 2 ^ 63"
| "valid (Var x) \<longleftrightarrow> x \<noteq> [] \<and> is_name (hd x) \<and> list_all is_in_name x"
| "valid (Unary op e) \<longleftrightarrow> op \<in> {ARITH_ADD, ARITH_SUB, ARITH_NOT, ARITH_BNOT} \<and> valid e"
| "valid (Bin op a b) \<longleftrightarrow> is_binop op \<and> valid a \<and> valid b"
| "valid (Conj a b) \<longleftrightarrow> valid a \<and> valid b"
| "valid (Disj a b) \<longleftrightarrow> valid a \<and> valid b"
| "valid (Choice a b c) \<longleftrightarrow> valid a \<and> valid b \<and> valid c"
| "valid (Asg op x e) \<longleftrightarrow> is_assop op \<and> x \<noteq> [] \<and> is_name (hd x) \<and> list_all is_in_name x \<and> valid e"
| "valid (Par e) \<longleftrightarrow> valid e"

definition apply_unary :: "nat \<Rightarrow> arith_t \<Rightarrow> arith_t" where
  "apply_unary op a = (if op = ARITH_ADD then a else if op = ARITH_SUB then - a
     else if op = ARITH_NOT then of_bool (a = 0) else NOT a)"

text \<open>Values, from left to right, with the operands that decide nothing left out.\<close>

fun eval :: "'v arith_env \<Rightarrow> aexp \<Rightarrow> 'v \<Rightarrow> (arith_error \<times> 'v) + (arith_t \<times> 'v)" where
  "eval E (Num n) v = Inr (of_nat n, v)"
| "eval E (Var x) v = lift_error (map_sum id (\<lambda>a. (a, v)) (arith_lookupvarint E v x)) v"
| "eval E (Unary op e) v = err_bind (eval E e v) (\<lambda>(a, v). Inr (apply_unary op a, v))"
| "eval E (Bin op e1 e2) v =
     err_bind (eval E e1 v) (\<lambda>(a, v). err_bind (eval E e2 v) (\<lambda>(b, v).
       lift_error (map_sum id (\<lambda>c. (c, v)) (do_binop op a b)) v))"
| "eval E (Conj e1 e2) v =
     err_bind (eval E e1 v) (\<lambda>(a, v). if a = 0 then Inr (0, v)
       else err_bind (eval E e2 v) (\<lambda>(b, v). Inr (of_bool (b \<noteq> 0), v)))"
| "eval E (Disj e1 e2) v =
     err_bind (eval E e1 v) (\<lambda>(a, v). if a \<noteq> 0 then Inr (1, v)
       else err_bind (eval E e2 v) (\<lambda>(b, v). Inr (of_bool (b \<noteq> 0), v)))"
| "eval E (Choice e1 e2 e3) v =
     err_bind (eval E e1 v) (\<lambda>(a, v). if a \<noteq> 0 then eval E e2 v else eval E e3 v)"
| "eval E (Asg op x e) v =
     err_bind (eval E e v) (\<lambda>(b, v).
     err_bind (lift_error (if op = ARITH_ASS then Inr b
         else err_bind (arith_lookupvarint E v x) (\<lambda>a. do_binop (op - 11) a b)) v) (\<lambda>c.
     case set_value E v x (dec_int (sint c)) of
       Inl v' \<Rightarrow> Inl (Setvar_failed, v')
     | Inr v' \<Rightarrow> Inr (c, v')))"
| "eval E (Par e) v = eval E e v"

section \<open>Reading the tokens of an expression\<close>

fun feeds :: "'v arith_env \<Rightarrow> 'v arith_state \<Rightarrow> stok list \<Rightarrow> bool" where
  "feeds E st [] \<longleftrightarrow> True"
| "feeds E st (x # xs) \<longleftrightarrow>
     (case lex E st of (t, st') \<Rightarrow> t = tok x \<and> has_val x (yylval st') \<and> feeds E st' xs)"

lemma yylex_indep:
  assumes "yylex ad buf yl = (t, buf', yl1)"
  shows "\<exists>yl2. yylex ad buf yl' = (t, buf', yl2) \<and> (yl2 = yl1 \<or> t \<noteq> ARITH_NUM \<and> t \<noteq> ARITH_VAR)"
proof -
  have "t \<noteq> ARITH_NUM \<and> t \<noteq> ARITH_VAR" if "yylex_op b = Some (t, b')" for b b'
    using that by (auto simp: yylex_op_def Let_def checkeqcur_def split: if_splits)
  then show ?thesis using assms
    by (fastforce simp: yylex_def Let_def split: if_splits prod.splits option.splits)
qed

lemma has_val_indep:
  "yl2 = yl1 \<or> t \<noteq> ARITH_NUM \<and> t \<noteq> ARITH_VAR \<Longrightarrow> t = tok x \<Longrightarrow> has_val x yl2 \<longleftrightarrow> has_val x yl1"
  by (cases x) auto

lemma feeds_cong: "arith_buf st = arith_buf st' \<Longrightarrow> feeds E st ts = feeds E st' ts"
proof (induction ts arbitrary: st st')
  case (Cons x xs)
  obtain t buf yl1 where l: "yylex (addr E) (arith_buf st) (yylval st) = (t, buf, yl1)"
    using prod_cases3 by blast
  then obtain yl2 where l': "yylex (addr E) (arith_buf st) (yylval st') = (t, buf, yl2)"
    "yl2 = yl1 \<or> t \<noteq> ARITH_NUM \<and> t \<noteq> ARITH_VAR"
    using yylex_indep [OF l, of "yylval st'"] by blast
  have "feeds E (st\<lparr>arith_buf := buf, yylval := yl1\<rparr>) xs = feeds E (st'\<lparr>arith_buf := buf, yylval := yl2\<rparr>) xs"
    by (rule Cons.IH) simp
  then show ?case
    using has_val_indep [OF l'(2), of x] l l'(1) Cons.prems by (auto simp: lex_def)
qed simp

lemma feeds_update [simp]:
  "feeds E (st\<lparr>last_token := t\<rparr>) ts = feeds E st ts"
  "feeds E (st\<lparr>vars := v\<rparr>) ts = feeds E st ts"
  by (rule feeds_cong; simp)+

lemma lex_keeps: "lex E st = (t, st') \<Longrightarrow> vars st' = vars st \<and> last_token st' = last_token st"
  by (auto simp: lex_def split: prod.splits)

lemma feeds_lex:
  assumes "feeds E st (x # xs)"
  obtains st' where "lex E st = (tok x, st')" "has_val x (yylval st')" "feeds E st' xs" "vars st' = vars st"
  using assms by (cases "lex E st") (auto dest: lex_keeps)

text \<open>
  What a parser of the expression \<open>e\<close> gives on its tokens, where the token \<open>x\<close> follows: the value
  of \<open>e\<close>, or any value if it is not to evaluate.
\<close>

definition gives :: "'v arith_env \<Rightarrow> bool \<Rightarrow> aexp \<Rightarrow> 'v \<Rightarrow> stok \<Rightarrow> stok list \<Rightarrow> 'v arith_result option \<Rightarrow> bool" where
  "gives E ne e v x rest r \<longleftrightarrow>
     (if ne then \<exists>a st'. r = Some (Inr (a, st')) \<and> vars st' = v \<and> last_token st' = tok x \<and> feeds E st' rest
      else case eval E e v of
        Inl er \<Rightarrow> r = Some (Inl er)
      | Inr (a, v') \<Rightarrow> \<exists>st'. r = Some (Inr (a, st')) \<and> vars st' = v' \<and> last_token st' = tok x \<and> feeds E st' rest)"

lemma givesE:
  assumes "gives E ne e v x rest r"
  obtains (err) er where "\<not> ne" "eval E e v = Inl er" "r = Some (Inl er)"
  | (val) a v' st' where "ne \<longrightarrow> v' = v" "\<not> ne \<longrightarrow> eval E e v = Inr (a, v')" "r = Some (Inr (a, st'))"
      "vars st' = v'" "last_token st' = tok x" "feeds E st' rest"
  using assms by (cases "ne"; cases "eval E e v") (auto simp: gives_def)

lemma gives_return:
  assumes "ne \<longrightarrow> vars st = v" "\<not> ne \<longrightarrow> eval E e v = Inr (a, vars st)" "last_token st = tok x" "feeds E st rest"
  shows "gives E ne e v x rest (return a st)"
  using assms by (auto simp: gives_def return_def)

lemma gives_error: "\<not> ne \<Longrightarrow> eval E e v = Inl er \<Longrightarrow> gives E ne e v x rest (Some (Inl er))"
  by (simp add: gives_def)

section \<open>Primaries\<close>

abbreviation prim :: "'v arith_env \<Rightarrow> 'v parser" where
  "prim E \<equiv> operand E (\<lambda>t v p. parse E (Primary t v p))"

definition assg :: "'v arith_env \<Rightarrow> 'v parser" where
  "assg E ne st = (case lex E st of (t, st') \<Rightarrow> parse E (Assignment t) ne st')"

lemma prim_Num:
  assumes "feeds E st (SNum (of_nat n) # x # rest)"
  shows "gives E ne (Num n) (vars st) x rest (prim E ne st)"
proof -
  obtain st1 where 1: "lex E st = (ARITH_NUM, st1)" "yylval st1 = Y_val (of_nat n)"
    "feeds E st1 (x # rest)" "vars st1 = vars st"
    using assms by (elim feeds_lex) auto
  obtain st2 where 2: "lex E st1 = (tok x, st2)" "feeds E st2 rest" "vars st2 = vars st1"
    using 1(3) by (elim feeds_lex) auto
  show ?thesis using 1 2
    by (auto simp: operand_def parse_calls primary_def intro!: gives_return)
qed

lemma prim_Var:
  assumes "feeds E st (SVar y # x # rest)"
  shows "gives E ne (Var y) (vars st) x rest (prim E ne st)"
proof -
  obtain st1 p where 1: "lex E st = (ARITH_VAR, st1)" "yylval st1 = Y_name y p"
    "feeds E st1 (x # rest)" "vars st1 = vars st"
    using assms by (elim feeds_lex) auto
  obtain st2 where 2: "lex E st1 = (tok x, st2)" "feeds E st2 rest" "vars st2 = vars st1"
    using 1(3) by (elim feeds_lex) auto
  show ?thesis using 1 2
    by (auto simp: operand_def parse_calls primary_def Let_def lift_error_def yyerror_def
        split: sum.split intro!: gives_return gives_error)
qed

lemma and_then_return: "and_then r (\<lambda>(a, st). return a st) = r"
  by (cases r) (auto simp: and_then_def return_def split: sum.split)

lemma seq_assoc: "and_then (and_then r f) g = and_then r (\<lambda>x. and_then (f x) g)"
  by (cases r) (auto simp: and_then_def split: sum.split)

lemma prim_Unary:
  assumes "feeds E st (SOp op # ts)" "op \<in> {ARITH_ADD, ARITH_SUB, ARITH_NOT, ARITH_BNOT}"
    and "\<And>st'. vars st' = vars st \<Longrightarrow> feeds E st' ts \<Longrightarrow> gives E ne e (vars st) x rest (prim E ne st')"
  shows "gives E ne (Unary op e) (vars st) x rest (prim E ne st)"
proof -
  obtain st1 where 1: "lex E st = (op, st1)" "feeds E st1 ts" "vars st1 = vars st"
    using assms(1) by (elim feeds_lex) auto
  have "prim E ne st = and_then (prim E ne st1) (\<lambda>(a, st). return (apply_unary op a) st)"
    using assms(2) 1(1)
    by (auto simp: operand_def [of E _ ne st] operand_def [of E _ ne st1] parse_calls(1) [of E op]
        primary_def apply_unary_def and_then_return split: prod.split)
  moreover have "gives E ne e (vars st) x rest (prim E ne st1)" using assms(3) 1 by blast
  ultimately show ?thesis
    by (elim givesE) (auto simp: gives_def return_def)
qed

lemma prim_paren:
  assumes "feeds E st (SOp ARITH_LPAREN # ts)"
    and "\<And>st'. vars st' = vars st \<Longrightarrow> feeds E st' ts \<Longrightarrow>
      gives E ne e (vars st) (SOp ARITH_RPAREN) (x # rest) (assg E ne st')"
  shows "gives E ne e (vars st) x rest (prim E ne st)"
proof -
  obtain st1 where 1: "lex E st = (ARITH_LPAREN, st1)" "feeds E st1 ts" "vars st1 = vars st"
    using assms(1) by (elim feeds_lex) auto
  have eq: "prim E ne st = and_then (assg E ne st1) (\<lambda>(result, st).
      if last_token st \<noteq> ARITH_RPAREN then yyerror Expecting_rparen st
      else case lex E st of (t, st) \<Rightarrow> return result (st\<lparr>last_token := t\<rparr>))"
    using 1(1) by (simp add: operand_def assg_def parse_calls(1) primary_def split: prod.split)
  have "gives E ne e (vars st) (SOp ARITH_RPAREN) (x # rest) (assg E ne st1)"
    using assms(2) 1 by blast
  then show ?thesis
  proof (cases rule: givesE)
    case (err er)
    then show ?thesis using eq by (simp add: gives_error)
  next
    case (val a v' st')
    obtain st2 where "lex E st' = (tok x, st2)" "feeds E st2 rest" "vars st2 = vars st'"
      using val(6) by (elim feeds_lex) auto
    then show ?thesis using val by (auto simp: eq intro!: gives_return)
  qed
qed


section \<open>Binary operators\<close>

text \<open>
  What follows an operand in a loop of \<open>binop2\<close> for operators that bind tighter than \<open>q\<close>.
\<close>

definition rest_ops :: "'v arith_env \<Rightarrow> bool \<Rightarrow> nat \<Rightarrow> arith_t \<times> 'v arith_state \<Rightarrow> 'v arith_result option" where
  "rest_ops E ne q = (\<lambda>(a, st). if is_binop (last_token st) \<and> arith_prec (last_token st) < q
     then parse E (Binop2 a (last_token st) q) ne st else return a st)"

lemma arith_prec_less: "arith_prec op < ARITH_MAX_PREC"
  by (simp add: arith_prec_def)

lemma binop_more: "parse E (Binop t v p) ne st = and_then (parse E (Primary t v p) ne st) (rest_ops E ne ARITH_MAX_PREC)"
  unfolding parse_calls(3) binop_def
  by (intro arg_cong [where f = "and_then _"] ext) (auto simp: rest_ops_def arith_prec_less)

lemma binop2_more:
  "parse E (Binop2 a op q) ne st =
     and_then (and_then (prim E ne st) (rest_ops E ne (arith_prec op))) (\<lambda>(b, st).
       case (if ne then Inr b else do_binop op a b) of
         Inl e \<Rightarrow> yyerror e st
       | Inr c \<Rightarrow> rest_ops E ne q (c, st))"
  unfolding parse_calls(2) [of E a op q ne st] binop2_def seq_assoc
  by (intro arg_cong [where f = "and_then _"] ext)
    (auto simp: rest_ops_def higher_prec_def split: sum.split intro!: arg_cong2 [where f = and_then] ext)


text \<open>The tokens that may follow an expression of level \<open>k\<close> without becoming part of it.\<close>

definition follows :: "nat \<Rightarrow> stok \<Rightarrow> bool" where
  "follows k x \<longleftrightarrow> tok x \<in> {0, ARITH_RPAREN, ARITH_COLON} \<or> (tok x = ARITH_QMARK \<and> k \<le> 10) \<or>
     (tok x = ARITH_OR \<and> k \<le> 9) \<or> (tok x = ARITH_AND \<and> k \<le> 8) \<or>
     (is_binop (tok x) \<and> k \<le> arith_prec (tok x) + 1)"

lemma follows_mono: "follows k x \<Longrightarrow> j \<le> k \<Longrightarrow> follows j x"
  by (auto simp: follows_def)

lemma follows_no_binop: "follows 9 x \<Longrightarrow> \<not> is_binop (tok x)"
  using arith_prec_less [of "tok x"] by (auto simp: follows_def is_binop_def)

definition bin_ok :: "'v arith_env \<Rightarrow> aexp \<Rightarrow> stok list \<Rightarrow> nat \<Rightarrow> bool" where
  "bin_ok E e ts k \<longleftrightarrow> (\<forall>q ne st x rest. k \<le> q \<longrightarrow> feeds E st (ts @ x # rest) \<longrightarrow> follows k x \<longrightarrow>
     (\<exists>r. gives E ne e (vars st) x rest r \<and>
        and_then (prim E ne st) (rest_ops E ne q) = and_then r (rest_ops E ne q)))"

definition prim_ok :: "'v arith_env \<Rightarrow> aexp \<Rightarrow> stok list \<Rightarrow> bool" where
  "prim_ok E e ts \<longleftrightarrow> (\<forall>ne st x rest. feeds E st (ts @ x # rest) \<longrightarrow>
     gives E ne e (vars st) x rest (prim E ne st))"

definition level_ok :: "'v arith_env \<Rightarrow> (bool \<Rightarrow> 'v arith_state \<Rightarrow> 'v arith_result option) \<Rightarrow> nat \<Rightarrow>
    aexp \<Rightarrow> stok list \<Rightarrow> bool" where
  "level_ok E p k e ts \<longleftrightarrow> (\<forall>ne st x rest. feeds E st (ts @ x # rest) \<longrightarrow> follows k x \<longrightarrow>
     gives E ne e (vars st) x rest (p ne st))"

lemma prim_bin: "prim_ok E e ts \<Longrightarrow> bin_ok E e ts k"
  unfolding prim_ok_def bin_ok_def by blast

lemma bin_okE:
  assumes "bin_ok E e ts k" "k \<le> q" "feeds E st (ts @ x # rest)" "follows k x"
  obtains r where "gives E ne e (vars st) x rest r"
    "and_then (prim E ne st) (rest_ops E ne q) = and_then r (rest_ops E ne q)"
  using assms unfolding bin_ok_def by blast

lemma more_stop: "\<not> (is_binop (last_token st) \<and> arith_prec (last_token st) < q) \<Longrightarrow> rest_ops E ne q (a, st) = return a st"
  by (auto simp: rest_ops_def)

lemma and_then_return2: "and_then (return a st) f = f (a, st)"
  by (simp add: return_def)

lemma bin_Bin:
  assumes a: "bin_ok E a tsa (arith_prec op + 1)" and b: "bin_ok E b tsb (arith_prec op)"
    and op: "is_binop op" and k: "arith_prec op + 1 \<le> k"
  shows "bin_ok E (Bin op a b) (tsa @ SOp op # tsb) k"
  unfolding bin_ok_def
proof (intro allI impI)
  fix q ne st x rest
  assume q: "k \<le> q" and f: "feeds E st ((tsa @ SOp op # tsb) @ x # rest)" and x: "follows k x"
  let ?R = "\<lambda>t. \<exists>r. gives E ne (Bin op a b) (vars st) x rest r \<and> t = and_then r (rest_ops E ne q)"
  have fa: "follows (arith_prec op + 1) (SOp op)" using op by (simp add: follows_def)
  have fb: "follows (arith_prec op) x" using follows_mono [OF x] k by simp
  have stop: "\<not> (is_binop (tok x) \<and> arith_prec (tok x) < arith_prec op)"
    using k x by (auto simp: follows_def is_binop_def)
  have errR: "?R (Some (Inl er))" if "\<not> ne" "eval E (Bin op a b) (vars st) = Inl er" for er
    using that by (intro exI [of _ "Some (Inl er)"]) (simp add: gives_error)
  obtain r1 where r1: "gives E ne a (vars st) (SOp op) (tsb @ x # rest) r1"
    "and_then (prim E ne st) (rest_ops E ne q) = and_then r1 (rest_ops E ne q)"
    using bin_okE [OF a _ _ fa, of q st "tsb @ x # rest"] f q k by auto
  from r1(1) show "?R (and_then (prim E ne st) (rest_ops E ne q))"
  proof (cases rule: givesE)
    case (err er)
    then show ?thesis using r1(2) errR by simp
  next
    case (val a1 v1 st1)
    have start: "and_then (prim E ne st) (rest_ops E ne q) = parse E (Binop2 a1 op q) ne st1"
      using r1(2) val(3,5) op q k by (simp add: rest_ops_def)
    obtain r2 where r2: "gives E ne b (vars st1) x rest r2"
      "and_then (prim E ne st1) (rest_ops E ne (arith_prec op)) = and_then r2 (rest_ops E ne (arith_prec op))"
      using bin_okE [OF b order_refl val(6) fb] by blast
    note step = start [unfolded binop2_more r2(2)]
    from r2(1) show ?thesis
    proof (cases rule: givesE)
      case (err er)
      then show ?thesis using step errR val(2,4) by simp
    next
      case val2: (val b1 v2 st2)
      have "rest_ops E ne (arith_prec op) (b1, st2) = return b1 st2"
        using stop val2(5) by (intro more_stop) simp
      then have step: "and_then (prim E ne st) (rest_ops E ne q) =
          (case (if ne then Inr b1 else do_binop op a1 b1) of
             Inl e \<Rightarrow> yyerror e st2 | Inr c \<Rightarrow> rest_ops E ne q (c, st2))"
        using step val2(3) by (simp add: and_then_return2)
      show ?thesis
      proof (cases "if ne then Inr b1 else do_binop op a1 b1")
        case (Inl er)
        then show ?thesis using step errR val(2,4) val2(2,4)
          by (auto simp: yyerror_def lift_error_def split: if_splits)
      next
        case (Inr c)
        have "gives E ne (Bin op a b) (vars st) x rest (return c st2)"
          using Inr val(1,2,4) val2(1,2,4-6) by (intro gives_return) (auto simp: lift_error_def)
        then show ?thesis using step Inr by (intro exI [of _ "return c st2"]) (simp add: and_then_return2)
      qed
    qed
  qed
qed


section \<open>The levels above\<close>

abbreviation and_p :: "'v arith_env \<Rightarrow> 'v parser" where
  "and_p E \<equiv> operand E (\<lambda>t v p. parse E (And t v p))"
abbreviation or_p :: "'v arith_env \<Rightarrow> 'v parser" where
  "or_p E \<equiv> operand E (\<lambda>t v p. parse E (Or t v p))"
abbreviation cond_p :: "'v arith_env \<Rightarrow> 'v parser" where
  "cond_p E \<equiv> operand E (\<lambda>t v p. parse E (Cond t v p))"

lemma operand_and_then:
  "operand E (\<lambda>t v p ne st. and_then (f t v p ne st) g) ne st = and_then (operand E f ne st) g"
  by (simp add: operand_def split: prod.split)

lemma binop_gives:
  assumes "bin_ok E e ts 8" "feeds E st (ts @ x # rest)" "follows 8 x" "\<not> is_binop (tok x)"
  shows "gives E ne e (vars st) x rest (operand E (\<lambda>t v p. parse E (Binop t v p)) ne st)"
proof -
  obtain r where r: "gives E ne e (vars st) x rest r"
    "and_then (prim E ne st) (rest_ops E ne 8) = and_then r (rest_ops E ne 8)"
    using bin_okE [OF assms(1) order_refl assms(2,3)] by blast
  have "operand E (\<lambda>t v p. parse E (Binop t v p)) ne st = and_then (prim E ne st) (rest_ops E ne 8)"
    by (simp add: operand_def binop_more split: prod.split)
  moreover have "and_then r (rest_ops E ne 8) = r"
    using r(1) assms(4) by (cases rule: givesE) (auto simp: more_stop return_def)
  ultimately show ?thesis using r by simp
qed

abbreviation binop_p :: "'v arith_env \<Rightarrow> 'v parser" where
  "binop_p E \<equiv> operand E (\<lambda>t v p. parse E (Binop t v p))"

lemma and_p_eq: "and_p E ne st = and_then (binop_p E ne st) (\<lambda>(a, st).
    if last_token st \<noteq> ARITH_AND then return a st
    else and_then (and_p E (ne \<or> a = 0) st) (\<lambda>(b, st). return (of_bool (a \<noteq> 0 \<and> b \<noteq> 0)) st))"
  by (simp add: operand_def [of E _ ne st] parse_calls(4) and_parse_def split: prod.split)

lemma or_p_eq: "or_p E ne st = and_then (and_p E ne st) (\<lambda>(a, st).
    if last_token st \<noteq> ARITH_OR then return a st
    else and_then (or_p E (ne \<or> a \<noteq> 0) st) (\<lambda>(b, st). return (of_bool (a \<noteq> 0 \<or> b \<noteq> 0)) st))"
  by (simp add: operand_def [of E _ ne st] parse_calls(5) or_parse_def split: prod.split)

lemma assg_and_then:
  "and_then (assg E ne st) g = (case lex E st of (t, st') \<Rightarrow> and_then (parse E (Assignment t) ne st') g)"
  by (simp add: assg_def split: prod.split)

lemma cond_p_eq: "cond_p E ne st = and_then (or_p E ne st) (\<lambda>(a, st).
    if last_token st \<noteq> ARITH_QMARK then return a st
    else and_then (assg E (ne \<or> a = 0) st) (\<lambda>(b, st).
      if last_token st \<noteq> ARITH_COLON then yyerror Expecting_colon st
      else and_then (cond_p E (ne \<or> a \<noteq> 0) st) (\<lambda>(c, st). return (if a \<noteq> 0 then b else c) st)))"
  by (simp add: operand_def [of E _ ne st] parse_calls(6) cond_def assg_and_then split: prod.split cong: if_cong)

text \<open>A level accepts what the level below accepts.\<close>

lemma level_lift:
  assumes "\<And>ne st x rest. feeds E st (ts @ x # rest) \<Longrightarrow> follows k x \<Longrightarrow>
      gives E ne e (vars st) x rest (p ne st)"
    and "\<And>x. follows k x \<Longrightarrow> tok x \<noteq> t"
    and "\<And>ne st. p' ne st = and_then (p ne st) (\<lambda>(a, st). if last_token st \<noteq> t then return a st else g ne a st)"
  shows "level_ok E p' k e ts"
  unfolding level_ok_def
proof (intro allI impI)
  fix ne st x rest assume f: "feeds E st (ts @ x # rest)" and x: "follows k x"
  show "gives E ne e (vars st) x rest (p' ne st)"
    using assms(1) [OF f x, of ne] assms(2) [OF x]
    by (auto simp: assms(3) elim!: givesE intro!: gives_return gives_error)
qed

lemma and_lift:
  assumes "bin_ok E e ts 8" shows "level_ok E (and_p E) 9 e ts"
proof (rule level_lift [OF _ _ and_p_eq])
  fix ne st x rest assume f: "feeds E st (ts @ x # rest)" and x: "follows 9 x"
  show "gives E ne e (vars st) x rest (binop_p E ne st)"
    using binop_gives [OF assms f] follows_mono [OF x] follows_no_binop [OF x] by simp
qed (auto simp: follows_def is_binop_def)

lemma or_lift:
  assumes "level_ok E (and_p E) 9 e ts" shows "level_ok E (or_p E) 10 e ts"
  using assms unfolding level_ok_def
  by (intro level_lift [OF _ _ or_p_eq, unfolded level_ok_def] allI impI)
    (auto dest: follows_mono [of 10 _ 9] simp: follows_def is_binop_def)

lemma cond_lift:
  assumes "level_ok E (or_p E) 10 e ts" shows "level_ok E (cond_p E) 11 e ts"
  using assms unfolding level_ok_def
  by (intro level_lift [OF _ _ cond_p_eq, unfolded level_ok_def] allI impI)
    (auto dest: follows_mono [of 11 _ 10] simp: follows_def is_binop_def)

lemma and_Conj:
  assumes a: "bin_ok E a tsa 8" and b: "level_ok E (and_p E) 9 b tsb"
  shows "level_ok E (and_p E) 9 (Conj a b) (tsa @ SOp ARITH_AND # tsb)"
  unfolding level_ok_def
proof (intro allI impI)
  fix ne st x rest assume f: "feeds E st ((tsa @ SOp ARITH_AND # tsb) @ x # rest)" and x: "follows 9 x"
  have "gives E ne a (vars st) (SOp ARITH_AND) (tsb @ x # rest) (binop_p E ne st)"
    using binop_gives [OF a] f by (simp add: follows_def is_binop_def)
  then show "gives E ne (Conj a b) (vars st) x rest (and_p E ne st)"
  proof (cases rule: givesE)
    case (err er)
    then show ?thesis by (simp add: and_p_eq [of E _ st] gives_error)
  next
    case (val a1 v1 st1)
    then have "gives E (ne \<or> a1 = 0) b (vars st1) x rest (and_p E (ne \<or> a1 = 0) st1)"
      using b x unfolding level_ok_def by blast
    then show ?thesis using val
      by (cases rule: givesE) (auto simp: and_p_eq [of E _ st] intro!: gives_return gives_error)
  qed
qed

lemma or_Disj:
  assumes a: "level_ok E (and_p E) 9 a tsa" and b: "level_ok E (or_p E) 10 b tsb"
  shows "level_ok E (or_p E) 10 (Disj a b) (tsa @ SOp ARITH_OR # tsb)"
  unfolding level_ok_def
proof (intro allI impI)
  fix ne st x rest assume f: "feeds E st ((tsa @ SOp ARITH_OR # tsb) @ x # rest)" and x: "follows 10 x"
  have "gives E ne a (vars st) (SOp ARITH_OR) (tsb @ x # rest) (and_p E ne st)"
    using a f by (simp add: level_ok_def follows_def)
  then show "gives E ne (Disj a b) (vars st) x rest (or_p E ne st)"
  proof (cases rule: givesE)
    case (err er)
    then show ?thesis by (simp add: or_p_eq [of E _ st] gives_error)
  next
    case (val a1 v1 st1)
    then have "gives E (ne \<or> a1 \<noteq> 0) b (vars st1) x rest (or_p E (ne \<or> a1 \<noteq> 0) st1)"
      using b x unfolding level_ok_def by blast
    then show ?thesis using val
      by (cases rule: givesE) (auto simp: or_p_eq [of E _ st] intro!: gives_return gives_error)
  qed
qed

lemma cond_Choice:
  assumes a: "level_ok E (or_p E) 10 a tsa" and b: "level_ok E (assg E) 12 b tsb"
    and c: "level_ok E (cond_p E) 11 c tsc"
  shows "level_ok E (cond_p E) 11 (Choice a b c) (tsa @ SOp ARITH_QMARK # tsb @ SOp ARITH_COLON # tsc)"
  unfolding level_ok_def
proof (intro allI impI)
  fix ne st x rest
  assume f: "feeds E st ((tsa @ SOp ARITH_QMARK # tsb @ SOp ARITH_COLON # tsc) @ x # rest)"
    and x: "follows 11 x"
  have "gives E ne a (vars st) (SOp ARITH_QMARK) (tsb @ SOp ARITH_COLON # tsc @ x # rest) (or_p E ne st)"
    using a f by (simp add: level_ok_def follows_def)
  then show "gives E ne (Choice a b c) (vars st) x rest (cond_p E ne st)"
  proof (cases rule: givesE)
    case (err er)
    then show ?thesis by (simp add: cond_p_eq [of E _ st] gives_error)
  next
    case (val a1 v1 st1)
    let ?nb = "ne \<or> a1 = 0" and ?nc = "ne \<or> a1 \<noteq> 0"
    have "gives E ?nb b (vars st1) (SOp ARITH_COLON) (tsc @ x # rest) (assg E ?nb st1)"
      using b val(6) by (simp add: level_ok_def follows_def)
    then show ?thesis
    proof (cases rule: givesE)
      case (err er)
      then show ?thesis using val by (auto simp: cond_p_eq [of E _ st] gives_error)
    next
      case val2: (val b1 v2 st2)
      have "gives E ?nc c (vars st2) x rest (cond_p E ?nc st2)"
        using c x val2(6) unfolding level_ok_def by blast
      then show ?thesis using val val2
        by (cases rule: givesE) (auto simp: cond_p_eq [of E _ st] intro!: gives_return gives_error)
    qed
  qed
qed


section \<open>Assignments\<close>

text \<open>The tokens do not begin with an assignment.\<close>

fun no_asg :: "stok list \<Rightarrow> bool" where
  "no_asg (x # ts) \<longleftrightarrow> (tok x = ARITH_VAR \<longrightarrow> ts \<noteq> [] \<and> \<not> is_assop (tok (hd ts)))"
| "no_asg [] \<longleftrightarrow> False"

lemma assg_is_cond:
  assumes "feeds E st ts" "no_asg ts"
  shows "assg E ne st = cond_p E ne st"
proof -
  obtain x ts' where ts: "ts = x # ts'" using assms(2) by (cases ts) auto
  obtain st1 where 1: "lex E st = (tok x, st1)" "feeds E st1 ts'"
    using assms(1) ts by (auto elim: feeds_lex)
  obtain op st2 where 2: "lex E st1 = (op, st2)" by fastforce
  have "op = tok (hd ts')" if "ts' \<noteq> []" using 1(2) 2 that by (cases ts') auto
  then have "\<not> (tok x = ARITH_VAR \<and> is_assop op)" using assms(2) ts by auto
  then show ?thesis
    using 1(1) 2 by (auto simp: assg_def operand_def parse_calls(7) assignment_def is_assop_def)
qed

lemma assg_lift:
  assumes "level_ok E (cond_p E) 11 e ts" "\<And>x rest. follows 12 x \<Longrightarrow> no_asg (ts @ x # rest)"
  shows "level_ok E (assg E) 12 e ts"
  using assms assg_is_cond [of E _ "ts @ _ # _"] follows_mono [of 12 _ 11] unfolding level_ok_def by simp

lemma assg_Asg:
  assumes e: "level_ok E (assg E) 12 e ts" and op: "is_assop op"
  shows "level_ok E (assg E) 12 (Asg op y e) (SVar y # SOp op # ts)"
  unfolding level_ok_def
proof (intro allI impI)
  fix ne st x rest assume f: "feeds E st ((SVar y # SOp op # ts) @ x # rest)" and x: "follows 12 x"
  from f have f': "feeds E st (SVar y # SOp op # ts @ x # rest)" by (simp del: feeds.simps)
  obtain st1 p where 1: "lex E st = (ARITH_VAR, st1)" "yylval st1 = Y_name y p"
    "feeds E st1 (SOp op # ts @ x # rest)" "vars st1 = vars st"
    using f' by (elim feeds_lex) auto
  obtain st2 where 2: "lex E st1 = (op, st2)" "feeds E st2 (ts @ x # rest)" "vars st2 = vars st1"
    using 1(3) by (elim feeds_lex) auto
  have eq: "assg E ne st = and_then (assg E ne st2) (\<lambda>(result, st).
      if ne then return result st
      else case (if op \<noteq> ARITH_ASS then err_bind (arith_lookupvarint E (vars st) y)
                   (\<lambda>v. do_binop (op - 11) v result) else Inr result) of
        Inl e \<Rightarrow> yyerror e st
      | Inr result \<Rightarrow> (case set_value E (vars st) y (dec_int (sint result)) of
          Inl v \<Rightarrow> Some (Inl (Setvar_failed, v)) | Inr v \<Rightarrow> return result (st\<lparr>vars := v\<rparr>)))"
    using op 1(1,2) 2(1)
    by (auto simp: assg_def [of E ne st] parse_calls(7) [of E ARITH_VAR ne st1] assignment_def
        is_assop_def assg_and_then Let_def cong: if_cong sum.case_cong)
  have "gives E ne e (vars st) x rest (assg E ne st2)"
    using e x 2 1(4) unfolding level_ok_def by metis
  then show "gives E ne (Asg op y e) (vars st) x rest (assg E ne st)"
  proof (cases rule: givesE)
    case (err er)
    then show ?thesis using eq by (simp add: gives_error)
  next
    case (val a v1 st1)
    then show ?thesis using eq
      by (auto simp: lift_error_def yyerror_def split: sum.split intro!: gives_return gives_error)
  qed
qed

section \<open>All expressions\<close>

definition full :: "'v arith_env \<Rightarrow> aexp \<Rightarrow> bool" where
  "full E e \<longleftrightarrow> prim_ok E e (pr 0 e) \<and> (\<forall>k \<le> 8. bin_ok E e (pr k e) k) \<and>
     level_ok E (and_p E) 9 e (pr 9 e) \<and> level_ok E (or_p E) 10 e (pr 10 e) \<and>
     level_ok E (cond_p E) 11 e (pr 11 e) \<and> level_ok E (assg E) 12 e (body e)"

lemma prim_wrap:
  assumes "level_ok E (assg E) 12 e (body e)"
  shows "prim_ok E e (wrap False (body e))"
  unfolding prim_ok_def
proof (intro allI impI)
  fix ne st x rest assume f: "feeds E st (wrap False (body e) @ x # rest)"
  show "gives E ne e (vars st) x rest (prim E ne st)"
  proof (rule prim_paren)
    show "feeds E st (SOp ARITH_LPAREN # body e @ SOp ARITH_RPAREN # x # rest)"
      using f by (simp add: wrap_def)
    show "gives E ne e (vars st) (SOp ARITH_RPAREN) (x # rest) (assg E ne st')"
      if "vars st' = vars st" "feeds E st' (body e @ SOp ARITH_RPAREN # x # rest)" for st'
      using assms that by (auto simp: level_ok_def follows_def dest!: spec)
  qed
qed

lemma fullI:
  assumes "level e = 0 \<Longrightarrow> prim_ok E e (body e)"
    and "\<And>k. 1 \<le> level e \<Longrightarrow> level e \<le> k \<Longrightarrow> k \<le> 8 \<Longrightarrow> bin_ok E e (body e) k"
    and "level e = 9 \<Longrightarrow> level_ok E (and_p E) 9 e (body e)"
    and "level e = 10 \<Longrightarrow> level_ok E (or_p E) 10 e (body e)"
    and "level e = 11 \<Longrightarrow> level_ok E (cond_p E) 11 e (body e)"
    and "level e = 12 \<Longrightarrow> level_ok E (assg E) 12 e (body e)"
    and "\<And>x rest. level e \<le> 11 \<Longrightarrow> follows 12 x \<Longrightarrow> no_asg (body e @ x # rest)"
    and "level e \<le> 12"
  shows "full E e"
proof -
  let ?b = "body e" and ?w = "wrap False (body e)"
  have bin: "bin_ok E e ?b k" if "level e \<le> k" "k \<le> 8" for k
    using assms(1) assms(2) [of k] that prim_bin by (cases "level e = 0") auto
  have conj: "level_ok E (and_p E) 9 e ?b" if "level e \<le> 9"
    using bin [of 8] assms(3) that and_lift by (cases "level e = 9") auto
  have disj: "level_ok E (or_p E) 10 e ?b" if "level e \<le> 10"
    using conj assms(4) that or_lift by (cases "level e = 10") auto
  have cond: "level_ok E (cond_p E) 11 e ?b" if "level e \<le> 11"
    using disj assms(5) that cond_lift by (cases "level e = 11") auto
  have asg: "level_ok E (assg E) 12 e ?b"
  proof (cases "level e = 12")
    case False
    then have "level e \<le> 11" using assms(8) by simp
    then show ?thesis using assg_lift [OF cond assms(7)] by blast
  qed (use assms(6) in blast)
  note w = prim_wrap [OF asg]
  have w': "level_ok E (and_p E) 9 e ?w" "level_ok E (or_p E) 10 e ?w" "level_ok E (cond_p E) 11 e ?w"
    using w by (simp_all add: prim_bin and_lift or_lift cond_lift)
  have pr: "pr k e = (if level e \<le> k then ?b else ?w)" for k by (simp add: pr_def wrap_def)
  show ?thesis
    using w w' assms(1) bin conj disj cond asg unfolding full_def pr by (auto intro: prim_bin)
qed

lemma level_le: "level e \<le> 12"
  by (cases e) (auto simp: arith_prec_def)

lemma no_asg_wrap:
  "no_asg (ts @ x # rest) \<or> \<not> b \<Longrightarrow> no_asg (wrap b ts @ x # rest)"
  by (auto simp: wrap_def)

lemma no_asg_left:
  assumes "\<And>x rest. level a \<le> 11 \<Longrightarrow> \<not> is_assop (tok x) \<Longrightarrow> no_asg (body a @ x # rest)"
    and "k \<le> 11" "\<not> is_assop op"
  shows "no_asg (wrap (level a \<le> k) (body a) @ SOp op # r)"
  using assms(1) [of "SOp op"] assms(2,3) by (intro no_asg_wrap) auto

lemma no_asg_body:
  "valid e \<Longrightarrow> level e \<le> 11 \<Longrightarrow> \<not> is_assop (tok x) \<Longrightarrow> no_asg (body e @ x # rest)"
proof (induction e arbitrary: x rest)
  case (Bin op a b)
  have "arith_prec op + 1 \<le> 11" by (simp add: arith_prec_def)
  moreover have "\<not> is_assop op" using Bin.prems(1) by (auto simp: is_assop_def is_binop_def)
  ultimately show ?case using no_asg_left [OF Bin.IH(1)] Bin.prems(1) by simp
next
  case (Conj a b)
  then show ?case using no_asg_left [OF Conj.IH(1), of 8 ARITH_AND] by (simp add: is_assop_def)
next
  case (Disj a b)
  then show ?case using no_asg_left [OF Disj.IH(1), of 9 ARITH_OR] by (simp add: is_assop_def)
next
  case (Choice a b c)
  then show ?case using no_asg_left [OF Choice.IH(1), of 10 ARITH_QMARK] by (simp add: is_assop_def)
qed auto

lemma follows_no_assop: "follows 12 x \<Longrightarrow> \<not> is_assop (tok x)"
  by (auto simp: follows_def is_assop_def is_binop_def)

lemma prim_okI:
  "(\<And>ne st x rest. feeds E st (ts @ x # rest) \<Longrightarrow> gives E ne e (vars st) x rest (prim E ne st)) \<Longrightarrow>
   prim_ok E e ts"
  by (simp add: prim_ok_def)

lemma parse_full: "valid e \<Longrightarrow> full E e"
proof (induction e)
  case (Num n)
  show ?case
    by (rule fullI) (auto intro!: prim_okI prim_Num simp del: feeds.simps)
next
  case (Var x)
  show ?case
    by (rule fullI) (auto intro!: prim_okI prim_Var simp: follows_no_assop simp del: feeds.simps)
next
  case (Unary op e)
  have "prim_ok E (Unary op e) (body (Unary op e))"
  proof (rule prim_okI)
    fix ne st x rest assume "feeds E st (body (Unary op e) @ x # rest)"
    then have "feeds E st (SOp op # pr 0 e @ x # rest)" by (simp add: pr_def del: feeds.simps)
    moreover have "prim_ok E e (pr 0 e)" "op \<in> {ARITH_ADD, ARITH_SUB, ARITH_NOT, ARITH_BNOT}"
      using Unary by (simp_all add: full_def)
    ultimately show "gives E ne (Unary op e) (vars st) x rest (prim E ne st)"
      unfolding prim_ok_def by (intro prim_Unary) (assumption | metis)+
  qed
  moreover have "no_asg (body (Unary op e) @ x # rest)" if "follows 12 x" for x rest
    using no_asg_body [OF Unary.prems _ follows_no_assop [OF that]] by simp
  ultimately show ?case by (intro fullI) auto
next
  case (Bin op a b)
  have k: "arith_prec op + 1 \<le> 8" by (simp add: arith_prec_def)
  show ?case
  proof (rule fullI)
    fix k assume "level (Bin op a b) \<le> k"
    then show "bin_ok E (Bin op a b) (body (Bin op a b)) k"
      using Bin k by (auto simp: full_def pr_def intro!: bin_Bin)
  qed (use k no_asg_body [OF Bin.prems] follows_no_assop in auto)
next
  case (Conj a b)
  then show ?case
    by (intro fullI) (auto simp: full_def pr_def intro!: and_Conj no_asg_body [of "Conj a b", simplified] dest: follows_no_assop)
next
  case (Disj a b)
  then show ?case
    by (intro fullI) (auto simp: full_def pr_def intro!: or_Disj no_asg_body [of "Disj a b", simplified] dest: follows_no_assop)
next
  case (Choice a b c)
  then show ?case
    by (intro fullI) (auto simp: full_def pr_def intro!: cond_Choice no_asg_body [of "Choice a b c", simplified] dest: follows_no_assop)
next
  case (Asg op y e)
  then show ?case by (intro fullI) (auto simp: full_def intro!: assg_Asg)
next
  case (Par e)
  then have "prim_ok E e (wrap False (body e))" by (intro prim_wrap) (simp add: full_def)
  then have "prim_ok E (Par e) (body (Par e))"
    by (simp add: prim_ok_def wrap_def gives_def)
  then show ?case by (intro fullI) auto
qed

lemma arith_tokens:
  assumes "valid e" "feeds E \<lparr>arith_buf = s, yylval = Y_val 0, last_token = 0, vars = v\<rparr> (body e @ [SOp 0])"
  shows "arith E v s = Some (eval E e v)"
proof -
  let ?st = "\<lparr>arith_buf = s, yylval = Y_val 0, last_token = 0, vars = v\<rparr>"
  have "level_ok E (assg E) 12 e (body e)" using parse_full [OF assms(1), of E] by (simp add: full_def)
  moreover have "follows 12 (SOp 0)" by (simp add: follows_def)
  ultimately have "gives E False e (vars ?st) (SOp 0) [] (assg E False ?st)"
    using assms(2) unfolding level_ok_def by blast
  moreover have "arith E v s = and_then (assg E False ?st) (\<lambda>(result, st).
      if last_token st \<noteq> 0 then Some (Inl (Expecting_EOF, vars st)) else Some (Inr (result, vars st)))"
    by (simp add: arith_def assg_def Let_def split: prod.split)
  ultimately show ?thesis by (auto elim: givesE)
qed

section \<open>Texts\<close>

definition op_texts :: "(nat \<times> string) list" where
  "op_texts =
     [(ARITH_ASS, ''=''), (ARITH_OR, ''||''), (ARITH_AND, ''&&''), (ARITH_NOT, ''!''),
      (ARITH_LE, ''<=''), (ARITH_GE, ''>=''), (ARITH_LT, ''<''), (ARITH_GT, ''>''),
      (ARITH_EQ, ''==''), (ARITH_REM, ''%''), (ARITH_BAND, ''&''), (ARITH_LSHIFT, ''<<''),
      (ARITH_RSHIFT, ''>>''), (ARITH_MUL, ''*''), (ARITH_ADD, ''+''), (ARITH_BOR, ''|''),
      (ARITH_SUB, ''-''), (ARITH_BXOR, ''^''), (ARITH_DIV, ''/''), (ARITH_NE, ''!=''),
      (24, ''%=''), (25, ''&=''), (26, ''<<=''), (27, ''>>=''), (28, ''*=''), (29, ''+=''),
      (30, ''|=''), (31, ''-=''), (32, ''^=''), (33, ''/=''), (ARITH_LPAREN, ''(''),
      (ARITH_RPAREN, '')''), (ARITH_BNOT, ''~''), (ARITH_QMARK, ''?''), (ARITH_COLON, '':'')]"

fun tok_text :: "stok \<Rightarrow> string" where
  "tok_text (SNum v) = dec_nat (unat v)"
| "tok_text (SVar n) = n"
| "tok_text (SOp op) = the (map_of op_texts op)"

text \<open>The tokens with blanks between them.\<close>

inductive spells :: "stok list \<Rightarrow> string \<Rightarrow> bool" where
  spells_Nil: "list_all blank b \<Longrightarrow> spells [] b"
| spells_Cons: "list_all blank b \<Longrightarrow> spells ts s \<Longrightarrow> s = [] \<or> blank (hd s) \<Longrightarrow>
    spells (t # ts) (b @ tok_text t @ s)"

fun ok_tok :: "stok \<Rightarrow> bool" where
  "ok_tok (SNum v) \<longleftrightarrow> unat v < 2 ^ 63"
| "ok_tok (SVar n) \<longleftrightarrow> n \<noteq> [] \<and> is_name (hd n) \<and> list_all is_in_name n"
| "ok_tok (SOp op) \<longleftrightarrow> op \<in> fst ` set op_texts"

lemma op_texts_fst: "map fst op_texts = [1, 2, 3] @ [7..<39]"
  by (simp add: op_texts_def)

lemma op_texts_range: "op \<in> fst ` set op_texts \<longleftrightarrow> op \<in> {1, 2, 3} \<or> 7 \<le> op \<and> op < 39"
  unfolding set_map [symmetric] op_texts_fst set_append set_upt by auto

lemma ok_wrap: "list_all ok_tok (wrap b ts) \<longleftrightarrow> list_all ok_tok ts"
  by (auto simp: wrap_def op_texts_range)

lemma body_ok: "valid e \<Longrightarrow> list_all ok_tok (body e)"
  by (induction e) (auto simp: ok_wrap op_texts_range is_binop_def is_assop_def unat_of_nat)

section \<open>Lexing a text\<close>

definition stopped :: "string \<Rightarrow> bool" where
  "stopped s \<longleftrightarrow> s = [] \<or> blank (hd s)"

lemma blank_char: "blank c \<longleftrightarrow> of_char c \<in> {32, 9, 10 :: nat}"
proof -
  have "c = d \<longleftrightarrow> of_char c = (of_char d :: nat)" for d by simp
  from this [of "CHR '' ''"] this [of "CHR 0x09"] this [of "CHR 0x0A"] show ?thesis
    by (simp add: blank_def)
qed

lemma stopped_cur:
  assumes "stopped s"
  shows "cur s \<notin> set ''=><|&+-''" "\<not> is_in_name (cur s)"
    "s \<noteq> [] \<Longrightarrow> b \<le> 36 \<Longrightarrow> digit_val b (hd s) = None" "s \<noteq> [] \<Longrightarrow> hd s \<noteq> CHR ''x'' \<and> hd s \<noteq> CHR ''X''"
proof -
  have "of_char (cur s) \<in> {0, 32, 9, 10 :: nat}"
    using assms by (auto simp: stopped_def cur_def blank_char)
  then show "cur s \<notin> set ''=><|&+-''" "\<not> is_in_name (cur s)"
    by (auto simp: is_in_name_def is_name_def isdigit_def Let_def of_char_int)
  show "digit_val b (hd s) = None" if "s \<noteq> []" "b \<le> 36"
    using assms that by (auto simp: stopped_def blank_char digit_val_def Let_def of_char_int)
  show "hd s \<noteq> CHR ''x'' \<and> hd s \<noteq> CHR ''X''" if "s \<noteq> []"
    using assms that by (auto simp: stopped_def blank_def)
qed

lemma op_text_lexes:
  assumes "(op, t) \<in> set op_texts" "stopped s"
  shows "yylex_op (t @ s) = Some (op, s) \<and> t \<noteq> [] \<and> \<not> blank (hd t) \<and> \<not> isdigit (hd t) \<and> \<not> is_name (hd t)"
proof -
  have *: "cur s \<noteq> CHR ''=''" "cur s \<noteq> CHR ''>''" "cur s \<noteq> CHR ''<''" "cur s \<noteq> CHR ''|''" "cur s \<noteq> CHR ''&''"
    "cur s \<noteq> CHR ''+''" "cur s \<noteq> CHR ''-''"
    using stopped_cur(1) [OF assms(2)] by auto
  have cur: "cur (c # r) = c" for c r by (simp add: cur_def)
  show ?thesis using assms(1) unfolding op_texts_def
    by (auto simp: yylex_op_def cur * checkeqcur_def blank_def isdigit_def is_name_def)
qed


lemma digits_val_stop: "stopped s \<Longrightarrow> b \<le> 36 \<Longrightarrow> digits_val b s n = (n, s)"
  using stopped_cur(3) [of s b] by (cases s) auto

lemma dec_nat_0: "dec_nat 0 = ''0''"
  by (simp add: dec_nat.simps [of 0]) code_simp

lemma strtoumax0_dec:
  assumes "stopped s"
  shows "strtoumax0 (dec_nat n @ s) = (int n, s)"
proof (cases "n = 0")
  case True
  have "digit_val 8 (CHR ''0'') = Some 0" by (simp add: digit_val_def)
  moreover have "\<not> (length (''0'' @ s) > 2 \<and> (''0'' @ s) ! 1 \<in> {CHR ''x'', CHR ''X''})"
    using stopped_cur(4) [OF assms] by (cases s) auto
  ultimately show ?thesis
    using True digits_val_stop [OF assms, of 8 0] by (auto simp: strtoumax0_def dec_nat_0)
next
  case False
  obtain d :: nat where d: "d < 10" "hd (dec_nat n) = char_of (48 + d)" "d > 0" "dec_nat n \<noteq> []"
    using dec_nat_hd [of n] False by auto
  then have "hd (dec_nat n @ s) \<noteq> CHR ''0''" using digit_char_facts(5) [OF d(1)] by simp
  then show ?thesis
    using digits_val_dec [of n s 0] digits_val_stop [OF assms, of 10] by (simp add: strtoumax0_def)
qed

lemma dec_nat_digit: "dec_nat n \<noteq> []" "isdigit (hd (dec_nat n))"
  using dec_nat_hd [of n] digit_char_facts(2) by auto

lemma strtoarith_dec:
  assumes "stopped s" "n < 2 ^ 63"
  shows "strtoarith_t ei (dec_nat n @ s) = (of_nat n, False, s)"
proof -
  let ?t = "dec_nat n @ s"
  have h: "?t \<noteq> []" "isdigit (hd ?t)" using dec_nat_digit [of n] by auto
  have "dropWhile isspace ?t = ?t" using h isdigit_char(1) by (cases ?t) auto
  moreover have "c_integer ?t = Some (int n, s)"
    using h isdigit_char(2,3) strtoumax0_dec [OF assms(1)] by (auto simp: c_integer_def)
  moreover have "0 \<le> sint (of_nat n :: u64)"
    using assms(2) by (simp add: signed_of_nat signed_take_bit_eq_if_positive bit_iff_odd)
  ultimately show ?thesis
    using assms(2) h(2) isdigit_char(2) [of "hd ?t"] by (auto simp: strtoarith_t_def Let_def)
qed

lemma takeWhile_name:
  assumes "list_all is_in_name n" "stopped s"
  shows "takeWhile is_in_name (n @ s) = n" "dropWhile is_in_name (n @ s) = s"
proof -
  have s: "s = [] \<or> \<not> is_in_name (hd s)" using stopped_cur(2) [OF assms(2)] by (auto simp: cur_def)
  show "takeWhile is_in_name (n @ s) = n" "dropWhile is_in_name (n @ s) = s"
    using assms(1) s by (induction n; cases s; simp)+
qed

lemma name_char: "is_name c \<Longrightarrow> \<not> blank c \<and> \<not> isdigit c"
  by (auto simp: is_name_def blank_char isdigit_def Let_def of_char_int)

lemma dropWhile_blank: "list_all blank b \<Longrightarrow> t \<noteq> [] \<Longrightarrow> \<not> blank (hd t) \<Longrightarrow> dropWhile blank (b @ t @ s) = t @ s"
  by (induction b) (cases t, auto)

lemma yylex_token:
  assumes "list_all blank b" "ok_tok t" "stopped s"
  shows "\<exists>yl'. yylex ad (b @ tok_text t @ s) yl = (tok t, s, yl') \<and> has_val t yl'"
proof (cases t)
  case (SNum v)
  let ?d = "dec_nat (unat v)"
  have d: "?d \<noteq> []" "isdigit (hd ?d)" "\<not> blank (hd ?d)" using dec_nat_digit isdigit_char by blast+
  have "strtoarith_t False (?d @ s) = (v, False, s)"
    using strtoarith_dec [OF assms(3), of "unat v" False] assms(2) SNum by simp
  then show ?thesis using SNum d dropWhile_blank [OF assms(1) d(1,3), of s]
    by (simp add: yylex_def cur_def)
next
  case (SVar n)
  have n: "n \<noteq> []" "is_name (hd n)" "list_all is_in_name n" "\<not> blank (hd n)" "\<not> isdigit (hd n)"
    using assms(2) SVar name_char by auto
  then show ?thesis
    using SVar dropWhile_blank [OF assms(1) n(1,4), of s] takeWhile_name [OF n(3) assms(3)]
    by (simp add: yylex_def cur_def)
next
  case (SOp op)
  obtain u where u: "map_of op_texts op = Some u" "(op, u) \<in> set op_texts"
    using assms(2) SOp by (cases "map_of op_texts op") (auto simp: map_of_eq_None_iff dest: map_of_SomeD)
  note l = op_text_lexes [OF u(2) assms(3)]
  then show ?thesis
    using SOp u(1) dropWhile_blank [OF assms(1), of u s] by (simp add: yylex_def cur_def)
qed

lemma spells_stopped: "spells ts s \<Longrightarrow> s = [] \<or> blank (hd s) \<Longrightarrow> stopped s"
  by (simp add: stopped_def)

lemma spells_feeds:
  "spells ts s \<Longrightarrow> list_all ok_tok ts \<Longrightarrow> arith_buf st = s \<Longrightarrow> feeds E st (ts @ [SOp 0])"
proof (induction ts s arbitrary: st rule: spells.induct)
  case (spells_Nil b)
  have "dropWhile blank b = []" using spells_Nil(1) by (simp add: list_all_iff)
  then show ?case using spells_Nil
    by (auto simp: lex_def yylex_def yylex_op_def cur_def isdigit_def is_name_def)
next
  case (spells_Cons b ts s t)
  have s: "stopped s" using spells_Cons(3) by (simp add: stopped_def)
  obtain yl' where y: "yylex (addr E) (arith_buf st) (yylval st) = (tok t, s, yl')" "has_val t yl'"
    using yylex_token [OF spells_Cons(1) _ s] spells_Cons.prems by fastforce
  then show ?case using spells_Cons.IH spells_Cons.prems(1) by (auto simp: lex_def)
qed

lemma arith_spells:
  assumes "valid e" "spells (body e) s"
  shows "arith E v s = Some (eval E e v)"
  by (rule arith_tokens [OF assms(1) spells_feeds [OF assms(2) body_ok [OF assms(1)]]]) simp

lemma spells_text: "spells ts (concat (map (\<lambda>t. CHR '' '' # tok_text t) ts))"
proof (induction ts)
  case (Cons t ts)
  have "concat (map (\<lambda>t. CHR '' '' # tok_text t) ts) = [] \<or> blank (hd (concat (map (\<lambda>t. CHR '' '' # tok_text t) ts)))"
    by (cases ts) (simp_all add: blank_def)
  then show ?case using spells_Cons [of "[CHR '' '']", OF _ Cons] by (simp add: blank_def)
qed (simp add: spells_Nil)

text \<open>
  C11. The parser agrees with the reference: on a text with the tokens of an expression, with the
  parentheses that the precedences ask for, it computes the value of the tree, makes its assignments
  and fails with its error; operands that decide nothing are read but not evaluated.
\<close>

theorem arith_computes_reference:
  assumes "valid e" "spells (body e) s"
  shows "arith E v s = Some (eval E e v)"
  by (rule arith_spells [OF assms])

theorem arith_computes_reference_witness:
  "let E = \<lparr>addr = \<lambda>_. 0, einval = False, uflag = False,
        get_value = \<lambda>v n. if n = ''x'' then Some ''4'' else None, set_value = \<lambda>v n s. Inr (v @ [(n, s)])\<rparr>
   in arith E [] '' y = 20 - 3 - 2 * x && 1 / 0 ? 1 : 7'' = Some (Inl (Division_by_zero, [])) \<and>
      arith E [] '' y = 20 - 3 - 2 * x'' = Some (Inr (9, [(''y'', ''9'')]))"
proof -
  let ?E = "\<lparr>addr = \<lambda>_. 0, einval = False, uflag = False,
        get_value = \<lambda>v n. if n = ''x'' then Some ''4'' else None, set_value = \<lambda>v n s. Inr (v @ [(n, s)])\<rparr>"
  let ?a = "Bin ARITH_SUB (Bin ARITH_SUB (Num 20) (Num 3)) (Bin ARITH_MUL (Num 2) (Var ''x''))"
  let ?e = "Asg ARITH_ASS ''y'' ?a"
  let ?f = "Asg ARITH_ASS ''y'' (Choice (Conj ?a (Bin ARITH_DIV (Num 1) (Num 0))) (Num 1) (Num 7))"
  have t: "concat (map (\<lambda>t. CHR '' '' # tok_text t) (body ?e)) = '' y = 20 - 3 - 2 * x''"
    "concat (map (\<lambda>t. CHR '' '' # tok_text t) (body ?f)) = '' y = 20 - 3 - 2 * x && 1 / 0 ? 1 : 7''" by code_simp+
  have v: "valid ?e" "valid ?f" by (simp_all add: is_assop_def is_binop_def is_name_def is_in_name_def isdigit_def)
  have e: "eval ?E ?e [] = Inr (9, [(''y'', ''9'')])" "eval ?E ?f [] = Inl (Division_by_zero, [])" by code_simp+
  show ?thesis
    using arith_computes_reference [OF v(1) spells_text, of ?E "[]"] arith_computes_reference [OF v(2) spells_text, of ?E "[]"]
    unfolding t e Let_def by blast
qed

end
