(* ===== verification/Sh_Vars.thy ===== *)
theory Sh_Vars
  imports Sh_Lex
begin

text \<open>
  The variables of the shell, \<open>src/src.freebsd/sh/var.c\<close>: a hash table of chains, the flags of a
  variable, and the list of saved values that makes variables local to a function or to a command
  substitution that runs in the shell itself.

  The flags of a variable are the set of the bits that are set.  A text is a pointer: its address if
  it comes from \<open>ckmalloc\<close>, none if it is static, on the stack or in the environment, and the
  characters it points to, which never change.  Freeing an address twice, freeing what was not
  allocated and reading what was freed do not stop the model; they are recorded as faults.  A
  variable's callback, \<open>setlocale\<close>, changes of the process environment and the check for mail are
  recorded as events.
\<close>

section \<open>State\<close>

datatype vflag =
    VEXPORT | VREADONLY | VSTRFIXED | VTEXTFIXED | VSTACK | VUNSET | VNOFUNC | VNOSET | VNOLOCAL

datatype ctext = Txt (t_at: "nat option") (t_str: string)

text \<open>The structures with static storage, and those on the heap.\<close>

datatype vaddr =
    Vhistsize | Vifs | Vmail | Vmpath | Vpath | Vps1 | Vps2 | Vps4 | Vterm | Voptind | Vdisvfork
  | Heap nat

datatype hook = Sethistsize | Changepath | Setterm | Getoptsreset

record var =
  v_flags :: "vflag set"
  v_len :: nat
  v_text :: ctext
  v_func :: "hook option"

record localvar =
  l_vp :: "vaddr option"
  l_flags :: "vflag set"
  l_text :: "ctext option"

datatype event =
    Ev_func hook string
  | Ev_chkmail
  | Ev_env string bool
  | Ev_setlocale
  | Ev_optschanged

datatype fault = Bad_free ctext | Double_free ctext | Use_after_free ctext | Dangling_variable

datatype sh_error = Bad_variable_name | Read_only | Name_overread

record sh =
  vartab :: "nat \<Rightarrow> (vaddr \<times> var) list"
  localvars :: "localvar list"
  forcelocal :: nat
  aflag :: bool
  iflag :: bool
  optval :: string
  brk :: nat
  freed :: "nat list"
  events :: "event list"
  faults :: "fault list"

type_synonym sh_result = "(sh_error \<times> sh) + sh"

section \<open>Memory and events\<close>

definition ckmalloc :: "string \<Rightarrow> sh \<Rightarrow> ctext \<times> sh" where
  "ckmalloc s st = (Txt (Some (brk st)) s, st\<lparr>brk := brk st + 1\<rparr>)"

definition fault :: "fault \<Rightarrow> sh \<Rightarrow> sh" where
  "fault f st = st\<lparr>faults := f # faults st\<rparr>"

definition event :: "event \<Rightarrow> sh \<Rightarrow> sh" where
  "event e st = st\<lparr>events := e # events st\<rparr>"

definition ckfree :: "ctext \<Rightarrow> sh \<Rightarrow> sh" where
  "ckfree t st =
     (case t_at t of
        None \<Rightarrow> fault (Bad_free t) st
      | Some a \<Rightarrow> if a \<in> set (freed st) then fault (Double_free t) st else st\<lparr>freed := a # freed st\<rparr>)"

definition read_text :: "ctext \<Rightarrow> sh \<Rightarrow> sh" where
  "read_text t st =
     (case t_at t of
        Some a \<Rightarrow> if a \<in> set (freed st) then fault (Use_after_free t) st else st
      | None \<Rightarrow> st)"

section \<open>The table\<close>

abbreviation VTABSIZE :: nat where "VTABSIZE \<equiv> 39"

definition vname :: "string \<Rightarrow> string" where
  "vname s = takeWhile (\<lambda>c. c \<noteq> CHR ''='') s"

definition hashval :: "string \<Rightarrow> nat" where
  "hashval name = unat (foldl (\<lambda>h c. 2 * h + of_char c) (0 :: u32) (vname name) mod 39)"

definition find_var :: "sh \<Rightarrow> string \<Rightarrow> (vaddr \<times> var) option" where
  "find_var st name =
     find (\<lambda>(a, v). v_len v = length (vname name) \<and> take (v_len v) (t_str (v_text v)) = vname name)
       (vartab st (hashval name))"

text \<open>The structure at an address, and a change of it.\<close>

definition get_var :: "sh \<Rightarrow> vaddr \<Rightarrow> var option" where
  "get_var st a = map_of (concat (map (vartab st) [0..<VTABSIZE])) a"

definition upd_var :: "vaddr \<Rightarrow> (var \<Rightarrow> var) \<Rightarrow> sh \<Rightarrow> sh" where
  "upd_var a f st =
     st\<lparr>vartab := \<lambda>h. map (\<lambda>(b, v). if b = a then (b, f v) else (b, v)) (vartab st h)\<rparr>"

definition value_of :: "var \<Rightarrow> string" where
  "value_of v = drop (v_len v + 1) (t_str (v_text v))"

definition lookupvar :: "sh \<Rightarrow> string \<Rightarrow> string option" where
  "lookupvar st name =
     (case find_var st name of
        None \<Rightarrow> None
      | Some (a, v) \<Rightarrow> if VUNSET \<in> v_flags v then None else Some (value_of v))"

definition environment :: "sh \<Rightarrow> string list" where
  "environment st =
     map (\<lambda>(a, v). t_str (v_text v))
       (filter (\<lambda>(a, v). VEXPORT \<in> v_flags v \<and> VUNSET \<notin> v_flags v)
          (concat (map (vartab st) [0..<VTABSIZE])))"

text \<open>\<open>varequal(p, q)\<close>: the first name ends in \<open>=\<close>, the second in \<open>=\<close> or NUL.\<close>

definition varequal :: "string \<Rightarrow> string \<Rightarrow> bool" where
  "varequal p q \<longleftrightarrow> CHR ''='' \<in> set p \<and> vname p = vname q"

definition localevar :: "string \<Rightarrow> bool" where
  "localevar s \<longleftrightarrow> s \<noteq> [] \<and> hd s = CHR ''L'' \<and>
     (varequal (tl s) ''ANG'' \<or>
      (take 2 (tl s) = ''C_'' \<and>
       (varequal (drop 3 s) ''ALL'' \<or>
        (\<exists>n \<in> set [''COLLATE'', ''CTYPE'', ''MONETARY'', ''NUMERIC'', ''TIME'', ''MESSAGES''].
           varequal (drop 3 s) n))))"

text \<open>\<open>change_env\<close> reads its argument, which may be a pointer into freed memory.\<close>

definition change_env :: "ctext \<Rightarrow> bool \<Rightarrow> sh \<Rightarrow> sh" where
  "change_env s on st = event (Ev_env (t_str s) on) (read_text s st)"

definition locale_changed :: "ctext \<Rightarrow> bool \<Rightarrow> sh \<Rightarrow> sh" where
  "locale_changed s on st = event Ev_setlocale (change_env s on st)"

section \<open>Setting variables\<close>

definition mpathset :: "sh \<Rightarrow> bool" where
  "mpathset st = (case get_var st Vmpath of Some v \<Rightarrow> VUNSET \<notin> v_flags v | None \<Rightarrow> True)"

text \<open>\<open>setvareq\<close> without making the variable local first.\<close>

definition setvareq_found :: "ctext \<Rightarrow> vflag set \<Rightarrow> vaddr \<Rightarrow> var \<Rightarrow> sh \<Rightarrow> sh_result" where
  "setvareq_found s flags a vp st =
     (let drop_s = (if flags \<inter> {VTEXTFIXED, VSTACK} = {} then ckfree s else id) in
      if VREADONLY \<in> v_flags vp then Inl (Read_only, drop_s st)
      else if VNOSET \<in> flags then Inr (drop_s st)
      else
        let st = (case v_func vp of
                    Some f \<Rightarrow> if VNOFUNC \<in> flags then st
                              else event (Ev_func f (drop (v_len vp + 1) (t_str s))) st
                  | None \<Rightarrow> st);
            st = (if v_flags vp \<inter> {VTEXTFIXED, VSTACK} = {} then ckfree (v_text vp) st else st);
            fl = v_flags vp - {VTEXTFIXED, VSTACK, VUNSET} \<union> flags;
            st = upd_var a (\<lambda>v. v\<lparr>v_flags := fl, v_text := s\<rparr>) st;
            st = (if (a = Vmpath \<or> (a = Vmail \<and> \<not> mpathset st)) \<and> iflag st then event Ev_chkmail st else st)
        in Inr (if VEXPORT \<in> fl \<and> localevar (t_str s) then locale_changed s True st else st))"

definition setvareq_new :: "ctext \<Rightarrow> vflag set \<Rightarrow> sh \<Rightarrow> sh_result" where
  "setvareq_new s flags st =
     (if VNOSET \<in> flags then
        Inr (if flags \<inter> {VTEXTFIXED, VSTACK} = {} then ckfree s st else st)
      else
        let h = hashval (t_str s);
            v = \<lparr>v_flags = flags, v_len = length (vname (t_str s)), v_text = s, v_func = None\<rparr>;
            st = st\<lparr>vartab := (vartab st)(h := (Heap (brk st), v) # vartab st h), brk := brk st + 1\<rparr>
        in Inr (if VEXPORT \<in> flags \<and> localevar (t_str s) then locale_changed s True st else st))"

definition setvareq_nolocal :: "ctext \<Rightarrow> vflag set \<Rightarrow> sh \<Rightarrow> sh_result" where
  "setvareq_nolocal s flags st =
     (let flags = (if aflag st then insert VEXPORT flags else flags) in
      case find_var st (t_str s) of
        Some (a, vp) \<Rightarrow> setvareq_found s flags a vp st
      | None \<Rightarrow> setvareq_new s flags st)"

text \<open>
  The name in \<open>setvar\<close>: the text up to \<open>=\<close>, but at least its first character.  An empty name is
  read beyond its end.
\<close>

definition setvar_name :: "string \<Rightarrow> sh_error + string" where
  "setvar_name name =
     (case name of
        [] \<Rightarrow> Inl Name_overread
      | c # cs \<Rightarrow>
          if is_name c \<and> list_all is_in_name (vname cs) then Inr (c # vname cs)
          else Inl Bad_variable_name)"

definition setvar_with :: "(ctext \<Rightarrow> vflag set \<Rightarrow> sh \<Rightarrow> sh_result) \<Rightarrow>
    string \<Rightarrow> string option \<Rightarrow> vflag set \<Rightarrow> sh \<Rightarrow> sh_result" where
  "setvar_with seteq name val flags st =
     (case setvar_name name of
        Inl e \<Rightarrow> Inl (e, st)
      | Inr n \<Rightarrow>
          let flags = (if val = None then insert VUNSET flags else flags) in
          case ckmalloc (n @ CHR ''='' # (case val of None \<Rightarrow> [] | Some v \<Rightarrow> v)) st of
            (nameeq, st) \<Rightarrow> seteq nameeq flags st)"

section \<open>Local variables\<close>

definition mklocal :: "string \<Rightarrow> sh \<Rightarrow> sh_result" where
  "mklocal name st =
     (if name = ''-'' then
        case ckmalloc (optval st) st of
          (t, st) \<Rightarrow> Inr (st\<lparr>localvars := \<lparr>l_vp = None, l_flags = {}, l_text = Some t\<rparr> # localvars st\<rparr>)
      else
        case find_var st name of
          None \<Rightarrow>
            err_bind
              (if CHR ''='' \<in> set name
               then case ckmalloc name st of (t, st) \<Rightarrow> setvareq_nolocal t {VSTRFIXED, VNOLOCAL} st
               else setvar_with setvareq_nolocal name None {VSTRFIXED, VNOLOCAL} st) (\<lambda>st.
            let a = fst (hd (vartab st (hashval name))) in
            Inr (st\<lparr>localvars := \<lparr>l_vp = Some a, l_flags = {VUNSET}, l_text = None\<rparr> # localvars st\<rparr>))
        | Some (a, vp) \<Rightarrow>
            let st = upd_var a (\<lambda>v. v\<lparr>v_flags := v_flags v \<union> {VSTRFIXED, VTEXTFIXED}\<rparr>) st in
            err_bind
              (if CHR ''='' \<in> set name
               then case ckmalloc name st of (t, st) \<Rightarrow> setvareq_nolocal t {VNOLOCAL} st
               else Inr st) (\<lambda>st.
            Inr (st\<lparr>localvars := \<lparr>l_vp = Some a, l_flags = v_flags vp, l_text = Some (v_text vp)\<rparr> #
              localvars st\<rparr>)))"

definition setvareq :: "ctext \<Rightarrow> vflag set \<Rightarrow> sh \<Rightarrow> sh_result" where
  "setvareq s flags st =
     (if forcelocal st \<noteq> 0 \<and> flags \<inter> {VNOSET, VNOLOCAL} = {}
      then err_bind (mklocal (t_str s) st) (setvareq_nolocal s flags)
      else setvareq_nolocal s flags st)"

definition setvar :: "string \<Rightarrow> string option \<Rightarrow> vflag set \<Rightarrow> sh \<Rightarrow> sh_result" where
  "setvar = setvar_with setvareq"

definition unsetvar :: "ctext \<Rightarrow> sh \<Rightarrow> (sh_error \<times> sh) + (nat \<times> sh)" where
  "unsetvar s st =
     (case find_var st (t_str s) of
        None \<Rightarrow> Inr (0, st)
      | Some (a, vp) \<Rightarrow>
          if VREADONLY \<in> v_flags vp then Inr (1, st)
          else
            err_bind (if value_of vp \<noteq> [] then setvar (t_str s) (Some []) {} st else Inr st) (\<lambda>st.
            case get_var st a of
              None \<Rightarrow> Inr (0, fault Dangling_variable st)
            | Some vp \<Rightarrow>
                let st = (if VEXPORT \<in> v_flags vp \<and> localevar (t_str (v_text vp))
                          then locale_changed s False st else st);
                    st = upd_var a (\<lambda>v. v\<lparr>v_flags := v_flags v - {VEXPORT} \<union> {VUNSET}\<rparr>) st
                in if VSTRFIXED \<in> v_flags vp then Inr (0, st)
                   else
                     let st = (if VTEXTFIXED \<in> v_flags vp then st else ckfree (v_text vp) st)
                     in Inr (0, st\<lparr>vartab := \<lambda>h. filter (\<lambda>(b, v). b \<noteq> a) (vartab st h)\<rparr>)))"

text \<open>One round of the loop of \<open>poplocalvars\<close>, the entry taken off the list.\<close>

definition pop_one :: "localvar \<Rightarrow> sh \<Rightarrow> sh_result" where
  "pop_one lv st =
     (case l_vp lv of
        None \<Rightarrow>
          (case l_text lv of
             Some t \<Rightarrow> Inr (event Ev_optschanged (ckfree t (st\<lparr>optval := t_str t\<rparr>)))
           | None \<Rightarrow> Inr st)
      | Some a \<Rightarrow>
          (case get_var st a of
             None \<Rightarrow> Inr (fault Dangling_variable st)
           | Some vp \<Rightarrow>
               if l_flags lv \<inter> {VUNSET, VSTRFIXED} = {VUNSET} then
                 let st = upd_var a (\<lambda>v. v\<lparr>v_flags := v_flags v - {VREADONLY}\<rparr>) st
                 in map_sum id snd (unsetvar (v_text vp) st)
               else
                 case l_text lv of
                   None \<Rightarrow> Inr st
                 | Some t \<Rightarrow>
                     let islocalevar = (VEXPORT \<in> v_flags vp \<union> l_flags lv \<and> localevar (t_str t));
                         st = (if VTEXTFIXED \<in> v_flags vp then st else ckfree (v_text vp) st);
                         st = upd_var a (\<lambda>v. v\<lparr>v_flags := l_flags lv, v_text := t\<rparr>) st;
                         st = (case v_func vp of
                                 Some f \<Rightarrow> event (Ev_func f (drop (v_len vp + 1) (t_str t))) st
                               | None \<Rightarrow> st)
                     in Inr (if islocalevar
                             then locale_changed t (VEXPORT \<in> l_flags lv \<and> VUNSET \<notin> l_flags lv) st
                             else st)))"

partial_function (option) poplocalvars :: "sh \<Rightarrow> sh_result option" where
  "poplocalvars st =
     (case localvars st of
        [] \<Rightarrow> Some (Inr st)
      | lv # rest \<Rightarrow>
          (case pop_one lv (st\<lparr>localvars := rest\<rparr>) of
             Inl e \<Rightarrow> Some (Inl e)
           | Inr st \<Rightarrow> poplocalvars st))"

declare poplocalvars.simps [code]

section \<open>Commands\<close>

text \<open>\<open>setvarsafe\<close> reports an error instead of raising it.\<close>

definition setvarsafe :: "string \<Rightarrow> string option \<Rightarrow> vflag set \<Rightarrow> sh \<Rightarrow> nat \<times> sh" where
  "setvarsafe name val flags st =
     (case setvar name val flags st of Inl (e, st) \<Rightarrow> (1, st) | Inr st \<Rightarrow> (0, st))"

fun listsetvar :: "string list \<Rightarrow> vflag set \<Rightarrow> sh \<Rightarrow> sh_result" where
  "listsetvar [] flags st = Inr st"
| "listsetvar (s # ss) flags st =
     (case ckmalloc s st of (t, st) \<Rightarrow> err_bind (setvareq t flags st) (listsetvar ss flags))"

text \<open>One operand of \<open>export\<close> or \<open>readonly\<close>; \<open>setvar\<close> gets the part behind \<open>=\<close>, or no value.\<close>

definition export_operand :: "vflag \<Rightarrow> string \<Rightarrow> sh \<Rightarrow> sh_result" where
  "export_operand flag name st =
     (if CHR ''='' \<in> set name then setvar name (Some (drop (length (vname name) + 1) name)) {flag} st
      else
        case find_var st name of
          Some (a, vp) \<Rightarrow>
            let st = upd_var a (\<lambda>v. v\<lparr>v_flags := insert flag (v_flags v)\<rparr>) st
            in Inr (if VEXPORT \<in> insert flag (v_flags vp) \<and> localevar (t_str (v_text vp))
                    then locale_changed (v_text vp) True st else st)
        | None \<Rightarrow> setvar name None {flag} st)"

definition setvarcmd :: "string \<Rightarrow> string \<Rightarrow> sh \<Rightarrow> sh_result" where
  "setvarcmd name val st = setvar name (Some val) {} st"

section \<open>The start of the shell\<close>

text \<open>
  The variables with static storage, in a shell with history.  The default search path is the
  system's, and whether the user is root, the parent's process id and the environment come from
  the process.
\<close>

definition varinit :: "string \<Rightarrow> (vaddr \<times> vflag set \<times> string \<times> hook option) list" where
  "varinit defpath =
     [(Vhistsize, {VUNSET}, ''HISTSIZE='', Some Sethistsize),
      (Vifs, {}, ''IFS= '' @ [CHR 0x09, CHR 0x0A], None),
      (Vmail, {VUNSET}, ''MAIL='', None),
      (Vmpath, {VUNSET}, ''MAILPATH='', None),
      (Vpath, {}, ''PATH='' @ defpath, Some Changepath),
      (Vps2, {}, ''PS2=> '', None),
      (Vps4, {}, ''PS4=+ '', None),
      (Vterm, {VUNSET}, ''TERM='', Some Setterm),
      (Voptind, {}, ''OPTIND=1'', Some Getoptsreset),
      (Vdisvfork, {VUNSET}, ''SH_DISABLE_VFORK='', None)]"

definition add_static :: "vaddr \<times> vflag set \<times> string \<times> hook option \<Rightarrow> sh \<Rightarrow> sh" where
  "add_static = (\<lambda>(a, flags, str, f) st.
     if find_var st str \<noteq> None then st
     else
       let h = hashval str;
           v = \<lparr>v_flags = flags \<union> {VSTRFIXED, VTEXTFIXED}, v_len = length (vname str), v_text = Txt None str, v_func = f\<rparr>
       in st\<lparr>vartab := (vartab st)(h := (a, v) # vartab st h)\<rparr>)"

definition setvareq_const :: "string \<Rightarrow> vflag set \<Rightarrow> sh \<Rightarrow> sh_result" where
  "setvareq_const s flags = setvareq (Txt None s) (insert VTEXTFIXED flags)"

fun import_environ :: "string list \<Rightarrow> sh \<Rightarrow> sh_result" where
  "import_environ [] st = Inr st"
| "import_environ (s # envp) st =
     err_bind (if CHR ''='' \<in> set s then setvareq (Txt None s) {VEXPORT, VTEXTFIXED} st else Inr st)
       (import_environ envp)"

definition initvar :: "string \<Rightarrow> bool \<Rightarrow> int \<Rightarrow> string list \<Rightarrow> sh \<Rightarrow> sh_result" where
  "initvar defpath root ppid environ st =
     (let st = fold add_static (varinit defpath) st;
          st = add_static (Vps1, {}, if root then ''PS1=# '' else ''PS1=$ '', None) st;
          st = snd (setvarsafe ''PPID'' (Some (dec_int ppid)) {} st)
      in err_bind (import_environ environ st) (\<lambda>st.
         err_bind (setvareq_const ''OPTIND=1'' {} st) (setvareq_const (''IFS= '' @ [CHR 0x09, CHR 0x0A]) {})))"

end
