(* ===== verification/Sh_Locals.thy ===== *)
theory Sh_Locals
  imports Sh_Vars
begin

text \<open>
  The variable table of the shell as a relation between addresses and variables, what setting and
  unsetting do to what the names stand for, and the proof that putting back the saved values undoes
  every assignment made while variables are forced to be local.
\<close>

section \<open>The table as a relation\<close>

lemma frame_simps [simp]:
  "vartab (event e st) = vartab st" "vartab (ckfree t st) = vartab st" "vartab (fault f st) = vartab st"
  "vartab (read_text t st) = vartab st"
  "localvars (event e st) = localvars st" "localvars (ckfree t st) = localvars st"
  "localvars (fault f st) = localvars st" "localvars (read_text t st) = localvars st"
  "localvars (upd_var a g st) = localvars st"
  "forcelocal (event e st) = forcelocal st" "forcelocal (ckfree t st) = forcelocal st"
  "forcelocal (fault f st) = forcelocal st" "forcelocal (read_text t st) = forcelocal st"
  "forcelocal (upd_var a g st) = forcelocal st"
  "brk (event e st) = brk st" "brk (ckfree t st) = brk st" "brk (fault f st) = brk st"
  "brk (read_text t st) = brk st" "brk (upd_var a g st) = brk st"
  by (simp_all add: event_def ckfree_def fault_def read_text_def upd_var_def split: option.split)

lemma frame_locale [simp]:
  "vartab (locale_changed s b st) = vartab st" "localvars (locale_changed s b st) = localvars st"
  "forcelocal (locale_changed s b st) = forcelocal st" "brk (locale_changed s b st) = brk st"
  by (simp_all add: locale_changed_def change_env_def)

definition at :: "sh \<Rightarrow> vaddr \<Rightarrow> var \<Rightarrow> bool" where
  "at st a v \<longleftrightarrow> (\<exists>h. (a, v) \<in> set (vartab st h))"

definition key :: "var \<Rightarrow> string" where
  "key v = vname (t_str (v_text v))"

lemma key_flags [simp]: "key (v\<lparr>v_flags := x\<rparr>) = key v"
  by (simp add: key_def)

definition var_ok :: "var \<Rightarrow> bool" where
  "var_ok v \<longleftrightarrow> CHR ''='' \<in> set (t_str (v_text v)) \<and> v_len v = length (key v)"

definition table_ok :: "sh \<Rightarrow> bool" where
  "table_ok st \<longleftrightarrow>
     (\<forall>h a v. (a, v) \<in> set (vartab st h) \<longrightarrow> var_ok v \<and> h = hashval (key v)) \<and>
     (\<forall>a v b w. at st a v \<longrightarrow> at st b w \<longrightarrow> a = b \<or> key v = key w \<longrightarrow> a = b \<and> v = w) \<and>
     (\<forall>n v. at st (Heap n) v \<longrightarrow> n < brk st)"

lemma at_unique: "table_ok st \<Longrightarrow> at st a v \<Longrightarrow> at st a w \<Longrightarrow> v = w"
  and key_unique: "table_ok st \<Longrightarrow> at st a v \<Longrightarrow> at st b w \<Longrightarrow> key v = key w \<Longrightarrow> a = b \<and> v = w"
  and at_ok: "table_ok st \<Longrightarrow> at st a v \<Longrightarrow> var_ok v"
  unfolding table_ok_def at_def by blast+

lemma at_cong: "vartab st' = vartab st \<Longrightarrow> at st' = at st"
  by (intro ext) (simp add: at_def)

lemma table_ok_cong: "vartab st' = vartab st \<Longrightarrow> brk st \<le> brk st' \<Longrightarrow> table_ok st \<Longrightarrow> table_ok st'"
  by (auto simp: table_ok_def at_cong [of st' st] intro: less_le_trans)

lemma vname_eq [simp]: "CHR ''='' \<notin> set n \<Longrightarrow> vname (n @ CHR ''='' # s) = n" "CHR ''='' \<notin> set n \<Longrightarrow> vname n = n"
  unfolding vname_def by (induction n) auto

lemma vname_no_eq [simp]: "CHR ''='' \<notin> set (vname s)"
  by (auto simp: vname_def dest: set_takeWhileD)

lemma vname_idem [simp]: "vname (vname s) = vname s"
  by simp

lemma take_vname: "take (length (vname s)) s = vname s"
  unfolding vname_def by (induction s) auto

lemma hashval_vname [simp]: "hashval (vname s) = hashval s"
  by (simp add: hashval_def)

lemma hashval_less: "hashval s < VTABSIZE"
  by (simp add: hashval_def unat_mod)

lemma find_var_at:
  assumes "table_ok st"
  shows "find_var st s = Some (a, v) \<longleftrightarrow> at st a v \<and> key v = vname s"
proof -
  let ?c = "vartab st (hashval s)"
  let ?P = "\<lambda>(a, v). v_len v = length (vname s) \<and> take (v_len v) (t_str (v_text v)) = vname s"
  have P: "?P (b, w) \<longleftrightarrow> key w = vname s" if "at st b w" for b w
    using that assms take_vname [of "t_str (v_text w)"] by (auto simp: table_ok_def at_def var_ok_def key_def)
  have chain: "(b, w) \<in> set ?c \<longleftrightarrow> at st b w \<and> hashval (key w) = hashval s" for b w
    using assms by (auto simp: table_ok_def at_def)
  have uniq: "b = a \<and> w = v" if "at st b w" "at st a v" "key w = key v" for b w
    using that assms by (auto simp: table_ok_def)
  show ?thesis
  proof
    assume "find_var st s = Some (a, v)"
    then have "(a, v) \<in> set ?c" "?P (a, v)" 
      unfolding find_var_def by (auto simp: find_Some_iff in_set_conv_nth)
    then show "at st a v \<and> key v = vname s" using P chain by blast
  next
    assume av: "at st a v \<and> key v = vname s"
    then have "(a, v) \<in> set ?c" "?P (a, v)" using chain P by auto
    then obtain b w where bw: "find ?P ?c = Some (b, w)"
      using find_None_iff [of ?P ?c] by (cases "find ?P ?c") auto
    then have "(b, w) \<in> set ?c" "?P (b, w)" by (auto simp: find_Some_iff in_set_conv_nth)
    then have "at st b w" "key w = vname s" using chain P [of b w] by blast+
    then have "b = a \<and> w = v" using uniq [of b w] av by simp
    then show "find_var st s = Some (a, v)" using bw by (simp add: find_var_def)
  qed
qed

lemma find_var_None: "table_ok st \<Longrightarrow> find_var st s = None \<longleftrightarrow> (\<forall>a v. at st a v \<longrightarrow> key v \<noteq> vname s)"
  using find_var_at [of st s] by (cases "find_var st s") auto

lemma at_listed:
  assumes "table_ok st"
  shows "(b, w) \<in> set (concat (map (vartab st) [0..<VTABSIZE])) \<longleftrightarrow> at st b w"
proof
  assume "at st b w"
  then obtain h where h: "(b, w) \<in> set (vartab st h)" by (auto simp: at_def)
  then have "h < VTABSIZE" using assms hashval_less by (auto simp: table_ok_def)
  with h show "(b, w) \<in> set (concat (map (vartab st) [0..<VTABSIZE]))" by fastforce
qed (auto simp: at_def)

lemma get_var_at:
  assumes "table_ok st"
  shows "get_var st a = Some v \<longleftrightarrow> at st a v"
proof -
  let ?l = "concat (map (vartab st) [0..<VTABSIZE])"
  note mem = at_listed [OF assms]
  have "w = v" if "at st a v" "at st a w" for w using that assms by (auto simp: table_ok_def)
  then show ?thesis
    unfolding get_var_def using mem map_of_SomeD [of ?l a] weak_map_of_SomeI [of a _ ?l] by metis
qed

lemma at_upd: "at (upd_var a f st) b w \<longleftrightarrow> (\<exists>v. at st b v \<and> w = (if b = a then f v else v))"
  by (auto simp: at_def upd_var_def split: if_splits) force+


section \<open>What is visible of a variable\<close>

definition visible :: "var \<Rightarrow> (string \<times> vflag set) option" where
  "visible v = (if VUNSET \<in> v_flags v then None else Some (value_of v, v_flags v \<inter> {VEXPORT, VREADONLY}))"

definition look :: "sh \<Rightarrow> string \<Rightarrow> (string \<times> vflag set) option" where
  "look st n = (case find_var st n of None \<Rightarrow> None | Some (a, v) \<Rightarrow> visible v)"

lemma lookupvar_look: "lookupvar st n = map_option fst (look st n)"
  by (simp add: lookupvar_def look_def visible_def split: option.split)

lemma look_at: "table_ok st \<Longrightarrow> at st a v \<Longrightarrow> key v = vname n \<Longrightarrow> look st n = visible v"
  using find_var_at [of st n a v] by (simp add: look_def)

lemma look_None: "table_ok st \<Longrightarrow> (\<And>a v. at st a v \<Longrightarrow> key v \<noteq> vname n) \<Longrightarrow> look st n = None"
  using find_var_None [of st n] by (simp add: look_def)

lemma look_cong: "vartab st' = vartab st \<Longrightarrow> look st' n = look st n"
  by (simp add: look_def find_var_def)

text \<open>Variables stay where they are, under their names.\<close>

definition keeps :: "sh \<Rightarrow> sh \<Rightarrow> bool" where
  "keeps st st' \<longleftrightarrow> (\<forall>a v. at st a v \<longrightarrow>
     (\<exists>v'. at st' a v' \<and> key v' = key v \<and> (VSTRFIXED \<in> v_flags v \<longrightarrow> VSTRFIXED \<in> v_flags v')))"

lemma keepsE:
  assumes "keeps st st'" "at st a v"
  obtains v' where "at st' a v'" "key v' = key v" "VSTRFIXED \<in> v_flags v \<Longrightarrow> VSTRFIXED \<in> v_flags v'"
  using assms unfolding keeps_def by blast

lemma keeps_refl: "vartab st' = vartab st \<Longrightarrow> keeps st st'"
  by (auto simp: keeps_def at_cong [of st' st])

lemma keeps_trans: "keeps st st' \<Longrightarrow> keeps st' st'' \<Longrightarrow> keeps st st''"
  unfolding keeps_def by metis

lemma keeps_upd:
  assumes "\<And>v. at st a v \<Longrightarrow> key (f v) = key v \<and> (VSTRFIXED \<in> v_flags v \<longrightarrow> VSTRFIXED \<in> v_flags (f v))"
  shows "keeps st (upd_var a f st)"
  unfolding keeps_def
proof (intro allI impI)
  fix b v assume "at st b v"
  then show "\<exists>v'. at (upd_var a f st) b v' \<and> key v' = key v \<and>
      (VSTRFIXED \<in> v_flags v \<longrightarrow> VSTRFIXED \<in> v_flags v')"
    using assms by (intro exI [of _ "if b = a then f v else v"]) (auto simp: at_upd)
qed

lemma table_ok_upd:
  assumes "table_ok st" and "\<And>v. at st a v \<Longrightarrow> var_ok v \<Longrightarrow> var_ok (f v) \<and> key (f v) = key v"
  shows "table_ok (upd_var a f st)"
proof -
  have f: "var_ok (if b = a then f v else v) \<and> key (if b = a then f v else v) = key v" if "at st b v" for b v
    using that assms by (auto simp: table_ok_def at_def)
  have "var_ok w \<and> h = hashval (key w)" if bw: "(b, w) \<in> set (vartab (upd_var a f st) h)" for b w h
  proof -
    obtain v where v: "(b, v) \<in> set (vartab st h)" "w = (if b = a then f v else v)"
      using bw by (auto simp: upd_var_def split: if_splits)
    then have "at st b v" by (auto simp: at_def)
    then show ?thesis using f v assms(1) by (auto simp: table_ok_def)
  qed
  moreover have "b = c \<and> w = x" if bw: "at (upd_var a f st) b w" "at (upd_var a f st) c x" "b = c \<or> key w = key x" for b c w x
  proof -
    obtain v y where vy: "at st b v" "w = (if b = a then f v else v)" "at st c y" "x = (if c = a then f y else y)"
      using bw(1,2) by (auto simp: at_upd)
    have "key w = key v" "key x = key y" using f [OF vy(1)] f [OF vy(3)] vy(2,4) by simp_all
    then have "b = c \<and> v = y"
      using bw(3) at_unique [OF assms(1)] key_unique [OF assms(1) vy(1,3)] vy(1,3) by auto
    then show ?thesis using vy by simp
  qed
  moreover have "n < brk (upd_var a f st)" if "at (upd_var a f st) (Heap n) w" for n w
    using that assms(1) by (auto simp: at_upd table_ok_def)
  ultimately show ?thesis unfolding table_ok_def by blast
qed

lemma look_upd_other:
  assumes "table_ok st" "table_ok (upd_var a f st)" "at st a v" "key v \<noteq> vname n"
    and "\<And>v. at st a v \<Longrightarrow> key (f v) = key v"
  shows "look (upd_var a f st) n = look st n"
proof (cases "find_var st n")
  case None
  then show ?thesis
    using assms find_var_None [of st n] by (intro trans [OF look_None]) (auto simp: at_upd look_def split: if_splits)
next
  case (Some p)
  obtain b w where p: "p = (b, w)" by fastforce
  then have bw: "at st b w" "key w = vname n" using Some find_var_at [OF assms(1)] by auto
  then have "b \<noteq> a" using at_unique [OF assms(1)] assms(3,4) by blast
  then have "at (upd_var a f st) b w" using bw by (auto simp: at_upd)
  then show ?thesis using bw look_at assms(1,2) by metis
qed

definition frame :: "sh \<Rightarrow> sh \<Rightarrow> bool" where
  "frame st st' \<longleftrightarrow> localvars st' = localvars st \<and> forcelocal st' = forcelocal st \<and> brk st \<le> brk st'"

lemma found_effect:
  assumes ok: "table_ok st" and s: "CHR ''='' \<in> set (t_str s)" and av: "at st a vp" "key vp = vname (t_str s)"
    and r: "VREADONLY \<notin> v_flags vp" "VNOSET \<notin> flags"
  shows "\<exists>st' v'. setvareq_found s flags a vp st = Inr st' \<and> table_ok st' \<and> keeps st st' \<and> frame st st' \<and>
    (\<forall>n. vname n \<noteq> vname (t_str s) \<longrightarrow> look st' n = look st n) \<and> at st' a v' \<and> v_text v' = s \<and>
    v_flags v' = v_flags vp - {VTEXTFIXED, VSTACK, VUNSET} \<union> flags"
proof -
  let ?fl = "v_flags vp - {VTEXTFIXED, VSTACK, VUNSET} \<union> flags"
  let ?f = "\<lambda>v. v\<lparr>v_flags := ?fl, v_text := s\<rparr>"
  have vp: "at st a v \<Longrightarrow> v = vp" for v using ok av(1) by (auto simp: table_ok_def)
  have key: "key (?f vp) = key vp" using av(2) by (simp add: key_def)
  have "var_ok vp" using ok av(1) by (auto simp: table_ok_def at_def)
  then have f: "\<And>v. at st a v \<Longrightarrow> var_ok v \<Longrightarrow> var_ok (?f v) \<and> key (?f v) = key v"
    using vp key s by (auto simp: var_ok_def)
  obtain st' where st': "setvareq_found s flags a vp st = Inr st'" "vartab st' = vartab (upd_var a ?f st)"
    "frame st st'"
    using r by (auto simp: setvareq_found_def frame_def Let_def upd_var_def split: option.split)
  have ok1: "table_ok (upd_var a ?f st)" using table_ok_upd [OF ok f] .
  have at': "at st' = at (upd_var a ?f st)" by (rule at_cong) (rule st'(2))
  have ok': "table_ok st'" using table_ok_cong [OF st'(2) _ ok1] st'(3) by (simp add: frame_def)
  have "keeps st st'"
    using vp key unfolding keeps_def at' at_upd by fastforce
  moreover have "look st' n = look st n" if "vname n \<noteq> vname (t_str s)" for n
    using look_upd_other [OF ok ok1 av(1)] look_cong [OF st'(2), of n] that av(2) f vp
    by (metis \<open>var_ok vp\<close>)
  moreover have "at st' a (?f vp)" using av(1) by (auto simp: at' at_upd)
  ultimately show ?thesis using st'(1,3) ok' by (intro exI [of _ st'] exI [of _ "?f vp"]) simp
qed


lemma new_effect:
  assumes ok: "table_ok st" and s: "CHR ''='' \<in> set (t_str s)"
    and new: "\<forall>a v. at st a v \<longrightarrow> key v \<noteq> vname (t_str s)" and r: "VNOSET \<notin> flags"
  shows "\<exists>st' v'. setvareq_new s flags st = Inr st' \<and> table_ok st' \<and> keeps st st' \<and> frame st st' \<and>
    (\<forall>n. vname n \<noteq> vname (t_str s) \<longrightarrow> look st' n = look st n) \<and>
    at st' (Heap (brk st)) v' \<and> v_text v' = s \<and> v_flags v' = flags \<and>
    fst (hd (vartab st' (hashval (t_str s)))) = Heap (brk st)"
proof -
  let ?h = "hashval (t_str s)"
  let ?v = "\<lparr>v_flags = flags, v_len = length (vname (t_str s)), v_text = s, v_func = None\<rparr>"
  obtain st' where st': "setvareq_new s flags st = Inr st'"
    "vartab st' = (vartab st)(?h := (Heap (brk st), ?v) # vartab st ?h)" "frame st st'" "brk st' = brk st + 1"
    using r by (auto simp: setvareq_new_def frame_def Let_def)
  have at': "at st' b w \<longleftrightarrow> at st b w \<or> b = Heap (brk st) \<and> w = ?v" for b w
  proof -
    have "(b, w) \<in> set (vartab st' h) \<longleftrightarrow> (b, w) \<in> set (vartab st h) \<or> h = ?h \<and> b = Heap (brk st) \<and> w = ?v" for h
      by (auto simp: st'(2))
    then show ?thesis by (auto simp: at_def)
  qed
  have kv: "key ?v = vname (t_str s)" "var_ok ?v" using s by (simp_all add: key_def var_ok_def)
  have fresh: "\<not> at st (Heap (brk st)) w" for w using ok by (auto simp: table_ok_def)
  have ok': "table_ok st'"
    unfolding table_ok_def
  proof (intro conjI allI impI)
    fix h a v assume "(a, v) \<in> set (vartab st' h)"
    then show "var_ok v" "h = hashval (key v)"
      using ok kv st'(2) by (auto simp: table_ok_def split: if_splits)
  next
    fix a v b w assume *: "at st' a v" "at st' b w" "a = b \<or> key v = key w"
    then show "a = b" "v = w"
      using at_unique [OF ok] key_unique [OF ok] new fresh kv unfolding at' by metis+
  next
    fix n v assume "at st' (Heap n) v"
    then show "n < brk st'" using ok st'(4) unfolding at' by (auto simp: table_ok_def less_SucI)
  qed
  have "keeps st st'" unfolding keeps_def at' by blast
  moreover have "look st' n = look st n" if "vname n \<noteq> vname (t_str s)" for n
  proof (cases "find_var st n")
    case None
    then show ?thesis using find_var_None [OF ok, of n] kv that
      by (intro trans [OF look_None [OF ok']]) (auto simp: at' look_def)
  next
    case (Some p)
    then obtain b w where "at st b w" "key w = vname n" using find_var_at [OF ok] by (cases p) auto
    then show ?thesis using look_at [OF ok] look_at [OF ok'] at' by metis
  qed
  ultimately show ?thesis
    using st' ok' by (intro exI [of _ st'] exI [of _ ?v]) (simp add: at')
qed

text \<open>Setting a variable: the read-only ones refuse, the others get the value.\<close>

lemma nolocal_effect:
  assumes ok: "table_ok st" and s: "CHR ''='' \<in> set (t_str s)" and r: "VNOSET \<notin> flags"
  obtains (readonly) st' a v where "setvareq_nolocal s flags st = Inl (Read_only, st')" "vartab st' = vartab st" "frame st st'"
      "at st a v" "key v = vname (t_str s)" "VREADONLY \<in> v_flags v"
  | (stored) st' a v where "setvareq_nolocal s flags st = Inr st'" "table_ok st'" "keeps st st'" "frame st st'"
      "\<And>n. vname n \<noteq> vname (t_str s) \<Longrightarrow> look st' n = look st n"
      "at st' a v" "v_text v = s" "VUNSET \<in> v_flags v \<longleftrightarrow> VUNSET \<in> flags" "flags \<subseteq> v_flags v"
      "\<And>w. at st a w \<Longrightarrow> VSTRFIXED \<in> v_flags w \<Longrightarrow> VSTRFIXED \<in> v_flags v"
      "(\<forall>b w. at st b w \<longrightarrow> key w \<noteq> vname (t_str s)) \<longrightarrow> fst (hd (vartab st' (hashval (t_str s)))) = a"
proof -
  let ?fl = "if aflag st then insert VEXPORT flags else flags"
  have r': "VNOSET \<notin> ?fl" using r by simp
  show ?thesis
  proof (cases "find_var st (t_str s)")
    case None
    then have new: "\<forall>a v. at st a v \<longrightarrow> key v \<noteq> vname (t_str s)" using find_var_None [OF ok] by blast
    obtain st' v' where st': "setvareq_new s ?fl st = Inr st'" "table_ok st'" "keeps st st'" "frame st st'"
      "\<And>n. vname n \<noteq> vname (t_str s) \<Longrightarrow> look st' n = look st n"
      "at st' (Heap (brk st)) v'" "v_text v' = s" "v_flags v' = ?fl"
      "fst (hd (vartab st' (hashval (t_str s)))) = Heap (brk st)"
      using new_effect [OF ok s new r'] by blast
    show ?thesis
    proof (rule stored [of st' "Heap (brk st)" v'])
      show "setvareq_nolocal s flags st = Inr st'" using None st'(1) by (simp add: setvareq_nolocal_def)
      show "VSTRFIXED \<in> v_flags v'" if "at st (Heap (brk st)) w" "VSTRFIXED \<in> v_flags w" for w
        using that ok by (auto simp: table_ok_def)
    qed (use st' in auto)
  next
    case (Some p)
    obtain a vp where p: "p = (a, vp)" by fastforce
    then have av: "at st a vp" "key vp = vname (t_str s)" using Some find_var_at [OF ok] by auto
    have eq: "setvareq_nolocal s flags st = setvareq_found s ?fl a vp st"
      using Some p by (simp add: setvareq_nolocal_def)
    show ?thesis
    proof (cases "VREADONLY \<in> v_flags vp")
      case True
      then obtain st' where "setvareq_found s ?fl a vp st = Inl (Read_only, st')" "vartab st' = vartab st" "frame st st'"
        by (auto simp: setvareq_found_def frame_def Let_def)
      then show ?thesis using readonly eq av True by simp
    next
      case False
      obtain st' v' where st': "setvareq_found s ?fl a vp st = Inr st'" "table_ok st'" "keeps st st'" "frame st st'"
        "\<And>n. vname n \<noteq> vname (t_str s) \<Longrightarrow> look st' n = look st n"
        "at st' a v'" "v_text v' = s" "v_flags v' = v_flags vp - {VTEXTFIXED, VSTACK, VUNSET} \<union> ?fl"
        using found_effect [OF ok s av False r'] by blast
      show ?thesis
      proof (rule stored [of st' a v'])
        show "setvareq_nolocal s flags st = Inr st'" using eq st'(1) by simp
        show "VUNSET \<in> v_flags v' \<longleftrightarrow> VUNSET \<in> flags" "flags \<subseteq> v_flags v'" using st'(8) by auto
        show "VSTRFIXED \<in> v_flags v'" if "at st a w" "VSTRFIXED \<in> v_flags w" for w
          using that(2) st'(8) at_unique [OF ok av(1) that(1)] by simp
        show "(\<forall>b w. at st b w \<longrightarrow> key w \<noteq> vname (t_str s)) \<longrightarrow> fst (hd (vartab st' (hashval (t_str s)))) = a"
          using av by blast
      qed (fact st')+
    qed
  qed
qed


section \<open>Saved values\<close>

definition good_name :: "string \<Rightarrow> bool" where
  "good_name n \<longleftrightarrow> n \<noteq> [] \<and> is_name (hd n) \<and> list_all is_in_name (tl n)"

lemma eq_not_in_name: "\<not> is_in_name (CHR ''='')" "\<not> is_name (CHR ''='')"
  by (simp_all add: is_in_name_def is_name_def isdigit_def)

lemma good_name_no_eq: "good_name n \<Longrightarrow> CHR ''='' \<notin> set n"
  using eq_not_in_name by (cases n) (auto simp: good_name_def list_all_iff)

lemma setvar_name_good: "setvar_name name = Inr n \<Longrightarrow> good_name n \<and> n = vname name"
  using eq_not_in_name by (auto simp: setvar_name_def good_name_def vname_def split: list.splits if_splits)

lemma setvar_name_eq: "good_name (vname s) \<Longrightarrow> setvar_name s = Inr (vname s)"
  by (cases s) (auto simp: setvar_name_def good_name_def vname_def split: if_splits)

text \<open>What the names stand for; names are texts without \<open>=\<close>.\<close>

definition shown :: "sh \<Rightarrow> string \<Rightarrow> (string \<times> vflag set) option" where
  "shown st n = (if CHR ''='' \<in> set n then None else look st n)"

definition saved :: "localvar \<Rightarrow> (string \<times> vflag set) option" where
  "saved lv =
     (case l_text lv of
        None \<Rightarrow> None
      | Some t \<Rightarrow> if VUNSET \<in> l_flags lv then None
          else Some (drop (length (vname (t_str t)) + 1) (t_str t), l_flags lv \<inter> {VEXPORT, VREADONLY}))"

text \<open>What the names will stand for when the saved values have been put back.\<close>

fun undo :: "sh \<Rightarrow> localvar list \<Rightarrow> (string \<Rightarrow> (string \<times> vflag set) option) \<Rightarrow>
    string \<Rightarrow> (string \<times> vflag set) option" where
  "undo st [] M = M"
| "undo st (lv # lvs) M = undo st lvs
     (case l_vp lv of None \<Rightarrow> M
      | Some a \<Rightarrow> (case get_var st a of None \<Rightarrow> M | Some v \<Rightarrow> M(key v := saved lv)))"

definition lv_ok :: "sh \<Rightarrow> localvar list \<Rightarrow> localvar \<Rightarrow> bool" where
  "lv_ok st lvs lv \<longleftrightarrow>
     (case l_vp lv of
        None \<Rightarrow> True
      | Some a \<Rightarrow> \<exists>v. at st a v \<and> VSTRFIXED \<in> v_flags v \<and>
          (case l_text lv of None \<Rightarrow> l_flags lv = {VUNSET}
           | Some t \<Rightarrow> CHR ''='' \<in> set (t_str t) \<and> vname (t_str t) = key v) \<and>
          (l_flags lv \<inter> {VUNSET, VSTRFIXED} = {VUNSET} \<longrightarrow> good_name (key v)) \<and>
          (Some a \<in> l_vp ` set lvs \<longrightarrow> VSTRFIXED \<in> l_flags lv))"

fun lvs_ok :: "sh \<Rightarrow> localvar list \<Rightarrow> bool" where
  "lvs_ok st [] \<longleftrightarrow> True"
| "lvs_ok st (lv # lvs) \<longleftrightarrow> lv_ok st lvs lv \<and> lvs_ok st lvs"

lemma lvs_ok_fixed:
  "lvs_ok st lvs \<Longrightarrow> Some a \<in> l_vp ` set lvs \<Longrightarrow> \<exists>v. at st a v \<and> VSTRFIXED \<in> v_flags v"
proof (induction lvs)
  case (Cons lv lvs)
  then show ?case by (cases "l_vp lv = Some a") (auto simp: lv_ok_def image_iff)
qed simp

text \<open>Only the variables that saved values belong to matter.\<close>

lemma lvs_ok_keeps:
  assumes "lvs_ok st lvs"
    and "\<And>a v. Some a \<in> l_vp ` set lvs \<Longrightarrow> at st a v \<Longrightarrow> VSTRFIXED \<in> v_flags v \<Longrightarrow>
      \<exists>v'. at st' a v' \<and> key v' = key v \<and> VSTRFIXED \<in> v_flags v'"
  shows "lvs_ok st' lvs"
  using assms
proof (induction lvs)
  case (Cons lv lvs)
  have "lv_ok st' lvs lv"
  proof (cases "l_vp lv")
    case (Some a)
    then obtain v where v: "at st a v" "VSTRFIXED \<in> v_flags v"
      "case l_text lv of None \<Rightarrow> l_flags lv = {VUNSET} | Some t \<Rightarrow> CHR ''='' \<in> set (t_str t) \<and> vname (t_str t) = key v"
      "l_flags lv \<inter> {VUNSET, VSTRFIXED} = {VUNSET} \<longrightarrow> good_name (key v)"
      "Some a \<in> l_vp ` set lvs \<longrightarrow> VSTRFIXED \<in> l_flags lv"
      using Cons.prems(1) by (auto simp: lv_ok_def)
    have "Some a \<in> l_vp ` set (lv # lvs)" using Some by (simp add: image_iff)
    then obtain v' where "at st' a v'" "key v' = key v" "VSTRFIXED \<in> v_flags v'"
      using Cons.prems(2) v(1,2) by blast
    then show ?thesis using v Some by (auto simp: lv_ok_def split: option.split)
  qed (simp add: lv_ok_def)
  moreover have "lvs_ok st' lvs"
    using Cons.prems(1) by (intro Cons.IH Cons.prems(2)) auto
  ultimately show ?case by simp
qed simp

lemma undo_keeps:
  assumes "table_ok st" "table_ok st'" "lvs_ok st lvs" "\<And>a v. at st a v \<Longrightarrow> \<exists>v'. at st' a v' \<and> key v' = key v"
  shows "undo st' lvs M = undo st lvs M"
  using assms(3)
proof (induction lvs arbitrary: M)
  case (Cons lv lvs)
  show ?case
  proof (cases "l_vp lv")
    case (Some a)
    then obtain v where v: "at st a v" using Cons.prems by (auto simp: lv_ok_def)
    then obtain v' where "at st' a v'" "key v' = key v" using assms(4) by blast
    then have "get_var st a = Some v" "get_var st' a = Some v'"
      using v get_var_at [OF assms(1)] get_var_at [OF assms(2)] by auto
    then show ?thesis using Cons Some \<open>key v' = key v\<close> by simp
  qed (use Cons in simp)
qed simp

lemma visible_saved:
  assumes "var_ok v"
  shows "saved \<lparr>l_vp = x, l_flags = v_flags v, l_text = Some (v_text v)\<rparr> = visible v"
  using assms by (simp add: saved_def visible_def value_of_def var_ok_def key_def)

lemma look_upd_same:
  assumes "table_ok st" "table_ok (upd_var a f st)" "\<And>v. at st a v \<Longrightarrow> key (f v) = key v \<and> visible (f v) = visible v"
  shows "look (upd_var a f st) n = look st n"
proof (cases "find_var st n")
  case None
  then show ?thesis
    using assms find_var_None [of st n] by (intro trans [OF look_None]) (auto simp: at_upd look_def split: if_splits)
next
  case (Some p)
  then obtain b w where bw: "at st b w" "key w = vname n" using find_var_at [OF assms(1)] by (cases p) auto
  let ?w = "if b = a then f w else w"
  have "at (upd_var a f st) b ?w" "key ?w = vname n" "visible ?w = visible w"
    using bw assms(3) by (auto simp: at_upd)
  then show ?thesis using look_at [OF assms(1) bw] look_at [OF assms(2), of b ?w n] by simp
qed

definition fix_var :: "vaddr \<Rightarrow> sh \<Rightarrow> sh" where
  "fix_var a = upd_var a (\<lambda>v. v\<lparr>v_flags := v_flags v \<union> {VSTRFIXED, VTEXTFIXED}\<rparr>)"

lemma fix_var_effect:
  assumes "table_ok st"
  shows "table_ok (fix_var a st)" "look (fix_var a st) n = look st n" "keeps st (fix_var a st)"
    "frame st (fix_var a st)"
proof -
  let ?f = "\<lambda>v :: var. v\<lparr>v_flags := v_flags v \<union> {VSTRFIXED, VTEXTFIXED}\<rparr>"
  have f: "var_ok v \<Longrightarrow> var_ok (?f v)" "key (?f v) = key v" "visible (?f v) = visible v" for v
    by (auto simp: var_ok_def key_def visible_def value_of_def)
  show ok': "table_ok (fix_var a st)" unfolding fix_var_def by (rule table_ok_upd [OF assms]) (use f in auto)
  show "look (fix_var a st) n = look st n"
    using ok' f unfolding fix_var_def by (intro look_upd_same [OF assms]) auto
  show "keeps st (fix_var a st)" unfolding fix_var_def by (rule keeps_upd) simp
  show "frame st (fix_var a st)" by (simp add: fix_var_def frame_def)
qed


text \<open>
  \<open>mklocal\<close> on \<open>name=value\<close> with a good name: the variable is saved and gets the value, or it is
  read-only and stays.
\<close>

definition saves :: "sh \<Rightarrow> sh \<Rightarrow> string \<Rightarrow> bool" where
  "saves st st' n \<longleftrightarrow> (\<exists>lv a. localvars st' = lv # localvars st \<and> l_vp lv = Some a \<and>
     saved lv = look st n \<and> lv_ok st' (localvars st) lv \<and> (\<exists>v. at st' a v \<and> key v = n))"

lemma ckmalloc_simps [simp]:
  "vartab (snd (ckmalloc t st)) = vartab st" "localvars (snd (ckmalloc t st)) = localvars st"
  "forcelocal (snd (ckmalloc t st)) = forcelocal st" "brk (snd (ckmalloc t st)) = brk st + 1"
  "t_str (fst (ckmalloc t st)) = t"
  by (simp_all add: ckmalloc_def)

lemma frame_refl: "frame st st" by (simp add: frame_def)

lemma frame_trans: "frame st st' \<Longrightarrow> frame st' st'' \<Longrightarrow> frame st st''"
  by (simp add: frame_def)

lemma ckmalloc_effect:
  assumes "table_ok st"
  shows "table_ok (snd (ckmalloc t st))" "look (snd (ckmalloc t st)) n = look st n" "keeps st (snd (ckmalloc t st))"
    "frame st (snd (ckmalloc t st))" "at (snd (ckmalloc t st)) = at st"
proof -
  have v: "vartab (snd (ckmalloc t st)) = vartab st" by simp
  show "table_ok (snd (ckmalloc t st))" using table_ok_cong [OF v _ assms] by simp
  show "look (snd (ckmalloc t st)) n = look st n" "keeps st (snd (ckmalloc t st))" "at (snd (ckmalloc t st)) = at st"
    by (rule look_cong [OF v] keeps_refl [OF v] at_cong [OF v])+
  show "frame st (snd (ckmalloc t st))" by (simp add: frame_def)
qed

definition push_local :: "localvar \<Rightarrow> sh \<Rightarrow> sh" where
  "push_local lv st = st\<lparr>localvars := lv # localvars st\<rparr>"

lemma push_local_simps [simp]:
  "vartab (push_local lv st) = vartab st" "brk (push_local lv st) = brk st"
  "forcelocal (push_local lv st) = forcelocal st" "localvars (push_local lv st) = lv # localvars st"
  by (simp_all add: push_local_def)

lemma push_local_effect:
  "table_ok st \<Longrightarrow> table_ok (push_local lv st)" "look (push_local lv st) n = look st n"
  "at (push_local lv st) = at st" "lv_ok (push_local lv st) = lv_ok st"
proof -
  have v: "vartab (push_local lv st) = vartab st" by simp
  show "table_ok st \<Longrightarrow> table_ok (push_local lv st)" using table_ok_cong [OF v] by simp
  show "look (push_local lv st) n = look st n" by (rule look_cong [OF v])
  show a: "at (push_local lv st) = at st" by (rule at_cong [OF v])
  show "lv_ok (push_local lv st) = lv_ok st" unfolding lv_ok_def a ..
qed

lemma mklocal_found:
  assumes ok: "table_ok st" and lvs: "lvs_ok st (localvars st)" and n: "good_name (vname s)" "CHR ''='' \<in> set s"
    and f: "find_var st s = Some (a, vp)"
  shows "(\<exists>st'. mklocal s st = Inl (Read_only, st') \<and> table_ok st' \<and> keeps st st' \<and> frame st st' \<and>
       (\<forall>m. look st' m = look st m)) \<or>
    (\<exists>st'. mklocal s st = Inr st' \<and> table_ok st' \<and> keeps st st' \<and> forcelocal st' = forcelocal st \<and>
       (\<forall>m. vname m \<noteq> vname s \<longrightarrow> look st' m = look st m) \<and> saves st st' (vname s))"
proof -
  have av: "at st a vp" "key vp = vname s" using f find_var_at [OF ok] by auto
  let ?s1 = "fix_var a st" and ?lv = "\<lparr>l_vp = Some a, l_flags = v_flags vp, l_text = Some (v_text vp)\<rparr>"
  note s1 = fix_var_effect [OF ok, where a = a]
  let ?t = "fst (ckmalloc s ?s1)" and ?s2 = "snd (ckmalloc s ?s1)"
  note s2 = ckmalloc_effect [OF s1(1), where t = s]
  have dash: "s \<noteq> ''-''" using n by (auto simp: good_name_def vname_def is_name_def)
  have eq: "mklocal s st = err_bind (setvareq_nolocal ?t {VNOLOCAL} ?s2) (\<lambda>st. Inr (push_local ?lv st))"
    using f n dash by (simp add: mklocal_def fix_var_def push_local_def Let_def split: prod.split)
  have keeps2: "keeps st ?s2" "frame st ?s2" using keeps_trans s1 s2 frame_trans by blast+
  have t: "CHR ''='' \<in> set (t_str ?t)" "VNOSET \<notin> {VNOLOCAL}" using n by auto
  from s2(1) t show ?thesis
  proof (cases rule: nolocal_effect)
    case (readonly st' b w)
    then have "table_ok st'" "keeps st st'" "frame st st'" "\<And>m. look st' m = look st m"
      using table_ok_cong [OF readonly(2) _ s2(1)] keeps_trans [OF keeps2(1) keeps_refl]
        frame_trans [OF keeps2(2)] look_cong [OF readonly(2)] s1(2) s2(2) by (auto simp: frame_def)
    then show ?thesis using eq readonly(1) by simp
  next
    case (stored st' b v)
    have k: "keeps st st'" "frame st st'"
      using keeps_trans [OF keeps2(1) stored(3)] frame_trans [OF keeps2(2) stored(4)] .
    obtain w where w: "at st' a w" "key w = vname s" using keepsE [OF k(1) av(1)] av(2) by metis
    have "VSTRFIXED \<in> v_flags w"
    proof -
      let ?v = "vp\<lparr>v_flags := v_flags vp \<union> {VSTRFIXED, VTEXTFIXED}\<rparr>"
      have "at ?s1 a ?v" unfolding fix_var_def at_upd using av(1) by auto
      then obtain w' where "at st' a w'" "VSTRFIXED \<in> v_flags ?v \<Longrightarrow> VSTRFIXED \<in> v_flags w'"
        using keepsE [OF stored(3), of a ?v] s2(5) by metis
      then have "at st' a w'" "VSTRFIXED \<in> v_flags w'" by simp_all
      then show ?thesis using at_unique [OF stored(2) w(1)] by blast
    qed
    moreover have "VSTRFIXED \<in> v_flags vp" if "Some a \<in> l_vp ` set (localvars st)"
      using lvs_ok_fixed [OF lvs that] at_unique [OF ok av(1)] by blast
    moreover have "CHR ''='' \<in> set (t_str (v_text vp))" using at_ok [OF ok av(1)] by (simp add: var_ok_def)
    ultimately have "lv_ok st' (localvars st) ?lv" using w av n by (auto simp: lv_ok_def key_def)
    then have "saves st (push_local ?lv st') (vname s)"
      using w k(2) look_at [OF ok av] visible_saved [OF at_ok [OF ok av(1)]] av(2)
      by (auto simp: saves_def push_local_effect frame_def look_def find_var_def)
    then show ?thesis
      using eq stored(1,2,5) k s1(2) s2(2) keeps_trans [OF k(1) keeps_refl]
      by (auto simp: push_local_effect frame_def)
  qed
qed


lemma mklocal_new:
  assumes ok: "table_ok st" and lvs: "lvs_ok st (localvars st)" and n: "good_name (vname s)" "CHR ''='' \<in> set s"
    and f: "find_var st s = None"
  shows "\<exists>st'. mklocal s st = Inr st' \<and> table_ok st' \<and> keeps st st' \<and> forcelocal st' = forcelocal st \<and>
       (\<forall>m. vname m \<noteq> vname s \<longrightarrow> look st' m = look st m) \<and> saves st st' (vname s)"
proof -
  have none: "\<forall>a v. at st a v \<longrightarrow> key v \<noteq> vname s" using f find_var_None [OF ok] by blast
  let ?t = "fst (ckmalloc s st)" and ?s1 = "snd (ckmalloc s st)"
  note s1 = ckmalloc_effect [OF ok, where t = s]
  have dash: "s \<noteq> ''-''" using n by (auto simp: good_name_def vname_def is_name_def)
  have eq: "mklocal s st = err_bind (setvareq_nolocal ?t {VSTRFIXED, VNOLOCAL} ?s1) (\<lambda>st.
      Inr (push_local \<lparr>l_vp = Some (fst (hd (vartab st (hashval s)))), l_flags = {VUNSET}, l_text = None\<rparr> st))"
    using f n dash by (simp add: mklocal_def push_local_def Let_def split: prod.split)
  have t: "CHR ''='' \<in> set (t_str ?t)" "VNOSET \<notin> {VSTRFIXED, VNOLOCAL}" using n by auto
  from s1(1) t show ?thesis
  proof (cases rule: nolocal_effect)
    case (readonly st' b w)
    then show ?thesis using none s1(5) by simp
  next
    case (stored st' a v)
    let ?lv = "\<lparr>l_vp = Some a, l_flags = {VUNSET}, l_text = None\<rparr>"
    have a: "fst (hd (vartab st' (hashval s))) = a" using stored(11) none s1(5) by simp
    have k: "keeps st st'" "frame st st'"
      using keeps_trans [OF s1(3) stored(3)] frame_trans [OF s1(4) stored(4)] .
    have v: "at st' a v" "key v = vname s" "VSTRFIXED \<in> v_flags v" using stored(6,7,9) by (auto simp: key_def)
    have "\<not> Some a \<in> l_vp ` set (localvars st)"
    proof
      assume "Some a \<in> l_vp ` set (localvars st)"
      then obtain w where "at st a w" using lvs_ok_fixed [OF lvs] by blast
      then obtain w' where "at st' a w'" "key w' = key w" using keepsE [OF k(1)] by metis
      then show False using none \<open>at st a w\<close> at_unique [OF stored(2) v(1)] v(2) by auto
    qed
    then have "lv_ok st' (localvars st) ?lv" using v n by (auto simp: lv_ok_def)
    moreover have "look st (vname s) = None" using look_None [OF ok, of "vname s"] none by simp
    ultimately have "saves st (push_local ?lv st') (vname s)"
      using v k(2) by (auto simp: saves_def push_local_effect frame_def saved_def)
    then show ?thesis
      using eq a stored(1,2,5) k s1(2) keeps_trans [OF k(1) keeps_refl]
      by (auto simp: push_local_effect frame_def)
  qed
qed

text \<open>Under \<open>forcelocal\<close>, what will be put back does not change.\<close>

definition undoable :: "(string \<Rightarrow> (string \<times> vflag set) option) \<Rightarrow> sh \<Rightarrow> bool" where
  "undoable M st \<longleftrightarrow> table_ok st \<and> lvs_ok st (localvars st) \<and> undo st (localvars st) (shown st) = M"

lemma keeps_lvs_ok: "keeps st st' \<Longrightarrow> lvs_ok st lvs \<Longrightarrow> lvs_ok st' lvs"
  by (rule lvs_ok_keeps) (auto elim: keepsE)

lemma undoable_keeps:
  assumes "undoable M st" "table_ok st'" "keeps st st'" "localvars st' = localvars st" "\<And>n. look st' n = look st n"
  shows "undoable M st'"
proof -
  have "shown st' = shown st" using assms(5) by (auto simp: shown_def)
  moreover have "undo st' (localvars st) (shown st) = undo st (localvars st) (shown st)"
    using assms(1-3) by (intro undo_keeps) (auto simp: undoable_def elim: keepsE)
  ultimately show ?thesis
    using assms keeps_lvs_ok [OF assms(3)] by (simp add: undoable_def)
qed

lemma undoable_saves:
  assumes u: "undoable M st" and st': "table_ok st'" "keeps st st'" and n: "CHR ''='' \<notin> set n"
    and s: "saves st st' n" and l: "\<And>m. vname m \<noteq> n \<Longrightarrow> look st' m = look st m"
  shows "undoable M st'"
proof -
  obtain lv a v where lv: "localvars st' = lv # localvars st" "l_vp lv = Some a" "saved lv = look st n"
    "lv_ok st' (localvars st) lv" "at st' a v" "key v = n"
    using s by (auto simp: saves_def)
  have "(shown st')(n := saved lv) = shown st"
    using l n lv(3) by (auto simp: shown_def fun_eq_iff)
  then have "undo st' (localvars st') (shown st') = undo st' (localvars st) (shown st)"
    using lv get_var_at [OF st'(1), of a v] by simp
  also have "\<dots> = undo st (localvars st) (shown st)"
    using u st' by (intro undo_keeps) (auto simp: undoable_def elim: keepsE)
  finally show ?thesis
    using u st'(1) lv(1,4) keeps_lvs_ok [OF st'(2)] by (simp add: undoable_def)
qed

lemma lv_ok_keeps:
  assumes "lv_ok st lvs lv" "keeps st st'"
  shows "lv_ok st' lvs lv"
proof (cases "l_vp lv")
  case (Some a)
  then obtain v where v: "at st a v" "VSTRFIXED \<in> v_flags v"
    "case l_text lv of None \<Rightarrow> l_flags lv = {VUNSET} | Some t \<Rightarrow> CHR ''='' \<in> set (t_str t) \<and> vname (t_str t) = key v"
    "l_flags lv \<inter> {VUNSET, VSTRFIXED} = {VUNSET} \<longrightarrow> good_name (key v)"
    "Some a \<in> l_vp ` set lvs \<longrightarrow> VSTRFIXED \<in> l_flags lv"
    using assms(1) by (auto simp: lv_ok_def)
  then obtain v' where "at st' a v'" "key v' = key v" "VSTRFIXED \<in> v_flags v'"
    using keepsE [OF assms(2) v(1)] by metis
  then show ?thesis using v Some by (auto simp: lv_ok_def split: option.split)
qed (simp add: lv_ok_def)

lemma saves_keeps:
  assumes "saves st st1 n" "keeps st1 st2" "localvars st2 = localvars st1"
  shows "saves st st2 n"
proof -
  obtain lv a v where lv: "localvars st1 = lv # localvars st" "l_vp lv = Some a" "saved lv = look st n"
    "lv_ok st1 (localvars st) lv" "at st1 a v" "key v = n"
    using assms(1) by (auto simp: saves_def)
  then obtain v' where "at st2 a v'" "key v' = n" using keepsE [OF assms(2)] by metis
  then show ?thesis using lv assms(3) lv_ok_keeps [OF lv(4) assms(2)] by (auto simp: saves_def)
qed

definition outcome :: "sh_result \<Rightarrow> sh" where
  "outcome r = (case r of Inl (e, st) \<Rightarrow> st | Inr st \<Rightarrow> st)"

lemma outcome_simps [simp]: "outcome (Inl (e, st)) = st" "outcome (Inr st) = st"
  by (simp_all add: outcome_def)

lemma setvareq_undoable:
  assumes u: "undoable M st" and fl: "forcelocal st \<noteq> 0" "flags \<inter> {VNOSET, VNOLOCAL} = {}"
    and s: "good_name (vname (t_str s))" "CHR ''='' \<in> set (t_str s)"
  shows "undoable M (outcome (setvareq s flags st)) \<and> forcelocal (outcome (setvareq s flags st)) = forcelocal st"
proof -
  have ok: "table_ok st" "lvs_ok st (localvars st)" using u by (simp_all add: undoable_def)
  have eq: "setvareq s flags st = err_bind (mklocal (t_str s) st) (setvareq_nolocal s flags)"
    using fl by (simp add: setvareq_def)
  have r: "VNOSET \<notin> flags" using fl by auto
  let ?n = "vname (t_str s)"
  consider st1 where "mklocal (t_str s) st = Inl (Read_only, st1)" "table_ok st1" "keeps st st1" "frame st st1"
      "\<forall>m. look st1 m = look st m"
    | st1 where "mklocal (t_str s) st = Inr st1" "table_ok st1" "keeps st st1" "forcelocal st1 = forcelocal st"
      "\<forall>m. vname m \<noteq> ?n \<longrightarrow> look st1 m = look st m" "saves st st1 ?n"
    using mklocal_found [OF ok s] mklocal_new [OF ok s] by (cases "find_var st (t_str s)") fastforce+
  then show ?thesis
  proof cases
    case 1
    then show ?thesis using eq undoable_keeps [OF u] by (simp add: frame_def)
  next
    case (2 st1)
    from 2(2) s(2) r show ?thesis
    proof (cases rule: nolocal_effect)
      case (readonly st2 b w)
      then have "keeps st1 st2" "localvars st2 = localvars st1" "table_ok st2"
        using keeps_refl table_ok_cong [OF readonly(2) _ 2(2)] by (auto simp: frame_def)
      then have "undoable M st2"
        using 2(5) look_cong [OF readonly(2)]
        by (intro undoable_saves [OF u _ keeps_trans [OF 2(3)] _ saves_keeps [OF 2(6)]]) auto
      then show ?thesis using eq 2(1,4) readonly(1,3) by (simp add: frame_def)
    next
      case (stored st2 b v)
      then have "undoable M st2"
        using 2(5) by (intro undoable_saves [OF u _ keeps_trans [OF 2(3)] _ saves_keeps [OF 2(6)]])
          (auto simp: frame_def)
      then show ?thesis using eq 2(1,4) stored(1,4) by (simp add: frame_def)
    qed
  qed
qed

lemma setvar_undoable:
  assumes u: "undoable M st" and fl: "forcelocal st \<noteq> 0" "flags \<inter> {VNOSET, VNOLOCAL} = {}"
  shows "undoable M (outcome (setvar name val flags st)) \<and> forcelocal (outcome (setvar name val flags st)) = forcelocal st"
proof (cases "setvar_name name")
  case (Inl e)
  then show ?thesis using u by (simp add: setvar_def setvar_with_def)
next
  case (Inr n)
  let ?fl = "if val = None then insert VUNSET flags else flags"
  let ?s = "n @ CHR ''='' # (case val of None \<Rightarrow> [] | Some v \<Rightarrow> v)"
  have n: "good_name n" "CHR ''='' \<notin> set n" using setvar_name_good [OF Inr] good_name_no_eq by auto
  have ok: "table_ok st" using u by (simp add: undoable_def)
  note c = ckmalloc_effect [OF ok, where t = ?s]
  have "setvar name val flags st = setvareq (fst (ckmalloc ?s st)) ?fl (snd (ckmalloc ?s st))"
    using Inr by (simp add: setvar_def setvar_with_def Let_def split: prod.split)
  moreover have "undoable M (snd (ckmalloc ?s st))" using undoable_keeps [OF u c(1,3)] c(2) by simp
  ultimately show ?thesis
    using setvareq_undoable [of M "snd (ckmalloc ?s st)" ?fl "fst (ckmalloc ?s st)"] fl n by simp
qed


section \<open>Putting values back\<close>

definition flag_var :: "vaddr \<Rightarrow> (vflag set \<Rightarrow> vflag set) \<Rightarrow> sh \<Rightarrow> sh" where
  "flag_var a g = upd_var a (\<lambda>v. v\<lparr>v_flags := g (v_flags v)\<rparr>)"

lemma flag_var_effect:
  assumes "table_ok st" "at st a v"
  shows "table_ok (flag_var a g st)" "at (flag_var a g st) a (v\<lparr>v_flags := g (v_flags v)\<rparr>)" "frame st (flag_var a g st)"
    "key v \<noteq> vname n \<Longrightarrow> look (flag_var a g st) n = look st n"
    "(\<And>f. VSTRFIXED \<in> f \<Longrightarrow> VSTRFIXED \<in> g f) \<Longrightarrow> keeps st (flag_var a g st)"
proof -
  show ok': "table_ok (flag_var a g st)"
    unfolding flag_var_def by (rule table_ok_upd [OF assms(1)]) (auto simp: var_ok_def)
  show "at (flag_var a g st) a (v\<lparr>v_flags := g (v_flags v)\<rparr>)"
    unfolding flag_var_def at_upd using assms(2) by auto
  show "frame st (flag_var a g st)" by (simp add: flag_var_def frame_def)
  show "look (flag_var a g st) n = look st n" if "key v \<noteq> vname n"
    using ok' that unfolding flag_var_def by (intro look_upd_other [OF assms(1) _ assms(2)]) auto
  show "keeps st (flag_var a g st)" if "\<And>f. VSTRFIXED \<in> f \<Longrightarrow> VSTRFIXED \<in> g f"
    unfolding flag_var_def by (rule keeps_upd) (use that in auto)
qed

lemma setvar_empty:
  assumes ok: "table_ok st" and fl: "forcelocal st = 0" and vp: "at st a vp" "VREADONLY \<notin> v_flags vp"
    and n: "good_name (key vp)" "vname s = key vp"
  shows "\<exists>st'. setvar s (Some []) {} st = Inr st' \<and> table_ok st' \<and> keeps st st' \<and> frame st st' \<and>
    (\<forall>m. vname m \<noteq> key vp \<longrightarrow> look st' m = look st m)"
proof -
  let ?t = "key vp @ ''=''"
  have ne: "CHR ''='' \<notin> set (key vp)" using good_name_no_eq [OF n(1)] .
  note c = ckmalloc_effect [OF ok, where t = ?t]
  have "setvar_name s = Inr (key vp)" using setvar_name_eq [of s] n by simp
  then have eq: "setvar s (Some []) {} st = setvareq_nolocal (fst (ckmalloc ?t st)) {} (snd (ckmalloc ?t st))"
    using fl by (simp add: setvar_def setvar_with_def setvareq_def Let_def case_prod_beta)
  have t: "CHR ''='' \<in> set (t_str (fst (ckmalloc ?t st)))" "VNOSET \<notin> {}" by auto
  from c(1) t show ?thesis
  proof (cases rule: nolocal_effect)
    case (readonly st' b w)
    then have "at st b w" "key vp = key w" using c(5) ne by simp_all
    then show ?thesis using key_unique [OF ok vp(1)] vp(2) readonly(6) by blast
  next
    case (stored st' b w)
    then show ?thesis
      using eq c(2) keeps_trans [OF c(3) stored(3)] frame_trans [OF c(4) stored(4)] ne by simp
  qed
qed

lemma unsetvar_effect:
  assumes ok: "table_ok st" and fl: "forcelocal st = 0"
    and vp: "at st a vp" "VREADONLY \<notin> v_flags vp" "VSTRFIXED \<in> v_flags vp"
    and n: "good_name (key vp)" "vname (t_str s) = key vp"
  shows "\<exists>st'. unsetvar s st = Inr (0, st') \<and> table_ok st' \<and> keeps st st' \<and> frame st st' \<and>
    (\<forall>m. vname m \<noteq> key vp \<longrightarrow> look st' m = look st m) \<and> look st' (key vp) = None"
proof -
  let ?e = "if value_of vp \<noteq> [] then setvar (t_str s) (Some []) {} st else Inr st"
  obtain st1 where st1: "?e = Inr st1" "table_ok st1" "keeps st st1" "frame st st1"
    "\<And>m. vname m \<noteq> key vp \<Longrightarrow> look st1 m = look st m"
    using setvar_empty [OF ok fl vp(1,2) n] ok keeps_refl [of st st] frame_refl [of st]
    by (cases "value_of vp = []") auto
  obtain v1 where v1: "at st1 a v1" "key v1 = key vp" "VSTRFIXED \<in> v_flags v1"
    using keepsE [OF st1(3) vp(1)] vp(3) by metis
  let ?c = "VEXPORT \<in> v_flags v1 \<and> localevar (t_str (v_text v1))"
  let ?st2 = "if ?c then locale_changed s False st1 else st1"
  let ?st3 = "flag_var a (\<lambda>f. f - {VEXPORT} \<union> {VUNSET}) ?st2"
  have vt: "vartab ?st2 = vartab st1" "brk ?st2 = brk st1" "frame st1 ?st2" by (auto simp: frame_def)
  have ok2: "table_ok ?st2" using table_ok_cong [OF vt(1) _ st1(2)] vt(2) by simp
  have at2: "at ?st2 a v1" using at_cong [OF vt(1)] v1(1) by simp
  have "find_var st (t_str s) = Some (a, vp)" using find_var_at [OF ok] vp(1) n(2) by simp
  moreover have "get_var st1 a = Some v1" using get_var_at [OF st1(2)] v1(1) by simp
  ultimately have eq: "unsetvar s st = Inr (0, ?st3)"
    using vp(2) v1(3) st1(1) by (simp add: unsetvar_def flag_var_def Let_def)
  note e = flag_var_effect [OF ok2 at2, where g = "\<lambda>f. f - {VEXPORT} \<union> {VUNSET}"]
  let ?v = "v1\<lparr>v_flags := v_flags v1 - {VEXPORT} \<union> {VUNSET}\<rparr>"
  have "vname (key vp) = key vp" using good_name_no_eq [OF n(1)] by simp
  then have "look ?st3 (key vp) = visible ?v" using v1(2) by (intro look_at [OF e(1,2)]) simp
  then have "look ?st3 (key vp) = None" by (simp add: visible_def)
  moreover have "keeps st ?st3"
    using keeps_trans [OF st1(3) keeps_trans [OF keeps_refl [OF vt(1)] e(5)]] by simp
  moreover have "frame st ?st3" using frame_trans [OF st1(4) frame_trans [OF vt(3) e(3)]] .
  moreover have "look ?st3 m = look st m" if "vname m \<noteq> key vp" for m
    using e(4) [of m] that v1(2) st1(5) look_cong [OF vt(1)] by simp
  ultimately show ?thesis using eq e(1) by blast
qed


lemma undo_cong:
  assumes "table_ok st" "table_ok st'" "lvs_ok st (lv # lvs)" "\<And>a v. at st a v \<Longrightarrow> \<exists>v'. at st' a v' \<and> key v' = key v"
    "shown st' = (case l_vp lv of None \<Rightarrow> shown st
      | Some a \<Rightarrow> (case get_var st a of None \<Rightarrow> shown st | Some v \<Rightarrow> (shown st)(key v := saved lv)))"
  shows "undo st' lvs (shown st') = undo st (lv # lvs) (shown st)"
  using undo_keeps [OF assms(1,2) _ assms(4)] assms(3,5) by simp

lemma pop_one_effect:
  assumes ok: "table_ok st" and lvs: "lvs_ok st (lv # lvs)" and fl: "forcelocal st = 0" "localvars st = lvs"
  shows "\<exists>st'. pop_one lv st = Inr st' \<and> table_ok st' \<and> lvs_ok st' lvs \<and> frame st st' \<and>
    undo st' lvs (shown st') = undo st (lv # lvs) (shown st)"
proof (cases "l_vp lv")
  case None
  define st' where "st' = (case l_text lv of
      Some t \<Rightarrow> event Ev_optschanged (ckfree t (st\<lparr>optval := t_str t\<rparr>)) | None \<Rightarrow> st)"
  have st': "pop_one lv st = Inr st'" "vartab st' = vartab st" "frame st st'" "brk st' = brk st"
    using None by (simp_all add: pop_one_def st'_def frame_def split: option.split)
  have "table_ok st'" using table_ok_cong [OF st'(2) _ ok] st'(4) by simp
  moreover have "keeps st st'" by (rule keeps_refl [OF st'(2)])
  moreover have "shown st' = shown st" using look_cong [OF st'(2)] by (auto simp: shown_def fun_eq_iff)
  ultimately show ?thesis
    using st' None lvs keeps_lvs_ok [of st st' lvs] undo_cong [OF ok _ lvs]
    by (metis keepsE lvs_ok.simps(2) option.simps(4))
next
  case (Some a)
  then obtain vp where vp: "at st a vp" "VSTRFIXED \<in> v_flags vp"
    "case l_text lv of None \<Rightarrow> l_flags lv = {VUNSET} | Some t \<Rightarrow> CHR ''='' \<in> set (t_str t) \<and> vname (t_str t) = key vp"
    "l_flags lv \<inter> {VUNSET, VSTRFIXED} = {VUNSET} \<longrightarrow> good_name (key vp)"
    "Some a \<in> l_vp ` set lvs \<longrightarrow> VSTRFIXED \<in> l_flags lv"
    using lvs by (auto simp: lv_ok_def)
  have g: "get_var st a = Some vp" using get_var_at [OF ok] vp(1) by simp
  have nk: "vname (key vp) = key vp" by (simp add: key_def)
  have shownI: "shown st' = (shown st)(key vp := saved lv)"
    if "\<And>m. vname m \<noteq> key vp \<Longrightarrow> look st' m = look st m" "look st' (key vp) = saved lv" for st'
    using that vname_no_eq [of "t_str (v_text vp)"] by (auto simp: shown_def fun_eq_iff key_def)
  show ?thesis
  proof (cases "l_flags lv \<inter> {VUNSET, VSTRFIXED} = {VUNSET}")
    case True
    let ?g = "\<lambda>f :: vflag set. f - {VREADONLY}"
    note e = flag_var_effect [OF ok vp(1), where g = ?g]
    have k1: "keeps st (flag_var a ?g st)" by (rule e(5)) simp
    have "forcelocal (flag_var a ?g st) = 0" using e(3) fl(1) by (simp add: frame_def)
    moreover have "good_name (key vp)" using vp(4) True by blast
    moreover have "vname (t_str (v_text vp)) = key vp" by (simp add: key_def)
    ultimately obtain st' where st': "unsetvar (v_text vp) (flag_var a ?g st) = Inr (0, st')" "table_ok st'"
      "keeps (flag_var a ?g st) st'" "frame (flag_var a ?g st) st'"
      "\<forall>m. vname m \<noteq> key vp \<longrightarrow> look st' m = look (flag_var a ?g st) m" "look st' (key vp) = None"
      using unsetvar_effect [OF e(1) _ e(2), of "v_text vp"] vp(2) by fastforce
    have "saved lv = None" using True by (auto simp: saved_def split: option.split)
    then have sh: "shown st' = (shown st)(key vp := saved lv)"
      using st'(5,6) e(4) by (intro shownI) simp_all
    have k: "keeps st st'" using keeps_trans [OF k1 st'(3)] .
    have "pop_one lv st = Inr st'" using Some g True st'(1) by (simp add: pop_one_def flag_var_def Let_def)
    moreover have "undo st' lvs (shown st') = undo st (lv # lvs) (shown st)"
      using sh Some g k by (intro undo_cong [OF ok st'(2) lvs]) (auto elim: keepsE)
    ultimately show ?thesis
      using st'(2) keeps_lvs_ok [OF k] lvs frame_trans [OF e(3) st'(4)] by auto
  next
    case False
    then obtain t where t: "l_text lv = Some t" "CHR ''='' \<in> set (t_str t)" "vname (t_str t) = key vp"
      using vp(3) by (cases "l_text lv") auto
    let ?f = "\<lambda>v. v\<lparr>v_flags := l_flags lv, v_text := t\<rparr>"
    obtain st' where st': "pop_one lv st = Inr st'" "vartab st' = vartab (upd_var a ?f st)" "frame st st'" "brk st' = brk st"
      using Some g False t(1)
      by (auto simp: pop_one_def Let_def frame_def upd_var_def split: option.split)
    have kf: "key (?f v) = key v" "var_ok v \<Longrightarrow> var_ok (?f v)" if "at st a v" for v
      using at_unique [OF ok vp(1) that] t by (auto simp: key_def var_ok_def)
    have ok1: "table_ok (upd_var a ?f st)" using kf by (intro table_ok_upd [OF ok]) auto
    have ok': "table_ok st'" using table_ok_cong [OF st'(2) _ ok1] st'(4) by simp
    have at': "at st' = at (upd_var a ?f st)" by (rule at_cong [OF st'(2)])
    have "var_ok vp" by (rule at_ok [OF ok vp(1)])
    have "at (upd_var a ?f st) a (?f vp)" using vp(1) by (auto simp: at_upd)
    then have "look st' (key vp) = visible (?f vp)"
      using look_at [OF ok', of a "?f vp"] at' kf(1) [OF vp(1)] nk by simp
    also have "\<dots> = saved lv"
      using t \<open>var_ok vp\<close> by (simp add: visible_def saved_def value_of_def var_ok_def)
    finally have sh: "shown st' = (shown st)(key vp := saved lv)"
      using look_upd_other [OF ok ok1 vp(1)] kf(1) look_cong [OF st'(2)] by (intro shownI) auto
    have keys: "\<exists>v'. at st' b v' \<and> key v' = key v \<and> (b \<noteq> a \<longrightarrow> v' = v) \<and> (b = a \<longrightarrow> v_flags v' = l_flags lv)"
      if "at st b v" for b v
      using that kf(1) unfolding at' at_upd by (intro exI [of _ "if b = a then ?f v else v"]) auto
    have "lvs_ok st' lvs"
      using lvs keys vp(5) by (intro lvs_ok_keeps [of st lvs st']) (simp, metis)
    moreover have "undo st' lvs (shown st') = undo st (lv # lvs) (shown st)"
      using sh Some g keys by (intro undo_cong [OF ok ok' lvs]) (blast, simp)
    ultimately show ?thesis using st'(1,3) ok' by blast
  qed
qed

lemma pop_restores:
  assumes "undoable M st" "forcelocal st = 0"
  shows "\<exists>st'. poplocalvars st = Some (Inr st') \<and> table_ok st' \<and> shown st' = M \<and> localvars st' = [] \<and>
    forcelocal st' = 0"
  using assms
proof (induction "localvars st" arbitrary: st)
  case Nil
  then show ?case by (auto simp: poplocalvars.simps [of st] undoable_def)
next
  case (Cons lv lvs)
  let ?st = "st\<lparr>localvars := lvs\<rparr>"
  have v: "vartab ?st = vartab st" by simp
  have "table_ok ?st" using table_ok_cong [OF v] Cons.prems(1) by (simp add: undoable_def)
  moreover have "lvs_ok ?st (lv # lvs)"
    using keeps_lvs_ok [OF keeps_refl [OF v]] Cons.prems(1) Cons.hyps(2) by (simp add: undoable_def)
  moreover have "undo ?st (lv # lvs) (shown ?st) = M"
  proof -
    have "shown ?st = shown st" using look_cong [OF v] by (auto simp: shown_def fun_eq_iff)
    moreover have "undo ?st (lv # lvs) N = undo st (lv # lvs) N" for N
      using Cons.prems(1) Cons.hyps(2) \<open>table_ok ?st\<close> at_cong [OF v]
      by (intro undo_keeps) (auto simp: undoable_def)
    ultimately show ?thesis using Cons.prems(1) Cons.hyps(2) by (simp add: undoable_def)
  qed
  ultimately obtain st' where st': "pop_one lv ?st = Inr st'" "table_ok st'" "lvs_ok st' lvs" "frame ?st st'"
    "undo st' lvs (shown st') = M"
    using pop_one_effect [of ?st lv lvs] Cons.prems(2) by auto
  then have "undoable M st'" "forcelocal st' = 0" "lvs = localvars st'"
    using Cons.prems(2) by (auto simp: undoable_def frame_def)
  then obtain st'' where "poplocalvars st' = Some (Inr st'')" "table_ok st''" "shown st'' = M" "localvars st'' = []"
    "forcelocal st'' = 0"
    using Cons.hyps(1) by blast
  moreover have "poplocalvars st = poplocalvars st'"
    using Cons.hyps(2) [symmetric] st'(1) by (simp add: poplocalvars.simps [of st])
  ultimately show ?case by simp
qed

end
