(* ===== verification/Sh_Shell.thy ===== *)
theory Sh_Shell
  imports Sh_Expr Sh_Locals
begin

text \<open>
  Arithmetic over the variables of the shell.  What the evaluation of an expression relies on is the
  locale \<open>variable_store\<close>; the table of \<open>var.c\<close> is an instance of it.  The theory also has the scope
  that a command substitution in the shell's own process gives to variables
  (\<open>src/src.freebsd/sh/eval.c\<close>), and the properties of the shell's parts.
\<close>

section \<open>Numbers read back\<close>

lemma strtoarith_dec_int: "strtoarith_t ei (dec_int (sint w)) = (w, False, [])"
proof (cases "sint w < 0")
  case False
  have "sint w < 2 ^ 63" using sint_less [of w] by simp
  then have "nat (sint w) < 2 ^ 63" using False by (simp add: nat_less_iff)
  then have "strtoarith_t ei (dec_nat (nat (sint w)) @ []) = (of_nat (nat (sint w)), False, [])"
    by (intro strtoarith_dec) (simp_all add: stopped_def)
  moreover have "(of_nat (nat (sint w)) :: arith_t) = w"
  proof -
    have "(of_int (int (nat (sint w))) :: arith_t) = w" using False by simp
    then show ?thesis by (simp only: of_int_of_nat_eq)
  qed
  ultimately show ?thesis using False by (simp add: dec_int_def)
next
  case True
  let ?n = "nat (- sint w)"
  have n: "int ?n = - sint w" "int ?n \<le> 0x8000000000000000"
    using True sint_ge [of w] by simp_all
  have "strtoumax0 (dec_nat ?n) = (int ?n, [])" using strtoumax0_dec [of "[]" ?n] by (simp add: stopped_def)
  then have "c_integer (CHR ''-'' # dec_nat ?n) = Some (int ?n, [])"
    using dec_nat_digit [of ?n] by (simp add: c_integer_def)
  moreover have "\<not> isspace (CHR ''-'')" by (simp add: isspace_def)
  ultimately show ?thesis using True n by (simp add: strtoarith_t_def dec_int_def)
qed

section \<open>The variables under arithmetic\<close>

text \<open>The names an expression may assign to.\<close>

fun assigned :: "aexp \<Rightarrow> string set" where
  "assigned (Num n) = {}"
| "assigned (Var x) = {}"
| "assigned (Unary op e) = assigned e"
| "assigned (Bin op a b) = assigned a \<union> assigned b"
| "assigned (Conj a b) = assigned a \<union> assigned b"
| "assigned (Disj a b) = assigned a \<union> assigned b"
| "assigned (Choice a b c) = assigned a \<union> assigned b \<union> assigned c"
| "assigned (Asg op x e) = insert x (assigned e)"
| "assigned (Par e) = assigned e"

text \<open>
  What arithmetic relies on: an assignment that succeeds stores its text and leaves the other names
  alone, one that fails changes nothing.
\<close>

locale variable_store =
  fixes store_ok :: "'v \<Rightarrow> bool"
    and E :: "'v arith_env"
  assumes assign_stores: "store_ok v \<Longrightarrow> good_name x \<Longrightarrow> set_value E v x s = Inr v' \<Longrightarrow>
      store_ok v' \<and> get_value E v' x = Some s \<and>
      (\<forall>y. good_name y \<longrightarrow> y \<noteq> x \<longrightarrow> get_value E v' y = get_value E v y)"
    and assign_fails: "store_ok v \<Longrightarrow> good_name x \<Longrightarrow> set_value E v x s = Inl v' \<Longrightarrow>
      store_ok v' \<and> (\<forall>y. good_name y \<longrightarrow> get_value E v' y = get_value E v y)"
begin

definition unchanged :: "string set \<Rightarrow> 'v \<Rightarrow> 'v \<Rightarrow> bool" where
  "unchanged X v v' \<longleftrightarrow> store_ok v' \<and> (\<forall>y. good_name y \<longrightarrow> y \<notin> X \<longrightarrow> get_value E v' y = get_value E v y)"

lemma unchanged_refl: "store_ok v \<Longrightarrow> unchanged X v v"
  by (simp add: unchanged_def)

lemma unchanged_mono: "unchanged X v v' \<Longrightarrow> X \<subseteq> Y \<Longrightarrow> unchanged Y v v'"
  by (auto simp: unchanged_def)

lemma unchanged_trans: "unchanged X v v' \<Longrightarrow> unchanged X v' v'' \<Longrightarrow> unchanged X v v''"
  by (auto simp: unchanged_def)

definition keeps_to :: "string set \<Rightarrow> 'v \<Rightarrow> (arith_error \<times> 'v) + (arith_t \<times> 'v) \<Rightarrow> bool" where
  "keeps_to X v r \<longleftrightarrow> unchanged X v (case r of Inl (e, v') \<Rightarrow> v' | Inr (a, v') \<Rightarrow> v')"

lemma keeps_to_simps [simp]:
  "keeps_to X v (Inl (e, v')) = unchanged X v v'"
  "keeps_to X v (Inr (a, v')) = unchanged X v v'"
  by (simp_all add: keeps_to_def)

lemma keeps_to_bind:
  assumes "keeps_to X v r" "\<And>a v'. unchanged X v v' \<Longrightarrow> keeps_to X v' (f (a, v'))"
  shows "keeps_to X v (err_bind r f)"
proof (cases r)
  case (Inr p)
  obtain a v' where p: "p = (a, v')" by fastforce
  have u: "unchanged X v v'" using assms(1) Inr p by simp
  show ?thesis
  proof (cases "f (a, v')")
    case (Inl q)
    then show ?thesis using assms(2) [OF u, of a] u Inr p unchanged_trans by (cases q) auto
  next
    case (Inr q)
    then show ?thesis using assms(2) [OF u, of a] u \<open>r = Inr p\<close> p unchanged_trans by (cases q) auto
  qed
qed (use assms(1) in \<open>simp add: keeps_to_def\<close>)

lemma lift_keeps_to: "store_ok v \<Longrightarrow> keeps_to X v (lift_error (map_sum id (\<lambda>a. (g a, v)) r) v)"
  by (cases r) (simp_all add: lift_error_def unchanged_refl)

lemma eval_keeps_to: "valid e \<Longrightarrow> store_ok v \<Longrightarrow> assigned e \<subseteq> X \<Longrightarrow> keeps_to X v (eval E e v)"
proof (induction e arbitrary: v)
  case (Bin op a b)
  then show ?case
    by (auto intro!: keeps_to_bind lift_keeps_to [of _ _ "\<lambda>c. c"] simp: unchanged_def)
next
  case (Conj a b)
  then show ?case by (auto intro!: keeps_to_bind simp: unchanged_refl) (auto simp: unchanged_def)
next
  case (Disj a b)
  then show ?case by (auto intro!: keeps_to_bind simp: unchanged_refl) (auto simp: unchanged_def)
next
  case (Choice a b c)
  then show ?case by (auto intro!: keeps_to_bind) (auto simp: unchanged_def)
next
  case (Asg op x e)
  have x: "good_name x" using Asg.prems(1) by (auto simp: good_name_def list_all_iff dest: list.set_sel(2))
  have sets: "keeps_to X v (case set_value E v x s of Inl v' \<Rightarrow> Inl (Setvar_failed, v') | Inr v' \<Rightarrow> Inr (c, v'))"
    if "store_ok v" for v s c
    using assign_stores [OF that x, of s] assign_fails [OF that x, of s] Asg.prems(3)
    by (auto simp: unchanged_def split: sum.split)
  have more: "keeps_to X v' (err_bind (lift_error r v') (\<lambda>c. case set_value E v' x (g c) of
      Inl v'' \<Rightarrow> Inl (Setvar_failed, v'') | Inr v'' \<Rightarrow> Inr (c, v'')))" if "store_ok v'" for v' r g
    using that sets by (cases r) (simp_all add: lift_error_def unchanged_refl)
  show ?case
    using Asg more by (auto intro!: keeps_to_bind) (auto simp: unchanged_def)
qed (auto intro!: keeps_to_bind lift_keeps_to [of _ _ "\<lambda>c. c"] simp: unchanged_refl unchanged_def)

text \<open>The value of an assignment is what the variable gives afterwards.\<close>

lemma eval_assignment:
  assumes "valid (Asg op x e)" "store_ok v" "eval E (Asg op x e) v = Inr (r, v')"
  shows "eval E (Var x) v' = Inr (r, v')" "store_ok v'"
    "\<And>y. good_name y \<Longrightarrow> y \<notin> assigned (Asg op x e) \<Longrightarrow> get_value E v' y = get_value E v y"
    "get_value E v' x = Some (dec_int (sint r))"
proof -
  have x: "good_name x" using assms(1) by (auto simp: good_name_def list_all_iff dest: list.set_sel(2))
  have k: "keeps_to (assigned (Asg op x e)) v (eval E (Asg op x e) v)"
    by (rule eval_keeps_to [OF assms(1,2)]) simp
  then show "store_ok v'"
    "\<And>y. good_name y \<Longrightarrow> y \<notin> assigned (Asg op x e) \<Longrightarrow> get_value E v' y = get_value E v y"
    using assms(3) by (simp_all add: unchanged_def)
  have ke: "keeps_to (assigned e) v (eval E e v)" using assms(1,2) by (intro eval_keeps_to) auto
  obtain b v1 where b: "eval E e v = Inr (b, v1)" using assms(3) by (auto simp: err_bind_Inr)
  then have v1: "store_ok v1" using ke by (simp add: unchanged_def)
  obtain c where "(case set_value E v1 x (dec_int (sint c)) of
      Inl v' \<Rightarrow> Inl (Setvar_failed, v') | Inr v' \<Rightarrow> Inr (c, v')) = Inr (r, v')"
    using assms(3) b by (auto simp: err_bind_Inr)
  then have "set_value E v1 x (dec_int (sint r)) = Inr v'"
    by (cases "set_value E v1 x (dec_int (sint c))") auto
  then show "get_value E v' x = Some (dec_int (sint r))" using assign_stores [OF v1 x] by blast
  moreover have "dec_int (sint r) \<noteq> []" using dec_nat_digit(1) by (simp add: dec_int_def)
  ultimately show "eval E (Var x) v' = Inr (r, v')"
    by (simp add: arith_lookupvarint_def strtoarith_dec_int lift_error_def Let_def)
qed

end


section \<open>The variables of the shell\<close>

lemma setvar_effect:
  assumes ok: "table_ok st" and fl: "forcelocal st = 0" and r: "VNOSET \<notin> flags" and x: "good_name x"
  obtains (refused) st' a v where "setvar x (Some s) flags st = Inl (Read_only, st')" "table_ok st'" "frame st st'"
      "\<And>y. look st' y = look st y" "at st a v" "key v = x" "VREADONLY \<in> v_flags v"
  | (stored) st' a v where "setvar x (Some s) flags st = Inr st'" "table_ok st'" "frame st st'"
      "\<And>y. vname y \<noteq> x \<Longrightarrow> look st' y = look st y" "at st' a v" "t_str (v_text v) = x @ CHR ''='' # s"
      "VUNSET \<in> v_flags v \<longleftrightarrow> VUNSET \<in> flags" "flags \<subseteq> v_flags v"
proof -
  let ?t = "x @ CHR ''='' # s"
  let ?p = "fst (ckmalloc ?t st)" and ?s = "snd (ckmalloc ?t st)"
  have ne: "CHR ''='' \<notin> set x" using good_name_no_eq [OF x] .
  note c = ckmalloc_effect [OF ok, where t = ?t]
  have "setvar_name x = Inr x" using setvar_name_eq [of x] x ne by simp
  then have eq: "setvar x (Some s) flags st = setvareq_nolocal ?p flags ?s"
    using fl by (simp add: setvar_def setvar_with_def setvareq_def Let_def case_prod_beta)
  have t: "CHR ''='' \<in> set (t_str ?p)" "t_str ?p = ?t" "vname ?t = x" using ne by auto
  from c(1) t(1) r show ?thesis
  proof (cases rule: nolocal_effect)
    case (readonly st' b w)
    show ?thesis
    proof (rule refused [of st' b w])
      show "table_ok st'" using table_ok_cong [OF readonly(2) _ c(1)] readonly(3) by (simp add: frame_def)
      show "frame st st'" using frame_trans [OF c(4) readonly(3)] .
      show "look st' y = look st y" for y using look_cong [OF readonly(2)] c(2) by simp
    qed (use readonly eq t c(5) in simp_all)
  next
    case (stored st' b w)
    show ?thesis
    proof (rule that(2) [of st' b w])
      show "frame st st'" using frame_trans [OF c(4) stored(4)] .
      show "look st' y = look st y" if "vname y \<noteq> x" for y using stored(5) c(2) t that by simp
    qed (use stored eq t in simp_all)
  qed
qed

definition sh_env :: "(string \<Rightarrow> arith_t) \<Rightarrow> bool \<Rightarrow> bool \<Rightarrow> sh arith_env" where
  "sh_env ad ei uf = \<lparr>addr = ad, einval = ei, uflag = uf, get_value = lookupvar,
     set_value = \<lambda>st x s. case setvar x (Some s) {} st of Inl (e, st) \<Rightarrow> Inl st | Inr st \<Rightarrow> Inr st\<rparr>"

lemma lookupvar_stored:
  assumes "table_ok st" "at st a v" "t_str (v_text v) = x @ CHR ''='' # s" "CHR ''='' \<notin> set x" "VUNSET \<notin> v_flags v"
  shows "lookupvar st x = Some s"
proof -
  have k: "key v = x" using assms(3,4) by (simp add: key_def)
  then have "look st x = visible v" using look_at [OF assms(1,2)] assms(4) by simp
  moreover have "value_of v = s" using at_ok [OF assms(1,2)] k assms(3) by (simp add: value_of_def var_ok_def)
  ultimately show ?thesis using assms(5) by (simp add: lookupvar_look visible_def)
qed

interpretation sv: variable_store "\<lambda>st. table_ok st \<and> forcelocal st = 0" "sh_env ad ei uf"
  for ad ei uf
proof unfold_locales
  fix st x s st' assume ok: "table_ok st \<and> forcelocal st = 0" and x: "good_name x"
  let ?r = "setvar x (Some s) {} st"
  have ne: "CHR ''='' \<notin> set x" using good_name_no_eq [OF x] .
  have vy: "vname y = y" if "good_name y" for y using good_name_no_eq [OF that] by simp
  have pre: "table_ok st" "forcelocal st = 0" "VNOSET \<notin> {}" using ok by simp_all
  have r: "(case ?r of Inl (e, st1) \<Rightarrow> (table_ok st1 \<and> forcelocal st1 = 0) \<and> (\<forall>y. lookupvar st1 y = lookupvar st y)
      | Inr st1 \<Rightarrow> (table_ok st1 \<and> forcelocal st1 = 0) \<and> lookupvar st1 x = Some s \<and>
          (\<forall>y. good_name y \<longrightarrow> y \<noteq> x \<longrightarrow> lookupvar st1 y = lookupvar st y))"
    using pre x
  proof (cases rule: setvar_effect [where s = s])
    case (stored st1 a v)
    then show ?thesis
      using ok lookupvar_stored [OF stored(2,5,6) ne] vy by (simp add: frame_def lookupvar_look)
  qed (use ok in \<open>simp_all add: frame_def lookupvar_look\<close>)
  show "(table_ok st' \<and> forcelocal st' = 0) \<and> get_value (sh_env ad ei uf) st' x = Some s \<and>
      (\<forall>y. good_name y \<longrightarrow> y \<noteq> x \<longrightarrow> get_value (sh_env ad ei uf) st' y = get_value (sh_env ad ei uf) st y)"
    if "set_value (sh_env ad ei uf) st x s = Inr st'"
    using that r by (auto simp: sh_env_def split: sum.splits prod.splits)
  show "(table_ok st' \<and> forcelocal st' = 0) \<and>
      (\<forall>y. good_name y \<longrightarrow> get_value (sh_env ad ei uf) st' y = get_value (sh_env ad ei uf) st y)"
    if "set_value (sh_env ad ei uf) st x s = Inl st'"
    using that r by (auto simp: sh_env_def split: sum.splits prod.splits)
qed

section \<open>Command substitution\<close>

text \<open>
  \<open>evalbackcmd\<close> runs a simple command in the shell itself: the list of saved values is put aside, all
  assignments are forced to be local, and the saved values are put back at the end.  The command
  is the sequence of its assignments; the first that fails ends it.
\<close>

fun run_sets :: "(string \<times> string option \<times> vflag set) list \<Rightarrow> sh \<Rightarrow> sh" where
  "run_sets [] st = st"
| "run_sets ((name, val, flags) # ops) st =
     (case setvar name val flags st of Inl (e, st) \<Rightarrow> st | Inr st \<Rightarrow> run_sets ops st)"

definition evalbackcmd_vars :: "(string \<times> string option \<times> vflag set) list \<Rightarrow> sh \<Rightarrow> sh_result option" where
  "evalbackcmd_vars ops st =
     (let savelocalvars = localvars st;
          st = run_sets ops (st\<lparr>localvars := [], forcelocal := forcelocal st + 1\<rparr>)
      in map_option (map_sum id (\<lambda>st. st\<lparr>localvars := savelocalvars\<rparr>))
           (poplocalvars (st\<lparr>forcelocal := forcelocal st - 1\<rparr>)))"

definition fresh_shell :: sh where
  "fresh_shell = \<lparr>vartab = (\<lambda>h. []), localvars = [], forcelocal = 0, aflag = False, iflag = False,
     optval = [], brk = 0, freed = [], events = [], faults = []\<rparr>"

lemma run_sets_undoable:
  assumes "undoable M st" "forcelocal st \<noteq> 0" "\<forall>(n, v, fl) \<in> set ops. fl \<inter> {VNOSET, VNOLOCAL} = {}"
  shows "undoable M (run_sets ops st) \<and> forcelocal (run_sets ops st) = forcelocal st"
  using assms
proof (induction ops st rule: run_sets.induct)
  case (2 name val flags ops st)
  then have "undoable M (outcome (setvar name val flags st)) \<and>
      forcelocal (outcome (setvar name val flags st)) = forcelocal st"
    by (intro setvar_undoable) auto
  then show ?case using 2 by (auto split: sum.split)
qed simp

lemma fresh_ok: "table_ok fresh_shell" "\<not> at fresh_shell a v" "forcelocal fresh_shell = 0"
  by (simp_all add: table_ok_def at_def fresh_shell_def)

section \<open>Properties\<close>

text \<open>
  C14. An assignment in an arithmetic expression over the shell's variables reads back: afterwards the
  variable holds the decimal text of the value, evaluating its name gives the value again, and every
  name the expression does not assign to is as before.
\<close>

theorem assignment_reads_back:
  assumes "table_ok st" "forcelocal st = 0" "valid (Asg op x e)" "spells (body (Asg op x e)) s"
    and "arith (sh_env ad ei uf) st s = Some (Inr (r, st'))"
  shows "arith (sh_env ad ei uf) st' (CHR '' '' # x) = Some (Inr (r, st')) \<and> lookupvar st' x = Some (dec_int (sint r)) \<and>
    (\<forall>y. good_name y \<longrightarrow> y \<notin> assigned (Asg op x e) \<longrightarrow> lookupvar st' y = lookupvar st y)"
proof -
  let ?E = "sh_env ad ei uf"
  have ev: "eval ?E (Asg op x e) st = Inr (r, st')" using assms(5) arith_spells [OF assms(3,4), of ?E st] by simp
  have ok: "table_ok st \<and> forcelocal st = 0" using assms(1,2) by simp
  note k = sv.eval_assignment [OF assms(3) ok ev]
  have "valid (Var x)" using assms(3) by simp
  moreover have "spells (body (Var x)) (CHR '' '' # x)"
    using spells_Cons [of "[CHR '' '']" "[]" "[]" "SVar x"] spells_Nil [of "[]"] by (simp add: blank_def)
  ultimately have "arith ?E st' (CHR '' '' # x) = Some (eval ?E (Var x) st')" by (rule arith_spells)
  moreover have "lookupvar st' y = lookupvar st y" if "good_name y" "y \<notin> assigned (Asg op x e)" for y
    using k(3) [OF that] by (simp add: sh_env_def)
  ultimately show ?thesis using k(1,4) by (simp add: sh_env_def)
qed

theorem assignment_reads_back_witness:
  "\<exists>st'. arith (sh_env (\<lambda>_. 0) False False) fresh_shell '' x = 7 * 6'' = Some (Inr (42, st')) \<and>
     arith (sh_env (\<lambda>_. 0) False False) st' '' x'' = Some (Inr (42, st')) \<and> lookupvar st' ''y'' = None"
proof -
  let ?E = "sh_env (\<lambda>_. 0) False False" and ?e = "Bin ARITH_MUL (Num 7) (Num 6)"
  have "map_option (map_sum fst fst) (arith ?E fresh_shell '' x = 7 * 6'') = Some (Inr 42)" by code_simp
  then obtain z where z: "arith ?E fresh_shell '' x = 7 * 6'' = Some z" "map_sum fst fst z = Inr 42" by auto
  then obtain st' where a: "arith ?E fresh_shell '' x = 7 * 6'' = Some (Inr (42, st'))" by (cases z) auto
  have t: "concat (map (\<lambda>t. CHR '' '' # tok_text t) (body (Asg ARITH_ASS ''x'' ?e))) = '' x = 7 * 6''" by code_simp
  have v: "valid (Asg ARITH_ASS ''x'' ?e)" by (simp add: is_assop_def is_binop_def is_name_def is_in_name_def isdigit_def)
  have s: "spells (body (Asg ARITH_ASS ''x'' ?e)) '' x = 7 * 6''"
    using spells_text [of "body (Asg ARITH_ASS ''x'' ?e)"] unfolding t .
  have y: "good_name ''y''" "lookupvar fresh_shell ''y'' = None" by code_simp+
  show ?thesis
    using assignment_reads_back [OF fresh_ok(1,3) v s a] a y by auto
qed




end
