(* ===== verification/Sh_Start.thy ===== *)
theory Sh_Start
  imports Sh_Shell
begin

text \<open>
  The table of variables at the start of the shell (\<open>initvar\<close> of \<open>src/src.freebsd/sh/var.c\<close>): it is
  well formed, and its values are those of the environment, or the built-in ones.
\<close>

section \<open>The environment for commands\<close>

definition exported :: "sh \<Rightarrow> string \<Rightarrow> bool" where
  "exported st x = (case look st x of None \<Rightarrow> False | Some (s, fl) \<Rightarrow> VEXPORT \<in> fl)"

lemma environment_lists:
  assumes ok: "table_ok st" and x: "CHR ''='' \<notin> set x"
  shows "x @ CHR ''='' # s \<in> set (environment st) \<longleftrightarrow> exported st x \<and> lookupvar st x = Some s"
proof -
  have split: "t_str (v_text v) = x @ CHR ''='' # s \<longleftrightarrow> key v = x \<and> value_of v = s" if "at st a v" for a v
  proof -
    have v: "var_ok v" using at_ok [OF ok that] .
    have "t_str (v_text v) = key v @ CHR ''='' # value_of v"
    proof -
      have "dropWhile (\<lambda>c. c \<noteq> CHR ''='') t = CHR ''='' # drop (length (vname t) + 1) t" if "CHR ''='' \<in> set t" for t
        using that by (induction t) (auto simp: vname_def)
      then show ?thesis
        using v takeWhile_dropWhile_id [of "\<lambda>c. c \<noteq> CHR ''=''" "t_str (v_text v)"]
        unfolding var_ok_def key_def value_of_def vname_def by metis
    qed
    moreover have "CHR ''='' \<notin> set (key v)" by (simp add: key_def)
    ultimately show ?thesis using x v by (auto simp: key_def value_of_def var_ok_def)
  qed
  have "x @ CHR ''='' # s \<in> set (environment st) \<longleftrightarrow>
      (\<exists>a v. at st a v \<and> key v = x \<and> value_of v = s \<and> VEXPORT \<in> v_flags v \<and> VUNSET \<notin> v_flags v)"
    using split unfolding environment_def set_map set_filter at_listed [OF ok, symmetric] by force
  also have "\<dots> \<longleftrightarrow> (\<exists>a v. find_var st x = Some (a, v) \<and> value_of v = s \<and> VEXPORT \<in> v_flags v \<and> VUNSET \<notin> v_flags v)"
    using find_var_at [OF ok, of x] x by auto
  also have "\<dots> \<longleftrightarrow> exported st x \<and> lookupvar st x = Some s"
    by (auto simp: exported_def lookupvar_def look_def visible_def split: option.splits if_splits)
  finally show ?thesis .
qed

section \<open>A table without read-only variables\<close>

definition ready :: "sh \<Rightarrow> bool" where
  "ready st \<longleftrightarrow> table_ok st \<and> forcelocal st = 0 \<and> (\<forall>a v. at st a v \<longrightarrow> VREADONLY \<notin> v_flags v)"

definition val_of :: "string \<Rightarrow> string" where
  "val_of t = drop (length (vname t) + 1) t"

lemma nolocal_readonly:
  assumes st': "setvareq_nolocal s flags st = Inr st'" "VNOSET \<notin> flags" and w: "at st' b w" "VREADONLY \<in> v_flags w"
  shows "VREADONLY \<in> flags \<or> (\<exists>c u. at st c u \<and> VREADONLY \<in> v_flags u)"
proof (cases "find_var st (t_str s)")
  case None
  define fl where "fl = (if aflag st then insert VEXPORT flags else flags)"
  have "setvareq_new s fl st = Inr st'" "VNOSET \<notin> fl"
    using None st' by (simp_all add: setvareq_nolocal_def fl_def)
  then have "vartab st' = (vartab st)(hashval (t_str s) := (Heap (brk st),
      \<lparr>v_flags = fl, v_len = length (vname (t_str s)), v_text = s, v_func = None\<rparr>) # vartab st (hashval (t_str s)))"
    by (auto simp: setvareq_new_def Let_def split: if_splits)
  then have "v_flags w = fl \<or> at st b w" using w(1) by (auto simp: at_def split: if_splits)
  then show ?thesis using w(2) by (auto simp: fl_def split: if_splits)
next
  case (Some p)
  define fl where "fl = (if aflag st then insert VEXPORT flags else flags)"
  obtain a vp where p: "p = (a, vp)" by fastforce
  have "setvareq_found s fl a vp st = Inr st'" "VNOSET \<notin> fl" using Some st' p by (simp_all add: setvareq_nolocal_def fl_def)
  then have "vartab st' = vartab (upd_var a (\<lambda>v. v\<lparr>v_flags := v_flags vp - {VTEXTFIXED, VSTACK, VUNSET} \<union> fl, v_text := s\<rparr>) st)"
    "VREADONLY \<notin> v_flags vp"
    by (auto simp: setvareq_found_def Let_def upd_var_def split: option.splits if_splits)
  then have "at st' = at (upd_var a (\<lambda>v. v\<lparr>v_flags := v_flags vp - {VTEXTFIXED, VSTACK, VUNSET} \<union> fl, v_text := s\<rparr>) st)"
    "VREADONLY \<notin> v_flags vp" using at_cong by blast+
  then show ?thesis using w by (auto simp: fl_def at_upd split: if_splits)
qed

lemma ready_set:
  assumes r: "ready st" and s: "CHR ''='' \<in> set (t_str s)" and fl: "flags \<inter> {VNOSET, VREADONLY, VUNSET} = {}"
  shows "\<exists>st'. setvareq s flags st = Inr st' \<and> ready st' \<and>
    (\<forall>y. vname y \<noteq> vname (t_str s) \<longrightarrow> look st' y = look st y) \<and>
    (\<forall>y. vname y = vname (t_str s) \<longrightarrow> (\<exists>g. look st' y = Some (val_of (t_str s), g) \<and> flags \<inter> {VEXPORT} \<subseteq> g))"
proof -
  have ok: "table_ok st" "forcelocal st = 0" using r by (simp_all add: ready_def)
  have eq: "setvareq s flags st = setvareq_nolocal s flags st" using ok(2) by (simp add: setvareq_def)
  have ns: "VNOSET \<notin> flags" using fl by auto
  show ?thesis
    using ok(1) s ns
  proof (cases rule: nolocal_effect)
    case (readonly st' a v)
    then show ?thesis using r by (auto simp: ready_def)
  next
    case (stored st' a v)
    have "VREADONLY \<notin> v_flags w" if "at st' b w" for b w
      using nolocal_readonly [OF stored(1) ns that] r fl by (auto simp: ready_def)
    then have "ready st'" using stored(2,4) ok by (auto simp: ready_def frame_def)
    moreover have "\<exists>g. look st' y = Some (val_of (t_str s), g) \<and> flags \<inter> {VEXPORT} \<subseteq> g"
      if "vname y = vname (t_str s)" for y
    proof -
      have k: "key v = vname (t_str s)" using stored(7) by (simp add: key_def)
      then have "look st' y = visible v" using look_at [OF stored(2,6)] that by simp
      moreover have "value_of v = val_of (t_str s)"
        using at_ok [OF stored(2,6)] stored(7) k by (simp add: value_of_def val_of_def var_ok_def)
      ultimately show ?thesis using stored(8,9) fl by (auto simp: visible_def)
    qed
    ultimately show ?thesis using stored(1,5) eq by auto
  qed
qed


section \<open>The built-in variables\<close>

lemma add_static_effect:
  assumes ok: "table_ok st" and t: "CHR ''='' \<in> set t" and a: "a \<notin> range Heap"
    and fresh: "\<And>b v. at st b v \<Longrightarrow> b \<noteq> a \<and> key v \<noteq> vname t"
  shows "table_ok (add_static (a, fl, t, f) st)" "forcelocal (add_static (a, fl, t, f) st) = forcelocal st"
    "at (add_static (a, fl, t, f) st) b w \<longleftrightarrow> at st b w \<or> b = a \<and> key w = vname t \<and>
      w = \<lparr>v_flags = fl \<union> {VSTRFIXED, VTEXTFIXED}, v_len = length (vname t), v_text = Txt None t, v_func = f\<rparr>"
proof -
  let ?v = "\<lparr>v_flags = fl \<union> {VSTRFIXED, VTEXTFIXED}, v_len = length (vname t), v_text = Txt None t, v_func = f\<rparr>"
  let ?st = "add_static (a, fl, t, f) st"
  have st: "?st = st\<lparr>vartab := (vartab st)(hashval t := (a, ?v) # vartab st (hashval t))\<rparr>"
    using find_var_None [OF ok, of t] fresh by (auto simp: add_static_def Let_def)
  have at: "at ?st b w \<longleftrightarrow> at st b w \<or> b = a \<and> w = ?v" for b w
  proof -
    have "(b, w) \<in> set (vartab ?st h) \<longleftrightarrow> (b, w) \<in> set (vartab st h) \<or> h = hashval t \<and> b = a \<and> w = ?v" for h
      by (auto simp: st)
    then show ?thesis by (auto simp: at_def)
  qed
  have k: "key ?v = vname t" "var_ok ?v" using t by (simp_all add: key_def var_ok_def)
  show "at ?st b w \<longleftrightarrow> at st b w \<or> b = a \<and> key w = vname t \<and> w = ?v" using at k by auto
  show "forcelocal ?st = forcelocal st" by (simp add: st)
  show "table_ok ?st"
    unfolding table_ok_def
  proof (intro conjI allI impI)
    fix h b v assume "(b, v) \<in> set (vartab ?st h)"
    then show "var_ok v" "h = hashval (key v)" using ok k by (auto simp: st table_ok_def split: if_splits)
  next
    fix b v c w assume "at ?st b v" "at ?st c w" "b = c \<or> key v = key w"
    then show "b = c" "v = w" using at_unique [OF ok] key_unique [OF ok] fresh k unfolding at by metis+
  next
    fix n v assume "at ?st (Heap n) v"
    then show "n < brk ?st" using ok a unfolding at by (auto simp: st table_ok_def)
  qed
qed

lemma add_statics_effect:
  assumes "table_ok st" "distinct (map fst xs)" "distinct (map (\<lambda>(a, fl, t, f). vname t) xs)"
    and "\<forall>(a, fl, t, f) \<in> set xs. a \<notin> range Heap \<and> CHR ''='' \<in> set t"
    and "\<And>b v. at st b v \<Longrightarrow> b \<notin> fst ` set xs \<and> key v \<notin> (\<lambda>(a, fl, t, f). vname t) ` set xs"
  shows "table_ok (fold add_static xs st) \<and> forcelocal (fold add_static xs st) = forcelocal st \<and>
    (\<forall>b w. at (fold add_static xs st) b w \<longleftrightarrow> at st b w \<or> (\<exists>fl t f. (b, fl, t, f) \<in> set xs \<and>
      w = \<lparr>v_flags = fl \<union> {VSTRFIXED, VTEXTFIXED}, v_len = length (vname t), v_text = Txt None t, v_func = f\<rparr>))"
  using assms
proof (induction xs arbitrary: st)
  case (Cons x xs)
  obtain a fl t f where x: "x = (a, fl, t, f)" by (cases x) auto
  note e = add_static_effect [of st t a, where fl = fl and f = f]
  have p: "table_ok st" "CHR ''='' \<in> set t" "a \<notin> range Heap" "\<And>b v. at st b v \<Longrightarrow> b \<noteq> a \<and> key v \<noteq> vname t"
    using Cons.prems by (auto simp: x)
  note e = e [OF p]
  have "b \<notin> fst ` set xs \<and> key v \<notin> (\<lambda>(a, fl, t, f). vname t) ` set xs" if "at (add_static x st) b v" for b v
  proof -
    have "at st b v \<or> b = a \<and> key v = vname t" using that e(3) [of b v] by (auto simp: x)
    then show ?thesis using Cons.prems(2,3) Cons.prems(5) [of b v] by (elim disjE) (simp_all add: x)
  qed
  then have "table_ok (fold add_static xs (add_static x st)) \<and>
    forcelocal (fold add_static xs (add_static x st)) = forcelocal (add_static x st) \<and>
    (\<forall>b w. at (fold add_static xs (add_static x st)) b w \<longleftrightarrow> at (add_static x st) b w \<or> (\<exists>fl t f. (b, fl, t, f) \<in> set xs \<and>
      w = \<lparr>v_flags = fl \<union> {VSTRFIXED, VTEXTFIXED}, v_len = length (vname t), v_text = Txt None t, v_func = f\<rparr>))"
    using Cons.prems e(1) by (intro Cons.IH) (auto simp: x)
  then show ?case using e(2,3) by (auto simp: x key_def)
qed simp

lemma import_effect:
  assumes "ready st"
  shows "\<exists>st'. import_environ envp st = Inr st' \<and> ready st' \<and>
    (\<forall>y. CHR ''='' \<notin> set y \<longrightarrow> lookupvar st' y =
      (case map_of (rev (map (\<lambda>t. (vname t, val_of t)) (filter (\<lambda>t. CHR ''='' \<in> set t) envp))) y of
         Some s \<Rightarrow> Some s | None \<Rightarrow> lookupvar st y)) \<and>
    (\<forall>t \<in> set envp. CHR ''='' \<in> set t \<longrightarrow> exported st' (vname t)) \<and>
    (\<forall>y. exported st y \<longrightarrow> exported st' y)"
  using assms
proof (induction envp arbitrary: st)
  case (Cons t envp)
  show ?case
  proof (cases "CHR ''='' \<in> set t")
    case True
    then obtain st1 where st1: "setvareq (Txt None t) {VEXPORT, VTEXTFIXED} st = Inr st1" "ready st1"
      "\<And>y. vname y \<noteq> vname t \<Longrightarrow> look st1 y = look st y"
      "\<And>y. vname y = vname t \<Longrightarrow> \<exists>g. look st1 y = Some (val_of t, g) \<and> VEXPORT \<in> g"
      using ready_set [OF Cons.prems, of "Txt None t" "{VEXPORT, VTEXTFIXED}"] by auto
    have e1: "exported st1 y" if "vname y = vname t \<or> exported st y" for y
      using that st1(3) [of y] st1(4) [of y] by (cases "vname y = vname t") (auto simp: exported_def)
    have l1: "lookupvar st1 y = (if y = vname t then Some (val_of t) else lookupvar st y)" if "CHR ''='' \<notin> set y" for y
      using st1(3) [of y] st1(4) [of y] that by (auto simp: lookupvar_look)
    obtain st' where "import_environ envp st1 = Inr st'" "ready st'"
      "\<forall>y. CHR ''='' \<notin> set y \<longrightarrow> lookupvar st' y =
      (case map_of (rev (map (\<lambda>t. (vname t, val_of t)) (filter (\<lambda>t. CHR ''='' \<in> set t) envp))) y of
         Some s \<Rightarrow> Some s | None \<Rightarrow> lookupvar st1 y)"
      "\<forall>t \<in> set envp. CHR ''='' \<in> set t \<longrightarrow> exported st' (vname t)" "\<forall>y. exported st1 y \<longrightarrow> exported st' y"
      using Cons.IH [OF st1(2)] by blast
    then show ?thesis using True st1(1) l1 e1 by (intro exI [of _ st']) (auto simp: map_add_def split: option.split)
  next
    case False
    then show ?thesis using Cons by (auto split: option.split)
  qed
qed (auto simp: exported_def)

definition statics :: "string \<Rightarrow> bool \<Rightarrow> sh \<Rightarrow> sh" where
  "statics defpath root st =
     fold add_static (varinit defpath @ [(Vps1, {}, if root then ''PS1=# '' else ''PS1=$ '', None)]) st"

definition builtin_value :: "string \<Rightarrow> bool \<Rightarrow> string \<Rightarrow> string option" where
  "builtin_value defpath root = map_of
     [(''IFS'', [CHR 0x20, CHR 0x09, CHR 0x0A]), (''PATH'', defpath), (''PS2'', ''> ''), (''PS4'', ''+ ''),
      (''OPTIND'', ''1''), (''PS1'', if root then ''# '' else ''$ '')]"

lemma statics_effect:
  assumes "table_ok st" "forcelocal st = 0" "\<And>b v. \<not> at st b v"
  shows "ready (statics defpath root st)"
    "CHR ''='' \<notin> set y \<Longrightarrow> lookupvar (statics defpath root st) y = builtin_value defpath root y"
proof -
  let ?xs = "varinit defpath @ [(Vps1, {}, if root then ''PS1=# '' else ''PS1=$ '', None)]"
  have vn: "vname (''PATH='' @ defpath) = ''PATH''" by (simp add: vname_def)
  have d: "distinct (map fst ?xs)" "distinct (map (\<lambda>(a, fl, t, f). vname t) ?xs)"
    "\<forall>(a, fl, t, f) \<in> set ?xs. a \<notin> range Heap \<and> CHR ''='' \<in> set t"
    by (auto simp: varinit_def vname_def)
  have e: "table_ok (statics defpath root st)" "forcelocal (statics defpath root st) = 0"
    "\<And>b w. at (statics defpath root st) b w \<longleftrightarrow> (\<exists>fl t f. (b, fl, t, f) \<in> set ?xs \<and>
      w = \<lparr>v_flags = fl \<union> {VSTRFIXED, VTEXTFIXED}, v_len = length (vname t), v_text = Txt None t, v_func = f\<rparr>)"
    using add_statics_effect [OF assms(1) d] assms(2,3) unfolding statics_def by auto
  show "ready (statics defpath root st)"
    unfolding ready_def e(3) using e(1,2) by (auto simp: varinit_def)
  show "lookupvar (statics defpath root st) y = builtin_value defpath root y" if y: "CHR ''='' \<notin> set y"
  proof (cases "find_var (statics defpath root st) y")
    case None
    then have "vname t \<noteq> y" if "(b, fl, t, f) \<in> set ?xs" for b fl t f
      using find_var_None [OF e(1), of y] y that unfolding e(3) by (fastforce simp: key_def)
    then have "y \<notin> (\<lambda>(a, fl, t, f). vname t) ` set ?xs"
      by (simp only: image_iff Bex_def split_paired_Ex case_prod_conv) blast
    moreover have "{''IFS'', ''PATH'', ''PS2'', ''PS4'', ''OPTIND'', ''PS1''} \<subseteq> (\<lambda>(a, fl, t, f). vname t) ` set ?xs"
      by (simp add: varinit_def vname_def)
    ultimately have "y \<notin> {''IFS'', ''PATH'', ''PS2'', ''PS4'', ''OPTIND'', ''PS1''}" by blast
    then have "builtin_value defpath root y = None" by (simp add: builtin_value_def)
    then show ?thesis using None by (simp add: lookupvar_def)
  next
    case (Some p)
    obtain a v where p: "p = (a, v)" by fastforce
    then have av: "at (statics defpath root st) a v" "key v = y" using Some find_var_at [OF e(1), of y] y by auto
    then obtain fl t f where t: "(a, fl, t, f) \<in> set ?xs"
      "v = \<lparr>v_flags = fl \<union> {VSTRFIXED, VTEXTFIXED}, v_len = length (vname t), v_text = Txt None t, v_func = f\<rparr>"
      unfolding e(3) by blast
    then have y: "vname t = y" using av(2) by (simp add: key_def)
    have "lookupvar (statics defpath root st) y = (if VUNSET \<in> fl then None else Some (val_of t))"
      using Some p t(2) by (simp add: lookupvar_def value_of_def val_of_def)
    also have "\<dots> = builtin_value defpath root (vname t)"
      using t(1) by (auto simp: varinit_def builtin_value_def vname_def val_of_def)
    finally show ?thesis using y by simp
  qed
qed

lemma ready_const:
  assumes "ready st" "CHR ''='' \<in> set t"
  shows "\<exists>st'. setvareq_const t {} st = Inr st' \<and> ready st' \<and>
    (\<forall>y. vname y \<noteq> vname t \<longrightarrow> look st' y = look st y) \<and>
    (\<forall>y. vname y = vname t \<longrightarrow> lookupvar st' y = Some (val_of t))"
  using ready_set [OF assms(1), of "Txt None t" "{VTEXTFIXED}"] assms(2)
  by (fastforce simp: setvareq_const_def lookupvar_look)

lemma ppid_effect:
  assumes "ready st"
  shows "\<exists>st'. snd (setvarsafe ''PPID'' (Some d) {} st) = st' \<and> ready st' \<and>
    (\<forall>y. CHR ''='' \<notin> set y \<longrightarrow> lookupvar st' y = (if y = ''PPID'' then Some d else lookupvar st y))"
proof -
  let ?t = "''PPID'' @ CHR ''='' # d"
  let ?s1 = "snd (ckmalloc ?t st)" and ?p = "fst (ckmalloc ?t st)"
  have ok: "table_ok st" using assms by (simp add: ready_def)
  note c = ckmalloc_effect [OF ok, where t = ?t]
  have r1: "ready ?s1" using assms c(1,4,5) by (simp add: ready_def frame_def)
  have v: "vname ?t = ''PPID''" "val_of ?t = d" by (simp_all add: vname_def val_of_def)
  obtain s2 where s2: "setvareq ?p {} ?s1 = Inr s2" "ready s2"
    "\<And>y. vname y \<noteq> ''PPID'' \<Longrightarrow> look s2 y = look ?s1 y" "\<And>y. vname y = ''PPID'' \<Longrightarrow> \<exists>g. look s2 y = Some (d, g)"
    using ready_set [OF r1, of ?p "{}"] v by auto
  have "setvar_name ''PPID'' = Inr ''PPID''" by code_simp
  then have "snd (setvarsafe ''PPID'' (Some d) {} st) = s2"
    using s2(1) by (simp add: setvarsafe_def setvar_def setvar_with_def Let_def case_prod_beta)
  moreover have "lookupvar s2 y = (if y = ''PPID'' then Some d else lookupvar st y)" if "CHR ''='' \<notin> set y" for y
    using s2(3) [of y] s2(4) [of y] c(2) [of y] that by (auto simp: lookupvar_look)
  ultimately show ?thesis using s2(2) by blast
qed

text \<open>
  C16. The table at the start of the shell is well formed.  A variable has the value of its last
  entry in the environment, else its built-in one; \<open>OPTIND\<close> and \<open>IFS\<close> always start
  with their built-in values; what came with the environment is passed on to commands.
\<close>

theorem initvar_imports:
  assumes "table_ok st" "forcelocal st = 0" "\<And>b v. \<not> at st b v"
  shows "\<exists>st'. initvar defpath root ppid envp st = Inr st' \<and> table_ok st' \<and> forcelocal st' = 0 \<and>
    (\<forall>x. CHR ''='' \<notin> set x \<longrightarrow> lookupvar st' x =
      (if x = ''OPTIND'' then Some ''1''
       else if x = ''IFS'' then Some [CHR 0x20, CHR 0x09, CHR 0x0A]
       else case map_of (rev (map (\<lambda>t. (vname t, val_of t)) (filter (\<lambda>t. CHR ''='' \<in> set t) envp))) x of
              Some s \<Rightarrow> Some s
            | None \<Rightarrow> if x = ''PPID'' then Some (dec_int ppid) else builtin_value defpath root x)) \<and>
    (\<forall>t \<in> set envp. CHR ''='' \<in> set t \<longrightarrow> vname t \<notin> {''OPTIND'', ''IFS''} \<longrightarrow>
      vname t @ CHR ''='' # the (lookupvar st' (vname t)) \<in> set (environment st'))"
proof -
  let ?M = "map_of (rev (map (\<lambda>t. (vname t, val_of t)) (filter (\<lambda>t. CHR ''='' \<in> set t) envp)))"
  let ?s0 = "statics defpath root st"
  note s0 = statics_effect [OF assms, where defpath = defpath and root = root]
  obtain s2 where s2: "snd (setvarsafe ''PPID'' (Some (dec_int ppid)) {} ?s0) = s2" "ready s2"
    "\<And>y. CHR ''='' \<notin> set y \<Longrightarrow> lookupvar s2 y = (if y = ''PPID'' then Some (dec_int ppid) else builtin_value defpath root y)"
    using ppid_effect [OF s0(1), of "dec_int ppid"] s0(2) by auto
  obtain s3 where s3: "import_environ envp s2 = Inr s3" "ready s3"
    "\<And>y. CHR ''='' \<notin> set y \<Longrightarrow> lookupvar s3 y = (case ?M y of Some s \<Rightarrow> Some s | None \<Rightarrow> lookupvar s2 y)"
    "\<And>t. t \<in> set envp \<Longrightarrow> CHR ''='' \<in> set t \<Longrightarrow> exported s3 (vname t)"
    using import_effect [OF s2(2), of envp] by blast
  obtain s4 where s4: "setvareq_const ''OPTIND=1'' {} s3 = Inr s4" "ready s4"
    "\<And>y. vname y \<noteq> ''OPTIND'' \<Longrightarrow> look s4 y = look s3 y" "lookupvar s4 ''OPTIND'' = Some ''1''"
    using ready_const [OF s3(2), of "''OPTIND=1''"] by (auto simp: vname_def val_of_def)
  obtain s5 where s5: "setvareq_const (''IFS= '' @ [CHR 0x09, CHR 0x0A]) {} s4 = Inr s5" "ready s5"
    "\<And>y. vname y \<noteq> ''IFS'' \<Longrightarrow> look s5 y = look s4 y" "lookupvar s5 ''IFS'' = Some [CHR 0x20, CHR 0x09, CHR 0x0A]"
    using ready_const [OF s4(2), of "''IFS= '' @ [CHR 0x09, CHR 0x0A]"] by (auto simp: vname_def val_of_def)
  have l5: "look s5 y = look s3 y" if "vname y \<noteq> ''OPTIND''" "vname y \<noteq> ''IFS''" for y
    using that s5(3) s4(3) by simp
  have ok5: "table_ok s5" using s5(2) by (simp add: ready_def)
  have "initvar defpath root ppid envp st = Inr s5"
    using s2(1) s3(1) s4(1) s5(1) by (simp add: initvar_def statics_def)
  moreover have "lookupvar s5 x = (if x = ''OPTIND'' then Some ''1''
       else if x = ''IFS'' then Some [CHR 0x20, CHR 0x09, CHR 0x0A]
       else case ?M x of Some s \<Rightarrow> Some s
            | None \<Rightarrow> if x = ''PPID'' then Some (dec_int ppid) else builtin_value defpath root x)"
    if x: "CHR ''='' \<notin> set x" for x
  proof -
    have "lookupvar s5 x = lookupvar s3 x" if "x \<noteq> ''OPTIND''" "x \<noteq> ''IFS''"
      using l5 [of x] x that by (simp add: lookupvar_look)
    moreover have "lookupvar s5 ''OPTIND'' = Some ''1''"
      using s5(3) [of "''OPTIND''"] s4(4) by (simp add: lookupvar_look)
    ultimately show ?thesis using s3(3) [OF x] s2(3) [OF x] s5(4) by (auto split: option.split)
  qed
  moreover have "vname t @ CHR ''='' # the (lookupvar s5 (vname t)) \<in> set (environment s5)"
    if "t \<in> set envp" "CHR ''='' \<in> set t" "vname t \<notin> {''OPTIND'', ''IFS''}" for t
  proof -
    have "exported s5 (vname t)" using s3(4) [OF that(1,2)] l5 [of "vname t"] that(3) by (auto simp: exported_def)
    then show ?thesis
      using environment_lists [OF ok5, of "vname t"] by (auto simp: exported_def lookupvar_look split: option.splits)
  qed
  ultimately show ?thesis using s5(2) by (auto simp: ready_def)
qed

theorem initvar_imports_witness:
  "\<exists>st'. initvar ''/bin'' False 7 [''A=1'', ''IFS=x'', ''junk'', ''A=2=3''] fresh_shell = Inr st' \<and> table_ok st' \<and>
     lookupvar st' ''A'' = Some ''2=3'' \<and> lookupvar st' ''IFS'' = Some [CHR 0x20, CHR 0x09, CHR 0x0A] \<and>
     lookupvar st' ''PATH'' = Some ''/bin'' \<and> ''A=2=3'' \<in> set (environment st')"
proof -
  let ?env = "[''A=1'', ''IFS=x'', ''junk'', ''A=2=3'']"
  have m: "map (\<lambda>t. (vname t, val_of t)) (filter (\<lambda>t. CHR ''='' \<in> set t) ?env) =
    [(''A'', ''1''), (''IFS'', ''x''), (''A'', ''2=3'')]" "vname ''A=2=3'' = ''A''" "vname ''A=1'' = ''A''" "vname ''IFS=x'' = ''IFS''"
    by code_simp+
  have b: "builtin_value ''/bin'' False ''PATH'' = Some ''/bin''" by code_simp
  obtain st' where "initvar ''/bin'' False 7 ?env fresh_shell = Inr st'" "table_ok st'"
    and l: "\<And>x. CHR ''='' \<notin> set x \<Longrightarrow> lookupvar st' x =
      (if x = ''OPTIND'' then Some ''1''
       else if x = ''IFS'' then Some [CHR 0x20, CHR 0x09, CHR 0x0A]
       else case map_of (rev [(''A'', ''1''), (''IFS'', ''x''), (''A'', ''2=3'')]) x of
              Some s \<Rightarrow> Some s
            | None \<Rightarrow> if x = ''PPID'' then Some (dec_int 7) else builtin_value ''/bin'' False x)"
    and e: "\<forall>t \<in> set ?env. CHR ''='' \<in> set t \<longrightarrow> vname t \<notin> {''OPTIND'', ''IFS''} \<longrightarrow>
      vname t @ CHR ''='' # the (lookupvar st' (vname t)) \<in> set (environment st')"
    using initvar_imports [OF fresh_ok(1,3,2), of "''/bin''" False 7 ?env] unfolding m(1) by blast
  moreover have "lookupvar st' ''A'' = Some ''2=3''" using l [of "''A''"] by simp
  moreover have "''A=2=3'' \<in> set (environment st')" using e m(2-) calculation by simp
  ultimately show ?thesis using l [of "''IFS''"] l [of "''PATH''"] b by simp
qed

lemma readonly_refuses:
  assumes ok: "table_ok st" "forcelocal st = 0" and x: "good_name x"
    and v: "find_var st x = Some (a, v)" "VREADONLY \<in> v_flags v"
  shows "\<exists>st'. setvar x (Some s) fl st = Inl (Read_only, st')"
proof -
  have ne: "CHR ''='' \<notin> set x" using good_name_no_eq [OF x] .
  let ?t = "x @ CHR ''='' # s"
  have "find_var (snd (ckmalloc ?t st)) ?t = Some (a, v)" using v(1) ne by (simp add: find_var_def hashval_def)
  moreover have "setvar_name x = Inr x" using setvar_name_eq [of x] x ne by simp
  ultimately show ?thesis
    using ok(2) v(2)
    by (auto simp: setvar_def setvar_with_def setvareq_def setvareq_nolocal_def setvareq_found_def Let_def case_prod_beta)
qed

text \<open>
  C12. Setting a variable outside of a substitution: a read-only variable, set or not, refuses and
  nothing changes; any other name afterwards has the value and every other name is as before.  The
  environment for commands has exactly the exported variables that are set, with their values.
\<close>

theorem setvar_lookupvar_environment:
  assumes "table_ok st" "forcelocal st = 0" "good_name x" "fl \<subseteq> {VEXPORT, VREADONLY}"
  shows "if \<exists>a v. find_var st x = Some (a, v) \<and> VREADONLY \<in> v_flags v
    then \<exists>st'. setvar x (Some s) fl st = Inl (Read_only, st') \<and> (\<forall>y. look st' y = look st y)
    else \<exists>st'. setvar x (Some s) fl st = Inr st' \<and> table_ok st' \<and> lookupvar st' x = Some s \<and>
      (\<forall>y. vname y \<noteq> x \<longrightarrow> look st' y = look st y) \<and> (VEXPORT \<in> fl \<longrightarrow> exported st' x) \<and>
      (\<forall>y t. CHR ''='' \<notin> set y \<longrightarrow>
        (y @ CHR ''='' # t \<in> set (environment st') \<longleftrightarrow> exported st' y \<and> lookupvar st' y = Some t))"
proof -
  have ne: "CHR ''='' \<notin> set x" using good_name_no_eq [OF assms(3)] .
  have ns: "VNOSET \<notin> fl" using assms(4) by auto
  show ?thesis
    using assms(1,2) ns assms(3)
  proof (cases rule: setvar_effect [where s = s])
    case (refused st' a v)
    then have "find_var st x = Some (a, v)" using find_var_at [OF assms(1)] ne by simp
    then show ?thesis using refused by auto
  next
    case (stored st' a v)
    have "\<not> (\<exists>a v. find_var st x = Some (a, v) \<and> VREADONLY \<in> v_flags v)"
      using readonly_refuses [OF assms(1-3), where s = s and fl = fl] stored(1) by force
    moreover have u: "VUNSET \<notin> v_flags v" using stored(7) assms(4) by auto
    moreover have "exported st' x" if "VEXPORT \<in> fl"
    proof -
      have "key v = x" using stored(6) ne by (simp add: key_def)
      then have "look st' x = visible v" using look_at [OF stored(2,5)] ne by simp
      then show ?thesis using u that stored(8) by (auto simp: exported_def visible_def)
    qed
    ultimately show ?thesis
      using stored(1,2,4) lookupvar_stored [OF stored(2,5,6) ne] environment_lists [OF stored(2)] by auto
  qed
qed

theorem setvar_lookupvar_environment_witness:
  "\<exists>st'. setvar ''A'' (Some ''1'') {VEXPORT} fresh_shell = Inr st' \<and> ''A=1'' \<in> set (environment st')"
proof -
  have g: "good_name ''A''" "find_var fresh_shell ''A'' = None" by code_simp+
  have "{VEXPORT} \<subseteq> {VEXPORT, VREADONLY}" by simp
  then obtain st' where st': "setvar ''A'' (Some ''1'') {VEXPORT} fresh_shell = Inr st'" "lookupvar st' ''A'' = Some ''1''"
    "exported st' ''A''" "\<forall>y t. CHR ''='' \<notin> set y \<longrightarrow>
        (y @ CHR ''='' # t \<in> set (environment st') \<longleftrightarrow> exported st' y \<and> lookupvar st' y = Some t)"
    using setvar_lookupvar_environment [OF fresh_ok(1,3) g(1), of "{VEXPORT}" "''1''"] g(2) by auto
  have "CHR ''='' \<notin> set ''A''" by simp
  then have "''A'' @ CHR ''='' # ''1'' \<in> set (environment st')" using st' by blast
  then show ?thesis using st'(1) by auto
qed

end
