(* ===== verification/M4_Buf.thy ===== *)
theory M4_Buf
  imports Numbers
begin

text \<open>
  The input of \<open>m4\<close>, \<open>src/src.freebsd/m4/misc.c\<close>: files included in one another, each with the text
  that was pushed back onto it.  All of that text is in one buffer that grows and then moves, so
  pointers into it are adjusted; here a pointer is an address, and a write or a read outside of the
  buffer is an error.

  Where \<open>realloc\<close> puts the buffer of a given size, and what it holds beyond the old contents, are
  parameters; its failure ends the program.
\<close>

section \<open>State\<close>

datatype m4_error =
    Out_of_bounds | Diverges | Base_too_big | Bad_base | Too_many_files | No_such_level
  | Null_definition | Recursive_definition | Bad_number num_error | Diversion_active | Overflow | Cannot_include | Undefined_macro | Use_after_free | Botch | Exit int

record heap =
  place :: "nat \<Rightarrow> int"
  junk :: "nat \<Rightarrow> u8"

record input_file =
  contents :: "u8 list"
  lineno :: nat

record input =
  buf :: int
  bufsize :: nat
  pbmem :: "u8 list"
  bufbase :: int
  bbase :: "int list"
  bp :: int
  endpbb :: int
  infile :: "input_file list"
  ilevel :: nat

type_synonym 'a m4_result = "m4_error + 'a"

abbreviation MAXINP :: nat where "MAXINP \<equiv> 10"
abbreviation BUFSIZE :: nat where "BUFSIZE \<equiv> 4096"

text \<open>The slots of \<open>infile\<close> beyond the level are not in use.\<close>

definition initspaces :: "heap \<Rightarrow> u8 list \<Rightarrow> input" where
  "initspaces H text =
     (let b = place H BUFSIZE in
      \<lparr>buf = b, bufsize = BUFSIZE, pbmem = map (junk H) [0..<BUFSIZE], bufbase = b,
       bbase = replicate MAXINP b, bp = b, endpbb = b + int BUFSIZE,
       infile = [\<lparr>contents = text, lineno = 1\<rparr>], ilevel = 0\<rparr>)"

section \<open>Pushing back\<close>

definition enlarge_bufspace :: "heap \<Rightarrow> input \<Rightarrow> input" where
  "enlarge_bufspace H st =
     (let size = bufsize st + bufsize st div 2; new = place H size in
      st\<lparr>bufsize := size, pbmem := pbmem st @ map (junk H) [bufsize st..<size],
         bbase := map (\<lambda>p. p - buf st + new) (bbase st), bp := bp st - buf st + new,
         bufbase := bufbase st - buf st + new, buf := new, endpbb := new + int size\<rparr>)"

definition put_at_bp :: "u8 \<Rightarrow> input \<Rightarrow> input m4_result" where
  "put_at_bp c st =
     (if buf st \<le> bp st \<and> bp st < buf st + int (bufsize st)
      then Inr (st\<lparr>pbmem := (pbmem st)[nat (bp st - buf st) := c], bp := bp st + 1\<rparr>)
      else Inl Out_of_bounds)"

definition pushback :: "heap \<Rightarrow> u8 option \<Rightarrow> input \<Rightarrow> input m4_result" where
  "pushback H c st =
     (case c of
        None \<Rightarrow> Inr st
      | Some c \<Rightarrow> put_at_bp c (if bp st \<ge> endpbb st then enlarge_bufspace H st else st))"

partial_function (option) enlarge_for :: "heap \<Rightarrow> nat \<Rightarrow> input \<Rightarrow> input option" where
  "enlarge_for H n st = (if endpbb st - bp st \<le> int n then enlarge_for H n (enlarge_bufspace H st) else Some st)"

declare enlarge_for.simps [code]

text \<open>The second loop of \<open>pbstr\<close> goes through the string from its end.\<close>

fun put_all :: "u8 list \<Rightarrow> input \<Rightarrow> input m4_result" where
  "put_all [] st = Inr st"
| "put_all (c # cs) st = err_bind (put_at_bp c st) (put_all cs)"

definition pbstr :: "heap \<Rightarrow> c_string \<Rightarrow> input \<Rightarrow> input m4_result" where
  "pbstr H s st =
     (case enlarge_for H (length s) st of
        None \<Rightarrow> Inl Diverges
      | Some st \<Rightarrow> put_all (rev s) st)"

definition m4_digits :: c_string where
  "m4_digits = bytes ''0123456789abcdefghijklmnopqrstuvwxyz''"

text \<open>
  The digits of an unsigned number, the last one first, and how many were written.  The bounds on
  the base, which the caller has checked, let the loop end.
\<close>

function push_digits :: "heap \<Rightarrow> nat \<Rightarrow> u32 \<Rightarrow> input \<Rightarrow> (nat \<times> input) m4_result" where
  "push_digits H base num st =
     err_bind (pushback H (Some (m4_digits ! (unat num mod base))) st) (\<lambda>st.
       let num = num div of_nat base in
       if 2 \<le> base \<and> base \<le> 36 \<and> num > 0 then err_bind (push_digits H base num st) (\<lambda>(n, st). Inr (n + 1, st))
       else Inr (1, st))"
  by pat_completeness auto
termination
proof (relation "measure (\<lambda>(H, base, num, st). unat num)")
  fix num n :: u32 and base :: nat
  assume a: "n = num div of_nat base" "2 \<le> base \<and> base \<le> 36 \<and> n > 0"
  have "unat (of_nat base :: u32) = base" using a(2) by (simp add: unat_of_nat)
  then have "unat n = unat num div base" by (simp add: a(1) unat_div)
  moreover have "0 < unat n" using a(2) by (simp add: unat_gt_0 word_gt_0)
  ultimately show "((H, base, n, st), H, base, num, st') \<in> measure (\<lambda>(H, base, num, st). unat num)" for H st st'
    using a(2) by (auto intro!: div_less_dividend simp: div_greater_zero_iff)
qed simp

declare push_digits.simps [simp del]

fun push_zeros :: "heap \<Rightarrow> nat \<Rightarrow> input \<Rightarrow> input m4_result" where
  "push_zeros H 0 st = Inr st"
| "push_zeros H (Suc n) st = err_bind (pushback H (Some (byte_of (CHR ''0''))) st) (push_zeros H n)"

text \<open>
  The number is a signed \<open>int\<close>; the negation of the smallest one, which C leaves open, wraps around
  here.
\<close>

definition pbnumbase :: "heap \<Rightarrow> u32 \<Rightarrow> int \<Rightarrow> int \<Rightarrow> input \<Rightarrow> input m4_result" where
  "pbnumbase H n base d st =
     (if base > 36 then Inl Base_too_big
      else if base < 2 then Inl Bad_base
      else
        let num = (if sint n < 0 then - n else n) in
        err_bind (push_digits H (nat base) num st) (\<lambda>(printed, st).
        err_bind (push_zeros H (nat d - printed) st) (\<lambda>st.
        if sint n < 0 then pushback H (Some (byte_of (CHR ''-''))) st else Inr st)))"

definition pbnum :: "heap \<Rightarrow> u32 \<Rightarrow> input \<Rightarrow> input m4_result" where
  "pbnum H n = pbnumbase H n 10 0"

section \<open>Reading\<close>

definition obtain_char :: "input_file \<Rightarrow> u8 option \<times> input_file" where
  "obtain_char f =
     (case contents f of
        [] \<Rightarrow> (None, f)
      | c # cs \<Rightarrow> (Some c, f\<lparr>contents := cs, lineno := lineno f + of_bool (c = 10)\<rparr>))"

definition gpbc :: "input \<Rightarrow> (u8 option \<times> input) m4_result" where
  "gpbc st =
     (if bp st > bufbase st then
        if buf st < bp st \<and> bp st \<le> buf st + int (bufsize st)
        then Inr (Some (pbmem st ! nat (bp st - 1 - buf st)), st\<lparr>bp := bp st - 1\<rparr>)
        else Inl Out_of_bounds
      else if ilevel st < length (infile st) then
        case obtain_char (infile st ! ilevel st) of
          (c, f) \<Rightarrow> Inr (c, st\<lparr>infile := (infile st)[ilevel st := f]\<rparr>)
      else Inl No_such_level)"

text \<open>A file is included, if it could be opened; the end of an included file.\<close>

definition doinclude :: "u8 list option \<Rightarrow> input \<Rightarrow> (bool \<times> input) m4_result" where
  "doinclude file st =
     (if ilevel st + 1 = MAXINP then Inl Too_many_files
      else case file of
        None \<Rightarrow> Inr (False, st)
      | Some text \<Rightarrow>
          Inr (True, st\<lparr>infile := take (ilevel st + 1) (infile st) @ [\<lparr>contents = text, lineno = 1\<rparr>],
            ilevel := ilevel st + 1, bufbase := bp st, bbase := (bbase st)[ilevel st + 1 := bp st]\<rparr>))"

definition end_include :: "input \<Rightarrow> input m4_result" where
  "end_include st =
     (if ilevel st = 0 then Inl No_such_level
      else Inr (st\<lparr>ilevel := ilevel st - 1, bufbase := bbase st ! (ilevel st - 1)\<rparr>))"

section \<open>The input as streams of characters\<close>

definition buf_ok :: "input \<Rightarrow> bool" where
  "buf_ok st \<longleftrightarrow> length (pbmem st) = bufsize st \<and> 2 \<le> bufsize st \<and> endpbb st = buf st + int (bufsize st) \<and>
     length (bbase st) = MAXINP \<and> ilevel st < MAXINP \<and> ilevel st < length (infile st) \<and>
     bufbase st = bbase st ! ilevel st \<and> buf st \<le> bbase st ! 0 \<and>
     (\<forall>i < ilevel st. bbase st ! i \<le> bbase st ! Suc i) \<and> bufbase st \<le> bp st \<and> bp st \<le> endpbb st"

definition seg :: "input \<Rightarrow> int \<Rightarrow> int \<Rightarrow> u8 list" where
  "seg st p q = take (nat (q - p)) (drop (nat (p - buf st)) (pbmem st))"

definition lower :: "input \<Rightarrow> u8 list list" where
  "lower st = rev (map (\<lambda>i. rev (seg st (bbase st ! i) (bbase st ! Suc i)) @ contents (infile st ! i)) [0..<ilevel st])"

definition top_stream :: "input \<Rightarrow> u8 list" where
  "top_stream st = rev (seg st (bufbase st) (bp st)) @ contents (infile st ! ilevel st)"

text \<open>What is to be read on each level, the innermost file first.\<close>

definition streams :: "input \<Rightarrow> u8 list list" where
  "streams st = top_stream st # lower st"

lemma base_mono: "buf_ok st \<Longrightarrow> i \<le> j \<Longrightarrow> j \<le> ilevel st \<Longrightarrow> bbase st ! i \<le> bbase st ! j"
proof (induction j)
  case (Suc j)
  then show ?case by (cases "i = Suc j") (auto simp: buf_ok_def intro: order_trans)
qed simp

lemma base_bounds:
  assumes "buf_ok st" "i \<le> ilevel st"
  shows "buf st \<le> bbase st ! i" "bbase st ! i \<le> bp st"
  using base_mono [OF assms(1), of 0 i] base_mono [OF assms(1), of i "ilevel st"] assms by (auto simp: buf_ok_def)

text \<open>Moving the buffer moves the pointers, and the text between them stays.\<close>

lemma enlarge_effect:
  assumes ok: "buf_ok st"
  shows "buf_ok (enlarge_bufspace H st)" "streams (enlarge_bufspace H st) = streams st"
    "endpbb (enlarge_bufspace H st) - bp (enlarge_bufspace H st) > endpbb st - bp st"
proof -
  let ?st = "enlarge_bufspace H st" and ?d = "place H (bufsize st + bufsize st div 2) - buf st"
  have new: "bp ?st = bp st + ?d" "buf ?st = buf st + ?d" "bufbase ?st = bufbase st + ?d"
    "bbase ?st = map (\<lambda>p. p + ?d) (bbase st)" "infile ?st = infile st" "ilevel ?st = ilevel st"
    "pbmem ?st = pbmem st @ map (junk H) [bufsize st..<bufsize st + bufsize st div 2]"
    by (simp_all add: enlarge_bufspace_def Let_def)
  have b: "bbase ?st ! i = bbase st ! i + ?d" if "i \<le> ilevel st" for i
    using ok that by (auto simp: new buf_ok_def)
  show "buf_ok ?st"
    using ok b [of 0] b [of "ilevel st"] by (auto simp: buf_ok_def new) (simp_all add: enlarge_bufspace_def Let_def)
  show "endpbb ?st - bp ?st > endpbb st - bp st"
    using ok by (auto simp: buf_ok_def enlarge_bufspace_def Let_def)
  have seg: "seg ?st (p + ?d) (q + ?d) = seg st p q" if "buf st \<le> p" "q \<le> bp st" for p q
  proof -
    have "nat (q - p) \<le> length (pbmem st) - nat (p - buf st) \<or> q \<le> p"
      using that ok by (auto simp: buf_ok_def)
    then show ?thesis by (auto simp: seg_def new)
  qed
  have "seg ?st (bbase ?st ! i) (bbase ?st ! Suc i) = seg st (bbase st ! i) (bbase st ! Suc i)" if "i < ilevel st" for i
    using that b base_bounds [OF ok] by (simp add: seg)
  then have "lower ?st = lower st" by (simp add: lower_def new)
  moreover have "top_stream ?st = top_stream st"
    using seg [of "bufbase st" "bp st"] base_bounds [OF ok, of "ilevel st"] ok by (simp add: top_stream_def new buf_ok_def)
  ultimately show "streams ?st = streams st" by (simp add: streams_def)
qed

text \<open>The characters \<open>s\<close> have been put before what was to be read.\<close>

definition fed :: "input \<Rightarrow> u8 list \<Rightarrow> input \<Rightarrow> bool" where
  "fed st s st' \<longleftrightarrow> buf_ok st' \<and> streams st' = (s @ hd (streams st)) # tl (streams st)"

lemma fed_trans: "fed st s st' \<Longrightarrow> fed st' t st'' \<Longrightarrow> fed st (t @ s) st''"
  by (simp add: fed_def)

lemma fed_ok: "fed st s st' \<Longrightarrow> buf_ok st'"
  by (simp add: fed_def)

lemma fed_Nil: "buf_ok st \<Longrightarrow> fed st [] st"
  by (simp add: fed_def streams_def)

lemma put_effect:
  assumes ok: "buf_ok st" and room: "bp st < endpbb st"
  shows "\<exists>st'. put_at_bp c st = Inr st' \<and> fed st [c] st' \<and> endpbb st' - bp st' = endpbb st - bp st - 1"
proof -
  let ?n = "nat (bp st - buf st)"
  let ?st = "st\<lparr>pbmem := (pbmem st)[?n := c], bp := bp st + 1\<rparr>"
  have le: "buf st \<le> bp st" "buf st \<le> bufbase st" "bufbase st \<le> bp st"
    using base_bounds [OF ok, of "ilevel st"] ok by (auto simp: buf_ok_def)
  have n: "?n < length (pbmem st)" using room ok le by (auto simp: buf_ok_def)
  have seg: "seg ?st p q = seg st p q" if "q \<le> bp st" "buf st \<le> p" for p q
  proof -
    have "nat (p - buf st) + nat (q - p) \<le> ?n \<or> q \<le> p" using that by auto
    then show ?thesis by (auto simp: seg_def drop_update_swap take_update_cancel)
  qed
  have "seg ?st (bufbase st) (bp st + 1) = seg st (bufbase st) (bp st) @ [c]"
  proof -
    have e: "nat (bp st + 1 - bufbase st) = Suc (nat (bp st - bufbase st))" "?n = nat (bufbase st - buf st) + nat (bp st - bufbase st)"
      using le by auto
    show ?thesis using n le unfolding seg_def e(1)
      by (simp add: take_Suc_conv_app_nth e(2) drop_update_swap)
  qed
  then have "top_stream ?st = c # top_stream st" by (simp add: top_stream_def)
  moreover have "lower ?st = lower st"
    using base_bounds [OF ok] seg by (simp add: lower_def)
  moreover have "buf_ok ?st" using ok room by (auto simp: buf_ok_def)
  moreover have "put_at_bp c st = Inr ?st" using n le ok by (auto simp: put_at_bp_def buf_ok_def)
  ultimately show ?thesis by (auto simp: fed_def streams_def)
qed

lemma pushback_effect:
  assumes "buf_ok st"
  shows "\<exists>st'. pushback H (Some c) st = Inr st' \<and> fed st [c] st'"
proof (cases "bp st \<ge> endpbb st")
  case True
  note e = enlarge_effect [OF assms, of H]
  have "bp (enlarge_bufspace H st) < endpbb (enlarge_bufspace H st)"
    using e(3) True assms by (auto simp: buf_ok_def)
  then show ?thesis using put_effect [OF e(1), of c] True e(2) by (auto simp: pushback_def fed_def)
next
  case False
  then show ?thesis using put_effect [OF assms, of c] by (auto simp: pushback_def)
qed

lemma enlarge_for_effect:
  assumes "buf_ok st"
  shows "\<exists>st'. enlarge_for H n st = Some st' \<and> buf_ok st' \<and> streams st' = streams st \<and> endpbb st' - bp st' > int n"
  using assms
proof (induction "nat (int n + 1 - (endpbb st - bp st))" arbitrary: st rule: less_induct)
  case less
  show ?case
  proof (cases "endpbb st - bp st \<le> int n")
    case True
    note e = enlarge_effect [OF less.prems, of H]
    have "nat (int n + 1 - (endpbb (enlarge_bufspace H st) - bp (enlarge_bufspace H st))) < nat (int n + 1 - (endpbb st - bp st))"
      using e(3) True by linarith
    then show ?thesis using less.hyps [OF _ e(1)] e(2) True by (simp add: enlarge_for.simps [of H n st])
  qed (use less.prems in \<open>simp add: enlarge_for.simps [of H n st]\<close>)
qed

lemma put_all_effect:
  "buf_ok st \<Longrightarrow> endpbb st - bp st \<ge> int (length cs) \<Longrightarrow> \<exists>st'. put_all cs st = Inr st' \<and> fed st (rev cs) st'"
proof (induction cs arbitrary: st)
  case (Cons c cs)
  then obtain st1 where st1: "put_at_bp c st = Inr st1" "fed st [c] st1" "endpbb st1 - bp st1 = endpbb st - bp st - 1"
    using put_effect [of st c] by auto
  then obtain st' where "put_all cs st1 = Inr st'" "fed st1 (rev cs) st'"
    using Cons.IH [of st1] Cons.prems(2) by (auto simp: fed_def)
  then show ?case using st1(1) fed_trans [OF st1(2)] by simp
qed (simp add: fed_Nil)

lemma pbstr_effect:
  assumes "buf_ok st"
  shows "\<exists>st'. pbstr H s st = Inr st' \<and> fed st s st'"
proof -
  obtain st1 where st1: "enlarge_for H (length s) st = Some st1" "buf_ok st1" "streams st1 = streams st"
    "endpbb st1 - bp st1 > int (length s)"
    using enlarge_for_effect [OF assms] by blast
  then obtain st' where "put_all (rev s) st1 = Inr st'" "fed st1 s st'"
    using put_all_effect [OF st1(2), of "rev s"] by auto
  then show ?thesis using st1(1,3) by (simp add: pbstr_def fed_def)
qed

section \<open>Numbers\<close>

function base_text :: "nat \<Rightarrow> nat \<Rightarrow> c_string" where
  "base_text b n = (if n < b \<or> b < 2 then [] else base_text b (n div b)) @ [m4_digits ! (n mod b)]"
  by pat_completeness auto
termination by (relation "measure snd") auto

declare base_text.simps [simp del]

definition digit_value :: "u8 \<Rightarrow> nat" where
  "digit_value c = length (takeWhile (\<lambda>x. x \<noteq> c) m4_digits)"

lemma digit_value_nth: "k < 36 \<Longrightarrow> digit_value (m4_digits ! k) = k"
proof -
  have "list_all (\<lambda>k. digit_value (m4_digits ! k) = k) [0..<36]" by code_simp
  then show "k < 36 \<Longrightarrow> digit_value (m4_digits ! k) = k" by (simp add: list_all_iff)
qed

text \<open>The digits denote the number.\<close>

lemma base_text_value:
  assumes "2 \<le> b" "b \<le> 36"
  shows "foldl (\<lambda>v c. v * b + digit_value c) 0 (base_text b n) = n"
proof (induction n rule: less_induct)
  case (less n)
  have d: "digit_value (m4_digits ! (n mod b)) = n mod b"
    using assms mod_less_divisor [of b n] by (intro digit_value_nth) linarith
  show ?case
  proof (cases "n < b")
    case False
    then have "n div b < n" using assms by (intro div_less_dividend) auto
    then show ?thesis using less.IH [of "n div b"] False assms d by (subst base_text.simps) simp
  qed (use d in \<open>subst base_text.simps, simp\<close>)
qed

lemma unat_div_base: "base \<le> 36 \<Longrightarrow> unat (num div of_nat base :: u32) = unat num div base"
  by (simp add: unat_div unat_of_nat)

lemma push_digits_effect:
  assumes "2 \<le> base" "base \<le> 36" "buf_ok st"
  shows "\<exists>st'. push_digits H base num st = Inr (length (base_text base (unat num)), st') \<and> fed st (base_text base (unat num)) st'"
  using assms
proof (induction "unat num" arbitrary: num st rule: less_induct)
  case less
  let ?c = "m4_digits ! (unat num mod base)" and ?num = "num div of_nat base :: u32"
  obtain st1 where st1: "pushback H (Some ?c) st = Inr st1" "fed st [?c] st1"
    using pushback_effect [OF less.prems(3)] by blast
  have d: "unat ?num = unat num div base" using less.prems(2) by (rule unat_div_base)
  show ?case
  proof (cases "unat num < base")
    case True
    then have "?num = 0" using d by (simp add: unat_eq_zero [symmetric] del: unat_eq_zero)
    then show ?thesis
      using True st1 by (simp add: push_digits.simps [of H base num st] base_text.simps [of base "unat num"])
  next
    case False
    have lt: "unat ?num < unat num" using False less.prems(1) d by (simp add: div_less_dividend)
    have "?num > 0" using False d less.prems(1) by (simp add: word_gt_0 unat_eq_zero [symmetric] div_eq_0_iff del: unat_eq_zero)
    moreover obtain st' where "push_digits H base ?num st1 = Inr (length (base_text base (unat ?num)), st')"
      "fed st1 (base_text base (unat ?num)) st'"
      using less.hyps [OF lt less.prems(1,2) fed_ok [OF st1(2)]] by blast
    ultimately show ?thesis
      using st1 False less.prems(1,2) fed_trans [OF st1(2)] d
      by (simp add: push_digits.simps [of H base num st] base_text.simps [of base "unat num"])
  qed
qed

lemma push_zeros_effect: "buf_ok st \<Longrightarrow> \<exists>st'. push_zeros H n st = Inr st' \<and> fed st (replicate n (byte_of (CHR ''0''))) st'"
proof (induction n arbitrary: st)
  case (Suc n)
  obtain st1 where st1: "pushback H (Some (byte_of (CHR ''0''))) st = Inr st1" "fed st [byte_of (CHR ''0'')] st1"
    using pushback_effect [OF Suc.prems] by blast
  moreover obtain st' where "push_zeros H n st1 = Inr st'" "fed st1 (replicate n (byte_of (CHR ''0''))) st'"
    using Suc.IH [OF fed_ok [OF st1(2)]] by blast
  ultimately show ?case using fed_trans [OF st1(2), of "replicate n (byte_of (CHR ''0''))"] by (simp add: replicate_append_same)
qed (simp add: fed_Nil)

definition num_text :: "nat \<Rightarrow> nat \<Rightarrow> int \<Rightarrow> c_string" where
  "num_text base d n =
     (let t = base_text base (nat \<bar>n\<bar>)
      in (if n < 0 then bytes ''-'' else []) @ replicate (d - length t) (byte_of (CHR ''0'')) @ t)"

lemma pbnumbase_effect:
  assumes "2 \<le> base" "base \<le> 36" "buf_ok st"
  shows "\<exists>st'. pbnumbase H n base d st = Inr st' \<and> fed st (num_text (nat base) (nat d) (sint n)) st'"
proof -
  let ?num = "if sint n < 0 then - n else n" and ?b = "nat base"
  have num: "unat ?num = nat \<bar>sint n\<bar>"
  proof (cases "sint n < 0")
    case True
    have "uint (- n) = - sint n"
    proof -
      have "- n = of_int (- sint n)" by simp
      moreover have "uint (of_int (- sint n) :: u32) = - sint n"
        using True sint_ge [of n] by (intro uint_of_int_small) auto
      ultimately show ?thesis by simp
    qed
    then show ?thesis using True by (simp add: unat_eq_nat_uint)
  next
    case False
    have "uint n = sint n"
    proof -
      have "uint (of_int (sint n) :: u32) = sint n" using False sint_less [of n] by (intro uint_of_int_small) auto
      then show ?thesis by simp
    qed
    then show ?thesis using False by (simp add: unat_eq_nat_uint)
  qed
  let ?t = "base_text ?b (nat \<bar>sint n\<bar>)"
  have b: "2 \<le> ?b" "?b \<le> 36" using assms(1,2) by auto
  obtain st1 where st1: "push_digits H ?b ?num st = Inr (length ?t, st1)" "fed st ?t st1"
    using push_digits_effect [OF b assms(3), of H ?num] unfolding num by blast
  obtain st2 where st2: "push_zeros H (nat d - length ?t) st1 = Inr st2" "fed st1 (replicate (nat d - length ?t) (byte_of (CHR ''0''))) st2"
    using push_zeros_effect [OF fed_ok [OF st1(2)]] by blast
  note f2 = fed_trans [OF st1(2) st2(2)]
  show ?thesis
  proof (cases "sint n < 0")
    case True
    obtain st3 where st3: "pushback H (Some (byte_of (CHR ''-''))) st2 = Inr st3" "fed st2 [byte_of (CHR ''-'')] st3"
      using pushback_effect [OF fed_ok [OF st2(2)]] by blast
    then show ?thesis
      using True st1(1) st2(1) assms fed_trans [OF f2 st3(2)] by (simp add: pbnumbase_def num_text_def Let_def)
  next
    case False
    then show ?thesis using st1(1) st2(1) assms f2 by (simp add: pbnumbase_def num_text_def Let_def)
  qed
qed

section \<open>Reading and including\<close>

lemma seg_length: "buf_ok st \<Longrightarrow> length (seg st (bufbase st) (bp st)) = nat (bp st - bufbase st)"
  using base_bounds [of st "ilevel st"] by (auto simp: seg_def buf_ok_def)

lemma gpbc_effect:
  assumes ok: "buf_ok st"
  shows "\<exists>c st'. gpbc st = Inr (c, st') \<and> buf_ok st' \<and> c = (case hd (streams st) of [] \<Rightarrow> None | x # xs \<Rightarrow> Some x) \<and>
    streams st' = tl (hd (streams st)) # tl (streams st)"
proof (cases "bp st > bufbase st")
  case True
  let ?st = "st\<lparr>bp := bp st - 1\<rparr>" and ?n = "nat (bp st - 1 - buf st)"
  have le: "buf st \<le> bufbase st" "bp st \<le> buf st + int (bufsize st)"
    using base_bounds [OF ok, of "ilevel st"] ok by (auto simp: buf_ok_def)
  have "seg st (bufbase st) (bp st) = seg ?st (bufbase st) (bp st - 1) @ [pbmem st ! ?n]"
  proof -
    have "nat (bp st - bufbase st) = Suc (nat (bp st - 1 - bufbase st))" "?n = nat (bufbase st - buf st) + nat (bp st - 1 - bufbase st)"
      "?n < length (pbmem st)" using True le ok by (auto simp: buf_ok_def)
    then show ?thesis
      using take_Suc_conv_app_nth [of "nat (bp st - 1 - bufbase st)" "drop (nat (bufbase st - buf st)) (pbmem st)"]
      by (simp add: seg_def less_diff_conv add.commute)
  qed
  then have "top_stream st = pbmem st ! ?n # top_stream ?st" by (simp add: top_stream_def)
  moreover have "lower ?st = lower st" by (simp add: lower_def seg_def)
  moreover have "buf_ok ?st" using ok True by (auto simp: buf_ok_def)
  moreover have "gpbc st = Inr (Some (pbmem st ! ?n), ?st)" using True le by (simp add: gpbc_def)
  ultimately show ?thesis by (simp add: streams_def)
next
  case False
  let ?f = "infile st ! ilevel st"
  let ?st = "st\<lparr>infile := (infile st)[ilevel st := snd (obtain_char ?f)]\<rparr>"
  have e: "seg st (bufbase st) (bp st) = []" using False seg_length [OF ok] by simp
  have i: "ilevel st < length (infile st)" using ok by (simp add: buf_ok_def)
  have "seg ?st (bufbase st) (bp st) = []" using e by (simp add: seg_def)
  then have "top_stream ?st = tl (top_stream st)" using e i by (simp add: top_stream_def obtain_char_def split: list.split)
  moreover have "lower ?st = lower st" using i by (simp add: lower_def seg_def)
  moreover have "buf_ok ?st" using ok by (simp add: buf_ok_def)
  moreover have "gpbc st = Inr (fst (obtain_char ?f), ?st)" using False i by (simp add: gpbc_def split: prod.split)
  moreover have "fst (obtain_char ?f) = (case top_stream st of [] \<Rightarrow> None | x # xs \<Rightarrow> Some x)"
    using e by (simp add: top_stream_def obtain_char_def split: list.split)
  ultimately show ?thesis by (simp add: streams_def)
qed

lemma doinclude_effect:
  assumes ok: "buf_ok st" and l: "ilevel st + 1 \<noteq> MAXINP"
  shows "\<exists>st'. doinclude (Some file) st = Inr (True, st') \<and> buf_ok st' \<and> streams st' = file # streams st"
proof -
  let ?st = "st\<lparr>infile := take (ilevel st + 1) (infile st) @ [\<lparr>contents = file, lineno = 1\<rparr>],
            ilevel := ilevel st + 1, bufbase := bp st, bbase := (bbase st)[ilevel st + 1 := bp st]\<rparr>"
  have i: "ilevel st < length (infile st)" "ilevel st + 1 < MAXINP" "length (bbase st) = MAXINP" using ok l by (auto simp: buf_ok_def)
  have len: "length (take (ilevel st + 1) (infile st)) = ilevel st + 1" using i by simp
  have "buf_ok ?st" using ok i by (auto simp: buf_ok_def nth_list_update less_Suc_eq)
  moreover have "top_stream ?st = file" using i by (simp add: top_stream_def seg_def nth_append)
  moreover have "lower ?st = top_stream st # lower st"
  proof -
    have "map (\<lambda>i. rev (seg ?st (bbase ?st ! i) (bbase ?st ! Suc i)) @ contents (infile ?st ! i)) [0..<ilevel st] =
      map (\<lambda>i. rev (seg st (bbase st ! i) (bbase st ! Suc i)) @ contents (infile st ! i)) [0..<ilevel st]"
      using i by (simp add: seg_def nth_append)
    moreover have "rev (seg ?st (bbase ?st ! ilevel st) (bbase ?st ! Suc (ilevel st))) @ contents (infile ?st ! ilevel st) = top_stream st"
      using i ok by (simp add: seg_def nth_append top_stream_def buf_ok_def)
    ultimately show ?thesis by (simp add: lower_def)
  qed
  ultimately show ?thesis using l by (simp add: doinclude_def streams_def)
qed

lemma end_include_effect:
  assumes ok: "buf_ok st" and l: "0 < ilevel st" and e: "hd (streams st) = []"
  shows "\<exists>st'. end_include st = Inr st' \<and> buf_ok st' \<and> streams st' = tl (streams st)"
proof -
  let ?st = "st\<lparr>ilevel := ilevel st - 1, bufbase := bbase st ! (ilevel st - 1)\<rparr>"
  have bp: "bp st = bufbase st"
    using e seg_length [OF ok] ok by (auto simp: streams_def top_stream_def buf_ok_def)
  obtain n where n: "ilevel st = Suc n" using l by (cases "ilevel st") auto
  have "buf_ok ?st" using ok bp by (auto simp: buf_ok_def n)
  moreover have "lower st = top_stream ?st # lower ?st"
    using bp ok by (simp add: lower_def top_stream_def seg_def n buf_ok_def)
  ultimately show ?thesis using l by (simp add: end_include_def streams_def)
qed

lemma initspaces_effect: "buf_ok (initspaces H s)" "streams (initspaces H s) = [s]"
proof -
  have n: "(replicate MAXINP b :: int list) ! 0 = b" for b by (rule nth_replicate) simp
  show "buf_ok (initspaces H s)" unfolding buf_ok_def initspaces_def Let_def by (simp add: n)
  show "streams (initspaces H s) = [s]"
    by (simp add: streams_def top_stream_def lower_def seg_def initspaces_def Let_def)
qed

text \<open>
  C29. The input of \<open>m4\<close> refines a stack of streams, one per included file.  Reading takes the first
  character of the innermost stream, or says that it has ended; pushing back a character, a string
  or a number puts it before that stream; including a file starts a new stream, and the end of it gives the
  outer one back, with the text that had been pushed back onto it.  No read or write leaves the
  buffer, wherever it is moved to when it grows, and every loop ends.
\<close>

theorem input_refines_streams:
  assumes "buf_ok st"
  shows "(\<exists>st'. pushback H (Some c) st = Inr st' \<and> buf_ok st' \<and> streams st' = (c # hd (streams st)) # tl (streams st)) \<and>
    (\<exists>st'. pbstr H s st = Inr st' \<and> buf_ok st' \<and> streams st' = (s @ hd (streams st)) # tl (streams st)) \<and>
    (2 \<le> base \<longrightarrow> base \<le> 36 \<longrightarrow> (\<exists>st'. pbnumbase H n base d st = Inr st' \<and> buf_ok st' \<and>
      streams st' = (num_text (nat base) (nat d) (sint n) @ hd (streams st)) # tl (streams st))) \<and>
    (\<exists>st'. gpbc st = Inr (case hd (streams st) of [] \<Rightarrow> None | x # xs \<Rightarrow> Some x, st') \<and> buf_ok st' \<and>
      streams st' = tl (hd (streams st)) # tl (streams st)) \<and>
    (ilevel st + 1 \<noteq> MAXINP \<longrightarrow>
      (\<exists>st'. doinclude (Some file) st = Inr (True, st') \<and> buf_ok st' \<and> streams st' = file # streams st)) \<and>
    (0 < ilevel st \<longrightarrow> hd (streams st) = [] \<longrightarrow>
      (\<exists>st'. end_include st = Inr st' \<and> buf_ok st' \<and> streams st' = tl (streams st)))"
proof (intro conjI impI)
  show "\<exists>st'. pushback H (Some c) st = Inr st' \<and> buf_ok st' \<and> streams st' = (c # hd (streams st)) # tl (streams st)"
    using pushback_effect [OF assms] by (simp add: fed_def)
  show "\<exists>st'. pbstr H s st = Inr st' \<and> buf_ok st' \<and> streams st' = (s @ hd (streams st)) # tl (streams st)"
    using pbstr_effect [OF assms] by (simp add: fed_def)
  show "\<exists>st'. pbnumbase H n base d st = Inr st' \<and> buf_ok st' \<and>
      streams st' = (num_text (nat base) (nat d) (sint n) @ hd (streams st)) # tl (streams st)" if "2 \<le> base" "base \<le> 36"
    using pbnumbase_effect [OF that assms] by (simp add: fed_def)
qed (use gpbc_effect [OF assms] doinclude_effect [OF assms] end_include_effect [OF assms] in blast)+

theorem input_refines_streams_witness:
  "\<exists>st'. pbstr \<lparr>place = int, junk = \<lambda>i. 0\<rparr> (bytes ''ab'') (initspaces \<lparr>place = int, junk = \<lambda>i. 0\<rparr> (bytes ''c'')) = Inr st' \<and>
     streams st' = [bytes ''abc'']"
proof -
  let ?H = "\<lparr>place = int, junk = \<lambda>i. 0\<rparr>"
  have "\<exists>st'. pbstr ?H (bytes ''ab'') (initspaces ?H (bytes ''c'')) = Inr st' \<and> buf_ok st' \<and>
      streams st' = (bytes ''ab'' @ hd [bytes ''c'']) # tl [bytes ''c'']"
    using input_refines_streams [OF initspaces_effect(1), of ?H _ ?H "bytes ''c''" "bytes ''ab''"]
    unfolding initspaces_effect(2) by blast
  then show ?thesis by auto
qed

end
