(* ===== verification/M4_Expand.thy ===== *)
theory M4_Expand
  imports M4_Buf
begin

text \<open>
  The expansion of user-defined macros, \<open>expand_macro\<close> of \<open>src/src.freebsd/m4/eval.c\<close>.  The code goes
  through the definition backwards and pushes the characters and the arguments it meets back onto
  the input.
\<close>

section \<open>User-defined macros\<close>

abbreviation ARGFLAG :: u8 where "ARGFLAG \<equiv> 0x24"
abbreviation COMMA :: u8 where "COMMA \<equiv> 0x2C"

record quotes =
  lquote :: c_string
  rquote :: c_string

text \<open>
  \<open>$*\<close> and \<open>$@\<close>: the arguments from the last one on, each but the first with a comma before it.
\<close>

fun push_args :: "heap \<Rightarrow> (c_string \<Rightarrow> input \<Rightarrow> input m4_result) \<Rightarrow> c_string list \<Rightarrow> input \<Rightarrow> input m4_result" where
  "push_args H push [] st = Inr st"
| "push_args H push [a] st = push a st"
| "push_args H push (a # as) st = err_bind (push a st) (\<lambda>st. err_bind (pushback H (Some COMMA) st) (push_args H push as))"

definition push_quoted :: "heap \<Rightarrow> quotes \<Rightarrow> c_string \<Rightarrow> input \<Rightarrow> input m4_result" where
  "push_quoted H q a st = err_bind (pbstr H (rquote q) st) (\<lambda>st. err_bind (pbstr H a st) (pbstr H (lquote q)))"

definition expand_special :: "heap \<Rightarrow> quotes \<Rightarrow> c_string list \<Rightarrow> u8 \<Rightarrow> input \<Rightarrow> input m4_result" where
  "expand_special H q argv c st =
     (let argc = length argv in
      if c = byte_of (CHR ''#'') then pbnum H (of_int (int argc - 2)) st
      else if byte_of (CHR ''0'') \<le> c \<and> c \<le> byte_of (CHR ''9'') then
        let argno = unat (c - byte_of (CHR ''0'')) in
        if int argno < int argc - 1 then pbstr H (argv ! (argno + 1)) st else Inr st
      else if c = byte_of (CHR ''*'') then push_args H (pbstr H) (rev (drop 2 argv)) st
      else if c = byte_of (CHR ''@'') then push_args H (push_quoted H q) (rev (drop 2 argv)) st
      else err_bind (pushback H (Some c) st) (pushback H (Some ARGFLAG)))"

text \<open>The loop over the definition from its last character on; \<open>r\<close> is what is left, reversed.\<close>

fun expand_loop :: "heap \<Rightarrow> quotes \<Rightarrow> c_string list \<Rightarrow> u8 list \<Rightarrow> input \<Rightarrow> input m4_result" where
  "expand_loop H q argv [] st = Inr st"
| "expand_loop H q argv [c] st = pushback H (Some c) st"
| "expand_loop H q argv (c # d # r) st =
     (if d \<noteq> ARGFLAG then err_bind (pushback H (Some c) st) (expand_loop H q argv (d # r))
      else err_bind (expand_special H q argv c st) (expand_loop H q argv r))"

definition expand_macro :: "heap \<Rightarrow> quotes \<Rightarrow> c_string list \<Rightarrow> input \<Rightarrow> input m4_result" where
  "expand_macro H q argv st = expand_loop H q argv (rev (argv ! 0)) st"

section \<open>What an expansion is\<close>

fun separated :: "c_string list \<Rightarrow> c_string" where
  "separated [] = []"
| "separated [a] = a"
| "separated (a # as) = a @ COMMA # separated as"

definition is_special :: "u8 \<Rightarrow> bool" where
  "is_special c \<longleftrightarrow> c \<in> set (bytes ''#*@0123456789'')"

definition subst_arg :: "quotes \<Rightarrow> c_string list \<Rightarrow> u8 \<Rightarrow> c_string" where
  "subst_arg q argv c =
     (if c = byte_of (CHR ''#'') then num_text 10 0 (int (length argv) - 2)
      else if c = byte_of (CHR ''*'') then separated (drop 2 argv)
      else if c = byte_of (CHR ''@'') then separated (map (\<lambda>a. lquote q @ a @ rquote q) (drop 2 argv))
      else if unat c - 48 + 1 < length argv then argv ! (unat c - 48 + 1) else [])"

text \<open>The definition from left to right.\<close>

fun expansion :: "quotes \<Rightarrow> c_string list \<Rightarrow> c_string \<Rightarrow> c_string" where
  "expansion q argv (c # d # r) =
     (if c = ARGFLAG \<and> is_special d then subst_arg q argv d @ expansion q argv r
      else c # expansion q argv (d # r))"
| "expansion q argv s = s"

lemma not_special: "\<not> is_special ARGFLAG" "\<not> is_special c \<Longrightarrow> c \<noteq> byte_of (CHR ''#'')"
  by (auto simp: is_special_def byte_of_def)

lemma expansion_snoc2:
  "expansion q argv (s @ [ARGFLAG, c]) = expansion q argv s @ (if is_special c then subst_arg q argv c else [ARGFLAG, c])"
  by (induction q argv s rule: expansion.induct) (auto simp: not_special)

lemma expansion_snoc:
  assumes "d \<noteq> ARGFLAG"
  shows "expansion q argv (s @ [d, c]) = expansion q argv (s @ [d]) @ [c]"
  using assms by (induction q argv s rule: expansion.induct) auto

lemma separated_snoc: "as \<noteq> [] \<Longrightarrow> separated (as @ [a]) = separated as @ COMMA # a"
  by (induction as rule: separated.induct) auto

lemma push_args_effect:
  assumes push: "\<And>a st. buf_ok st \<Longrightarrow> \<exists>st'. push a st = Inr st' \<and> fed st (f a) st'" and "buf_ok st"
  shows "\<exists>st'. push_args H push as st = Inr st' \<and> fed st (separated (map f (rev as))) st'"
  using assms(2)
proof (induction as arbitrary: st rule: induct_list012)
  case 1
  then show ?case by (simp add: fed_Nil)
next
  case (2 a)
  then show ?case using push by simp
next
  case (3 a b as)
  obtain st1 where st1: "push a st = Inr st1" "fed st (f a) st1" using push [OF 3(3)] by blast
  obtain st2 where st2: "pushback H (Some COMMA) st1 = Inr st2" "fed st1 [COMMA] st2"
    using pushback_effect [OF fed_ok [OF st1(2)]] by blast
  obtain st' where st': "push_args H push (b # as) st2 = Inr st'" "fed st2 (separated (map f (rev (b # as)))) st'"
    using 3(2) [OF fed_ok [OF st2(2)]] by blast
  have "separated (map f (rev (a # b # as))) = separated (map f (rev (b # as))) @ [COMMA] @ f a"
    using separated_snoc [of "map f (rev (b # as))" "f a"] by simp
  then show ?case using st1(1) st2(1) st'(1) fed_trans [OF fed_trans [OF st1(2) st2(2)] st'(2)] by simp
qed

lemma push_quoted_effect:
  assumes "buf_ok st"
  shows "\<exists>st'. push_quoted H q a st = Inr st' \<and> fed st (lquote q @ a @ rquote q) st'"
proof -
  obtain st1 where st1: "pbstr H (rquote q) st = Inr st1" "fed st (rquote q) st1" using pbstr_effect [OF assms] by blast
  obtain st2 where st2: "pbstr H a st1 = Inr st2" "fed st1 a st2" using pbstr_effect [OF fed_ok [OF st1(2)]] by blast
  obtain st3 where st3: "pbstr H (lquote q) st2 = Inr st3" "fed st2 (lquote q) st3"
    using pbstr_effect [OF fed_ok [OF st2(2)]] by blast
  show ?thesis
    using st1(1) st2(1) st3(1) fed_trans [OF fed_trans [OF st1(2) st2(2)] st3(2)] by (simp add: push_quoted_def)
qed

lemma special_cases:
  "is_special c \<longleftrightarrow> c = byte_of (CHR ''#'') \<or> c = byte_of (CHR ''*'') \<or> c = byte_of (CHR ''@'') \<or>
     byte_of (CHR ''0'') \<le> c \<and> c \<le> byte_of (CHR ''9'')"
proof -
  have "\<forall>c :: u8. 48 \<le> c \<and> c \<le> 57 \<longleftrightarrow> c \<in> set [48, 49, 50, 51, 52, 53, 54, 55, 56, 57]"
    unfolding u8_all by code_simp
  then show ?thesis by (auto simp: is_special_def byte_of_def)
qed

lemma expand_special_effect:
  assumes "buf_ok st" "2 \<le> length argv" "length argv < 2 ^ 31"
  shows "\<exists>st'. expand_special H q argv c st = Inr st' \<and>
    fed st (if is_special c then subst_arg q argv c else [ARGFLAG, c]) st'"
proof (cases "is_special c")
  case True
  have n: "sint (of_int (int (length argv) - 2) :: u32) = int (length argv) - 2"
  proof -
    have k: "sint (of_int k :: u32) = k" if "0 \<le> k" "k < 2 ^ 31" for k
      using that by (simp add: signed_of_int signed_take_bit_int_eq_self)
    show ?thesis by (rule k) (use assms(2,3) in auto)
  qed
  have d: "unat (c - 48) = unat c - 48" if "48 \<le> c" using that by (simp add: unat_sub)
  have hash: "\<exists>st'. pbnum H (of_int (int (length argv) - 2)) st = Inr st' \<and> fed st (num_text 10 0 (int (length argv) - 2)) st'"
    using pbnumbase_effect [of 10 st "H" "of_int (int (length argv) - 2)" 0] assms(1) unfolding n by (simp add: pbnum_def)
  have all: "\<exists>st'. push_args H (pbstr H) (rev (drop 2 argv)) st = Inr st' \<and> fed st (separated (drop 2 argv)) st'"
    using push_args_effect [of "pbstr H" "\<lambda>a. a" st H "rev (drop 2 argv)"] pbstr_effect assms(1) by simp
  have quoted: "\<exists>st'. push_args H (push_quoted H q) (rev (drop 2 argv)) st = Inr st' \<and>
      fed st (separated (map (\<lambda>a. lquote q @ a @ rquote q) (drop 2 argv))) st'"
    using push_args_effect [of "push_quoted H q" "\<lambda>a. lquote q @ a @ rquote q" st H "rev (drop 2 argv)"]
      push_quoted_effect assms(1) by simp
  consider (digit) "48 \<le> c" "c \<le> 57" | (num) "c = 0x23" | (star) "c = 0x2A" | (at) "c = 0x40"
    using True unfolding special_cases by (auto simp: byte_of_def)
  then show ?thesis
  proof cases
    case digit
    then have ne: "c \<noteq> 0x23" "c \<noteq> 0x2A" "c \<noteq> 0x40" by (auto simp: word_le_nat_alt)
    then show ?thesis
      using digit d [OF digit(1)] True pbstr_effect [OF assms(1), of H] fed_Nil [OF assms(1)]
      by (auto simp: expand_special_def subst_arg_def byte_of_def Let_def)
  next
    case num
    then show ?thesis using True hash by (simp add: expand_special_def subst_arg_def byte_of_def Let_def)
  next
    case star
    then show ?thesis using True all by (simp add: expand_special_def subst_arg_def byte_of_def Let_def)
  next
    case at
    then show ?thesis using True quoted by (simp add: expand_special_def subst_arg_def byte_of_def Let_def)
  qed
next
  case False
  obtain st1 where st1: "pushback H (Some c) st = Inr st1" "fed st [c] st1" using pushback_effect [OF assms(1)] by blast
  obtain st2 where st2: "pushback H (Some ARGFLAG) st1 = Inr st2" "fed st1 [ARGFLAG] st2"
    using pushback_effect [OF fed_ok [OF st1(2)]] by blast
  show ?thesis
    using False st1(1) st2(1) fed_trans [OF st1(2) st2(2)] unfolding special_cases expand_special_def Let_def by auto
qed

lemma expand_loop_effect:
  assumes "buf_ok st" "2 \<le> length argv" "length argv < 2 ^ 31"
  shows "\<exists>st'. expand_loop H q argv r st = Inr st' \<and> fed st (expansion q argv (rev r)) st'"
  using assms
proof (induction H q argv r st rule: expand_loop.induct)
  case (3 H q argv c d r st)
  show ?case
  proof (cases "d = ARGFLAG")
    case True
    obtain st1 where st1: "expand_special H q argv c st = Inr st1"
      "fed st (if is_special c then subst_arg q argv c else [ARGFLAG, c]) st1"
      using expand_special_effect [OF 3(3-5)] by blast
    then obtain st2 where "expand_loop H q argv r st1 = Inr st2" "fed st1 (expansion q argv (rev r)) st2"
      using 3(2) True fed_ok [OF st1(2)] 3(4,5) by auto
    then show ?thesis using st1 True fed_trans [OF st1(2)] by (simp add: expansion_snoc2)
  next
    case False
    obtain st1 where st1: "pushback H (Some c) st = Inr st1" "fed st [c] st1" using pushback_effect [OF 3(3)] by blast
    then obtain st2 where "expand_loop H q argv (d # r) st1 = Inr st2" "fed st1 (expansion q argv (rev (d # r))) st2"
      using 3(1) False fed_ok [OF st1(2)] 3(4,5) by auto
    then show ?thesis
      using st1(1) False fed_trans [OF st1(2)] expansion_snoc [OF False, of q argv "rev r" c] by fastforce
  qed
qed (use pushback_effect in \<open>simp_all add: fed_Nil\<close>)

text \<open>
  C30. Expanding a macro puts before the input exactly the definition, read from left to right, with
  each \<open>$\<close> and digit replaced by the argument of that number, \<open>$#\<close> by their count, \<open>$*\<close> by all of
  them with commas between and \<open>$@\<close> by all of them quoted as well; every other \<open>$\<close> stands for itself.
  That the code reads the definition from its end makes no difference.
\<close>

theorem expand_macro_expands:
  assumes "buf_ok st" "2 \<le> length argv" "length argv < 2 ^ 31"
  shows "\<exists>st'. expand_macro H q argv st = Inr st' \<and> buf_ok st' \<and>
    streams st' = (expansion q argv (argv ! 0) @ hd (streams st)) # tl (streams st)"
  using expand_loop_effect [OF assms, of H q "rev (argv ! 0)"] by (simp add: expand_macro_def fed_def)

theorem expand_macro_expands_witness:
  "\<exists>st'. expand_macro \<lparr>place = int, junk = \<lambda>i. 0\<rparr> \<lparr>lquote = bytes ''['', rquote = bytes '']''\<rparr>
     (map bytes [''$$1:$#($@)'', ''foo'', ''x'', ''y'']) (initspaces \<lparr>place = int, junk = \<lambda>i. 0\<rparr> []) = Inr st' \<and>
     streams st' = [bytes ''$x:2([x],[y])'']"
proof -
  let ?q = "\<lparr>lquote = bytes ''['', rquote = bytes '']''\<rparr>"
  let ?argv = "map bytes [''$$1:$#($@)'', ''foo'', ''x'', ''y'']"
  have "expansion ?q ?argv (?argv ! 0) = bytes ''$x:2([x],[y])''" by code_simp
  then show ?thesis
    using expand_macro_expands [OF initspaces_effect(1), of ?argv "\<lparr>place = int, junk = \<lambda>i. 0\<rparr>" ?q "\<lparr>place = int, junk = \<lambda>i. 0\<rparr>" "[]"]
    by (auto simp add: initspaces_effect(2))
qed

end
