(* ===== verification/M4_Args.thy ===== *)
theory M4_Args
  imports M4_Buf
begin

text \<open>
  The arguments of the macro calls of \<open>m4\<close> that are being read: a stack of frames, whose string
  entries point into one space of characters (\<open>src/src.freebsd/m4/misc.c\<close> and the macros of
  \<open>mdef.h\<close>).  When the space is full it is copied to a larger one, and the entries of the stack are
  adjusted; those that point to definitions or names are left alone.
\<close>

section \<open>State\<close>

datatype 'p entry =
    Sfra int
  | Strspace int
  | Macro 'p
  | Other c_string

record 'p frames =
  strspace :: int
  strsize :: nat
  strmem :: "u8 list"
  ep :: int
  endest :: int
  mstack :: "'p entry list"

abbreviation STRSPMAX :: nat where "STRSPMAX \<equiv> 4096"

definition init_strspace :: "heap \<Rightarrow> 'p frames" where
  "init_strspace H =
     (let b = place H STRSPMAX in
      \<lparr>strspace = b, strsize = STRSPMAX, strmem = map (junk H) [0..<STRSPMAX + 1], ep = b,
       endest = b + int STRSPMAX, mstack = []\<rparr>)"

fun move_entry :: "int \<Rightarrow> int \<Rightarrow> 'p entry \<Rightarrow> 'p entry" where
  "move_entry old new (Strspace p) = Strspace (p - old + new)"
| "move_entry old new e = e"

definition enlarge_strspace :: "heap \<Rightarrow> 'p frames \<Rightarrow> 'p frames" where
  "enlarge_strspace H st =
     (let size = strsize st * 2; new = place H size in
      st\<lparr>strsize := size, strmem := take (size div 2) (strmem st) @ map (junk H) [size div 2..<size + 1],
         mstack := map (move_entry (strspace st) new) (mstack st), ep := ep st - strspace st + new,
         strspace := new, endest := new + int size\<rparr>)"

definition chrsave :: "heap \<Rightarrow> u8 \<Rightarrow> 'p frames \<Rightarrow> 'p frames m4_result" where
  "chrsave H c st =
     (let st = (if ep st \<ge> endest st then enlarge_strspace H st else st) in
      if strspace st \<le> ep st \<and> ep st < strspace st + int (strsize st) + 1
      then Inr (st\<lparr>strmem := (strmem st)[nat (ep st - strspace st) := c], ep := ep st + 1\<rparr>)
      else Inl Out_of_bounds)"

definition pushf :: "int \<Rightarrow> 'p frames \<Rightarrow> 'p frames" where
  "pushf x st = st\<lparr>mstack := mstack st @ [Sfra x]\<rparr>"

definition pushs :: "'p frames \<Rightarrow> 'p frames" where
  "pushs st = st\<lparr>mstack := mstack st @ [Strspace (ep st)]\<rparr>"

fun chrsaves :: "heap \<Rightarrow> u8 list \<Rightarrow> 'p frames \<Rightarrow> 'p frames m4_result" where
  "chrsaves H [] st = Inr st"
| "chrsaves H (c # cs) st = err_bind (chrsave H c st) (chrsaves H cs)"

section \<open>The strings\<close>

definition str_ok :: "'p frames \<Rightarrow> bool" where
  "str_ok st \<longleftrightarrow> length (strmem st) = strsize st + 1 \<and> 0 < strsize st \<and> endest st = strspace st + int (strsize st) \<and>
     strspace st \<le> ep st \<and> ep st \<le> endest st \<and>
     (\<forall>p. Strspace p \<in> set (mstack st) \<longrightarrow> strspace st \<le> p \<and> p \<le> ep st)"

text \<open>What has been written since a position.\<close>

definition text_from :: "'p frames \<Rightarrow> int \<Rightarrow> u8 list" where
  "text_from st p = take (nat (ep st - p)) (drop (nat (p - strspace st)) (strmem st))"

text \<open>An entry of the stack as the strings see it.\<close>

fun shown :: "'p frames \<Rightarrow> 'p entry \<Rightarrow> 'p entry + u8 list" where
  "shown st (Strspace p) = Inr (text_from st p)"
| "shown st e = Inl e"

definition args :: "'p frames \<Rightarrow> ('p entry + u8 list) list" where
  "args st = map (shown st) (mstack st)"

lemma enlarge_strspace_effect:
  fixes st :: "'p frames"
  assumes ok: "str_ok st"
  shows "str_ok (enlarge_strspace H st)" "args (enlarge_strspace H st) = args st"
    "ep (enlarge_strspace H st) < endest (enlarge_strspace H st)"
proof -
  let ?st = "enlarge_strspace H st" and ?d = "place H (strsize st * 2) - strspace st"
  have new: "ep ?st = ep st + ?d" "strspace ?st = strspace st + ?d" "strsize ?st = strsize st * 2"
    "endest ?st = strspace st + ?d + 2 * int (strsize st)"
    "strmem ?st = take (strsize st) (strmem st) @ map (junk H) [strsize st..<strsize st * 2 + 1]"
    "mstack ?st = map (move_entry (strspace st) (place H (strsize st * 2))) (mstack st)"
    by (simp_all add: enlarge_strspace_def Let_def)
  have mem: "Strspace p \<in> set (mstack ?st) \<longleftrightarrow> (\<exists>p'. Strspace p' \<in> set (mstack st) \<and> p = p' + ?d)" for p
  proof -
    have "move_entry a b e = Strspace p \<longleftrightarrow> (\<exists>p'. e = Strspace p' \<and> p = p' - a + b)" for a b and e :: "'p entry"
      by (cases e) auto
    then show ?thesis unfolding new(6) by (auto simp: image_iff eq_commute [of "Strspace p"])
  qed
  show "str_ok ?st" using ok mem by (auto simp: str_ok_def new)
  show "ep ?st < endest ?st" using ok by (auto simp: str_ok_def new)
  have "text_from ?st (p + ?d) = text_from st p" if "strspace st \<le> p" "p \<le> ep st" for p
  proof -
    have "nat (p - strspace st) + nat (ep st - p) \<le> strsize st" "strsize st \<le> length (strmem st)"
      using that ok by (auto simp: str_ok_def)
    then show ?thesis by (simp add: text_from_def new take_drop min_def add.commute)
  qed
  then have "shown ?st (move_entry (strspace st) (place H (strsize st * 2)) e) = shown st e" if "e \<in> set (mstack st)" for e
    using that ok by (cases e) (auto simp: str_ok_def add_diff_eq diff_add_eq)
  then show "args ?st = args st" by (simp add: args_def new(6))
qed

lemma chrsave_effect:
  assumes ok: "str_ok st"
  shows "\<exists>st'. chrsave H c st = Inr st' \<and> str_ok st' \<and> args st' = map (map_sum id (\<lambda>t. t @ [c])) (args st)"
proof -
  define s1 where "s1 = (if ep st \<ge> endest st then enlarge_strspace H st else st)"
  have s1: "str_ok s1" "args s1 = args st" "ep s1 < endest s1"
    using enlarge_strspace_effect [OF ok] ok by (auto simp: s1_def)
  let ?n = "nat (ep s1 - strspace s1)"
  let ?st = "s1\<lparr>strmem := (strmem s1)[?n := c], ep := ep s1 + 1\<rparr>"
  have n: "?n < length (strmem s1)" using s1 by (auto simp: str_ok_def)
  have "chrsave H c st = Inr ?st" using s1 by (auto simp: chrsave_def s1_def [symmetric] Let_def str_ok_def)
  moreover have "str_ok ?st" using s1 by (auto simp: str_ok_def)
  moreover have "text_from ?st p = text_from s1 p @ [c]" if "strspace s1 \<le> p" "p \<le> ep s1" for p
  proof -
    have e: "nat (ep s1 + 1 - p) = Suc (nat (ep s1 - p))" "?n = nat (p - strspace s1) + nat (ep s1 - p)" using that by auto
    show ?thesis using n unfolding text_from_def by (simp add: e take_Suc_conv_app_nth drop_update_swap)
  qed
  then have "shown ?st e = map_sum id (\<lambda>t. t @ [c]) (shown s1 e)" if "e \<in> set (mstack s1)" for e
    using that s1(1) by (cases e) (auto simp: str_ok_def)
  then have "args ?st = map (map_sum id (\<lambda>t. t @ [c])) (args s1)" by (simp add: args_def)
  ultimately show ?thesis using s1(2) by auto
qed

lemma chrsaves_effect:
  assumes "str_ok st"
  shows "\<exists>st'. chrsaves H s st = Inr st' \<and> str_ok st' \<and> args st' = map (map_sum id (\<lambda>t. t @ s)) (args st)"
  using assms
proof (induction s arbitrary: st)
  case (Cons c s)
  obtain st1 where st1: "chrsave H c st = Inr st1" "str_ok st1" "args st1 = map (map_sum id (\<lambda>t. t @ [c])) (args st)"
    using chrsave_effect [OF Cons.prems] by blast
  obtain st' where "chrsaves H s st1 = Inr st'" "str_ok st'" "args st' = map (map_sum id (\<lambda>t. t @ s)) (args st1)"
    using Cons.IH [OF st1(2)] by blast
  then show ?case using st1 by (simp add: sum.map_comp o_def)
qed (simp add: sum.map_id0 [unfolded id_def] id_def)

lemma pushs_effect:
  assumes "str_ok st"
  shows "str_ok (pushs st)" "args (pushs st) = args st @ [Inr []]"
proof -
  show "str_ok (pushs st)" using assms by (auto simp: str_ok_def pushs_def)
  have "shown (pushs st) e = shown st e" for e by (cases e) (simp_all add: text_from_def pushs_def)
  then show "args (pushs st) = args st @ [Inr []]" by (simp add: args_def) (simp add: pushs_def text_from_def)
qed

text \<open>The C string at an entry ends at the first NUL, so what is complete does not change.\<close>

definition arg_string :: "'p entry + u8 list \<Rightarrow> c_string option" where
  "arg_string e = (case e of Inr t \<Rightarrow> if 0 \<in> set t then Some (takeWhile (\<lambda>c. c \<noteq> 0) t) else None | Inl e \<Rightarrow> None)"

lemma arg_string_append: "arg_string e = Some s \<Longrightarrow> arg_string (map_sum id (\<lambda>t. t @ u) e) = Some s"
  by (cases e) (auto simp: arg_string_def split: if_splits)

text \<open>
  Collecting an argument: after a new entry was pushed for it and its characters and a NUL were
  saved, the entry's string is the argument, every argument completed before has the string it
  had, and the frame entries, definitions and names on the stack are untouched -- also when the
  space was moved in between; nothing is written outside of it.
\<close>

lemma collect_argument:
  assumes "str_ok st" "0 \<notin> set s"
  shows "\<exists>st'. chrsaves H (s @ [0]) (pushs st) = Inr st' \<and> str_ok st' \<and> length (args st') = length (args st) + 1 \<and>
    arg_string (args st' ! length (args st)) = Some s \<and>
    (\<forall>i < length (args st). (\<forall>t. arg_string (args st ! i) = Some t \<longrightarrow> arg_string (args st' ! i) = Some t) \<and>
      (\<forall>e. args st ! i = Inl e \<longrightarrow> args st' ! i = Inl e))"
proof -
  note p = pushs_effect [OF assms(1)]
  obtain st' where st': "chrsaves H (s @ [0]) (pushs st) = Inr st'" "str_ok st'"
    "args st' = map (map_sum id (\<lambda>t. t @ s @ [0])) (args st @ [Inr []])"
    using chrsaves_effect [OF p(1), of H "s @ [0]"] p(2) by auto
  have "arg_string (args st' ! length (args st)) = Some s"
  proof -
    have "takeWhile (\<lambda>c. c \<noteq> 0) (s @ [0]) = s" using assms(2) by (induction s) auto
    then show ?thesis by (simp add: st'(3) nth_append arg_string_def)
  qed
  moreover have "args st' ! i = map_sum id (\<lambda>t. t @ s @ [0]) (args st ! i)" if "i < length (args st)" for i
    using that by (simp add: st'(3) nth_append)
  ultimately show ?thesis using st' arg_string_append by fastforce
qed

end
