(* ===== verification/M4_Macros.thy ===== *)
theory M4_Macros
  imports Ohash M4_Args
begin

text \<open>
  The macros of \<open>m4\<close>, \<open>src/src.freebsd/m4/look.c\<close>: a hash table of nodes, each with a stack of
  definitions.  The table is that of \<open>Ohash\<close>.

  A node is never freed and its name never changes, so it is identified by its name.  The text of a
  definition is either the static empty string \<open>null\<close> or an allocated copy, which has an address.
  What is freed is recorded; freeing an address twice is recorded as a fault.  A call in progress keeps a pointer to
  the definition on the stack of \<open>main.c\<close>, so a definition that is replaced is put into the array
  \<open>kept\<close> instead of being freed.
\<close>

section \<open>State\<close>

datatype dptr = Null_str | Dup nat c_string

fun str_of :: "dptr \<Rightarrow> c_string" where
  "str_of Null_str = []"
| "str_of (Dup a s) = s"

abbreviation MACROTYPE :: u32 where "MACROTYPE \<equiv> 1"
abbreviation RECDEF :: u32 where "RECDEF \<equiv> 256"
abbreviation FLAG_NO_TRACE :: u32 where "FLAG_NO_TRACE \<equiv> 2"
abbreviation TRACE_ALL :: u32 where "TRACE_ALL \<equiv> 512"

record macro_definition =
  defn :: dptr
  mtype :: u32

record ndblock =
  builtin_type :: u32
  nd_trace :: u32
  d :: "macro_definition list"

record m4 =
  macros :: "c_string ohash"
  nodes :: "c_string \<Rightarrow> ndblock"
  prefix_builtins :: bool
  trace_flags :: u32
  kept :: "dptr list"
  kept_capacity :: nat
  calls :: "dptr entry list"
  brk :: nat
  freed :: "nat list"
  faults :: "dptr list"

definition BUILTIN_MARKER :: c_string where
  "BUILTIN_MARKER = bytes ''__builtin_''"

definition new_node :: ndblock where
  "new_node = \<lparr>builtin_type = MACROTYPE, nd_trace = FLAG_NO_TRACE, d = []\<rparr>"

definition init_macros :: m4 where
  "init_macros = \<lparr>macros = ohash_init 10, nodes = \<lambda>n. new_node, prefix_builtins = False, trace_flags = 0,
     kept = [], kept_capacity = 0, calls = [], brk = 0, freed = [], faults = []\<rparr>"

definition xstrdup :: "c_string \<Rightarrow> m4 \<Rightarrow> dptr \<times> m4" where
  "xstrdup s m = (Dup (brk m) s, m\<lparr>brk := brk m + 1\<rparr>)"

definition free_str :: "dptr \<Rightarrow> m4 \<Rightarrow> m4" where
  "free_str p m =
     (case p of
        Null_str \<Rightarrow> m\<lparr>faults := p # faults m\<rparr>
      | Dup a s \<Rightarrow> if a \<in> set (freed m) then m\<lparr>faults := p # faults m\<rparr> else m\<lparr>freed := a # freed m\<rparr>)"

definition set_d :: "c_string \<Rightarrow> macro_definition list \<Rightarrow> m4 \<Rightarrow> m4" where
  "set_d n ds m = m\<lparr>nodes := (nodes m)(n := (nodes m n)\<lparr>d := ds\<rparr>)\<rparr>"

section \<open>Strings that are still in use\<close>

fun addr_of :: "dptr \<Rightarrow> nat option" where
  "addr_of Null_str = None"
| "addr_of (Dup a s) = Some a"

definition string_in_use :: "dptr \<Rightarrow> m4 \<Rightarrow> bool" where
  "string_in_use p m \<longleftrightarrow> list_ex (\<lambda>e. case e of Macro q \<Rightarrow> addr_of q = addr_of p | _ \<Rightarrow> False) (calls m)"

definition keep :: "dptr \<Rightarrow> m4 \<Rightarrow> m4" where
  "keep p m =
     m\<lparr>kept_capacity := (if kept_capacity m \<le> length (kept m)
          then if kept_capacity m \<noteq> 0 then kept_capacity m * 2 else 50 else kept_capacity m),
       kept := kept m @ [p]\<rparr>"

function sweep :: "nat \<Rightarrow> m4 \<Rightarrow> m4" where
  "sweep i m =
     (if i < length (kept m) then
        if \<not> string_in_use (kept m ! i) m then
          let size = length (kept m) - 1; m = free_str (kept m ! i) m
          in sweep i (m\<lparr>kept := take size ((kept m)[i := kept m ! size])\<rparr>)
        else sweep (i + 1) m
      else m)"
  by pat_completeness auto
termination
  by (relation "measure (\<lambda>(i, m). length (kept m) - i)") (auto simp: free_str_def split: dptr.split)

declare sweep.simps [simp del]

definition free_definition :: "dptr \<Rightarrow> m4 \<Rightarrow> m4" where
  "free_definition p m =
     (let m = sweep 0 m in if string_in_use p m then keep p m else free_str p m)"

section \<open>Looking up and entering\<close>

definition lookup :: "c_string \<Rightarrow> m4 \<Rightarrow> (c_string option \<times> m4) option" where
  "lookup name m = map_option (\<lambda>(i, h). (ohash_find h i, m\<lparr>macros := h\<rparr>)) (ohash_qlookup (\<lambda>e. e) (macros m) name)"

definition lookup_macro_definition :: "c_string \<Rightarrow> m4 \<Rightarrow> (macro_definition option \<times> m4) option" where
  "lookup_macro_definition name m =
     map_option (\<lambda>(p, m). (case p of
         None \<Rightarrow> None
       | Some n \<Rightarrow> (case d (nodes m n) of [] \<Rightarrow> None | r # rs \<Rightarrow> Some r), m)) (lookup name m)"

definition macro_getbuiltin :: "c_string \<Rightarrow> m4 \<Rightarrow> (c_string option \<times> m4) option" where
  "macro_getbuiltin name m =
     map_option (\<lambda>(p, m). (case p of
         None \<Rightarrow> None
       | Some n \<Rightarrow> if builtin_type (nodes m n) = MACROTYPE then None else Some n, m)) (lookup name m)"

definition plain_definition :: "c_string \<Rightarrow> m4 \<Rightarrow> macro_definition \<times> m4" where
  "plain_definition df m =
     (if df = [] then (\<lparr>defn = Null_str, mtype = MACROTYPE\<rparr>, m)
      else case xstrdup df m of (p, m) \<Rightarrow> (\<lparr>defn = p, mtype = MACROTYPE\<rparr>, m))"

definition setup_definition :: "c_string \<Rightarrow> c_string \<Rightarrow> m4 \<Rightarrow> (macro_definition \<times> m4) option" where
  "setup_definition df name m =
     map_option (\<lambda>(r, m). (if name = df then r\<lparr>mtype := mtype r OR RECDEF\<rparr> else r, m))
       (if take (length BUILTIN_MARKER) df = BUILTIN_MARKER then
          map_option (\<lambda>(p, m). case p of
              Some n \<Rightarrow>
                (case xstrdup (drop (length BUILTIN_MARKER) df) m of
                   (q, m) \<Rightarrow> (\<lparr>defn = q, mtype = builtin_type (nodes m n)\<rparr>, m))
            | None \<Rightarrow> plain_definition df m) (macro_getbuiltin (drop (length BUILTIN_MARKER) df) m)
        else Some (plain_definition df m))"

definition create_entry :: "c_string \<Rightarrow> m4 \<Rightarrow> m4 option" where
  "create_entry name m =
     Option.bind (ohash_qlookup (\<lambda>e. e) (macros m) name) (\<lambda>(i, h).
       case ohash_find h i of
         Some n \<Rightarrow> Some (m\<lparr>macros := h\<rparr>)
       | None \<Rightarrow> map_option (\<lambda>h. m\<lparr>macros := h, nodes := (nodes m)(name := new_node)\<rparr>) (ohash_insert True h i name))"

section \<open>Operations\<close>

definition macro_define :: "c_string \<Rightarrow> c_string \<Rightarrow> m4 \<Rightarrow> m4 option" where
  "macro_define name df m =
     Option.bind (create_entry name m) (\<lambda>m.
       let ds = d (nodes m name);
           m = (case ds of [] \<Rightarrow> m | r # rs \<Rightarrow> if defn r \<noteq> Null_str then free_definition (defn r) m else m)
       in map_option (\<lambda>(r, m). set_d name (r # tl ds) m) (setup_definition df name m))"

definition macro_pushdef :: "c_string \<Rightarrow> c_string \<Rightarrow> m4 \<Rightarrow> m4 option" where
  "macro_pushdef name df m =
     Option.bind (create_entry name m) (\<lambda>m.
       let ds = d (nodes m name)
       in map_option (\<lambda>(r, m). set_d name (r # ds) m) (setup_definition df name m))"

definition free_defn :: "macro_definition \<Rightarrow> m4 \<Rightarrow> m4" where
  "free_defn r m = (if defn r \<noteq> Null_str then free_str (defn r) m else m)"

definition macro_undefine :: "c_string \<Rightarrow> m4 \<Rightarrow> m4 option" where
  "macro_undefine name m =
     map_option (\<lambda>(p, m). case p of
         None \<Rightarrow> m
       | Some n \<Rightarrow> set_d n [] (fold free_defn (d (nodes m n)) m)) (lookup name m)"

definition macro_popdef :: "c_string \<Rightarrow> m4 \<Rightarrow> m4 option" where
  "macro_popdef name m =
     map_option (\<lambda>(p, m). case p of
         None \<Rightarrow> m
       | Some n \<Rightarrow> (case d (nodes m n) of [] \<Rightarrow> m | r # rs \<Rightarrow> free_defn r (set_d n rs m))) (lookup name m)"

definition setup_builtin :: "c_string \<Rightarrow> u32 \<Rightarrow> m4 \<Rightarrow> m4 option" where
  "setup_builtin name ty m =
     (case xstrdup (if prefix_builtins m then bytes ''m4_'' @ name else name) m of (p, m) \<Rightarrow>
        map_option (\<lambda>m. m\<lparr>nodes := (nodes m)(str_of p := (nodes m (str_of p))
            \<lparr>builtin_type := ty, d := [\<lparr>defn = p, mtype = ty\<rparr>]\<rparr>)\<rparr>) (create_entry (str_of p) m))"

text \<open>The nodes in the order of the table.\<close>

lemma ohash_next_grows: "ohash_next h pos = (Some e, pos') \<Longrightarrow> pos < pos' \<and> pos' \<le> oh_size h"
proof (induction h pos rule: ohash_next.induct)
  case (1 h pos)
  have lt: "pos < oh_size h" using 1(3) by (rule_tac ccontr) (simp add: ohash_next.simps [of h pos])
  show ?case
  proof (cases "s_p (oh_t h ! pos)")
    case (Ent x)
    then have "pos' = pos + 1" using 1(3) lt by (simp add: ohash_next.simps [of h pos])
    then show ?thesis using lt by simp
  next
    case NULLP
    then have "ohash_next h (pos + 1) = (Some e, pos')" using 1(3) lt by (simp add: ohash_next.simps [of h pos])
    then have "pos + 1 < pos' \<and> pos' \<le> oh_size h" by (rule 1(1) [OF lt NULLP])
    then show ?thesis by linarith
  next
    case DELETED
    then have "ohash_next h (pos + 1) = (Some e, pos')" using 1(3) lt by (simp add: ohash_next.simps [of h pos])
    then have "pos + 1 < pos' \<and> pos' \<le> oh_size h" by (rule 1(2) [OF lt DELETED])
    then show ?thesis by linarith
  qed
qed

lemma ohash_next_step:
  assumes "fst (ohash_next h pos) = Some e"
  shows "oh_size h - snd (ohash_next h pos) < oh_size h - pos"
proof -
  have "ohash_next h pos = (Some e, snd (ohash_next h pos))" by (rule prod_eqI) (simp_all only: assms fst_conv snd_conv)
  from ohash_next_grows [OF this] show ?thesis by linarith
qed

function walk :: "c_string ohash \<Rightarrow> nat \<Rightarrow> c_string list" where
  "walk h pos = (case fst (ohash_next h pos) of None \<Rightarrow> [] | Some n \<Rightarrow> n # walk h (snd (ohash_next h pos)))"
  by pat_completeness auto
termination
  by (relation "measure (\<lambda>(h, pos). oh_size h - pos)") (simp_all only: wf_measure in_measure case_prod_conv ohash_next_step)

declare walk.simps [simp del]

definition macro_for_all :: "(c_string \<Rightarrow> macro_definition \<Rightarrow> 's \<Rightarrow> 's) \<Rightarrow> m4 \<Rightarrow> 's \<Rightarrow> 's" where
  "macro_for_all f m = fold (\<lambda>n s. case d (nodes m n) of [] \<Rightarrow> s | r # rs \<Rightarrow> f n r s) (walk (macros m) 0)"

definition mark_traced :: "c_string option \<Rightarrow> u32 \<Rightarrow> m4 \<Rightarrow> m4 option" where
  "mark_traced name on m =
     (case name of
        None \<Rightarrow> Some (m\<lparr>trace_flags := (if on \<noteq> 0 then trace_flags m OR TRACE_ALL else trace_flags m AND NOT TRACE_ALL),
          nodes := fold (\<lambda>n ns. ns(n := (ns n)\<lparr>nd_trace := FLAG_NO_TRACE\<rparr>)) (walk (macros m) 0) (nodes m)\<rparr>)
      | Some name \<Rightarrow>
          map_option (\<lambda>m. m\<lparr>nodes := (nodes m)(name := (nodes m name)\<lparr>nd_trace := on\<rparr>)\<rparr>) (create_entry name m))"

text \<open>A call in progress: \<open>pushdef\<close> of \<open>mdef.h\<close>.\<close>

definition pushdef :: "c_string \<Rightarrow> m4 \<Rightarrow> m4" where
  "pushdef n m = m\<lparr>calls := calls m @ [Macro (defn (hd (d (nodes m n))))]\<rparr>"

end
