(* ===== verification/M4_Table.thy ===== *)
theory M4_Table
  imports M4_Macros
begin

text \<open>
  What the table of macros of \<open>m4\<close> promises.  The invariant \<open>m4_ok\<close> says which string belongs to
  whom: every allocated text belongs to one definition or to the array \<open>kept\<close> and has not been freed, and
  no string has been freed twice.  Every operation keeps it and acts on the abstract view, a map from
  names to stacks of definitions, as the manual describes.
\<close>

section \<open>Who owns which string\<close>

definition alist :: "macro_definition list \<Rightarrow> nat list" where
  "alist ds = concat (map (\<lambda>r. case defn r of Null_str \<Rightarrow> [] | Dup a s \<Rightarrow> [a]) ds)"

lemma alist_simps [simp]:
  "alist [] = []"
  "alist (r # ds) = (case defn r of Null_str \<Rightarrow> [] | Dup a s \<Rightarrow> [a]) @ alist ds"
  by (simp_all add: alist_def)

definition kaddr :: "dptr \<Rightarrow> nat" where
  "kaddr p = (case p of Null_str \<Rightarrow> 0 | Dup a s \<Rightarrow> a)"

definition owned :: "m4 \<Rightarrow> c_string \<Rightarrow> nat list" where
  "owned m n = alist (d (nodes m n))"

text \<open>
  The addresses below \<open>b\<close> have been given out, those in \<open>f\<close> freed; the definitions of each name and
  the kept strings own disjoint sets of the others.
\<close>

definition heap_ok :: "nat \<Rightarrow> nat set \<Rightarrow> (c_string \<Rightarrow> nat list) \<Rightarrow> nat list \<Rightarrow> bool" where
  "heap_ok b f A K \<longleftrightarrow>
     (\<forall>n. distinct (A n) \<and> set (A n) \<inter> set K = {} \<and> set (A n) \<subseteq> {..<b} - f) \<and>
     (\<forall>n n'. n \<noteq> n' \<longrightarrow> set (A n) \<inter> set (A n') = {}) \<and>
     distinct K \<and> set K \<subseteq> {..<b} - f \<and> f \<subseteq> {..<b}"

definition loose :: "nat \<Rightarrow> nat \<Rightarrow> nat set \<Rightarrow> (c_string \<Rightarrow> nat list) \<Rightarrow> nat list \<Rightarrow> bool" where
  "loose a b f A K \<longleftrightarrow> a < b \<and> a \<notin> f \<and> a \<notin> set K \<and> (\<forall>n. a \<notin> set (A n))"

lemma heap_okD:
  assumes "heap_ok b f A K"
  shows "distinct (A n)" "set (A n) \<inter> set K = {}" "set (A n) \<subseteq> {..<b} - f" "n \<noteq> n' \<Longrightarrow> set (A n) \<inter> set (A n') = {}"
    "distinct K" "set K \<subseteq> {..<b} - f" "f \<subseteq> {..<b}"
  using assms unfolding heap_ok_def by blast+

lemma heap_okI:
  assumes "\<And>n. distinct (A n) \<and> set (A n) \<inter> set K = {} \<and> set (A n) \<subseteq> {..<b} - f"
    "\<And>n n'. n \<noteq> n' \<Longrightarrow> set (A n) \<inter> set (A n') = {}" "distinct K" "set K \<subseteq> {..<b} - f" "f \<subseteq> {..<b}"
  shows "heap_ok b f A K"
  using assms unfolding heap_ok_def by blast

lemma heap_ok_new:
  assumes "heap_ok b f A K"
  shows "heap_ok (b + 1) f (A(n := b # A n)) K"
proof (rule heap_okI)
  note h = heap_okD [OF assms]
  have b: "b \<notin> set (A k)" "b \<notin> set K" "b \<notin> f" for k using h(3) [of k] h(6,7) by auto
  show "distinct ((A(n := b # A n)) k) \<and> set ((A(n := b # A n)) k) \<inter> set K = {} \<and>
      set ((A(n := b # A n)) k) \<subseteq> {..<b + 1} - f" for k
    using h(1,2) h(3) [of k] b by auto
  show "set ((A(n := b # A n)) k) \<inter> set ((A(n := b # A n)) k') = {}" if "k \<noteq> k'" for k k'
    using h(4) [OF that] b that by auto
  show "distinct K" "set K \<subseteq> {..<b + 1} - f" "f \<subseteq> {..<b + 1}" using h(5-7) by auto
qed

lemma heap_ok_free: "heap_ok b f A K \<Longrightarrow> loose a b f A K \<Longrightarrow> heap_ok b (insert a f) A K"
  by (auto simp: heap_ok_def loose_def)

lemma heap_ok_keep: "heap_ok b f A K \<Longrightarrow> loose a b f A K \<Longrightarrow> heap_ok b f A (K @ [a])"
  by (auto simp: heap_ok_def loose_def)

lemma heap_ok_release:
  assumes "heap_ok b f A K" "A n = xs @ a # ys"
  shows "heap_ok b f (A(n := xs @ ys)) K" "loose a b f (A(n := xs @ ys)) K"
proof -
  note h = heap_okD [OF assms(1)]
  have "a \<in> set (A n)" using assms(2) by simp
  then have "a \<notin> set (A n')" if "n' \<noteq> n" for n' using h(4) [OF that] by blast
  then show "loose a b f (A(n := xs @ ys)) K" using assms(2) h(1-3) [of n] by (auto simp: loose_def)
  have sub: "set ((A(n := xs @ ys)) k) \<subseteq> set (A k)" for k using assms(2) by auto
  show "heap_ok b f (A(n := xs @ ys)) K"
  proof (rule heap_okI)
    show "distinct ((A(n := xs @ ys)) k) \<and> set ((A(n := xs @ ys)) k) \<inter> set K = {} \<and>
        set ((A(n := xs @ ys)) k) \<subseteq> {..<b} - f" for k
      using h(1-3) [of k] sub [of k] assms(2) by auto
    show "set ((A(n := xs @ ys)) k) \<inter> set ((A(n := xs @ ys)) k') = {}" if "k \<noteq> k'" for k k'
      using h(4) [OF that] sub by blast
  qed (use h(5-7) in blast)+
qed

lemma heap_ok_release_kept:
  assumes "heap_ok b f A K" "a \<in> set K" "distinct K'" "set K' = set K - {a}"
  shows "heap_ok b f A K'" "loose a b f A K'"
proof -
  note h = heap_okD [OF assms(1)]
  show "heap_ok b f A K'" using h assms(3,4) by (intro heap_okI) blast+
  show "loose a b f A K'" using h(2,6) assms(2,4) unfolding loose_def by blast
qed

text \<open>The last element takes the place of the one that goes.\<close>

lemma replace_by_last:
  assumes "distinct K" "i < length K"
  shows "distinct (take (length K - 1) (K[i := K ! (length K - 1)]))"
    "set (take (length K - 1) (K[i := K ! (length K - 1)])) = set K - {K ! i}"
proof -
  obtain xs l where K: "K = xs @ [l]" using assms(2) by (metis length_0_conv less_nat_zero_code rev_exhaust)
  have "distinct (take (length K - 1) (K[i := K ! (length K - 1)])) \<and>
    set (take (length K - 1) (K[i := K ! (length K - 1)])) = set K - {K ! i}"
  proof (cases "i = length xs")
    case True
    then show ?thesis using assms(1) by (auto simp: K)
  next
    case False
    then have i: "i < length xs" using assms(2) by (simp add: K)
    then have "take (length K - 1) (K[i := K ! (length K - 1)]) = xs[i := l]"
      by (simp add: K list_update_append nth_append)
    then show ?thesis
      using assms(1) i by (auto simp: K nth_append distinct_list_update set_update_distinct)
  qed
  then show "distinct (take (length K - 1) (K[i := K ! (length K - 1)]))"
    "set (take (length K - 1) (K[i := K ! (length K - 1)])) = set K - {K ! i}" by blast+
qed

section \<open>Freeing\<close>

definition mem :: "(c_string \<Rightarrow> nat list) \<Rightarrow> m4 \<Rightarrow> bool" where
  "mem A m \<longleftrightarrow> heap_ok (brk m) (set (freed m)) A (map kaddr (kept m)) \<and> Null_str \<notin> set (kept m) \<and>
     faults m = [] \<and> length (kept m) \<le> kept_capacity m"

definition in_use :: "m4 \<Rightarrow> nat set" where
  "in_use m = {a. \<exists>s. Macro (Dup a s) \<in> set (calls m)}"

lemma string_in_use_Dup: "string_in_use (Dup a s) m \<longleftrightarrow> a \<in> in_use m"
proof -
  have "(case e of Macro q \<Rightarrow> addr_of q = Some a | _ \<Rightarrow> False) \<longleftrightarrow> (\<exists>t. e = Macro (Dup a t))" for e
  proof (cases e)
    case (Macro q)
    then show ?thesis by (cases q) auto
  qed auto
  then show ?thesis unfolding string_in_use_def in_use_def list_ex_iff addr_of.simps by auto
qed

text \<open>Everything but the record of what is allocated stays.\<close>

definition core :: "m4 \<Rightarrow> m4 \<Rightarrow> bool" where
  "core m m' \<longleftrightarrow> macros m' = macros m \<and> nodes m' = nodes m \<and> calls m' = calls m \<and> brk m' = brk m \<and>
     prefix_builtins m' = prefix_builtins m \<and> trace_flags m' = trace_flags m"

lemma core_refl: "core m m" and core_trans: "core m m' \<Longrightarrow> core m' m'' \<Longrightarrow> core m m''"
  by (simp_all add: core_def)

lemma core_in_use: "core m m' \<Longrightarrow> in_use m' = in_use m"
  by (simp add: core_def in_use_def)

lemma free_str_effect:
  assumes "mem A m" "loose a (brk m) (set (freed m)) A (map kaddr (kept m))"
  shows "mem A (free_str (Dup a s) m)" "core m (free_str (Dup a s) m)" "freed (free_str (Dup a s) m) = a # freed m"
    "kept (free_str (Dup a s) m) = kept m"
  using assms heap_ok_free by (auto simp: mem_def free_str_def core_def loose_def)

lemma sweep_effect:
  assumes "mem A m" 
  shows "mem A (sweep i m) \<and> core m (sweep i m) \<and> set (kept (sweep i m)) \<subseteq> set (kept m) \<and>
    set (freed m) \<subseteq> set (freed (sweep i m)) \<and>
    set (freed (sweep i m)) \<subseteq> set (freed m) \<union> (kaddr ` set (kept m) - in_use m)"
  using assms
proof (induction i m rule: sweep.induct)
  case (1 i m)
  let ?K = "map kaddr (kept m)"
  consider (stop) "\<not> i < length (kept m)" | (used) "i < length (kept m)" "string_in_use (kept m ! i) m"
    | (free) "i < length (kept m)" "\<not> string_in_use (kept m ! i) m" by blast
  then show ?case
  proof cases
    case stop
    then show ?thesis using 1(3) by (simp add: sweep.simps [of i m] core_refl)
  next
    case used
    then show ?thesis using 1(2) 1(3) by (simp add: sweep.simps [of i m])
  next
    case free
    let ?n = "length (kept m) - 1" and ?m1 = "free_str (kept m ! i) m"
    define k2 where "k2 = take ?n ((kept m)[i := kept m ! ?n])"
    let ?m2 = "?m1\<lparr>kept := k2\<rparr>"
    have "Null_str \<notin> set (kept m)" using 1(3) by (simp add: mem_def)
    moreover have "kept m ! i \<in> set (kept m)" using free(1) by simp
    ultimately obtain a s where p: "kept m ! i = Dup a s" by (cases "kept m ! i") auto
    have ai: "?K ! i = a" using free(1) p by (simp add: kaddr_def)
    have a: "?K ! i = a" "a \<in> set ?K" using ai nth_mem [of i ?K] free(1) by auto
    have dK: "distinct ?K" using 1(3) by (simp add: mem_def heap_ok_def)
    have k2: "map kaddr k2 = take (length ?K - 1) (?K[i := ?K ! (length ?K - 1)])"
      using free(1) by (simp add: k2_def take_map [symmetric] map_update)
    have K2: "distinct (map kaddr k2)" "set (map kaddr k2) = set ?K - {a}"
      using replace_by_last [OF dK, of i] free(1) a(1) unfolding k2 by simp_all
    have sub: "set k2 \<subseteq> set (kept m)"
      using free(1) set_update_subset_insert [of "kept m" i "kept m ! ?n"] nth_mem [of ?n "kept m"]
      by (fastforce simp: k2_def dest: in_set_takeD)
    note rel = heap_ok_release_kept [OF _ a(2) K2]
    have m1: "mem A (m\<lparr>kept := k2\<rparr>)"
      using 1(3) rel(1) sub by (auto simp: mem_def k2_def)
    have "loose a (brk (m\<lparr>kept := k2\<rparr>)) (set (freed (m\<lparr>kept := k2\<rparr>))) A (map kaddr (kept (m\<lparr>kept := k2\<rparr>)))"
      using rel(2) 1(3) by (simp add: mem_def)
    note f = free_str_effect [OF m1 this, of s]
    have eq: "free_str (Dup a s) (m\<lparr>kept := k2\<rparr>) = ?m2" by (simp add: p free_str_def)
    have c: "core m ?m2" using f(2) by (simp add: eq core_def)
    have fr: "freed ?m2 = a # freed m" using f(3) by (simp add: eq)
    have km: "kept ?m1 = kept m" by (simp add: p free_str_def)
    have m2: "?m1\<lparr>kept := take ?n ((kept ?m1)[i := kept ?m1 ! ?n])\<rparr> = ?m2" by (simp only: km k2_def)
    note IH = 1(1) [OF free refl refl, unfolded m2, OF f(1) [unfolded eq]]
    have step: "sweep i m = sweep i ?m2"
      using free unfolding sweep.simps [of i m] Let_def m2 by simp
    have use: "a \<notin> in_use m" "in_use ?m2 = in_use m" "a \<in> kaddr ` set (kept m)" "kaddr ` set k2 \<subseteq> kaddr ` set (kept m)"
      using free(2) p string_in_use_Dup core_in_use [OF c] a(2) sub by auto
    have k: "kept ?m2 = k2" "set (freed ?m2) = insert a (set (freed m))" using fr by simp_all
    have "set (freed (sweep i ?m2)) \<subseteq> set (freed m) \<union> (kaddr ` set (kept m) - in_use m)"
      using IH use unfolding k by blast
    moreover have "set (freed m) \<subseteq> set (freed (sweep i ?m2))" "set (kept (sweep i ?m2)) \<subseteq> set (kept m)"
      using IH sub unfolding k by blast+
    ultimately show ?thesis using IH core_trans [OF c] unfolding step by blast
  qed
qed

lemma free_definition_effect:
  assumes m: "mem A m" and l: "loose a (brk m) (set (freed m)) A (map kaddr (kept m))"
  shows "mem A (free_definition (Dup a s) m) \<and> core m (free_definition (Dup a s) m) \<and>
    (\<forall>x \<in> in_use m. x \<notin> set (freed m) \<longrightarrow> x \<notin> set (freed (free_definition (Dup a s) m)))"
proof -
  let ?m = "sweep 0 m"
  note sw = sweep_effect [OF m, of 0]
  have c: "core m ?m" "in_use ?m = in_use m" using sw core_in_use by blast+
  have K: "set (map kaddr (kept ?m)) \<subseteq> set (map kaddr (kept m))" using sw by auto
  have la: "a \<notin> set (map kaddr (kept m))" "a \<notin> set (freed m)" "a < brk m" using l by (simp_all add: loose_def)
  then have fr: "a \<notin> set (freed ?m)" using sw by auto
  then have l': "loose a (brk ?m) (set (freed ?m)) A (map kaddr (kept ?m))"
    using l K c(1) by (auto simp: loose_def core_def)
  have keeps: "x \<notin> set (freed ?m)" if "x \<in> in_use m" "x \<notin> set (freed m)" for x using that sw by blast
  show ?thesis
  proof (cases "a \<in> in_use m")
    case True
    then have eq: "free_definition (Dup a s) m = keep (Dup a s) ?m"
      using string_in_use_Dup c(2) by (simp add: free_definition_def)
    have "mem A (keep (Dup a s) ?m)"
      using sw heap_ok_keep [OF _ l'] by (auto simp: mem_def keep_def kaddr_def)
    moreover have "core m (keep (Dup a s) ?m)" "freed (keep (Dup a s) ?m) = freed ?m"
      using c(1) by (simp_all add: core_def keep_def)
    ultimately show ?thesis unfolding eq using keeps by simp
  next
    case False
    then have eq: "free_definition (Dup a s) m = free_str (Dup a s) ?m"
      using string_in_use_Dup c(2) by (simp add: free_definition_def)
    have "mem A ?m" using sw by blast
    note f = free_str_effect [OF this l', of s]
    show ?thesis unfolding eq using f(1,3) core_trans [OF c(1) f(2)] keeps False by auto
  qed
qed

section \<open>The table of names\<close>

abbreviation known :: "m4 \<Rightarrow> c_string \<Rightarrow> bool" where
  "known m n \<equiv> abs_ohash (\<lambda>e. e) (macros m) n \<noteq> None"

definition names_ok :: "m4 \<Rightarrow> bool" where
  "names_ok m \<longleftrightarrow> ohash_ok (\<lambda>e. e) (macros m) \<and> (\<forall>n. \<not> known m n \<longrightarrow> nodes m n = new_node)"

definition m4_ok :: "m4 \<Rightarrow> bool" where
  "m4_ok m \<longleftrightarrow> names_ok m \<and> mem (owned m) m"

definition room :: "m4 \<Rightarrow> bool" where
  "room m \<longleftrightarrow> oh_size (macros m) \<le> 2 ^ 29"

lemma abs_same: "ohash_ok (\<lambda>e. e) h \<Longrightarrow> abs_ohash (\<lambda>e. e) h n = Some x \<Longrightarrow> x = n"
  using abs_table_Some [of "\<lambda>e. e" ohash_interval "oh_t h" n x] by (simp add: abs_ohash_def ohash_ok_def counts_ok_def)

lemma mem_table [simp]: "mem A (m\<lparr>macros := h\<rparr>) = mem A m" "owned (m\<lparr>macros := h\<rparr>) = owned m"
  by (simp_all add: mem_def owned_def fun_eq_iff)

lemma lookup_effect:
  assumes "names_ok m"
  obtains h where "lookup n m = Some (if known m n then Some n else None, m\<lparr>macros := h\<rparr>)"
    "ohash_ok (\<lambda>e. e) h" "abs_ohash (\<lambda>e. e) h = abs_ohash (\<lambda>e. e) (macros m)"
proof -
  have ok: "ohash_ok (\<lambda>e. e) (macros m)" using assms by (simp add: names_ok_def)
  obtain i h where h: "ohash_qlookup (\<lambda>e. e) (macros m) n = Some (i, h)" "ohash_ok (\<lambda>e. e) h"
    "abs_ohash (\<lambda>e. e) h = abs_ohash (\<lambda>e. e) (macros m)" "ohash_find h i = abs_ohash (\<lambda>e. e) (macros m) n"
    using oh.lookup_law [OF ok, of n] by blast
  have "abs_ohash (\<lambda>e. e) (macros m) n = (if known m n then Some n else None)"
    using abs_same [OF ok, of n] by auto
  then show thesis using h by (intro that [of h]) (simp_all add: lookup_def)
qed

lemma create_entry_effect:
  assumes "names_ok m" "room m"
  obtains h where "create_entry n m = Some (m\<lparr>macros := h\<rparr>)"
    "ohash_ok (\<lambda>e. e) h" "abs_ohash (\<lambda>e. e) h = (abs_ohash (\<lambda>e. e) (macros m))(n \<mapsto> n)"
proof -
  have ok: "ohash_ok (\<lambda>e. e) (macros m)" using assms by (simp add: names_ok_def)
  obtain i h where h: "ohash_qlookup (\<lambda>e. e) (macros m) n = Some (i, h)" "ohash_ok (\<lambda>e. e) h"
    "abs_ohash (\<lambda>e. e) h = abs_ohash (\<lambda>e. e) (macros m)" "ohash_find h i = abs_ohash (\<lambda>e. e) (macros m) n"
    using oh.lookup_law [OF ok, of n] by blast
  show thesis
  proof (cases "abs_ohash (\<lambda>e. e) (macros m) n")
    case None
    then have "nodes m n = new_node" using assms(1) by (simp add: names_ok_def)
    then have same: "m\<lparr>macros := g, nodes := (nodes m)(n := new_node)\<rparr> = m\<lparr>macros := g\<rparr>" for g by (simp add: fun_upd_idem)
    obtain g where g: "ohash_insert True h i n = Some g" "ohash_ok (\<lambda>e. e) g"
      "abs_ohash (\<lambda>e. e) g = (abs_ohash (\<lambda>e. e) (macros m))(n \<mapsto> n)"
      using oh.insert_law [OF ok, of n i h] assms(2) h(1) None by (auto simp: room_def)
    show thesis
      by (rule that [OF _ g(2,3)]) (use h(1,4) g(1) None same in \<open>simp add: create_entry_def\<close>)
  next
    case (Some x)
    then have "x = n" using abs_same [OF ok] by blast
    then have "abs_ohash (\<lambda>e. e) h = (abs_ohash (\<lambda>e. e) (macros m))(n \<mapsto> n)" using Some h(3) by (simp add: fun_upd_idem)
    then show thesis using h(1,2,4) Some by (intro that [of h]) (simp_all add: create_entry_def)
  qed
qed

section \<open>New definitions\<close>

text \<open>The stack of a name's definitions as texts and types, and the types of the built-in macros.\<close>

definition view :: "m4 \<Rightarrow> c_string \<Rightarrow> (c_string \<times> u32) list" where
  "view m n = map (\<lambda>r. (str_of (defn r), mtype r)) (d (nodes m n))"

definition btype :: "m4 \<Rightarrow> c_string \<Rightarrow> u32" where
  "btype m n = builtin_type (nodes m n)"

definition new_def :: "(c_string \<Rightarrow> u32) \<Rightarrow> c_string \<Rightarrow> c_string \<Rightarrow> c_string \<times> u32" where
  "new_def bt name df =
     (let rest = drop (length BUILTIN_MARKER) df;
          (t, ty) = (if take (length BUILTIN_MARKER) df = BUILTIN_MARKER \<and> bt rest \<noteq> MACROTYPE
                     then (rest, bt rest) else (df, MACROTYPE))
      in (t, if name = df then ty OR RECDEF else ty))"

lemma plain_effect:
  obtains r k where "plain_definition df m = (r, m\<lparr>brk := brk m + k\<rparr>)" "str_of (defn r) = df" "mtype r = MACROTYPE"
    "defn r = Null_str \<and> k = 0 \<or> (\<exists>t. defn r = Dup (brk m) t) \<and> k = 1"
proof (cases "df = []")
  case True
  then show thesis by (intro that [of "\<lparr>defn = Null_str, mtype = MACROTYPE\<rparr>" 0]) (simp_all add: plain_definition_def)
next
  case False
  then show thesis
    by (intro that [of "\<lparr>defn = Dup (brk m) df, mtype = MACROTYPE\<rparr>" 1]) (simp_all add: plain_definition_def xstrdup_def)
qed

lemma setup_definition_effect:
  assumes "names_ok m"
  obtains r h k where "setup_definition df name m = Some (r, m\<lparr>macros := h, brk := brk m + k\<rparr>)"
    "ohash_ok (\<lambda>e. e) h" "abs_ohash (\<lambda>e. e) h = abs_ohash (\<lambda>e. e) (macros m)"
    "(str_of (defn r), mtype r) = new_def (btype m) name df"
    "defn r = Null_str \<and> k = 0 \<or> (\<exists>t. defn r = Dup (brk m) t) \<and> k = 1"
proof -
  let ?rest = "drop (length BUILTIN_MARKER) df" and ?marked = "take (length BUILTIN_MARKER) df = BUILTIN_MARKER"
  define mark :: "macro_definition \<Rightarrow> macro_definition" where
    "mark = (\<lambda>r. if name = df then r\<lparr>mtype := mtype r OR RECDEF\<rparr> else r)"
  have ok: "ohash_ok (\<lambda>e. e) (macros m)" using assms by (simp add: names_ok_def)
  obtain h where h: "lookup ?rest m = Some (if known m ?rest then Some ?rest else None, m\<lparr>macros := h\<rparr>)"
    "ohash_ok (\<lambda>e. e) h" "abs_ohash (\<lambda>e. e) h = abs_ohash (\<lambda>e. e) (macros m)"
    using lookup_effect [OF assms] .
  have bt: "btype m ?rest = MACROTYPE" if "\<not> known m ?rest"
    using that assms by (simp add: names_ok_def btype_def new_node_def)
  have g: "macro_getbuiltin ?rest m = Some (if btype m ?rest \<noteq> MACROTYPE then Some ?rest else None, m\<lparr>macros := h\<rparr>)"
    using h(1) bt by (auto simp: macro_getbuiltin_def btype_def)
  show thesis
  proof (cases "?marked \<and> btype m ?rest \<noteq> MACROTYPE")
    case True
    let ?r = "mark \<lparr>defn = Dup (brk m) ?rest, mtype = btype m ?rest\<rparr>"
    show thesis
      using True g h(2,3)
      by (intro that [of ?r 1 h]) (simp_all add: setup_definition_def xstrdup_def new_def_def Let_def btype_def mark_def)
  next
    case False
    define h' where "h' = (if ?marked then h else macros m)"
    obtain r k where r: "plain_definition df (m\<lparr>macros := h'\<rparr>) = (r, m\<lparr>macros := h', brk := brk m + k\<rparr>)"
      "str_of (defn r) = df" "mtype r = MACROTYPE" "defn r = Null_str \<and> k = 0 \<or> (\<exists>t. defn r = Dup (brk m) t) \<and> k = 1"
      using plain_effect [of df "m\<lparr>macros := h'\<rparr>"] by auto
    have "setup_definition df name m = Some (mark r, m\<lparr>macros := h', brk := brk m + k\<rparr>)"
      using False g r(1) by (cases ?marked) (simp_all add: setup_definition_def mark_def h'_def)
    then show thesis
      using False h(2,3) ok r(2-4) by (intro that [of "mark r" k h']) (auto simp: h'_def mark_def new_def_def Let_def)
  qed
qed

section \<open>The operations on the table\<close>

lemma owned_set_d: "owned (set_d n ds m) = (owned m)(n := alist ds)"
  by (simp add: owned_def set_d_def fun_eq_iff)

lemma set_d_simps [simp]:
  "macros (set_d n ds m) = macros m" "kept (set_d n ds m) = kept m" "kept_capacity (set_d n ds m) = kept_capacity m"
  "calls (set_d n ds m) = calls m" "brk (set_d n ds m) = brk m" "freed (set_d n ds m) = freed m"
  "faults (set_d n ds m) = faults m" "mem A (set_d n ds m) = mem A m"
  "d (nodes (set_d n ds m) k) = (if k = n then ds else d (nodes m k))" "btype (set_d n ds m) = btype m"
  by (simp_all add: set_d_def mem_def btype_def fun_eq_iff)

lemma view_set_d: "view (set_d n ds m) = (view m)(n := map (\<lambda>r. (str_of (defn r), mtype r)) ds)"
  by (simp add: view_def fun_eq_iff)

text \<open>A new definition owns the string that was allocated for it.\<close>

lemma mem_install:
  assumes "mem A m" and r: "defn r = Null_str \<and> k = 0 \<or> (\<exists>t. defn r = Dup (brk m) t) \<and> k = 1" and "A n = alist ds"
  shows "mem (A(n := alist (r # ds))) (m\<lparr>macros := h, brk := brk m + k\<rparr>)"
  using r
proof (elim disjE conjE exE)
  fix t assume "defn r = Dup (brk m) t" "k = 1"
  then show ?thesis using assms(1,3) heap_ok_new [of "brk m" "set (freed m)" A "map kaddr (kept m)" n] by (simp add: mem_def)
next
  assume "defn r = Null_str" "k = 0"
  then show ?thesis using assms(1,3) fun_upd_triv [of A n] by (simp add: mem_def)
qed

text \<open>What both ways of defining a macro end with.\<close>

lemma install_effect:
  assumes m: "names_ok m" and h1: "ohash_ok (\<lambda>e. e) (macros m1)" "abs_ohash (\<lambda>e. e) (macros m1) = (abs_ohash (\<lambda>e. e) (macros m))(n \<mapsto> n)"
    and m1: "nodes m1 = nodes m" "mem ((owned m)(n := alist ds)) m1"
  obtains m' r where "map_option (\<lambda>(r, m). set_d n (r # ds) m) (setup_definition df n m1) = Some m'"
    "m4_ok m'" "view m' = (view m)(n := new_def (btype m) n df # map (\<lambda>r. (str_of (defn r), mtype r)) ds)"
    "btype m' = btype m" "calls m' = calls m1" "freed m' = freed m1"
    "abs_ohash (\<lambda>e. e) (macros m') = (abs_ohash (\<lambda>e. e) (macros m))(n \<mapsto> n)"
proof -
  have bt: "btype m1 = btype m" using m1(1) by (simp add: btype_def fun_eq_iff)
  have ow: "owned m1 = owned m" "view m1 = view m" using m1(1) by (simp_all add: owned_def view_def fun_eq_iff)
  have ok1: "names_ok m1" unfolding names_ok_def h1(2) m1(1) using m h1(1) by (simp add: names_ok_def)
  obtain r h k where s: "setup_definition df n m1 = Some (r, m1\<lparr>macros := h, brk := brk m1 + k\<rparr>)"
    "ohash_ok (\<lambda>e. e) h" "abs_ohash (\<lambda>e. e) h = abs_ohash (\<lambda>e. e) (macros m1)"
    "(str_of (defn r), mtype r) = new_def (btype m1) n df"
    "defn r = Null_str \<and> k = 0 \<or> (\<exists>t. defn r = Dup (brk m1) t) \<and> k = 1"
    by (rule setup_definition_effect [OF ok1, of df n])
  let ?m = "m1\<lparr>macros := h, brk := brk m1 + k\<rparr>"
  have nd: "nodes ?m = nodes m" by (simp add: m1(1))
  have o2: "owned ?m = owned m" "view ?m = view m" "btype ?m = btype m"
    by (simp_all add: owned_def view_def btype_def fun_eq_iff m1(1))
  have "mem ((owned m)(n := alist (r # ds))) ?m"
    using mem_install [OF m1(2) s(5), of n ds h] by simp
  moreover have "names_ok (set_d n (r # ds) ?m)"
    using m s(2) by (simp add: names_ok_def s(3) h1(2) m1(1) set_d_def)
  ultimately have ok: "m4_ok (set_d n (r # ds) ?m)" by (simp add: m4_ok_def owned_set_d o2 del: alist_simps)
  show thesis
  proof (rule that [of "set_d n (r # ds) ?m"])
    show "map_option (\<lambda>(r, m). set_d n (r # ds) m) (setup_definition df n m1) = Some (set_d n (r # ds) ?m)"
      by (simp add: s(1))
    show "view (set_d n (r # ds) ?m) = (view m)(n := new_def (btype m) n df # map (\<lambda>r. (str_of (defn r), mtype r)) ds)"
      unfolding view_set_d o2 using s(4) bt by simp
  qed (use ok s(3) h1(2) o2 in simp_all)
qed

lemma create_entry_ok:
  assumes "m4_ok m" "room m"
  obtains m1 where "create_entry n m = Some m1" "m1 = m\<lparr>macros := macros m1\<rparr>" "ohash_ok (\<lambda>e. e) (macros m1)"
    "abs_ohash (\<lambda>e. e) (macros m1) = (abs_ohash (\<lambda>e. e) (macros m))(n \<mapsto> n)" "mem (owned m) m1" "nodes m1 = nodes m"
proof -
  have "names_ok m" using assms(1) by (simp add: m4_ok_def)
  then obtain h where "create_entry n m = Some (m\<lparr>macros := h\<rparr>)" "ohash_ok (\<lambda>e. e) h"
    "abs_ohash (\<lambda>e. e) h = (abs_ohash (\<lambda>e. e) (macros m))(n \<mapsto> n)" using create_entry_effect assms(2) by blast
  then show thesis using assms(1) by (intro that [of "m\<lparr>macros := h\<rparr>"]) (simp_all add: m4_ok_def)
qed

lemma define_effect:
  assumes "m4_ok m" "room m"
  obtains m' where "macro_define n df m = Some m'" "m4_ok m'"
    "view m' = (view m)(n := new_def (btype m) n df # tl (view m n))" "btype m' = btype m" "calls m' = calls m"
    "\<And>x. x \<in> in_use m \<Longrightarrow> x \<notin> set (freed m) \<Longrightarrow> x \<notin> set (freed m')"
proof -
  obtain m1 where m1: "create_entry n m = Some m1" "m1 = m\<lparr>macros := macros m1\<rparr>" "ohash_ok (\<lambda>e. e) (macros m1)"
    "abs_ohash (\<lambda>e. e) (macros m1) = (abs_ohash (\<lambda>e. e) (macros m))(n \<mapsto> n)" "mem (owned m) m1" "nodes m1 = nodes m"
    using create_entry_ok [OF assms] .
  let ?ds = "d (nodes m n)"
  define m2 where "m2 = (case ?ds of [] \<Rightarrow> m1 | r # rs \<Rightarrow> if defn r \<noteq> Null_str then free_definition (defn r) m1 else m1)"
  have base: "freed m1 = freed m" "calls m1 = calls m" "in_use m1 = in_use m"
    by (subst m1(2), simp add: in_use_def)+
  have m2: "core m1 m2" "mem ((owned m)(n := alist (tl ?ds))) m2" "\<And>x. x \<in> in_use m \<Longrightarrow> x \<notin> set (freed m) \<Longrightarrow> x \<notin> set (freed m2)"
  proof -
    have "core m1 m2 \<and> mem ((owned m)(n := alist (tl ?ds))) m2 \<and> (\<forall>x. x \<in> in_use m \<longrightarrow> x \<notin> set (freed m) \<longrightarrow> x \<notin> set (freed m2))"
    proof (cases ?ds)
      case Nil
      then have "(owned m)(n := alist (tl ?ds)) = owned m" by (auto simp: owned_def fun_eq_iff)
      then show ?thesis using Nil m1(5) base by (simp add: m2_def core_refl)
    next
      case (Cons r rs)
      show ?thesis
      proof (cases "defn r")
        case Null_str
        then have "(owned m)(n := alist (tl ?ds)) = owned m" using Cons by (auto simp: owned_def fun_eq_iff)
        then show ?thesis using Cons Null_str m1(5) base by (simp add: m2_def core_refl)
      next
        case (Dup a s)
        have A: "owned m n = [] @ a # alist rs" using Cons Dup by (simp add: owned_def)
        note rel = heap_ok_release [where A = "owned m" and n = n, OF _ A, of "brk m1" "set (freed m1)" "map kaddr (kept m1)"]
        have hm: "heap_ok (brk m1) (set (freed m1)) (owned m) (map kaddr (kept m1))" using m1(5) by (simp add: mem_def)
        have mm: "mem ((owned m)(n := alist rs)) m1" using rel(1) [OF hm] m1(5) by (simp add: mem_def)
        have "loose a (brk m1) (set (freed m1)) ((owned m)(n := alist rs)) (map kaddr (kept m1))" using rel(2) [OF hm] by simp
        note f = free_definition_effect [OF mm this, of s]
        show ?thesis using f Cons Dup base by (simp add: m2_def)
      qed
    qed
    then show "core m1 m2" "mem ((owned m)(n := alist (tl ?ds))) m2" "\<And>x. x \<in> in_use m \<Longrightarrow> x \<notin> set (freed m) \<Longrightarrow> x \<notin> set (freed m2)"
      by blast+
  qed
  have c: "macros m2 = macros m1" "nodes m2 = nodes m" "calls m2 = calls m"
    using m2(1) m1(6) base by (simp_all add: core_def)
  obtain m' where m': "map_option (\<lambda>(r, m). set_d n (r # tl ?ds) m) (setup_definition df n m2) = Some m'"
    "m4_ok m'" "view m' = (view m)(n := new_def (btype m) n df # map (\<lambda>r. (str_of (defn r), mtype r)) (tl ?ds))"
    "btype m' = btype m" "calls m' = calls m2" "freed m' = freed m2"
  proof (rule install_effect [of m m2 n "tl ?ds" df])
    show "names_ok m" using assms(1) by (simp add: m4_ok_def)
  qed (use m1(3,4) c m2(2) in simp_all)
  have "macro_define n df m = Some m'"
    using m'(1) by (simp add: macro_define_def m1(1,6) m2_def [symmetric] Let_def)
  then show thesis
    using m' c(3) m2(3) by (intro that [of m']) (simp_all add: view_def map_tl)
qed

lemma pushdef_effect:
  assumes "m4_ok m" "room m"
  obtains m' where "macro_pushdef n df m = Some m'" "m4_ok m'"
    "view m' = (view m)(n := new_def (btype m) n df # view m n)" "btype m' = btype m" "calls m' = calls m" "freed m' = freed m"
proof -
  obtain m1 where m1: "create_entry n m = Some m1" "m1 = m\<lparr>macros := macros m1\<rparr>" "ohash_ok (\<lambda>e. e) (macros m1)"
    "abs_ohash (\<lambda>e. e) (macros m1) = (abs_ohash (\<lambda>e. e) (macros m))(n \<mapsto> n)" "mem (owned m) m1" "nodes m1 = nodes m"
    using create_entry_ok [OF assms] .
  have base: "freed m1 = freed m" "calls m1 = calls m" by (subst m1(2), simp)+
  let ?ds = "d (nodes m n)"
  have own: "(owned m)(n := alist ?ds) = owned m" by (simp add: owned_def fun_eq_iff)
  obtain m' where m': "map_option (\<lambda>(r, m). set_d n (r # ?ds) m) (setup_definition df n m1) = Some m'"
    "m4_ok m'" "view m' = (view m)(n := new_def (btype m) n df # map (\<lambda>r. (str_of (defn r), mtype r)) ?ds)"
    "btype m' = btype m" "calls m' = calls m1" "freed m' = freed m1"
  proof (rule install_effect [of m m1 n ?ds df])
    show "names_ok m" using assms(1) by (simp add: m4_ok_def)
  qed (use m1(3-6) own in simp_all)
  have "macro_pushdef n df m = Some m'"
    using m'(1) by (simp add: macro_pushdef_def m1(1,6))
  then show thesis using m' base by (intro that [of m']) (simp_all add: view_def)
qed

lemma free_defn_effect:
  assumes "mem (A(n := alist (r # ds))) m"
  shows "mem (A(n := alist ds)) (free_defn r m) \<and> core m (free_defn r m) \<and>
    set (freed (free_defn r m)) = set (freed m) \<union> set (alist [r])"
proof (cases "defn r")
  case Null_str
  then show ?thesis using assms by (simp add: free_defn_def core_refl)
next
  case (Dup a s)
  have A: "(A(n := alist (r # ds))) n = [] @ a # alist ds" using Dup by simp
  have h: "heap_ok (brk m) (set (freed m)) (A(n := alist (r # ds))) (map kaddr (kept m))" using assms by (simp add: mem_def)
  note rel = heap_ok_release [OF h A, unfolded fun_upd_upd append_Nil]
  have "mem (A(n := alist ds)) m" using rel(1) assms by (simp add: mem_def)
  moreover have "loose a (brk m) (set (freed m)) (A(n := alist ds)) (map kaddr (kept m))" using rel(2) by simp
  ultimately show ?thesis using free_str_effect [of "A(n := alist ds)" m a s] Dup by (simp add: free_defn_def)
qed

lemma fold_free_effect:
  "mem (A(n := alist ds)) m \<Longrightarrow> mem (A(n := [])) (fold free_defn ds m) \<and> core m (fold free_defn ds m) \<and>
    set (freed (fold free_defn ds m)) = set (freed m) \<union> set (alist ds)"
proof (induction ds arbitrary: m)
  case (Cons r ds)
  note f = free_defn_effect [OF Cons.prems]
  then have "mem (A(n := alist ds)) (free_defn r m)" by blast
  from Cons.IH [OF this] have IH: "mem (A(n := [])) (fold free_defn ds (free_defn r m))"
    "core (free_defn r m) (fold free_defn ds (free_defn r m))"
    "set (freed (fold free_defn ds (free_defn r m))) = set (freed (free_defn r m)) \<union> set (alist ds)" by blast+
  have c: "core m (fold free_defn ds (free_defn r m))" using core_trans f IH(2) by blast
  have "set (freed (fold free_defn ds (free_defn r m))) = set (freed m) \<union> set (alist (r # ds))"
    unfolding IH(3) using f by (auto split: dptr.splits)
  then show ?case unfolding fold_Cons o_apply using IH(1) c by blast
qed (simp add: core_refl)

lemma owned_self: "(owned m)(n := alist (d (nodes m n))) = owned m"
  by (simp add: owned_def fun_eq_iff)

text \<open>Looking up changes nothing but the layout of the table.\<close>

lemma lookup_ok:
  assumes "m4_ok m"
  obtains m1 where "lookup n m = Some (if known m n then Some n else None, m1)" "m4_ok m1" "m1 = m\<lparr>macros := macros m1\<rparr>"
    "abs_ohash (\<lambda>e. e) (macros m1) = abs_ohash (\<lambda>e. e) (macros m)"
proof -
  have "names_ok m" using assms by (simp add: m4_ok_def)
  then obtain h where h: "lookup n m = Some (if known m n then Some n else None, m\<lparr>macros := h\<rparr>)"
    "ohash_ok (\<lambda>e. e) h" "abs_ohash (\<lambda>e. e) h = abs_ohash (\<lambda>e. e) (macros m)" by (rule lookup_effect)
  have "m4_ok (m\<lparr>macros := h\<rparr>)" using assms h(2,3) by (simp add: m4_ok_def names_ok_def)
  then show thesis using h by (intro that [of "m\<lparr>macros := h\<rparr>"]) simp_all
qed

lemma macros_only:
  assumes "m1 = m\<lparr>macros := macros m1\<rparr>"
  shows "nodes m1 = nodes m" "freed m1 = freed m" "calls m1 = calls m" "view m1 = view m" "btype m1 = btype m"
  by (subst assms, simp add: view_def btype_def fun_eq_iff)+

lemma unknown_view: "m4_ok m \<Longrightarrow> \<not> known m n \<Longrightarrow> d (nodes m n) = []"
  by (auto simp: m4_ok_def names_ok_def new_node_def)

lemma core_view: "core m m' \<Longrightarrow> view m' = view m \<and> btype m' = btype m \<and> nodes m' = nodes m"
  by (simp add: core_def view_def btype_def fun_eq_iff)

text \<open>What removes definitions of a known name.\<close>

lemma m4_ok_removed:
  assumes "m4_ok m1" "core m1 m2" "mem ((owned m1)(n := alist ds)) m2" "known m1 n"
  shows "m4_ok (set_d n ds m2)"
proof -
  have c: "macros m2 = macros m1" "nodes m2 = nodes m1" using assms(2) by (simp_all add: core_def)
  have "owned m2 = owned m1" using c(2) by (simp add: owned_def fun_eq_iff)
  moreover have "names_ok (set_d n ds m2)"
    using assms(1,4) c by (auto simp: m4_ok_def names_ok_def set_d_def)
  ultimately show ?thesis using assms(3) by (simp add: m4_ok_def owned_set_d)
qed

lemma undefine_effect:
  assumes "m4_ok m"
  obtains m' where "macro_undefine n m = Some m'" "m4_ok m'" "view m' = (view m)(n := [])" "btype m' = btype m"
    "calls m' = calls m" "set (freed m') = set (freed m) \<union> set (owned m n)"
proof -
  obtain m1 where m1: "lookup n m = Some (if known m n then Some n else None, m1)" "m4_ok m1" "m1 = m\<lparr>macros := macros m1\<rparr>"
    "abs_ohash (\<lambda>e. e) (macros m1) = abs_ohash (\<lambda>e. e) (macros m)"
    using lookup_ok [OF assms] .
  note mo = macros_only [OF m1(3)]
  show thesis
  proof (cases "known m n")
    case False
    note u = unknown_view [OF assms False]
    have "view m = (view m)(n := [])" using u by (simp add: view_def fun_eq_iff)
    moreover have "macro_undefine n m = Some m1" using m1(1) False by (simp add: macro_undefine_def)
    ultimately show thesis using that [of m1] m1(2) mo u by (simp add: owned_def)
  next
    case True
    let ?ds = "d (nodes m n)" and ?m2 = "fold free_defn (d (nodes m n)) m1"
    have "mem ((owned m1)(n := alist ?ds)) m1" using m1(2) owned_self [of m1 n] mo(1) by (simp add: m4_ok_def)
    from fold_free_effect [OF this] have f: "mem ((owned m1)(n := [])) ?m2" "core m1 ?m2"
      "set (freed ?m2) = set (freed m1) \<union> set (alist ?ds)" by blast+
    have "m4_ok (set_d n [] ?m2)" using m4_ok_removed [OF m1(2) f(2), of n "[]"] f(1) True m1(4) by simp
    moreover have "macro_undefine n m = Some (set_d n [] ?m2)"
      using m1(1) True by (simp add: macro_undefine_def mo(1))
    ultimately show thesis
      using that [of "set_d n [] ?m2"] core_view [OF f(2)] f(2,3) mo
      by (simp add: view_set_d owned_def core_def)
  qed
qed

lemma popdef_effect:
  assumes "m4_ok m"
  obtains m' where "macro_popdef n m = Some m'" "m4_ok m'" "view m' = (view m)(n := tl (view m n))" "btype m' = btype m"
    "calls m' = calls m" "set (freed m') = set (freed m) \<union> set (alist (take 1 (d (nodes m n))))"
proof -
  obtain m1 where m1: "lookup n m = Some (if known m n then Some n else None, m1)" "m4_ok m1" "m1 = m\<lparr>macros := macros m1\<rparr>"
    "abs_ohash (\<lambda>e. e) (macros m1) = abs_ohash (\<lambda>e. e) (macros m)"
    using lookup_ok [OF assms] .
  note mo = macros_only [OF m1(3)]
  show thesis
  proof (cases "d (nodes m n)")
    case Nil
    have "view m = (view m)(n := tl (view m n))" using Nil by (simp add: view_def fun_eq_iff)
    moreover have "macro_popdef n m = Some m1" using m1(1) Nil by (simp add: macro_popdef_def mo(1))
    ultimately show thesis using that [of m1] m1(2) mo Nil by simp
  next
    case (Cons r rs)
    then have k: "known m n" using unknown_view [OF assms, of n] by auto
    have "mem ((owned m1)(n := alist (r # rs))) m1" using m1(2) owned_self [of m1 n] mo(1) Cons by (simp add: m4_ok_def del: alist_simps)
    from free_defn_effect [OF this] have f: "mem ((owned m1)(n := alist rs)) (free_defn r m1)" "core m1 (free_defn r m1)"
      "set (freed (free_defn r m1)) = set (freed m1) \<union> set (alist [r])" by blast+
    have swap: "free_defn r (set_d n rs m1) = set_d n rs (free_defn r m1)"
      by (cases "defn r") (simp_all add: free_defn_def free_str_def set_d_def)
    have "m4_ok (set_d n rs (free_defn r m1))" using m4_ok_removed [OF m1(2) f(2,1)] k m1(4) by simp
    moreover have "macro_popdef n m = Some (set_d n rs (free_defn r m1))"
      using m1(1) Cons k by (simp add: macro_popdef_def mo(1) swap)
    ultimately show thesis
      using that [of "set_d n rs (free_defn r m1)"] core_view [OF f(2)] f(2,3) mo Cons
      by (simp add: view_set_d core_def) (simp add: view_def)
  qed
qed

section \<open>Walking through the table\<close>

lemma walk_elist: "length (oh_t h) = oh_size h \<Longrightarrow> walk h pos = elist (drop pos (oh_t h))"
proof (induction h pos rule: walk.induct)
  case (1 h pos)
  obtain e p where e: "ohash_next h pos = (e, p)" by fastforce
  then show ?case
    using 1 next_ok [OF 1(2), of pos] by (cases e) (simp_all add: walk.simps [of h pos])
qed

lemma walk_names:
  assumes "ohash_ok (\<lambda>e. e) h"
  shows "distinct (walk h 0)" "set (walk h 0) = {n. abs_ohash (\<lambda>e. e) h n \<noteq> None}"
proof -
  have t: "table_ok (\<lambda>e. e) ohash_interval (oh_t h)" "length (oh_t h) = oh_size h"
    using assms by (auto simp: ohash_ok_def counts_ok_def)
  have w: "walk h 0 = elist (oh_t h)" using walk_elist [OF t(2), of 0] by simp
  have "distinct (map (\<lambda>e. e) (elist (oh_t h)))" using t(1) by (intro distinct_elist) (auto simp: table_ok_def)
  then show "distinct (walk h 0)" by (simp add: w)
  show "set (walk h 0) = {n. abs_ohash (\<lambda>e. e) h n \<noteq> None}"
    unfolding w abs_ohash_def using abs_table_Some [OF t(1)] set_elist [of _ "oh_t h"] by auto
qed

lemma for_all_effect:
  assumes "m4_ok m"
  obtains ns where "distinct ns" "set ns = {n. view m n \<noteq> []}"
    "macro_for_all f m s = fold (\<lambda>n s. f n (hd (d (nodes m n))) s) ns s"
proof -
  let ?w = "walk (macros m) 0" and ?ns = "filter (\<lambda>n. d (nodes m n) \<noteq> []) (walk (macros m) 0)"
  note w = walk_names [of "macros m"]
  have ok: "ohash_ok (\<lambda>e. e) (macros m)" using assms by (simp add: m4_ok_def names_ok_def)
  have "fold (\<lambda>n s. case d (nodes m n) of [] \<Rightarrow> s | r # rs \<Rightarrow> f n r s) xs s =
      fold (\<lambda>n s. f n (hd (d (nodes m n))) s) (filter (\<lambda>n. d (nodes m n) \<noteq> []) xs) s" for xs s
    by (induction xs arbitrary: s) (auto split: list.split)
  then have "macro_for_all f m s = fold (\<lambda>n s. f n (hd (d (nodes m n))) s) ?ns s" by (simp add: macro_for_all_def)
  moreover have "set ?ns = {n. view m n \<noteq> []}" using w(2) [OF ok] unknown_view [OF assms] by (auto simp: view_def)
  ultimately show thesis using w(1) [OF ok] by (intro that [of ?ns]) simp_all
qed

section \<open>Built-in macros and tracing\<close>

lemma heap_ok_mono: "heap_ok b f A K \<Longrightarrow> heap_ok (b + 1) f A K"
  unfolding heap_ok_def by (meson Diff_mono lessThan_subset_iff le_add1 order.refl subset_trans)

lemma builtin_effect:
  assumes "m4_ok m" "room m" "view m nm = []" "nm = (if prefix_builtins m then bytes ''m4_'' @ name else name)"
  obtains m' where "setup_builtin name ty m = Some m'" "m4_ok m'" "view m' = (view m)(nm := [(nm, ty)])"
    "btype m' = (btype m)(nm := ty)" "calls m' = calls m" "freed m' = freed m"
proof -
  let ?m0 = "m\<lparr>brk := brk m + 1\<rparr>"
  have none: "owned m nm = []" using assms(3) by (simp add: view_def owned_def)
  have mem: "mem (owned m) m" "names_ok m" using assms(1) by (simp_all add: m4_ok_def)
  have "names_ok ?m0" "room ?m0" using mem(2) assms(2) by (simp_all add: names_ok_def room_def)
  then obtain h where h: "create_entry nm ?m0 = Some (?m0\<lparr>macros := h\<rparr>)" "ohash_ok (\<lambda>e. e) h"
    "abs_ohash (\<lambda>e. e) h = (abs_ohash (\<lambda>e. e) (macros ?m0))(nm \<mapsto> nm)"
    by (rule create_entry_effect [of ?m0 nm])
  let ?nd = "(nodes m nm)\<lparr>builtin_type := ty, d := [\<lparr>defn = Dup (brk m) nm, mtype = ty\<rparr>]\<rparr>"
  let ?m = "?m0\<lparr>macros := h, nodes := (nodes m)(nm := ?nd)\<rparr>"
  have "names_ok ?m" using mem(2) h(2) by (simp add: names_ok_def h(3))
  moreover have "mem (owned ?m) ?m"
  proof -
    have "owned ?m = (owned m)(nm := brk m # owned m nm)" by (simp add: owned_def fun_eq_iff none [unfolded owned_def])
    then show ?thesis using mem(1) heap_ok_new [of "brk m" "set (freed m)" "owned m" "map kaddr (kept m)" nm] by (simp add: mem_def)
  qed
  moreover have "setup_builtin name ty m = Some ?m"
    using h(1) by (simp add: setup_builtin_def xstrdup_def assms(4) [symmetric])
  ultimately show thesis
    by (intro that [of ?m]) (simp_all add: m4_ok_def view_def btype_def fun_eq_iff)
qed

lemma fold_trace: "fold (\<lambda>n ns. ns(n := (ns n)\<lparr>nd_trace := F\<rparr>)) xs N k = (if k \<in> set xs then (N k)\<lparr>nd_trace := F\<rparr> else N k)"
  by (induction xs arbitrary: N) auto

lemma retrace_ok:
  assumes "names_ok m1" "mem (owned m) m1" "\<And>k. d (N k) = d (nodes m k)" "\<And>k. builtin_type (N k) = builtin_type (nodes m k)"
    "\<And>k. \<not> known m1 k \<Longrightarrow> N k = new_node"
  shows "m4_ok (m1\<lparr>trace_flags := t, nodes := N\<rparr>)" "view (m1\<lparr>trace_flags := t, nodes := N\<rparr>) = view m"
    "btype (m1\<lparr>trace_flags := t, nodes := N\<rparr>) = btype m"
proof -
  have "owned (m1\<lparr>trace_flags := t, nodes := N\<rparr>) = owned m" using assms(3) by (simp add: owned_def fun_eq_iff)
  then show "m4_ok (m1\<lparr>trace_flags := t, nodes := N\<rparr>)" using assms(1,2,5) by (simp add: m4_ok_def names_ok_def mem_def)
qed (simp_all add: view_def btype_def fun_eq_iff assms(3,4))

lemma trace_effect:
  assumes "m4_ok m" "room m"
  obtains m' where "mark_traced name on m = Some m'" "m4_ok m'" "view m' = view m" "btype m' = btype m" "calls m' = calls m"
    "freed m' = freed m"
proof (cases name)
  case None
  let ?N = "fold (\<lambda>n ns. ns(n := (ns n)\<lparr>nd_trace := FLAG_NO_TRACE\<rparr>)) (walk (macros m) 0) (nodes m)"
  let ?t = "if on \<noteq> 0 then trace_flags m OR TRACE_ALL else trace_flags m AND NOT TRACE_ALL"
  have ok: "ohash_ok (\<lambda>e. e) (macros m)" "names_ok m" "mem (owned m) m" using assms by (simp_all add: m4_ok_def names_ok_def)
  have "?N k = new_node" if "\<not> known m k" for k
    using that ok(2) walk_names(2) [OF ok(1)] by (simp add: fold_trace names_ok_def)
  then have r: "m4_ok (m\<lparr>trace_flags := ?t, nodes := ?N\<rparr>)" "view (m\<lparr>trace_flags := ?t, nodes := ?N\<rparr>) = view m"
    "btype (m\<lparr>trace_flags := ?t, nodes := ?N\<rparr>) = btype m"
    using retrace_ok [OF ok(2,3), of ?N] by (simp_all add: fold_trace)
  show thesis by (rule that [OF _ r]) (use None in \<open>simp_all add: mark_traced_def\<close>)
next
  case (Some n)
  obtain m1 where m1: "create_entry n m = Some m1" "m1 = m\<lparr>macros := macros m1\<rparr>" "ohash_ok (\<lambda>e. e) (macros m1)"
    "abs_ohash (\<lambda>e. e) (macros m1) = (abs_ohash (\<lambda>e. e) (macros m))(n \<mapsto> n)" "mem (owned m) m1" "nodes m1 = nodes m"
    using create_entry_ok [OF assms] .
  note mo = macros_only [OF m1(2)]
  let ?N = "(nodes m)(n := (nodes m n)\<lparr>nd_trace := on\<rparr>)"
  have nm: "names_ok m1" unfolding names_ok_def m1(4,6) using m1(3) assms(1) by (simp add: m4_ok_def names_ok_def)
  have same: "d (?N k) = d (nodes m k)" "builtin_type (?N k) = builtin_type (nodes m k)" for k by simp_all
  have "?N k = new_node" if "\<not> known m1 k" for k
    using that nm m1(6) by (auto simp: m1(4) names_ok_def split: if_splits)
  then have r: "m4_ok (m1\<lparr>trace_flags := trace_flags m1, nodes := ?N\<rparr>)" "view (m1\<lparr>trace_flags := trace_flags m1, nodes := ?N\<rparr>) = view m"
    "btype (m1\<lparr>trace_flags := trace_flags m1, nodes := ?N\<rparr>) = btype m"
    using retrace_ok [OF nm m1(5) same] by blast+
  show thesis by (rule that [OF _ r]) (use Some m1(1,6) mo in \<open>simp_all add: mark_traced_def\<close>)
qed

section \<open>The table as a map from names to stacks\<close>

lemma init_m4_ok: "m4_ok init_macros" "room init_macros"
proof -
  have m: "macros init_macros = ohash_init 10" "nodes init_macros n = new_node" for n by (simp_all add: init_macros_def)
  have "names_ok init_macros" using init_ok(1) [of 10] by (simp add: names_ok_def m)
  moreover have "owned init_macros n = []" for n by (simp add: owned_def m new_node_def)
  ultimately show "m4_ok init_macros" by (simp add: m4_ok_def mem_def heap_ok_def) (simp add: init_macros_def)
  show "room init_macros" by (simp add: room_def m ohash_init_def Let_def u32_of_def MINSIZE_def)
qed

lemma create_entry_size:
  assumes "names_ok m" "room m" "create_entry n m = Some m1"
  shows "oh_size (macros m1) \<le> 2 * oh_size (macros m)"
proof -
  have ok: "ohash_ok (\<lambda>e. e) (macros m)" using assms(1) by (simp add: names_ok_def)
  obtain i h where h: "ohash_qlookup (\<lambda>e. e) (macros m) n = Some (i, h)" "ohash_ok (\<lambda>e. e) h" "oh_size h = oh_size (macros m)"
    "lookup_result (\<lambda>e. e) ohash_interval (oh_t h) n i (oh_t h)"
    using qlookup_ok [OF ok, of n] by blast
  show ?thesis
  proof (cases "ohash_find h i")
    case None
    then obtain g where "ohash_insert True h i n = Some g" "oh_size g \<le> 2 * oh_size h"
      using insert_ok [OF h(2,4) None, of n] h(3) assms(2) by (auto simp: room_def)
    then show ?thesis using assms(3) None h(1,3) by (auto simp: create_entry_def)
  next
    case (Some e)
    then show ?thesis using assms(3) h(1,3) by (auto simp: create_entry_def)
  qed
qed

lemma init_view: "view init_macros = (\<lambda>n. [])" "btype init_macros = (\<lambda>n. MACROTYPE)"
  by (simp_all add: fun_eq_iff view_def btype_def init_macros_def new_node_def)

lemma lookup_definition_effect:
  assumes "m4_ok m"
  shows "\<exists>r m'. lookup_macro_definition n m = Some (r, m') \<and> m4_ok m' \<and> view m' = view m \<and>
    map_option (\<lambda>r. (str_of (defn r), mtype r)) r = (if view m n = [] then None else Some (hd (view m n)))"
proof -
  obtain m1 where m1: "lookup n m = Some (if known m n then Some n else None, m1)" "m4_ok m1" "m1 = m\<lparr>macros := macros m1\<rparr>"
    "abs_ohash (\<lambda>e. e) (macros m1) = abs_ohash (\<lambda>e. e) (macros m)"
    using lookup_ok [OF assms] .
  note mo = macros_only [OF m1(3)]
  let ?r = "case d (nodes m n) of [] \<Rightarrow> None | r # rs \<Rightarrow> Some r"
  have "lookup_macro_definition n m = Some (?r, m1)"
    using m1(1) unknown_view [OF assms, of n] by (cases "known m n") (simp_all add: lookup_macro_definition_def mo(1))
  moreover have "map_option (\<lambda>r. (str_of (defn r), mtype r)) ?r = (if view m n = [] then None else Some (hd (view m n)))"
    by (simp add: view_def split: list.split)
  ultimately show ?thesis using m1(2) mo(4) by blast
qed

definition builtin_name :: "m4 \<Rightarrow> c_string \<Rightarrow> c_string" where
  "builtin_name m b = (if prefix_builtins m then bytes ''m4_'' @ b else b)"

text \<open>
  C31. A table with room for more names is a map from names to stacks of definitions: defining replaces the
  top of the stack, \<open>pushdef\<close> pushes, \<open>popdef\<close> pops, undefining empties the stack, looking up returns
  its top, a built-in starts a stack and tracing changes no definition; none of them fails,
  frees a string twice or lets two definitions share one, and walking the table visits every defined macro once.
\<close>

theorem macro_table_refines:
  assumes "m4_ok m" "room m"
  shows "(\<exists>m'. macro_define n df m = Some m' \<and> m4_ok m' \<and>
          view m' = (view m)(n := new_def (btype m) n df # tl (view m n)) \<and> btype m' = btype m) \<and>
    (\<exists>m'. macro_pushdef n df m = Some m' \<and> m4_ok m' \<and>
          view m' = (view m)(n := new_def (btype m) n df # view m n) \<and> btype m' = btype m) \<and>
    (\<exists>m'. macro_popdef n m = Some m' \<and> m4_ok m' \<and> view m' = (view m)(n := tl (view m n)) \<and> btype m' = btype m) \<and>
    (\<exists>m'. macro_undefine n m = Some m' \<and> m4_ok m' \<and> view m' = (view m)(n := []) \<and> btype m' = btype m) \<and>
    (\<exists>r m'. lookup_macro_definition n m = Some (r, m') \<and> m4_ok m' \<and> view m' = view m \<and>
          map_option (\<lambda>r. (str_of (defn r), mtype r)) r = (if view m n = [] then None else Some (hd (view m n)))) \<and>
    (\<exists>m'. mark_traced name on m = Some m' \<and> m4_ok m' \<and> view m' = view m \<and> btype m' = btype m) \<and>
    (view m (builtin_name m b) = [] \<longrightarrow>
      (\<exists>m'. setup_builtin b ty m = Some m' \<and> m4_ok m' \<and>
          view m' = (view m)(builtin_name m b := [(builtin_name m b, ty)]))) \<and>
    (\<exists>ns. distinct ns \<and> set ns = {n. view m n \<noteq> []} \<and>
          macro_for_all f m s = fold (\<lambda>n s. f n (hd (d (nodes m n))) s) ns s)"
proof (intro conjI impI)
  show "\<exists>m'. macro_define n df m = Some m' \<and> m4_ok m' \<and>
      view m' = (view m)(n := new_def (btype m) n df # tl (view m n)) \<and> btype m' = btype m"
    using define_effect [OF assms] by metis
  show "\<exists>m'. macro_pushdef n df m = Some m' \<and> m4_ok m' \<and>
      view m' = (view m)(n := new_def (btype m) n df # view m n) \<and> btype m' = btype m"
    using pushdef_effect [OF assms] by metis
  show "\<exists>m'. macro_popdef n m = Some m' \<and> m4_ok m' \<and> view m' = (view m)(n := tl (view m n)) \<and> btype m' = btype m"
    using popdef_effect [OF assms(1)] by metis
  show "\<exists>m'. macro_undefine n m = Some m' \<and> m4_ok m' \<and> view m' = (view m)(n := []) \<and> btype m' = btype m"
    using undefine_effect [OF assms(1)] by metis
  show "\<exists>r m'. lookup_macro_definition n m = Some (r, m') \<and> m4_ok m' \<and> view m' = view m \<and>
      map_option (\<lambda>r. (str_of (defn r), mtype r)) r = (if view m n = [] then None else Some (hd (view m n)))"
    by (rule lookup_definition_effect [OF assms(1)])
  show "\<exists>m'. mark_traced name on m = Some m' \<and> m4_ok m' \<and> view m' = view m \<and> btype m' = btype m"
    using trace_effect [OF assms] by metis
  show "\<exists>ns. distinct ns \<and> set ns = {n. view m n \<noteq> []} \<and>
      macro_for_all f m s = fold (\<lambda>n s. f n (hd (d (nodes m n))) s) ns s"
    by (rule for_all_effect [OF assms(1), of f s]) (rule exI, intro conjI)
next
  assume "view m (builtin_name m b) = []"
  note none = this
  obtain m' where "setup_builtin b ty m = Some m'" "m4_ok m'" "view m' = (view m)(builtin_name m b := [(builtin_name m b, ty)])"
    "btype m' = (btype m)(builtin_name m b := ty)" "calls m' = calls m" "freed m' = freed m"
    by (rule builtin_effect [OF assms none builtin_name_def, of ty])
  then show "\<exists>m'. setup_builtin b ty m = Some m' \<and> m4_ok m' \<and>
      view m' = (view m)(builtin_name m b := [(builtin_name m b, ty)])"
    by (intro exI [of _ m'] conjI)
qed

theorem macro_table_refines_witness:
  "\<exists>m'. macro_pushdef (bytes ''foo'') (bytes ''bar'') init_macros = Some m' \<and> m4_ok m' \<and>
     view m' (bytes ''foo'') = [(bytes ''bar'', MACROTYPE)]"
proof -
  define foo bar where names: "foo = bytes ''foo''" "bar = bytes ''bar''"
  have "new_def (btype init_macros) foo bar = (bar, MACROTYPE)"
    by (simp add: names new_def_def init_view BUILTIN_MARKER_def bytes_def byte_of_def)
  moreover have "\<exists>m'. macro_pushdef foo bar init_macros = Some m' \<and> m4_ok m' \<and>
      view m' = (view init_macros)(foo := new_def (btype init_macros) foo bar # view init_macros foo) \<and> btype m' = btype init_macros"
    by (rule macro_table_refines [OF init_m4_ok, THEN conjunct2, THEN conjunct1])
  ultimately show ?thesis unfolding names [symmetric] by (auto simp: init_view)
qed

section \<open>Definitions that a call in progress uses\<close>

text \<open>
  C32. Redefining a macro, or pushing a definition, never frees a text that a call in progress uses, whatever name is
  defined; undefining a name or popping its definition frees the text although the call on the stack still points to it.
\<close>

theorem definitions_in_use:
  assumes "m4_ok m" "room m" "x \<in> in_use m" "x \<notin> set (freed m)"
  shows "(\<exists>m'. macro_define n df m = Some m' \<and> m4_ok m' \<and> x \<in> in_use m' \<and> x \<notin> set (freed m')) \<and>
    (\<exists>m'. macro_pushdef n df m = Some m' \<and> m4_ok m' \<and> x \<in> in_use m' \<and> x \<notin> set (freed m')) \<and>
    (\<exists>m'. macro_undefine n m = Some m' \<and> x \<in> in_use m' \<and> (x \<in> set (freed m') \<longleftrightarrow> x \<in> set (owned m n))) \<and>
    (\<exists>m'. macro_popdef n m = Some m' \<and> x \<in> in_use m' \<and>
      (x \<in> set (freed m') \<longleftrightarrow> (\<exists>r rs s. d (nodes m n) = r # rs \<and> defn r = Dup x s)))"
proof (intro conjI)
  have use: "x \<in> in_use m'" if "calls m' = calls m" for m' using assms(3) that by (simp add: in_use_def)
  show "\<exists>m'. macro_define n df m = Some m' \<and> m4_ok m' \<and> x \<in> in_use m' \<and> x \<notin> set (freed m')"
    using define_effect [OF assms(1,2), of n df] assms(3,4) use by metis
  show "\<exists>m'. macro_pushdef n df m = Some m' \<and> m4_ok m' \<and> x \<in> in_use m' \<and> x \<notin> set (freed m')"
    using pushdef_effect [OF assms(1,2), of n df] assms(4) use by metis
  obtain m1 where m1: "macro_undefine n m = Some m1" "calls m1 = calls m" "set (freed m1) = set (freed m) \<union> set (owned m n)"
    using undefine_effect [OF assms(1)] by metis
  show "\<exists>m'. macro_undefine n m = Some m' \<and> x \<in> in_use m' \<and> (x \<in> set (freed m') \<longleftrightarrow> x \<in> set (owned m n))"
    using m1 use assms(4) by auto
  obtain m2 where m2: "macro_popdef n m = Some m2" "calls m2 = calls m"
    "set (freed m2) = set (freed m) \<union> set (alist (take 1 (d (nodes m n))))"
    using popdef_effect [OF assms(1)] by metis
  have "x \<in> set (alist (take 1 (d (nodes m n)))) \<longleftrightarrow> (\<exists>r rs s. d (nodes m n) = r # rs \<and> defn r = Dup x s)"
  proof (cases "d (nodes m n)")
    case (Cons r rs)
    then show ?thesis by (cases "defn r") auto
  qed simp
  then show "\<exists>m'. macro_popdef n m = Some m' \<and> x \<in> in_use m' \<and>
      (x \<in> set (freed m') \<longleftrightarrow> (\<exists>r rs s. d (nodes m n) = r # rs \<and> defn r = Dup x s))"
    using m2 use assms(4) by auto
qed

lemma owned_calls: "owned (m\<lparr>calls := c\<rparr>) = owned m"
  by (simp add: owned_def fun_eq_iff)

lemma first_definition:
  obtains m where "macro_define (bytes ''foo'') (bytes ''bar'') init_macros = Some m" "m4_ok m"
    "map fst (view m (bytes ''foo'')) = [bytes ''bar'']" "room m"
proof -
  let ?foo = "bytes ''foo''" and ?bar = "bytes ''bar''"
  have new: "fst (new_def bt n ?bar) = ?bar" for bt n by (simp add: new_def_def BUILTIN_MARKER_def bytes_def byte_of_def)
  obtain m1 where m1: "create_entry ?foo init_macros = Some m1" "nodes m1 = nodes init_macros"
    using create_entry_ok [OF init_m4_ok] by metis
  have "names_ok init_macros" using init_m4_ok(1) by (simp add: m4_ok_def)
  from create_entry_size [OF this init_m4_ok(2) m1(1)] have "oh_size (macros m1) \<le> 2 * oh_size (macros init_macros)" .
  moreover have "oh_size (macros init_macros) = 1024" by (simp add: init_macros_def ohash_init_def Let_def u32_of_def MINSIZE_def)
  ultimately have sz: "oh_size (macros m1) \<le> 2048" by simp
  obtain m where m: "macro_define ?foo ?bar init_macros = Some m" "m4_ok m" "view m = (view init_macros)(?foo := new_def (btype init_macros) ?foo ?bar # tl (view init_macros ?foo))"
    using define_effect [OF init_m4_ok, of ?foo ?bar] by metis
  have "d (nodes m1 ?foo) = []" by (simp add: m1(2) init_macros_def new_node_def)
  then have "macros m = macros m1"
    using m(1) m1(1) by (auto simp: macro_define_def setup_definition_def plain_definition_def BUILTIN_MARKER_def bytes_def
      byte_of_def xstrdup_def set_d_def)
  then have "room m" using sz by (simp add: room_def)
  moreover have "map fst (view m ?foo) = [?bar]" unfolding m(3) init_view by (simp only: fun_upd_same list.map list.sel new)
  ultimately show thesis by (intro that [OF m(1,2)])
qed

theorem definitions_in_use_witness:
  "\<exists>m0 a m'. macro_define (bytes ''foo'') (bytes ''bar'') init_macros = Some m0 \<and>
     macro_popdef (bytes ''foo'') (pushdef (bytes ''foo'') m0) = Some m' \<and> a \<in> in_use m' \<and> a \<in> set (freed m')"
proof -
  define foo bar where names: "foo = bytes ''foo''" "bar = bytes ''bar''"
  obtain m0 where m0: "macro_define foo bar init_macros = Some m0" "m4_ok m0" "map fst (view m0 foo) = [bar]" "room m0"
    unfolding names by (rule first_definition)
  then obtain r where r: "d (nodes m0 foo) = [r]" "str_of (defn r) = bar" by (auto simp: view_def)
  moreover have "bar \<noteq> []" by (simp add: names)
  ultimately obtain a s where a: "defn r = Dup a s" by (cases "defn r") auto
  have "a \<in> set (owned m0 foo)" by (simp add: owned_def r(1) a)
  then have fr: "a \<notin> set (freed m0)" using m0(2) by (auto simp: m4_ok_def mem_def heap_ok_def)
  let ?m = "pushdef foo m0"
  have "m4_ok ?m" using m0(2) by (simp add: m4_ok_def names_ok_def mem_def pushdef_def owned_calls)
  moreover have "room ?m" "a \<in> in_use ?m" "a \<notin> set (freed ?m)" "d (nodes ?m foo) = [r]"
    using m0(4) fr by (auto simp: room_def pushdef_def r(1) in_use_def a)
  ultimately show ?thesis unfolding names [symmetric] using definitions_in_use [of ?m a foo bar, THEN conjunct2, THEN conjunct2, THEN conjunct2] m0(1) a by auto
qed

end
