(* ===== verification/M4_Translit.thy ===== *)
theory M4_Translit
  imports M4_Buf
begin

text \<open>
  \<open>translit\<close> of \<open>m4\<close>: \<open>map\<close> and \<open>handledash\<close> of \<open>src/src.freebsd/m4/eval.c\<close>.  A string is the list of its
  characters before the NUL.  The table \<open>mapvec\<close> is static: it must be the identity
  again when the call returns.  The buffers \<open>frombis\<close> and \<open>tobis\<close> have one place more than
  \<open>handledash\<close> is told; a write beyond it is an error.
\<close>

section \<open>Ranges of characters\<close>

text \<open>The loops over a range; the flag says that the buffer is full and \<open>handledash\<close> returns.\<close>

function range_up :: "nat \<Rightarrow> u8 \<Rightarrow> u8 \<Rightarrow> u8 list \<Rightarrow> (u8 list \<times> bool) m4_result" where
  "range_up cap i hi out =
     (if i \<le> hi then
        if length out > cap then Inl Out_of_bounds
        else if length out + 1 = cap then Inr (out @ [i], True)
        else range_up cap (i + 1) hi (out @ [i])
      else Inr (out, False))"
  by pat_completeness auto
termination by (relation "measure (\<lambda>(cap, i, hi, out). Suc cap - length out)") auto

function range_down :: "nat \<Rightarrow> u8 \<Rightarrow> u8 \<Rightarrow> u8 list \<Rightarrow> (u8 list \<times> bool) m4_result" where
  "range_down cap i hi out =
     (if i \<ge> hi then
        if length out > cap then Inl Out_of_bounds
        else if length out + 1 = cap then Inr (out @ [i], True)
        else range_down cap (i - 1) hi (out @ [i])
      else Inr (out, False))"
  by pat_completeness auto
termination by (relation "measure (\<lambda>(cap, i, hi, out). Suc cap - length out)") auto

declare range_up.simps [simp del] range_down.simps [simp del]

abbreviation DASH :: u8 where "DASH \<equiv> 0x2D"

definition char_range :: "nat \<Rightarrow> u8 \<Rightarrow> u8 \<Rightarrow> u8 list \<Rightarrow> (u8 list \<times> bool) m4_result" where
  "char_range cap a b out = (if a \<le> b then range_up cap a b out else range_down cap a b out)"

text \<open>
  What is in the buffer when the NUL is written after it: the range \<open>i <= src[2]\<close> holds for every
  \<open>unsigned char\<close> when \<open>src[2]\<close> is 255, so that the loop goes on from 0.
\<close>

fun handledash_loop :: "nat \<Rightarrow> u8 list \<Rightarrow> c_string \<Rightarrow> u8 list m4_result" where
  "handledash_loop cap out [] = Inr out"
| "handledash_loop cap out (a # src) =
     (case src of
        d # b # rest \<Rightarrow>
          if d = DASH then
            err_bind (char_range cap a b out) (\<lambda>(out, full).
              if full \<or> length out = cap then Inr out else handledash_loop cap out rest)
          else if length out > cap then Inl Out_of_bounds
          else if length out + 1 = cap then Inr (out @ [a])
          else handledash_loop cap (out @ [a]) src
      | _ \<Rightarrow>
          if length out > cap then Inl Out_of_bounds
          else if length out + 1 = cap then Inr (out @ [a])
          else handledash_loop cap (out @ [a]) src)"

text \<open>The string that is returned ends at the first NUL.\<close>

definition handledash :: "nat \<Rightarrow> c_string \<Rightarrow> c_string m4_result" where
  "handledash cap src = map_sum id (takeWhile (\<lambda>c. c \<noteq> 0)) (handledash_loop cap [] src)"

section \<open>Mapping characters\<close>

fun map_build :: "c_string \<Rightarrow> c_string \<Rightarrow> (u8 \<Rightarrow> u8) \<Rightarrow> (u8 \<Rightarrow> bool) \<Rightarrow> u8 \<Rightarrow> u8" where
  "map_build [] to mapvec seen = mapvec"
| "map_build (f # from) to mapvec seen =
     map_build from (tl to)
       (if seen f then mapvec else mapvec(f := (case to of [] \<Rightarrow> 0 | t # ts \<Rightarrow> t)))
       (if seen f then seen else seen(f := True))"

fun map_source :: "(u8 \<Rightarrow> u8) \<Rightarrow> c_string \<Rightarrow> c_string" where
  "map_source mapvec [] = []"
| "map_source mapvec (c # src) = (if mapvec c \<noteq> 0 then mapvec c # map_source mapvec src else map_source mapvec src)"

definition map_restore :: "c_string \<Rightarrow> (u8 \<Rightarrow> u8) \<Rightarrow> u8 \<Rightarrow> u8" where
  "map_restore = fold (\<lambda>c mapvec. mapvec(c := c))"

text \<open>\<open>map\<close>: the new string and the table it leaves.\<close>

definition m4_map :: "bool \<Rightarrow> c_string \<Rightarrow> c_string \<Rightarrow> c_string \<Rightarrow> (u8 \<Rightarrow> u8) \<Rightarrow> (c_string \<times> (u8 \<Rightarrow> u8)) m4_result" where
  "m4_map mimic_gnu src from to mapvec =
     (if src = [] then Inr ([], mapvec)
      else
        err_bind (if mimic_gnu then handledash 256 from else Inr from) (\<lambda>from.
        err_bind (if mimic_gnu then handledash 256 to else Inr to) (\<lambda>to.
          let vec = map_build from to mapvec (\<lambda>c. False)
          in Inr (map_source vec src, map_restore from vec))))"

section \<open>What it means\<close>

text \<open>The characters of a range; an ascending range that ends with 255 hides what follows.\<close>

definition span :: "u8 \<Rightarrow> u8 \<Rightarrow> u8 list" where
  "span a b = map of_nat (if a \<le> b then [unat a..<Suc (unat b)] else rev [unat b..<Suc (unat a)])"

fun ranges :: "c_string \<Rightarrow> c_string" where
  "ranges (a # d # b # rest) =
     (if d = DASH then span a b @ (if a \<le> b \<and> b = - 1 then [] else ranges rest) else a # ranges (d # b # rest))"
| "ranges s = s"

definition translit_char :: "c_string \<Rightarrow> c_string \<Rightarrow> u8 \<Rightarrow> c_string" where
  "translit_char from to c =
     (let i = length (takeWhile (\<lambda>x. x \<noteq> c) from)
      in if i < length from then if i < length to then [to ! i] else [] else [c])"

section \<open>Ranges\<close>

lemma u8_bound: "unat (a :: u8) < 2 ^ 8"
  using unsigned_less [of a] by simp

lemma unat_succ: "a < b \<Longrightarrow> unat (a + 1 :: u8) = Suc (unat a)"
proof -
  assume "a < b"
  then have "unat a + 1 < 2 ^ 8" using u8_bound [of b] by (simp add: word_less_nat_alt)
  then show ?thesis by (simp add: unat_word_ariths)
qed

lemma unat_pred: "0 < a \<Longrightarrow> unat (a - 1 :: u8) = unat a - 1"
  by (simp add: unat_sub word_le_nat_alt word_less_nat_alt)

lemma not_top: "b \<noteq> - 1 \<Longrightarrow> b < - 1" for b :: u8
  by (metis word_order.not_eq_extremum)

lemma span_up:
  assumes "a \<le> b"
  shows "span a b = a # (if a < b then span (a + 1) b else [])"
proof (cases "a < b")
  case True
  then have "unat (a + 1) = Suc (unat a)" by (rule unat_succ)
  moreover have "a + 1 \<le> b" using True by (simp add: inc_le)
  moreover have "[unat a..<Suc (unat b)] = unat a # [Suc (unat a)..<Suc (unat b)]" using assms by (simp add: upt_conv_Cons word_le_nat_alt)
  ultimately show ?thesis using True assms by (simp add: span_def)
next
  case False
  then have "a = b" using assms by simp
  then show ?thesis by (simp add: span_def)
qed

lemma span_down:
  assumes "b \<le> a"
  shows "span a b = a # (if b < a then span (a - 1) b else [])"
proof (cases "b < a")
  case True
  then have u: "unat (a - 1) = unat a - 1" "0 < unat a" by (auto simp: unat_sub word_less_nat_alt word_le_nat_alt)
  have b: "b \<le> a - 1" "\<not> a \<le> b" using True u by (auto simp: word_le_nat_alt word_less_nat_alt)
  have "[unat b..<Suc (unat a)] = [unat b..<unat a] @ [unat a]" using True by (simp add: word_less_nat_alt)
  moreover have "Suc (unat (a - 1)) = unat a" using u by simp
  moreover have "span (a - 1) b = map of_nat (rev [unat b..<Suc (unat (a - 1))])"
  proof (cases "a - 1 = b")
    case False
    then have "\<not> a - 1 \<le> b" using b(1) by simp
    then show ?thesis by (simp add: span_def)
  qed (simp add: span_def)
  ultimately show ?thesis using True b by (simp add: span_def)
next
  case False
  then have "a = b" using assms by simp
  then show ?thesis by (simp add: span_def)
qed

lemma span_nonzero: "a \<noteq> 0 \<Longrightarrow> b \<noteq> 0 \<Longrightarrow> 0 \<notin> set (span a b)"
proof
  assume n: "a \<noteq> 0" "b \<noteq> 0" and "0 \<in> set (span a b)"
  moreover have "set (span a b) = of_nat ` (if a \<le> b then {unat a..unat b} else {unat b..unat a})"
    unfolding span_def by (simp only: set_map set_upt set_rev if_distrib [of set] if_distrib [of "\<lambda>S. of_nat ` S"] atLeastLessThanSuc_atLeastAtMost)
  ultimately have "(0 :: u8) \<in> of_nat ` (if a \<le> b then {unat a..unat b} else {unat b..unat a})" by (metis (no_types))
  then obtain k where "0 = (of_nat k :: u8)" "k \<in> (if a \<le> b then {unat a..unat b} else {unat b..unat a})" by (rule imageE)
  then have k: "0 < k" "k < 2 ^ 8" "of_nat k = (0 :: u8)"
    using u8_bound [of a] u8_bound [of b] unat_gt_0 [of a] unat_gt_0 [of b] n by (auto split: if_splits)
  have "unat (of_nat k :: u8) = k" using k(2) by (simp add: unat_of_nat)
  then show False using k by simp
qed

lemma range_up_effect:
  assumes "length out < cap" "a \<le> b" "b \<noteq> - 1"
  shows "range_up cap a b out = Inr (take cap (out @ span a b), cap \<le> length (out @ span a b))"
  using assms
proof (induction cap a b out rule: range_up.induct)
  case (1 cap a b out)
  show ?case
  proof (cases "length out + 1 = cap")
    case True
    then have "cap = Suc (length out)" by simp
    then show ?thesis using 1(3) by (simp add: range_up.simps [of _ a b out] span_up [OF 1(3)])
  next
    case False
    show ?thesis
    proof (cases "a < b")
      case True
      then have "a + 1 \<le> b" by (simp add: inc_le)
      then show ?thesis using 1 False True by (simp add: range_up.simps [of cap a b out] span_up [OF 1(3)])
    next
      case eq: False
      then have "a = b" using 1(3) by simp
      moreover have "\<not> b + 1 \<le> b" using unat_succ [OF not_top [OF 1(4)]] by (simp add: word_le_nat_alt)
      ultimately show ?thesis
        using 1 False by (simp add: range_up.simps [of cap b b out] range_up.simps [of cap "b + 1" b] span_up)
    qed
  qed
qed

lemma range_up_wraps:
  assumes "length out < cap"
  shows "range_up cap a (- 1) out = Inr (out @ map (\<lambda>k. a + of_nat k) [0..<cap - length out], True)"
  using assms
proof (induction "cap - length out" arbitrary: a out)
  case (Suc n)
  have "[0..<cap - length out] = 0 # map Suc [0..<n]" using Suc(2) by (metis upt_rec map_Suc_upt zero_less_Suc)
  then have m: "map (\<lambda>k. a + of_nat k) [0..<cap - length out] = a # map (\<lambda>k. a + 1 + of_nat k) [0..<n]"
    by (simp add: add.assoc)
  show ?case
  proof (cases "length out + 1 = cap")
    case True
    then show ?thesis using m Suc(2) by (simp add: range_up.simps [of cap a "- 1" out])
  next
    case False
    have "n = cap - length (out @ [a])" using Suc(2) by simp
    then show ?thesis using Suc(1) [of "out @ [a]" "a + 1"] Suc(2,3) False m by (simp add: range_up.simps [of cap a "- 1" out])
  qed
qed simp

lemma range_down_effect:
  assumes "length out < cap" "b \<le> a" "b \<noteq> 0"
  shows "range_down cap a b out = Inr (take cap (out @ span a b), cap \<le> length (out @ span a b))"
  using assms
proof (induction cap a b out rule: range_down.induct)
  case (1 cap a b out)
  show ?case
  proof (cases "length out + 1 = cap")
    case True
    then have "cap = Suc (length out)" by simp
    then show ?thesis using 1(3) by (simp add: range_down.simps [of _ a b out] span_down [OF 1(3)])
  next
    case False
    show ?thesis
    proof (cases "b < a")
      case True
      then have "b \<le> a - 1" using unat_pred [of a] by (simp add: word_le_nat_alt word_less_nat_alt)
      then show ?thesis using 1 False True by (simp add: range_down.simps [of cap a b out] span_down [OF 1(3)])
    next
      case eq: False
      then have "a = b" using 1(3) by simp
      moreover have "\<not> b \<le> b - 1" using 1(4) unat_pred [of b] unat_gt_0 [of b] by (simp add: word_le_nat_alt word_gt_0)
      ultimately show ?thesis
        using 1 False by (simp add: range_down.simps [of cap b b out] range_down.simps [of cap "b - 1" b] span_down)
    qed
  qed
qed

lemma takeWhile_nonzero: "0 \<notin> set xs \<Longrightarrow> takeWhile (\<lambda>c. c \<noteq> 0) xs = xs"
  by (simp only: takeWhile_eq_all_conv) (metis)

lemma wrapped_range:
  assumes "0 \<notin> set out" "a \<noteq> 0" "length out \<le> cap"
  shows "takeWhile (\<lambda>c. c \<noteq> 0) (out @ map (\<lambda>k. a + of_nat k) [0..<cap - length out]) = take cap (out @ span a (- 1))"
proof -
  let ?m = "256 - unat a" and ?n = "cap - length out"
  have a: "unat a < 256" using u8_bound [of a] by simp
  have sp: "span a (- 1) = map (\<lambda>k. a + of_nat k) [0..<?m]"
  proof -
    have "[unat a..<256] = map (\<lambda>k. k + unat a) [0..<?m]" using a map_add_upt [of "unat a" "?m"] by simp
    moreover have "Suc (unat (- 1 :: u8)) = 256" by code_simp
    ultimately show ?thesis unfolding span_def by (simp add: o_def add.commute del: upt_Suc)
  qed
  have nz: "0 \<notin> set (span a (- 1))" using assms(2) by (intro span_nonzero) simp_all
  show ?thesis
  proof (cases "?n \<le> ?m")
    case True
    then have "map (\<lambda>k. a + of_nat k) [0..<?n] = take ?n (span a (- 1))" by (simp add: sp take_map)
    moreover have "0 \<notin> set (take ?n (span a (- 1)))" using nz in_set_takeD by fastforce
    ultimately show ?thesis using assms(1,3) by (simp add: takeWhile_nonzero)
  next
    case False
    have "[0..<?m + (?n - ?m)] = [0..<?m] @ [?m..<?m + (?n - ?m)]" by (rule upt_add_eq_append) simp
    then have "[0..<?n] = [0..<?m] @ ?m # [Suc ?m..<?n]" using False by (simp only: le_add_diff_inverse nat_le_linear not_le less_imp_le upt_conv_Cons)
    moreover have "a + of_nat ?m = 0"
    proof -
      have "of_nat (unat a + ?m) = (of_nat 256 :: u8)" using a by simp
      then show ?thesis by simp
    qed
    ultimately have "takeWhile (\<lambda>c. c \<noteq> 0) (map (\<lambda>k. a + of_nat k) [0..<?n]) = span a (- 1)"
      using nz by (simp add: sp takeWhile_append takeWhile_nonzero)
    moreover have "length (span a (- 1)) \<le> ?n" using False by (simp add: sp)
    ultimately show ?thesis using assms(1,3) by (simp add: takeWhile_append takeWhile_nonzero)
  qed
qed

lemma char_range_effect:
  assumes "length out < cap" "a \<noteq> 0" "b \<noteq> 0" "0 \<notin> set out"
  obtains out' full where "char_range cap a b out = Inr (out', full)"
    "takeWhile (\<lambda>c. c \<noteq> 0) out' = take cap (out @ span a b)" "a \<le> b \<and> b = - 1 \<longrightarrow> full"
    "\<not> (a \<le> b \<and> b = - 1) \<longrightarrow> out' = take cap (out @ span a b) \<and> full = (cap \<le> length (out @ span a b))"
proof -
  have nz: "0 \<notin> set (take cap (out @ span a b))"
    using span_nonzero [OF assms(2,3)] assms(4) in_set_takeD [of 0 cap "out @ span a b"] by auto
  note tw = takeWhile_nonzero [OF nz]
  consider (wrap) "a \<le> b" "b = - 1" | (up) "a \<le> b" "b \<noteq> - 1" | (down) "b < a" by fastforce
  then show thesis
  proof cases
    case wrap
    then show thesis
      using range_up_wraps [OF assms(1), of a] wrapped_range [OF assms(4,2), of cap] assms(1)
      by (intro that) (simp_all add: char_range_def)
  next
    case up
    then show thesis using range_up_effect [OF assms(1) up] tw by (intro that) (simp_all add: char_range_def)
  next
    case down
    then have "\<not> a \<le> b" "b \<le> a" by simp_all
    then show thesis using range_down_effect [OF assms(1) _ assms(3), of a] tw by (intro that) (simp_all add: char_range_def)
  qed
qed

lemma handledash_loop_effect:
  assumes "0 \<notin> set src" "0 \<notin> set out" "length out < cap"
  shows "\<exists>out'. handledash_loop cap out src = Inr out' \<and> takeWhile (\<lambda>c. c \<noteq> 0) out' = take cap (out @ ranges src)"
  using assms
proof (induction src arbitrary: out rule: length_induct)
  case (1 src)
  note small = 1(1) [rule_format] and prems = 1(2-4)
  show ?case
  proof (cases src)
    case Nil
    then show ?thesis using prems by (simp add: takeWhile_nonzero)
  next
    case (Cons a rest)
    have z: "a \<noteq> 0" "0 \<notin> set rest" using prems(1) Cons by auto
    have plain: "\<exists>out'. (if length out > cap then Inl Out_of_bounds else if length out + 1 = cap then Inr (out @ [a])
        else handledash_loop cap (out @ [a]) rest) = Inr out' \<and> takeWhile (\<lambda>c. c \<noteq> 0) out' = take cap (out @ a # ranges rest)"
    proof (cases "length out + 1 = cap")
      case True
      then have "cap = Suc (length out)" by simp
      moreover have "0 \<notin> set (out @ [a])" using z(1) prems(2) by auto
      ultimately show ?thesis by (simp add: takeWhile_nonzero)
    next
      case False
      then show ?thesis using small [of rest "out @ [a]"] z prems Cons by auto
    qed
    show ?thesis
    proof (cases "\<exists>b rest'. rest = DASH # b # rest'")
      case False
      then have "handledash_loop cap out src = (if length out > cap then Inl Out_of_bounds else if length out + 1 = cap then Inr (out @ [a])
          else handledash_loop cap (out @ [a]) rest)"
        unfolding Cons by (auto split: list.split)
      moreover have "ranges src = a # ranges rest"
        unfolding Cons using False by (cases "a # rest" rule: ranges.cases) auto
      ultimately show ?thesis using plain by simp
    next
      case True
      then obtain b rest' where r: "rest = DASH # b # rest'" by blast
      then have z': "b \<noteq> 0" "0 \<notin> set rest'" using z(2) by auto
      obtain out1 full where c: "char_range cap a b out = Inr (out1, full)"
        "takeWhile (\<lambda>c. c \<noteq> 0) out1 = take cap (out @ span a b)" "a \<le> b \<and> b = - 1 \<longrightarrow> full"
        "\<not> (a \<le> b \<and> b = - 1) \<longrightarrow> out1 = take cap (out @ span a b) \<and> full = (cap \<le> length (out @ span a b))"
        by (rule char_range_effect [OF prems(3) z(1) z'(1) prems(2)])
      have step: "handledash_loop cap out src = (if full \<or> length out1 = cap then Inr out1 else handledash_loop cap out1 rest')"
        "ranges src = span a b @ (if a \<le> b \<and> b = - 1 then [] else ranges rest')"
        unfolding Cons r using c(1) by simp_all
      consider (top) "a \<le> b \<and> b = - 1" | (full) "\<not> (a \<le> b \<and> b = - 1)" "cap \<le> length (out @ span a b)"
        | (room) "\<not> (a \<le> b \<and> b = - 1)" "length (out @ span a b) < cap" by linarith
      then show ?thesis
      proof cases
        case top
        then show ?thesis unfolding step using c(2,3) by simp
      next
        case full
        then have "take cap (out @ span a b @ ranges rest') = take cap (out @ span a b)" by simp
        then show ?thesis unfolding step using full c(2) c(4) by simp
      next
        case room
        then have out1: "out1 = out @ span a b" "\<not> full" using c(4) by auto
        have nz: "0 \<notin> set out1" using prems(2) span_nonzero [OF z(1) z'(1)] by (simp add: out1)
        have "\<exists>out'. handledash_loop cap out1 rest' = Inr out' \<and> takeWhile (\<lambda>c. c \<noteq> 0) out' = take cap (out1 @ ranges rest')"
          by (rule small) (use Cons r room z'(2) nz out1 in auto)
        then show ?thesis unfolding step using room out1 by auto
      qed
    qed
  qed
qed

lemma handledash_effect: "0 \<notin> set src \<Longrightarrow> 0 < cap \<Longrightarrow> handledash cap src = Inr (take cap (ranges src))"
  using handledash_loop_effect [of src "[]" cap] by (auto simp: handledash_def)

section \<open>The table of characters\<close>

lemma map_build_effect:
  "map_build from to vec seen c =
     (let i = length (takeWhile (\<lambda>x. x \<noteq> c) from)
      in if seen c \<or> i = length from then vec c else if i < length to then to ! i else 0)"
proof (induction "from" to vec seen rule: map_build.induct)
  case (2 f "from" to vec seen)
  show ?case
  proof (cases "seen f")
    case True
    then show ?thesis using 2 by (cases to) (auto simp: Let_def)
  next
    case False
    then show ?thesis using 2 by (cases to) (auto simp: Let_def simp del: fun_upd_apply, simp_all)
  qed
qed simp

lemma map_source_effect:
  assumes "0 \<notin> set src" "0 \<notin> set to"
  shows "map_source (map_build from to id (\<lambda>c. False)) src = concat (map (translit_char from to) src)"
  using assms(1)
proof (induction src)
  case (Cons c src)
  let ?i = "length (takeWhile (\<lambda>x. x \<noteq> c) from)"
  have "?i \<le> length from" by (rule length_takeWhile_le)
  moreover have "?i < length to \<Longrightarrow> to ! ?i \<noteq> 0" using assms(2) by (metis nth_mem)
  ultimately show ?case using Cons by (auto simp: map_build_effect translit_char_def Let_def)
qed simp

lemma map_restore_effect: "map_restore s vec c = (if c \<in> set s then c else vec c)"
  unfolding map_restore_def by (induction s arbitrary: vec) auto

lemma index_all: "length (takeWhile (\<lambda>x. x \<noteq> c) s) = length s \<longleftrightarrow> c \<notin> set s"
  proof
  assume l: "length (takeWhile (\<lambda>x. x \<noteq> c) s) = length s"
  have "takeWhile (\<lambda>x. x \<noteq> c) s = take (length s) s"
    unfolding l [symmetric] by (rule takeWhile_eq_take)
  then have "takeWhile (\<lambda>x. x \<noteq> c) s = s" by simp
  then show "c \<notin> set s" by (simp only: takeWhile_eq_all_conv) auto
next
  assume "c \<notin> set s"
  then have "takeWhile (\<lambda>x. x \<noteq> c) s = s" by (intro takeWhile_eq_all_conv [THEN iffD2]) auto
  then show "length (takeWhile (\<lambda>x. x \<noteq> c) s) = length s" by (rule arg_cong)
qed

definition translit_set :: "bool \<Rightarrow> c_string \<Rightarrow> c_string" where
  "translit_set gnu s = (if gnu then take 256 (ranges s) else s)"

lemma ranges_nonzero: "0 \<notin> set s \<Longrightarrow> 0 \<notin> set (ranges s)"
  by (induction s rule: ranges.induct) (auto simp: span_nonzero)

lemma m4_map_effect:
  assumes "0 \<notin> set src" "0 \<notin> set from" "0 \<notin> set to"
  shows "m4_map gnu src from to id =
      Inr (concat (map (translit_char (translit_set gnu from) (translit_set gnu to)) src), id)"
proof -
  let ?f = "translit_set gnu from" and ?t = "translit_set gnu to"
  have t: "0 \<notin> set ?t" using ranges_nonzero [OF assms(3)] assms(3) in_set_takeD [of 0 256 "ranges to"] by (auto simp: translit_set_def)
  have vec: "map_restore ?f (map_build ?f ?t id (\<lambda>c. False)) = id"
  proof
    fix c
    show "map_restore ?f (map_build ?f ?t id (\<lambda>c. False)) c = id c"
      using index_all [of c ?f] by (cases "c \<in> set ?f") (simp_all add: map_restore_effect map_build_effect Let_def)
  qed
  have "(if gnu then handledash 256 s else Inr s) = Inr (translit_set gnu s)" if "0 \<notin> set s" for s
    using handledash_effect [OF that, of 256] by (simp add: translit_set_def)
  then show "m4_map gnu src from to id = Inr (concat (map (translit_char ?f ?t) src), id)"
    using assms(2,3) map_source_effect [OF assms(1) t] vec by (simp add: m4_map_def Let_def)
qed

text \<open>
  C33. \<open>translit\<close> replaces every character that occurs in the second argument, at its first place
  there, by the character at the same place of the third, or drops it when there is none; in GNU mode both are first expanded
  from their ranges, up to 256 characters and up to the first range that ends with character 255.  The result is never
  longer than the source, for which its buffer is allocated, no other buffer is overrun, and the static
  table is the identity again for the next call.
\<close>

theorem translit_exact:
  assumes "0 \<notin> set src" "0 \<notin> set from" "0 \<notin> set to"
  shows "m4_map gnu src from to id =
      Inr (concat (map (translit_char (translit_set gnu from) (translit_set gnu to)) src), id) \<and>
    length (concat (map (translit_char (translit_set gnu from) (translit_set gnu to)) src)) \<le> length src"
proof
  show "length (concat (map (translit_char (translit_set gnu from) (translit_set gnu to)) src)) \<le> length src"
    by (induction src) (auto simp: translit_char_def Let_def)
qed (rule m4_map_effect [OF assms])

theorem translit_exact_witness:
  "map_sum id fst (m4_map True (bytes ''hello-world'') (bytes ''a-mo'') (bytes ''A-M'') id) = Inr (bytes ''HELL-wrLD'')"
proof -
  have z: "0 \<notin> set (bytes ''hello-world'')" "0 \<notin> set (bytes ''a-mo'')" "0 \<notin> set (bytes ''A-M'')" by code_simp+
  have "concat (map (translit_char (translit_set True (bytes ''a-mo'')) (translit_set True (bytes ''A-M''))) (bytes ''hello-world'')) =
      bytes ''HELL-wrLD''"
    by code_simp
  then show ?thesis using translit_exact [OF z, of True] by simp
qed

end
