(* ===== verification/M4_Builtin.thy ===== *)
theory M4_Builtin
  imports M4_Expand M4_Table M4_Translit
begin

text \<open>
  The built-in macros of \<open>m4\<close>, \<open>src/src.freebsd/m4/eval.c\<close>: \<open>expand_builtin\<close> with the functions it
  calls, the diversions of \<open>misc.c\<close>, and \<open>eval\<close>, which every call of a macro goes through.

  Parameters: GNU mode, the files that can be opened, the value of an expression (a parser made by
  \<open>yacc\<close>), and the built-ins that run commands, format, use regular expressions or call other macros.
  The text that a failed temporary file or an allocation prints before it ends the program is left out.
\<close>

section \<open>State\<close>

record diversions =
  oindex :: u32
  outfile :: "u8 list option list"
  active :: "nat option"
  printed :: "u8 list"

record eval_state =
  inp :: input
  tab :: m4
  quo :: quotes
  scommt :: c_string
  ecommt :: c_string
  wraps :: "c_string list"
  mapvec :: "u8 \<Rightarrow> u8"
  dvs :: diversions
  sysval :: u32
  exit_code :: int

type_synonym eval_result = "eval_state m4_result"

record m4_env =
  heap :: heap
  mimic_gnu :: bool
  fatal_warns :: bool
  fopen_path :: "c_string \<Rightarrow> u8 list option"
  fopen :: "c_string \<Rightarrow> u8 list option"
  expr :: "c_string \<Rightarrow> u32 m4_result"
  other :: "u32 \<Rightarrow> c_string list \<Rightarrow> eval_state \<Rightarrow> eval_result"

definition on_input :: "(input \<Rightarrow> input m4_result) \<Rightarrow> eval_state \<Rightarrow> eval_result" where
  "on_input f st = map_sum id (\<lambda>i. st\<lparr>inp := i\<rparr>) (f (inp st))"

definition on_table :: "(m4 \<Rightarrow> m4 option) \<Rightarrow> eval_state \<Rightarrow> eval_result" where
  "on_table f st = (case f (tab st) of None \<Rightarrow> Inl Diverges | Some m \<Rightarrow> Inr (st\<lparr>tab := m\<rparr>))"

fun each :: "(c_string \<Rightarrow> eval_state \<Rightarrow> eval_result) \<Rightarrow> c_string list \<Rightarrow> eval_state \<Rightarrow> eval_result" where
  "each f [] st = Inr st"
| "each f (a # as) st = err_bind (f a st) (each f as)"

text \<open>The numbers of the C library and of \<open>strtonum\<close>.\<close>

definition chars :: "c_string \<Rightarrow> string" where
  "chars s = map (\<lambda>c. char_of (unat c)) s"

definition number :: "c_string \<Rightarrow> int \<Rightarrow> int \<Rightarrow> int m4_result" where
  "number s lo hi = map_sum Bad_number id (strtonum (chars s) lo hi)"

definition atoi :: "c_string \<Rightarrow> int" where
  "atoi s = sint (of_int (fst (strtoll10 (chars s))) :: u32)"

abbreviation INT_MIN :: int where "INT_MIN \<equiv> - (2 ^ 31)"
abbreviation INT_MAX :: int where "INT_MAX \<equiv> 2 ^ 31 - 1"

section \<open>Diversions\<close>

definition put_active :: "u8 list \<Rightarrow> diversions \<Rightarrow> diversions" where
  "put_active s dv =
     (case active dv of
        None \<Rightarrow> dv\<lparr>printed := printed dv @ s\<rparr>
      | Some k \<Rightarrow> dv\<lparr>outfile := (outfile dv)[k := map_option (\<lambda>t. t @ s) (outfile dv ! k)]\<rparr>)"

definition resizedivs :: "nat \<Rightarrow> diversions \<Rightarrow> diversions" where
  "resizedivs n dv = dv\<lparr>outfile := take n (outfile dv) @ replicate (n - length (outfile dv)) None\<rparr>"

definition dodivert :: "bool \<Rightarrow> int \<Rightarrow> diversions \<Rightarrow> diversions m4_result" where
  "dodivert gnu n dv =
     (let dv = dv\<lparr>oindex := of_int n\<rparr> in
      if n \<ge> int (length (outfile dv)) \<and> gnu \<and> n + 10 > INT_MAX then Inl Overflow
      else
        let (n, dv) = (if n \<ge> int (length (outfile dv))
                       then if gnu then (n, resizedivs (nat (n + 10)) dv) else (0, dv)
                       else (n, dv));
            n = nat (if n < 0 then 0 else n);
            dv = (if outfile dv ! n = None then dv\<lparr>outfile := (outfile dv)[n := Some []]\<rparr> else dv)
        in Inr (dv\<lparr>active := Some n\<rparr>))"

definition getdiv :: "nat \<Rightarrow> diversions \<Rightarrow> diversions m4_result" where
  "getdiv n dv =
     (if active dv = Some n then Inl Diversion_active
      else case outfile dv ! n of
        None \<Rightarrow> Inl Out_of_bounds
      | Some s \<Rightarrow> let dv = put_active s dv in Inr (dv\<lparr>outfile := (outfile dv)[n := None]\<rparr>))"

fun getdivs :: "nat list \<Rightarrow> diversions \<Rightarrow> diversions m4_result" where
  "getdivs [] dv = Inr dv"
| "getdivs (n # ns) dv =
     (if n < length (outfile dv) \<and> outfile dv ! n \<noteq> None then err_bind (getdiv n dv) (getdivs ns) else getdivs ns dv)"

fun undivert_args :: "bool \<Rightarrow> (c_string \<Rightarrow> u8 list option) \<Rightarrow> c_string list \<Rightarrow> diversions \<Rightarrow> diversions m4_result" where
  "undivert_args gnu file [] dv = Inr dv"
| "undivert_args gnu file (a # as) dv =
     (case number a 1 INT_MAX of
        Inl e \<Rightarrow>
          undivert_args gnu file as
            (if e = Bad_number Invalid \<and> gnu then case file a of None \<Rightarrow> dv | Some s \<Rightarrow> put_active s dv else dv)
      | Inr n \<Rightarrow> err_bind (getdivs [nat n] dv) (undivert_args gnu file as))"

definition doundivert :: "bool \<Rightarrow> (c_string \<Rightarrow> u8 list option) \<Rightarrow> c_string list \<Rightarrow> diversions \<Rightarrow> diversions m4_result" where
  "doundivert gnu file argv dv =
     (if length argv > 2 then undivert_args gnu file (drop 2 argv) dv
      else getdivs [1..<length (outfile dv)] dv)"

section \<open>Built-in macros\<close>

abbreviation DEFINETYPE :: u32 where "DEFINETYPE \<equiv> 2"
abbreviation EVALTYPE :: u32 where "EVALTYPE \<equiv> 3"
abbreviation SUBSTRTYPE :: u32 where "SUBSTRTYPE \<equiv> 4"
abbreviation IFELSETYPE :: u32 where "IFELSETYPE \<equiv> 5"
abbreviation LENTYPE :: u32 where "LENTYPE \<equiv> 6"
abbreviation CHANGEQUOTETYPE :: u32 where "CHANGEQUOTETYPE \<equiv> 7"
abbreviation SYSCMDTYPE :: u32 where "SYSCMDTYPE \<equiv> 8"
abbreviation UNDEFINETYPE :: u32 where "UNDEFINETYPE \<equiv> 9"
abbreviation INCLUDETYPE :: u32 where "INCLUDETYPE \<equiv> 10"
abbreviation SINCLUDETYPE :: u32 where "SINCLUDETYPE \<equiv> 11"
abbreviation PASTETYPE :: u32 where "PASTETYPE \<equiv> 12"
abbreviation SPASTETYPE :: u32 where "SPASTETYPE \<equiv> 13"
abbreviation INCRTYPE :: u32 where "INCRTYPE \<equiv> 14"
abbreviation IFDEFTYPE :: u32 where "IFDEFTYPE \<equiv> 15"
abbreviation PUSHDEFTYPE :: u32 where "PUSHDEFTYPE \<equiv> 16"
abbreviation POPDEFTYPE :: u32 where "POPDEFTYPE \<equiv> 17"
abbreviation SHIFTTYPE :: u32 where "SHIFTTYPE \<equiv> 18"
abbreviation DECRTYPE :: u32 where "DECRTYPE \<equiv> 19"
abbreviation DIVERTTYPE :: u32 where "DIVERTTYPE \<equiv> 20"
abbreviation UNDIVERTTYPE :: u32 where "UNDIVERTTYPE \<equiv> 21"
abbreviation DIVNUMTYPE :: u32 where "DIVNUMTYPE \<equiv> 22"
abbreviation MKSTEMPTYPE :: u32 where "MKSTEMPTYPE \<equiv> 23"
abbreviation ERRPRINTTYPE :: u32 where "ERRPRINTTYPE \<equiv> 24"
abbreviation M4WRAPTYPE :: u32 where "M4WRAPTYPE \<equiv> 25"
abbreviation TRANSLITTYPE :: u32 where "TRANSLITTYPE \<equiv> 26"
abbreviation DNLTYPE :: u32 where "DNLTYPE \<equiv> 27"
abbreviation DUMPDEFTYPE :: u32 where "DUMPDEFTYPE \<equiv> 28"
abbreviation CHANGECOMTYPE :: u32 where "CHANGECOMTYPE \<equiv> 29"
abbreviation INDEXTYPE :: u32 where "INDEXTYPE \<equiv> 30"
abbreviation SYSVALTYPE :: u32 where "SYSVALTYPE \<equiv> 31"
abbreviation M4EXITTYPE :: u32 where "M4EXITTYPE \<equiv> 32"
abbreviation DEFNTYPE :: u32 where "DEFNTYPE \<equiv> 33"
abbreviation SELFTYPE :: u32 where "SELFTYPE \<equiv> 34"
abbreviation INDIRTYPE :: u32 where "INDIRTYPE \<equiv> 35"
abbreviation BUILTINTYPE :: u32 where "BUILTINTYPE \<equiv> 36"
abbreviation PATSUBSTTYPE :: u32 where "PATSUBSTTYPE \<equiv> 37"
abbreviation FILENAMETYPE :: u32 where "FILENAMETYPE \<equiv> 38"
abbreviation LINETYPE :: u32 where "LINETYPE \<equiv> 39"
abbreviation REGEXPTYPE :: u32 where "REGEXPTYPE \<equiv> 40"
abbreviation ESYSCMDTYPE :: u32 where "ESYSCMDTYPE \<equiv> 41"
abbreviation TRACEONTYPE :: u32 where "TRACEONTYPE \<equiv> 42"
abbreviation TRACEOFFTYPE :: u32 where "TRACEOFFTYPE \<equiv> 43"
abbreviation FORMATTYPE :: u32 where "FORMATTYPE \<equiv> 44"

abbreviation TYPEMASK :: u32 where "TYPEMASK \<equiv> 63"

definition dodefine :: "bool \<Rightarrow> c_string \<Rightarrow> c_string \<Rightarrow> eval_state \<Rightarrow> eval_result" where
  "dodefine gnu name df st = (if name = [] \<and> \<not> gnu then Inl Null_definition else on_table (macro_define name df) st)"

definition dopushdef :: "bool \<Rightarrow> c_string \<Rightarrow> c_string \<Rightarrow> eval_state \<Rightarrow> eval_result" where
  "dopushdef gnu name df st = (if name = [] \<and> \<not> gnu then Inl Null_definition else on_table (macro_pushdef name df) st)"

definition with_definition :: "c_string \<Rightarrow> (macro_definition option \<Rightarrow> eval_state \<Rightarrow> eval_result) \<Rightarrow> eval_state \<Rightarrow> eval_result" where
  "with_definition name f st =
     (case lookup_macro_definition name (tab st) of None \<Rightarrow> Inl Diverges | Some (r, m) \<Rightarrow> f r (st\<lparr>tab := m\<rparr>))"

definition dodefn :: "heap \<Rightarrow> c_string \<Rightarrow> eval_state \<Rightarrow> eval_result" where
  "dodefn H name =
     with_definition name (\<lambda>r st. case r of
         None \<Rightarrow> Inr st
       | Some p \<Rightarrow>
           if mtype p AND TYPEMASK = MACROTYPE then on_input (push_quoted H (quo st) (str_of (defn p))) st
           else on_input (\<lambda>i. err_bind (pbstr H (str_of (defn p)) i) (pbstr H BUILTIN_MARKER)) st)"

fun doifelse :: "heap \<Rightarrow> c_string list \<Rightarrow> input \<Rightarrow> input m4_result" where
  "doifelse H (a # b # c # rest) i =
     (if a = b then pbstr H c i
      else case rest of [e] \<Rightarrow> pbstr H e i | _ \<Rightarrow> doifelse H rest i)"
| "doifelse H s i = Inr i"

text \<open>A character is signed: \<open>pushback\<close> takes the character 255 for the end of the file.\<close>

fun push_chars :: "heap \<Rightarrow> u8 list \<Rightarrow> input \<Rightarrow> input m4_result" where
  "push_chars H [] i = Inr i"
| "push_chars H (c # cs) i = err_bind (pushback H (if c = - 1 then None else Some c) i) (push_chars H cs)"

definition dosubstr :: "heap \<Rightarrow> c_string list \<Rightarrow> input \<Rightarrow> input m4_result" where
  "dosubstr H argv i =
     (let ap = argv ! 2; off = atoi (argv ! 3) in
      if off < 0 \<or> off > int (length ap) then Inl Out_of_bounds
      else
        let fc = drop (nat off) ap;
            nc = (if length argv \<ge> 5 then min (int (length fc)) (atoi (argv ! 4)) else int (length fc))
        in if fc \<noteq> [] then push_chars H (rev (take (nat nc) fc)) i else Inr i)"

fun doindex :: "c_string \<Rightarrow> c_string \<Rightarrow> int" where
  "doindex [] s2 = (if s2 = [] then 0 else - 1)"
| "doindex (c # s1) s2 =
     (if take (length s2) (c # s1) = s2 then 0
      else let k = doindex s1 s2 in if k < 0 then - 1 else k + 1)"

definition dochangequote :: "c_string list \<Rightarrow> eval_state \<Rightarrow> eval_state" where
  "dochangequote argv st =
     (if length argv = 2 then st\<lparr>quo := \<lparr>lquote = bytes ''`'', rquote = [39]\<rparr>\<rparr>
      else st\<lparr>quo := \<lparr>lquote = take 5 (argv ! 2), rquote = (if length argv > 3 then take 5 (argv ! 3) else [10])\<rparr>\<rparr>)"

definition dochangecom :: "c_string list \<Rightarrow> eval_state \<Rightarrow> eval_state" where
  "dochangecom argv st =
     (if length argv = 2 then st\<lparr>scommt := [], ecommt := []\<rparr>
      else st\<lparr>scommt := take 5 (argv ! 2), ecommt := (if length argv = 3 then [10] else take 5 (argv ! 3))\<rparr>)"

lemma gpbc_shrinks:
  assumes "gpbc i = Inr (Some c, i')"
  shows "nat (bp i' - bufbase i') + length (contents (infile i' ! ilevel i')) <
    nat (bp i - bufbase i) + length (contents (infile i ! ilevel i))"
  using assms
  by (auto simp: gpbc_def obtain_char_def split: if_splits list.splits)

function dnl :: "input \<Rightarrow> input m4_result" where
  "dnl i = (case gpbc i of Inl e \<Rightarrow> Inl e | Inr (None, i) \<Rightarrow> Inr i | Inr (Some c, i) \<Rightarrow> if c = 10 then Inr i else dnl i)"
  by pat_completeness auto
termination
proof (relation "measure (\<lambda>i. nat (bp i - bufbase i) + length (contents (infile i ! ilevel i)))")
  fix i b x y c assume "gpbc i = Inr b" "(x, y) = b" "x = Some (c :: u8)"
  then have "gpbc i = Inr (Some c, y)" by simp
  from gpbc_shrinks [OF this]
  show "(y, i) \<in> measure (\<lambda>i. nat (bp i - bufbase i) + length (contents (infile i ! ilevel i)))" by simp
qed simp

declare dnl.simps [simp del]

text \<open>A line number; it is an \<open>unsigned long\<close>.\<close>

function pbunsigned :: "heap \<Rightarrow> nat \<Rightarrow> input \<Rightarrow> input m4_result" where
  "pbunsigned H n i =
     err_bind (pushback H (Some (of_nat (n mod 10) + 48)) i) (\<lambda>i.
       if n div 10 > 0 then pbunsigned H (n div 10) i else Inr i)"
  by pat_completeness auto
termination by (relation "measure (\<lambda>(H, n, i). n)") auto

declare pbunsigned.simps [simp del]

definition dotrace :: "c_string list \<Rightarrow> u32 \<Rightarrow> eval_state \<Rightarrow> eval_result" where
  "dotrace argv on =
     (if length argv > 2 then each (\<lambda>a. on_table (mark_traced (Some a) on)) (drop 2 argv)
      else on_table (mark_traced None on))"

definition dodumpdef :: "c_string list \<Rightarrow> eval_state \<Rightarrow> eval_result" where
  "dodumpdef argv = each (\<lambda>a. with_definition a (\<lambda>r st. Inr st)) (drop 2 argv)"

definition include_file :: "m4_env \<Rightarrow> bool \<Rightarrow> c_string \<Rightarrow> eval_state \<Rightarrow> eval_result" where
  "include_file E must a st =
     err_bind (M4_Buf.doinclude (fopen_path E a) (inp st)) (\<lambda>(found, i).
       if found \<or> \<not> must then Inr (st\<lparr>inp := i\<rparr>)
       else if mimic_gnu E then if fatal_warns E then Inl (Exit 1) else Inr (st\<lparr>inp := i, exit_code := 1\<rparr>)
       else Inl Cannot_include)"

definition dopaste :: "m4_env \<Rightarrow> bool \<Rightarrow> c_string \<Rightarrow> eval_state \<Rightarrow> eval_result" where
  "dopaste E must a st =
     (case fopen E a of
        Some s \<Rightarrow> Inr (st\<lparr>dvs := put_active s (dvs st)\<rparr>)
      | None \<Rightarrow> if must then Inl Cannot_include else Inr st)"

definition arg_of :: "c_string list \<Rightarrow> nat \<Rightarrow> c_string" where
  "arg_of as n = (if n < length as then as ! n else [])"

text \<open>
  The argument vector is \<open>argv\<close>: the definition, the name and the arguments; \<open>full\<close> is the one before a
  single empty argument was dropped.
\<close>

definition builtin_case :: "m4_env \<Rightarrow> c_string list \<Rightarrow> c_string list \<Rightarrow> u32 \<Rightarrow> eval_state \<Rightarrow> eval_result" where
  "builtin_case E full argv ty st =
     (let H = heap E; gnu = mimic_gnu E; argc = length argv; arg = arg_of argv in
      if ty = DEFINETYPE then if argc > 2 then dodefine gnu (arg 2) (arg 3) st else Inr st
      else if ty = PUSHDEFTYPE then if argc > 2 then dopushdef gnu (arg 2) (arg 3) st else Inr st
      else if ty = DUMPDEFTYPE then dodumpdef argv st
      else if ty = TRACEONTYPE then dotrace argv 1 st
      else if ty = TRACEOFFTYPE then dotrace argv 0 st
      else if ty = EVALTYPE then
        err_bind (if argc > 3 \<and> arg 3 \<noteq> [] then number (arg 3) 2 36 else Inr 10) (\<lambda>base.
        err_bind (if argc > 4 then number (arg 4) 0 INT_MAX else Inr 0) (\<lambda>mindigits.
        if argc > 2 then err_bind (expr E (arg 2)) (\<lambda>v. on_input (pbnumbase H v base mindigits) st) else Inr st))
      else if ty = IFELSETYPE then on_input (doifelse H (drop 2 argv)) st
      else if ty = IFDEFTYPE then
        if argc > 3 then
          with_definition (arg 2) (\<lambda>r st. if r \<noteq> None then on_input (pbstr H (arg 3)) st
            else if argc > 4 then on_input (pbstr H (arg 4)) st else Inr st) st
        else Inr st
      else if ty = LENTYPE then on_input (pbnum H (if argc > 2 then of_nat (length (arg 2)) else 0)) st
      else if ty = INCRTYPE then
        if argc > 2 then err_bind (number (arg 2) INT_MIN (INT_MAX - 1)) (\<lambda>n. on_input (pbnum H (of_int (n + 1))) st) else Inr st
      else if ty = DECRTYPE then
        if argc > 2 then err_bind (number (arg 2) (INT_MIN + 1) INT_MAX) (\<lambda>n. on_input (pbnum H (of_int (n - 1))) st) else Inr st
      else if ty = SYSVALTYPE then on_input (pbnum H (sysval st)) st
      else if ty = INCLUDETYPE then if argc > 2 then include_file E True (arg 2) st else Inr st
      else if ty = SINCLUDETYPE then if argc > 2 then include_file E False (arg 2) st else Inr st
      else if ty = PASTETYPE then if argc > 2 then dopaste E True (arg 2) st else Inr st
      else if ty = SPASTETYPE then if argc > 2 then dopaste E False (arg 2) st else Inr st
      else if ty = CHANGEQUOTETYPE then Inr (dochangequote full st)
      else if ty = CHANGECOMTYPE then Inr (dochangecom argv st)
      else if ty = SUBSTRTYPE then if argc > 3 then on_input (dosubstr H argv) st else Inr st
      else if ty = SHIFTTYPE then on_input (push_args H (push_quoted H (quo st)) (rev (drop 3 argv))) st
      else if ty = DIVERTTYPE then
        err_bind (if argc > 2 then number (arg 2) INT_MIN INT_MAX else Inr 0) (\<lambda>n.
        if n \<noteq> 0 then map_sum id (\<lambda>dv. st\<lparr>dvs := dv\<rparr>) (dodivert gnu n (dvs st))
        else Inr (st\<lparr>dvs := (dvs st)\<lparr>active := None, oindex := 0\<rparr>\<rparr>))
      else if ty = UNDIVERTTYPE then map_sum id (\<lambda>dv. st\<lparr>dvs := dv\<rparr>) (doundivert gnu (fopen E) argv (dvs st))
      else if ty = DIVNUMTYPE then on_input (pbnum H (oindex (dvs st))) st
      else if ty = UNDEFINETYPE then each (\<lambda>a. on_table (macro_undefine a)) (drop 2 argv) st
      else if ty = POPDEFTYPE then each (\<lambda>a. on_table (macro_popdef a)) (drop 2 argv) st
      else if ty = TRANSLITTYPE then
        if argc > 3 then
          err_bind (m4_map gnu (arg 2) (arg 3) (arg 4) (mapvec st)) (\<lambda>(s, vec). on_input (pbstr H s) (st\<lparr>mapvec := vec\<rparr>))
        else if argc > 2 then on_input (pbstr H (arg 2)) st else Inr st
      else if ty = INDEXTYPE then on_input (pbnum H (of_int (if argc > 3 then doindex (arg 2) (arg 3) else - 1))) st
      else if ty = ERRPRINTTYPE then Inr st
      else if ty = DNLTYPE then on_input dnl st
      else if ty = M4WRAPTYPE then Inr (if argc > 2 then st\<lparr>wraps := wraps st @ [arg 2]\<rparr> else st)
      else if ty = M4EXITTYPE then Inl (Exit (if argc > 2 then atoi (arg 2) else 0))
      else if ty = DEFNTYPE then each (dodefn H) (rev (drop 2 argv)) st
      else if ty = LINETYPE then on_input (pbunsigned H (lineno (infile (inp st) ! ilevel (inp st)))) st
      else if ty = SELFTYPE then on_input (push_quoted H (quo st) (arg 1)) st
      else if ty \<in> {INDIRTYPE, BUILTINTYPE} \<and> argc \<le> 2 then Inr st
      else if ty \<in> {SYSCMDTYPE, MKSTEMPTYPE, PATSUBSTTYPE, FILENAMETYPE, REGEXPTYPE, ESYSCMDTYPE, FORMATTYPE} then other E ty argv st
      else Inl Botch)"

text \<open>\<open>indir\<close> and \<open>builtin\<close> (\<open>gnum4.c\<close>) call \<open>eval\<close> again with one argument less.\<close>

definition adjust_argv :: "bool \<Rightarrow> c_string list \<Rightarrow> c_string list" where
  "adjust_argv gnu argv = (if length argv = 3 \<and> argv ! 2 = [] \<and> \<not> gnu then take 2 argv else argv)"

function eval_call :: "m4_env \<Rightarrow> c_string list \<Rightarrow> u32 \<Rightarrow> eval_state \<Rightarrow> eval_result"
  and expand_builtin :: "m4_env \<Rightarrow> c_string list \<Rightarrow> u32 \<Rightarrow> eval_state \<Rightarrow> eval_result"
  and doindir :: "m4_env \<Rightarrow> c_string list \<Rightarrow> eval_state \<Rightarrow> eval_result"
  and dobuiltin :: "m4_env \<Rightarrow> c_string list \<Rightarrow> eval_state \<Rightarrow> eval_result" where
  "eval_call E argv td st =
     (if td AND RECDEF \<noteq> 0 then Inl Recursive_definition
      else if td = MACROTYPE then on_input (expand_macro (heap E) (quo st) argv) st
      else expand_builtin E argv td st)"
| "expand_builtin E full td st =
     (let argv = adjust_argv (mimic_gnu E) full; ty = td AND TYPEMASK in
      if ty = INDIRTYPE \<and> length argv > 2 then doindir E argv st
      else if ty = BUILTINTYPE \<and> length argv > 2 then dobuiltin E argv st
      else builtin_case E full argv ty st)"
| "doindir E argv st =
     (case lookup (argv ! 2) (tab st) of
        None \<Rightarrow> Inl Diverges
      | Some (None, m) \<Rightarrow> Inl Undefined_macro
      | Some (Some n, m) \<Rightarrow>
          (case d (nodes m n) of
             [] \<Rightarrow> Inl Undefined_macro
           | p # ps \<Rightarrow>
               if length argv > 2 then eval_call E (str_of (defn p) # drop 2 argv) (mtype p) (st\<lparr>tab := m\<rparr>)
               else Inl Out_of_bounds))"
| "dobuiltin E argv st =
     (case macro_getbuiltin (argv ! 2) (tab st) of
        None \<Rightarrow> Inl Diverges
      | Some (None, m) \<Rightarrow> Inl Undefined_macro
      | Some (Some n, m) \<Rightarrow>
          if length argv > 2 then eval_call E ([] # drop 2 argv) (builtin_type (nodes m n)) (st\<lparr>tab := m\<rparr>)
          else Inl Out_of_bounds)"
  by pat_completeness auto
termination
  by (relation "measure (\<lambda>x. case x of Inl (Inl (E, argv, td, st)) \<Rightarrow> 3 * length argv + 2
      | Inl (Inr (E, argv, td, st)) \<Rightarrow> 3 * length argv + 1
      | Inr (Inl (E, argv, st)) \<Rightarrow> 3 * length argv | Inr (Inr (E, argv, st)) \<Rightarrow> 3 * length argv)")
     (auto simp: adjust_argv_def)

declare eval_call.simps [simp del] expand_builtin.simps [simp del] doindir.simps [simp del] dobuiltin.simps [simp del]

section \<open>The texts that built-ins put before the input\<close>

definition int_text :: "int \<Rightarrow> c_string" where
  "int_text n = num_text 10 0 n"

definition quoted :: "quotes \<Rightarrow> c_string \<Rightarrow> c_string" where
  "quoted q s = lquote q @ s @ rquote q"

fun ifelse_text :: "c_string list \<Rightarrow> c_string" where
  "ifelse_text [a, b, c] = (if a = b then c else [])"
| "ifelse_text [a, b, c, e] = (if a = b then c else e)"
| "ifelse_text (a # b # c # rest) = (if a = b then c else ifelse_text rest)"
| "ifelse_text as = []"

definition index_text :: "c_string \<Rightarrow> c_string \<Rightarrow> int" where
  "index_text s t = (case List.find (\<lambda>k. take (length t) (drop k s) = t) [0..<Suc (length s)] of None \<Rightarrow> - 1 | Some k \<Rightarrow> int k)"

definition defn_text :: "eval_state \<Rightarrow> c_string \<Rightarrow> c_string" where
  "defn_text st n =
     (case view (tab st) n of
        [] \<Rightarrow> []
      | (t, ty) # _ \<Rightarrow> if ty AND TYPEMASK = MACROTYPE then quoted (quo st) t else BUILTIN_MARKER @ t)"

definition substr_text :: "c_string list \<Rightarrow> c_string m4_result" where
  "substr_text as =
     (let off = atoi (arg_of as 1); s = as ! 0 in
      if off < 0 \<or> off > int (length s) then Inl Out_of_bounds
      else Inr (filter (\<lambda>c. c \<noteq> - 1) (take (if length as > 2 then nat (atoi (arg_of as 2)) else length s) (drop (nat off) s))))"

text \<open>The built-ins whose only effect is a text; \<open>as\<close> are the arguments.\<close>

definition builtin_text :: "m4_env \<Rightarrow> eval_state \<Rightarrow> c_string \<Rightarrow> c_string list \<Rightarrow> u32 \<Rightarrow> c_string m4_result option" where
  "builtin_text E st name as ty =
     (if ty = LENTYPE then Some (Inr (int_text (int (length (arg_of as 0)))))
      else if ty = INCRTYPE then Some (if as = [] then Inr [] else map_sum id (\<lambda>n. int_text (n + 1)) (number (arg_of as 0) INT_MIN (INT_MAX - 1)))
      else if ty = DECRTYPE then Some (if as = [] then Inr [] else map_sum id (\<lambda>n. int_text (n - 1)) (number (arg_of as 0) (INT_MIN + 1) INT_MAX))
      else if ty = IFELSETYPE then Some (Inr (ifelse_text as))
      else if ty = IFDEFTYPE then
        Some (Inr (if length as < 2 then [] else if view (tab st) (arg_of as 0) \<noteq> [] then arg_of as 1 else arg_of as 2))
      else if ty = SUBSTRTYPE then Some (if length as < 2 then Inr [] else substr_text as)
      else if ty = SHIFTTYPE then Some (Inr (separated (map (quoted (quo st)) (drop 1 as))))
      else if ty = INDEXTYPE then Some (Inr (int_text (if length as < 2 then - 1 else index_text (arg_of as 0) (arg_of as 1))))
      else if ty = TRANSLITTYPE then
        Some (Inr (if length as < 2 then arg_of as 0
          else concat (map (translit_char (translit_set (mimic_gnu E) (arg_of as 1)) (translit_set (mimic_gnu E) (arg_of as 2))) (arg_of as 0))))
      else if ty = DEFNTYPE then Some (Inr (concat (map (defn_text st) as)))
      else if ty = DIVNUMTYPE then Some (Inr (int_text (sint (oindex (dvs st)))))
      else if ty = SYSVALTYPE then Some (Inr (int_text (sint (sysval st))))
      else if ty = SELFTYPE then Some (Inr (quoted (quo st) name))
      else if ty = EVALTYPE then
        Some (err_bind (if length as > 1 \<and> arg_of as 1 \<noteq> [] then number (arg_of as 1) 2 36 else Inr 10) (\<lambda>base.
          err_bind (if length as > 2 then number (arg_of as 2) 0 INT_MAX else Inr 0) (\<lambda>m.
          if as = [] then Inr [] else map_sum id (\<lambda>v. num_text (nat base) (nat m) (sint v)) (expr E (arg_of as 0)))))
      else None)"

definition st_ok :: "eval_state \<Rightarrow> bool" where
  "st_ok st \<longleftrightarrow> buf_ok (inp st) \<and> m4_ok (tab st) \<and> mapvec st = id"

text \<open>The text is put before the input and nothing else changes but the layout of the table.\<close>

definition feeds :: "eval_state \<Rightarrow> c_string \<Rightarrow> eval_result \<Rightarrow> bool" where
  "feeds st s r \<longleftrightarrow> (\<exists>i m. r = Inr (st\<lparr>inp := i, tab := m\<rparr>) \<and> fed (inp st) s i \<and> m4_ok m \<and>
     view m = view (tab st) \<and> btype m = btype (tab st) \<and> calls m = calls (tab st) \<and> freed m = freed (tab st))"

definition answers :: "eval_state \<Rightarrow> c_string m4_result \<Rightarrow> eval_result \<Rightarrow> bool" where
  "answers st t r \<longleftrightarrow> (case t of Inl e \<Rightarrow> r = Inl e | Inr s \<Rightarrow> feeds st s r)"

lemma feeds_on_input:
  assumes "st_ok st" "\<exists>i. f (inp st) = Inr i \<and> fed (inp st) s i"
  shows "feeds st s (on_input f st)"
proof -
  obtain i where "f (inp st) = Inr i" "fed (inp st) s i" using assms(2) by blast
  then show ?thesis using assms(1) unfolding feeds_def by (intro exI [of _ i] exI [of _ "tab st"]) (simp add: on_input_def st_ok_def)
qed

lemma feeds_Nil: "st_ok st \<Longrightarrow> feeds st [] (Inr st)"
  unfolding feeds_def st_ok_def by (intro exI [of _ "inp st"] exI [of _ "tab st"]) (simp add: fed_Nil)

lemma feeds_ok: "st_ok st \<Longrightarrow> feeds st s (Inr st') \<Longrightarrow> st_ok st'"
  by (auto simp: feeds_def st_ok_def fed_def)

lemma feeds_bind:
  assumes "feeds st s r" "\<And>i m. r = Inr (st\<lparr>inp := i, tab := m\<rparr>) \<Longrightarrow> view m = view (tab st) \<Longrightarrow> feeds (st\<lparr>inp := i, tab := m\<rparr>) t (f (st\<lparr>inp := i, tab := m\<rparr>))"
  shows "feeds st (t @ s) (err_bind r f)"
proof -
  obtain i m where r: "r = Inr (st\<lparr>inp := i, tab := m\<rparr>)" "fed (inp st) s i" "m4_ok m"
    "view m = view (tab st)" "btype m = btype (tab st)" "calls m = calls (tab st)" "freed m = freed (tab st)"
    using assms(1) by (auto simp: feeds_def)
  obtain i' m' where f: "f (st\<lparr>inp := i, tab := m\<rparr>) = Inr (st\<lparr>inp := i', tab := m'\<rparr>)" "fed i t i'" "m4_ok m'"
    "view m' = view m" "btype m' = btype m" "calls m' = calls m" "freed m' = freed m"
    using assms(2) [OF r(1,4)] by (auto simp: feeds_def)
  then show ?thesis
    using r fed_trans [OF r(2) f(2)] unfolding feeds_def by (intro exI [of _ i'] exI [of _ m']) simp
qed

lemma sint_small: "- (2 ^ 31) \<le> n \<Longrightarrow> n < 2 ^ 31 \<Longrightarrow> sint (of_int n :: u32) = n"
  by (simp add: signed_of_int signed_take_bit_int_eq_self)

lemma pbnum_feeds:
  assumes "st_ok st" "INT_MIN \<le> n" "n \<le> INT_MAX"
  shows "feeds st (int_text n) (on_input (pbnum H (of_int n)) st)"
proof (rule feeds_on_input [OF assms(1)])
  have "sint (of_int n :: u32) = n" using assms(2,3) by (intro sint_small) simp_all
  then show "\<exists>i. pbnum H (of_int n) (inp st) = Inr i \<and> fed (inp st) (int_text n) i"
    using pbnumbase_effect [of 10 "inp st" H "of_int n" 0] assms(1) by (simp add: st_ok_def pbnum_def int_text_def)
qed

lemma pbnum_word_feeds: "st_ok st \<Longrightarrow> feeds st (int_text (sint w)) (on_input (pbnum H w) st)"
  using pbnumbase_effect [of 10 "inp st" H w 0]
  by (intro feeds_on_input) (simp_all add: st_ok_def pbnum_def int_text_def)

lemma pbstr_feeds: "st_ok st \<Longrightarrow> feeds st s (on_input (pbstr H s) st)"
  using pbstr_effect [of "inp st" H s] by (intro feeds_on_input) (simp_all add: st_ok_def)

lemma quoted_feeds: "st_ok st \<Longrightarrow> feeds st (quoted q s) (on_input (push_quoted H q s) st)"
  using push_quoted_effect [of "inp st" H q s] by (intro feeds_on_input) (simp_all add: st_ok_def quoted_def)

lemma with_definition_feeds:
  assumes ok: "st_ok st"
    and f: "\<And>r m. m4_ok m \<Longrightarrow> view m = view (tab st) \<Longrightarrow>
      map_option (\<lambda>r. (str_of (defn r), mtype r)) r = (if view (tab st) n = [] then None else Some (hd (view (tab st) n))) \<Longrightarrow>
      feeds (st\<lparr>tab := m\<rparr>) s (f r (st\<lparr>tab := m\<rparr>))"
  shows "feeds st s (with_definition n f st)"
proof -
  have tab: "m4_ok (tab st)" using ok by (simp add: st_ok_def)
  obtain m1 where m1: "lookup n (tab st) = Some (if known (tab st) n then Some n else None, m1)" "m4_ok m1"
    "m1 = (tab st)\<lparr>macros := macros m1\<rparr>" "abs_ohash (\<lambda>e. e) (macros m1) = abs_ohash (\<lambda>e. e) (macros (tab st))"
    using lookup_ok [OF tab] .
  note mo = macros_only [OF m1(3)]
  let ?r = "case d (nodes (tab st) n) of [] \<Rightarrow> None | r # rs \<Rightarrow> Some r"
  have "lookup_macro_definition n (tab st) = Some (?r, m1)"
    using m1(1) unknown_view [OF tab, of n] by (cases "known (tab st) n") (simp_all add: lookup_macro_definition_def mo(1))
  then have w: "with_definition n f st = f ?r (st\<lparr>tab := m1\<rparr>)" by (simp add: with_definition_def)
  have "map_option (\<lambda>r. (str_of (defn r), mtype r)) ?r = (if view (tab st) n = [] then None else Some (hd (view (tab st) n)))"
    by (simp add: view_def split: list.split)
  from f [OF m1(2) mo(4) this] show ?thesis unfolding w feeds_def by (simp add: mo(2-5))
qed

lemma number_bounds: "number s lo hi = Inr n \<Longrightarrow> lo \<le> n \<and> n \<le> hi"
  by (auto simp: number_def strtonum_def split: prod.splits if_splits)

lemma doifelse_effect: "buf_ok i \<Longrightarrow> \<exists>i'. doifelse H as i = Inr i' \<and> fed i (ifelse_text as) i'"
proof (induction "as" rule: ifelse_text.induct)
  case (3 a b c e f rest)
  then show ?case using pbstr_effect [of i H c] by simp
qed (use pbstr_effect [of i H] in \<open>simp_all add: fed_Nil\<close>)

lemma push_chars_effect: "buf_ok i \<Longrightarrow> \<exists>i'. push_chars H cs i = Inr i' \<and> fed i (rev (filter (\<lambda>c. c \<noteq> - 1) cs)) i'"
proof (induction cs arbitrary: i)
  case (Cons c cs)
  show ?case
  proof (cases "c = - 1")
    case True
    then show ?thesis using Cons by (simp add: pushback_def)
  next
    case False
    obtain i1 where i1: "pushback H (Some c) i = Inr i1" "fed i [c] i1" using pushback_effect [OF Cons.prems] by blast
    obtain i' where "push_chars H cs i1 = Inr i'" "fed i1 (rev (filter (\<lambda>c. c \<noteq> - 1) cs)) i'"
      using Cons.IH [OF fed_ok [OF i1(2)]] by blast
    then show ?thesis using False i1(1) fed_trans [OF i1(2)] by auto
  qed
qed (simp add: fed_Nil)

lemma substr_answers:
  assumes "st_ok st" "length as \<ge> 2"
  shows "answers st (substr_text as) (on_input (dosubstr H (df # nm # as)) st)"
proof -
  let ?s = "as ! 0" and ?off = "atoi (as ! 1)" and ?n = "atoi (as ! 2)"
  have n: "(df # nm # as) ! 2 = ?s" "(df # nm # as) ! 3 = as ! 1" "(df # nm # as) ! 4 = as ! 2"
    by (simp_all add: numeral_2_eq_2 numeral_3_eq_3 numeral_eq_Suc)
  have arg: "arg_of as 1 = as ! 1" "length as > 2 \<Longrightarrow> arg_of as 2 = as ! 2" using assms(2) by (simp_all add: arg_of_def)
  note arg = arg [unfolded One_nat_def]
  show ?thesis
  proof (cases "?off < 0 \<or> ?off > int (length ?s)")
    case True
    then show ?thesis by (simp add: answers_def substr_text_def arg on_input_def dosubstr_def n Let_def)
  next
    case False
    let ?fc = "drop (nat ?off) ?s"
    let ?nc = "if length as > 2 then min (int (length ?fc)) ?n else int (length ?fc)"
    have t: "take (nat ?nc) ?fc = take (if length as > 2 then nat ?n else length ?s) ?fc"
      by (auto simp: min_def nat_le_iff)
    have "dosubstr H (df # nm # as) (inp st) = (if ?fc \<noteq> [] then push_chars H (rev (take (nat ?nc) ?fc)) (inp st) else Inr (inp st))"
      using False by (simp add: dosubstr_def n Let_def)
    also have "\<dots> = push_chars H (rev (take (nat ?nc) ?fc)) (inp st)" by simp
    finally have "feeds st (filter (\<lambda>c. c \<noteq> - 1) (take (nat ?nc) ?fc)) (on_input (dosubstr H (df # nm # as)) st)"
      using push_chars_effect [of "inp st" H "rev (take (nat ?nc) ?fc)"] assms(1)
      by (intro feeds_on_input) (simp_all add: st_ok_def rev_filter)
    then show ?thesis unfolding t using False arg by (cases "length as > 2") (simp_all add: answers_def substr_text_def Let_def)
  qed
qed

lemma doindex_index: "doindex s t = index_text s t"
proof (induction s)
  case (Cons c s)
  have "[0..<Suc (Suc (length s))] = 0 # map Suc [0..<Suc (length s)]" by (simp add: map_Suc_upt upt_conv_Cons del: upt_Suc)
  moreover have "List.find P (map Suc xs) = map_option Suc (List.find (P \<circ> Suc) xs)" for P xs by (induction xs) auto
  ultimately have "index_text (c # s) t = (if take (length t) (c # s) = t then 0
      else case List.find (\<lambda>k. take (length t) (drop k s) = t) [0..<Suc (length s)] of None \<Rightarrow> - 1 | Some k \<Rightarrow> int k + 1)"
    by (auto simp: index_text_def o_def split: option.split simp del: upt_Suc)
  then show ?case using Cons by (auto simp: index_text_def Let_def split: option.splits simp del: upt_Suc)
qed (auto simp: index_text_def)

lemma index_bounds: "- 1 \<le> index_text s t \<and> index_text s t \<le> int (length s)"
proof (cases "List.find (\<lambda>k. take (length t) (drop k s) = t) [0..<Suc (length s)]")
  case (Some k)
  then have "k \<in> set [0..<Suc (length s)]" by (metis find_Some_iff nth_mem)
  then show ?thesis using Some by (simp add: index_text_def del: upt_Suc)
qed (simp add: index_text_def del: upt_Suc)

lemma dodefn_feeds:
  assumes "st_ok st"
  shows "feeds st (defn_text st n) (dodefn H n st)"
  unfolding dodefn_def
proof (rule with_definition_feeds [OF assms])
  fix r m assume m: "m4_ok m" "view m = view (tab st)"
    "map_option (\<lambda>r. (str_of (defn r), mtype r)) r = (if view (tab st) n = [] then None else Some (hd (view (tab st) n)))"
  let ?st = "st\<lparr>tab := m\<rparr>"
  have ok: "st_ok ?st" using assms m(1) by (simp add: st_ok_def)
  show "feeds ?st (defn_text st n) (case r of None \<Rightarrow> Inr ?st
       | Some p \<Rightarrow> if mtype p AND TYPEMASK = MACROTYPE then on_input (push_quoted H (quo ?st) (str_of (defn p))) ?st
           else on_input (\<lambda>i. err_bind (pbstr H (str_of (defn p)) i) (pbstr H BUILTIN_MARKER)) ?st)"
  proof (cases "view (tab st) n")
    case Nil
    then show ?thesis using m(3) feeds_Nil [OF ok] by (simp add: defn_text_def)
  next
    case (Cons x xs)
    then obtain p where p: "r = Some p" "x = (str_of (defn p), mtype p)" using m(3) by (cases r) auto
    have "\<exists>i. err_bind (pbstr H (str_of (defn p)) (inp ?st)) (pbstr H BUILTIN_MARKER) = Inr i \<and>
        fed (inp ?st) (BUILTIN_MARKER @ str_of (defn p)) i"
    proof -
      have "buf_ok (inp ?st)" using ok by (simp add: st_ok_def)
      then obtain i1 where i1: "pbstr H (str_of (defn p)) (inp ?st) = Inr i1" "fed (inp ?st) (str_of (defn p)) i1"
        using pbstr_effect by blast
      obtain i2 where "pbstr H BUILTIN_MARKER i1 = Inr i2" "fed i1 BUILTIN_MARKER i2" using pbstr_effect [OF fed_ok [OF i1(2)]] by blast
      then show ?thesis using i1(1) fed_trans [OF i1(2)] by auto
    qed
    then have "feeds ?st (BUILTIN_MARKER @ str_of (defn p))
        (on_input (\<lambda>i. err_bind (pbstr H (str_of (defn p)) i) (pbstr H BUILTIN_MARKER)) ?st)"
      by (rule feeds_on_input [OF ok])
    with quoted_feeds [OF ok, of "quo ?st" "str_of (defn p)" H]
    show ?thesis using p Cons by (simp add: defn_text_def)
  qed
qed

lemma defns_feed: "st_ok st \<Longrightarrow> feeds st (concat (map (defn_text st) (rev ns))) (each (dodefn H) ns st)"
proof (induction ns arbitrary: st)
  case (Cons n ns)
  have "feeds st (concat (map (defn_text st) (rev ns)) @ defn_text st n) (err_bind (dodefn H n st) (each (dodefn H) ns))"
  proof (rule feeds_bind [OF dodefn_feeds [OF Cons.prems]])
    fix i m assume r: "dodefn H n st = Inr (st\<lparr>inp := i, tab := m\<rparr>)" "view m = view (tab st)"
    have "st_ok (st\<lparr>inp := i, tab := m\<rparr>)" using feeds_ok [OF Cons.prems] dodefn_feeds [OF Cons.prems, of n H] r(1) by metis
    moreover have "defn_text (st\<lparr>inp := i, tab := m\<rparr>) = defn_text st" by (simp add: r(2) defn_text_def fun_eq_iff split: list.split)
    ultimately show "feeds (st\<lparr>inp := i, tab := m\<rparr>) (concat (map (defn_text st) (rev ns))) (each (dodefn H) ns (st\<lparr>inp := i, tab := m\<rparr>))"
      using Cons.IH by metis
  qed
  then show ?case by simp
qed (simp add: feeds_Nil)

lemma shift_feeds:
  assumes "st_ok st"
  shows "feeds st (separated (map (quoted q) as)) (on_input (push_args H (push_quoted H q) (rev as)) st)"
proof (rule feeds_on_input [OF assms])
  have "\<exists>st'. push_args H (push_quoted H q) (rev as) (inp st) = Inr st' \<and> fed (inp st) (separated (map (quoted q) (rev (rev as)))) st'"
    by (rule push_args_effect) (use assms push_quoted_effect in \<open>simp_all add: quoted_def st_ok_def\<close>)
  then show "\<exists>i. push_args H (push_quoted H q) (rev as) (inp st) = Inr i \<and> fed (inp st) (separated (map (quoted q) as)) i" by simp
qed

lemma arg_of_call [simp]:
  "arg_of (df # nm # as) 2 = arg_of as 0" "arg_of (df # nm # as) 3 = arg_of as 1"
  "arg_of (df # nm # as) 4 = arg_of as 2" "arg_of (df # nm # as) 1 = nm" "arg_of (df # nm # as) (Suc 0) = nm"
  by (simp_all add: arg_of_def numeral_eq_Suc)

lemma answers_Inr [simp]: "answers st (Inr s) r = feeds st s r" and answers_Inl [simp]: "answers st (Inl e) r = (r = Inl e)"
  by (simp_all add: answers_def)

lemma number_answers:
  assumes "\<And>n. lo \<le> n \<Longrightarrow> n \<le> hi \<Longrightarrow> feeds st (f n) (g n)"
  shows "answers st (map_sum id f (number s lo hi)) (err_bind (number s lo hi) g)"
  using number_bounds [of s lo hi] assms by (cases "number s lo hi") auto

definition small_args :: "c_string list \<Rightarrow> bool" where
  "small_args as \<longleftrightarrow> (\<forall>a \<in> set as. length a < 2 ^ 31 \<and> 0 \<notin> set a)"

lemma small_arg: "small_args as \<Longrightarrow> length (arg_of as n) < 2 ^ 31 \<and> 0 \<notin> set (arg_of as n)"
  by (auto simp: small_args_def arg_of_def)

lemma len_feeds:
  assumes "st_ok st" "length s < 2 ^ 31"
  shows "feeds st (int_text (int (length s))) (on_input (pbnum H (of_nat (length s))) st)"
  using pbnum_feeds [OF assms(1), of "int (length s)" H] assms(2) by simp

lemma ifdef_feeds:
  assumes ok: "st_ok st" and b: "b \<or> t = []"
  shows "feeds st (if view (tab st) n \<noteq> [] then s else t)
    (with_definition n (\<lambda>r st. if r \<noteq> None then on_input (pbstr H s) st else if b then on_input (pbstr H t) st else Inr st) st)"
proof (rule with_definition_feeds [OF ok])
  fix r m assume m: "m4_ok m" "view m = view (tab st)"
    "map_option (\<lambda>r. (str_of (defn r), mtype r)) r = (if view (tab st) n = [] then None else Some (hd (view (tab st) n)))"
  have ok': "st_ok (st\<lparr>tab := m\<rparr>)" using ok m(1) by (simp add: st_ok_def)
  have r: "r = None \<longleftrightarrow> view (tab st) n = []" using m(3) by (cases r) (simp_all split: if_splits)
  show "feeds (st\<lparr>tab := m\<rparr>) (if view (tab st) n \<noteq> [] then s else t)
     (if r \<noteq> None then on_input (pbstr H s) (st\<lparr>tab := m\<rparr>) else if b then on_input (pbstr H t) (st\<lparr>tab := m\<rparr>) else Inr (st\<lparr>tab := m\<rparr>))"
    using b r pbstr_feeds [OF ok'] feeds_Nil [OF ok'] by auto
qed

lemma translit_feeds:
  assumes "st_ok st" "small_args as"
  shows "feeds st (concat (map (translit_char (translit_set gnu (arg_of as 1)) (translit_set gnu (arg_of as 2))) (arg_of as 0)))
    (err_bind (m4_map gnu (arg_of as 0) (arg_of as 1) (arg_of as 2) (mapvec st)) (\<lambda>(s, vec). on_input (pbstr H s) (st\<lparr>mapvec := vec\<rparr>)))"
proof -
  let ?s = "concat (map (translit_char (translit_set gnu (arg_of as 1)) (translit_set gnu (arg_of as 2))) (arg_of as 0))"
  have id: "mapvec st = id" using assms(1) by (simp add: st_ok_def)
  then have same: "st\<lparr>mapvec := id\<rparr> = st" by simp
  have "m4_map gnu (arg_of as 0) (arg_of as 1) (arg_of as 2) id = Inr (?s, id)"
    using small_arg [OF assms(2)] m4_map_effect by blast
  then have "err_bind (m4_map gnu (arg_of as 0) (arg_of as 1) (arg_of as 2) (mapvec st)) (\<lambda>(s, vec). on_input (pbstr H s) (st\<lparr>mapvec := vec\<rparr>)) =
      on_input (pbstr H ?s) (st\<lparr>mapvec := id\<rparr>)"
    unfolding id by simp
  then show ?thesis using pbstr_feeds [OF assms(1), of ?s H] unfolding same by simp
qed

lemma eval_answers:
  assumes ok: "st_ok st"
  shows "answers st (err_bind (if length as > 1 \<and> arg_of as 1 \<noteq> [] then number (arg_of as 1) 2 36 else Inr 10) (\<lambda>base.
      err_bind (if length as > 2 then number (arg_of as 2) 0 INT_MAX else Inr 0) (\<lambda>m.
      if as = [] then Inr [] else map_sum id (\<lambda>v. num_text (nat base) (nat m) (sint v)) (expr E (arg_of as 0)))))
    (err_bind (if length as > 1 \<and> arg_of as 1 \<noteq> [] then number (arg_of as 1) 2 36 else Inr 10) (\<lambda>base.
      err_bind (if length as > 2 then number (arg_of as 2) 0 INT_MAX else Inr 0) (\<lambda>m.
      if as \<noteq> [] then err_bind (expr E (arg_of as 0)) (\<lambda>v. on_input (pbnumbase H v base m) st) else Inr st)))"
proof -
  have fin: "answers st (if as = [] then Inr [] else map_sum id (\<lambda>v. num_text (nat base) (nat m) (sint v)) (expr E (arg_of as 0)))
      (if as \<noteq> [] then err_bind (expr E (arg_of as 0)) (\<lambda>v. on_input (pbnumbase H v base m) st) else Inr st)"
    if "2 \<le> base" "base \<le> 36" for base m
  proof -
    have "feeds st (num_text (nat base) (nat m) (sint v)) (on_input (pbnumbase H v base m) st)" for v
      using pbnumbase_effect [OF that, of "inp st" H v m] ok by (intro feeds_on_input) (simp_all add: st_ok_def)
    then show ?thesis using feeds_Nil [OF ok] by (cases "expr E (arg_of as 0)") auto
  qed
  define r1 where "r1 = (if length as > 1 \<and> arg_of as 1 \<noteq> [] then number (arg_of as 1) 2 36 else Inr 10)"
  define r2 where "r2 = (if length as > 2 then number (arg_of as 2) 0 INT_MAX else Inr 0)"
  have "2 \<le> b \<and> b \<le> 36" if "r1 = Inr b" for b
    using that number_bounds [of "arg_of as 1" 2 36 b] by (auto simp: r1_def split: if_splits)
  then show ?thesis using fin unfolding r1_def [symmetric] r2_def [symmetric] by (cases r1; cases r2) auto
qed

lemma builtin_case_answers:
  assumes ok: "st_ok st" and sm: "small_args as" and t: "builtin_text E st nm as ty = Some t"
  shows "answers st t (builtin_case E full (df # nm # as) ty st)"
proof -
  have nil: "as = [] \<Longrightarrow> arg_of as n = []" for n by (simp add: arg_of_def)
  consider "ty = LENTYPE" | "ty = INCRTYPE" | "ty = DECRTYPE" | "ty = IFELSETYPE" | "ty = IFDEFTYPE" | "ty = SUBSTRTYPE"
    | "ty = SHIFTTYPE" | "ty = INDEXTYPE" | "ty = TRANSLITTYPE" | "ty = DEFNTYPE" | "ty = DIVNUMTYPE" | "ty = SYSVALTYPE"
    | "ty = SELFTYPE" | "ty = EVALTYPE"
    using t unfolding builtin_text_def by (auto split: if_splits)
  then show ?thesis
  proof cases
    case 1
    then show ?thesis
      using t len_feeds [OF ok, of "arg_of as 0" "heap E"] small_arg [OF sm, of 0] nil [of 0]
      by (auto simp: builtin_text_def builtin_case_def Let_def)
  next
    case 2
    have "answers st (map_sum id (\<lambda>n. int_text (n + 1)) (number (arg_of as 0) INT_MIN (INT_MAX - 1)))
        (err_bind (number (arg_of as 0) INT_MIN (INT_MAX - 1)) (\<lambda>n. on_input (pbnum (heap E) (of_int (n + 1))) st))"
      by (rule number_answers, rule pbnum_feeds [OF ok]) auto
    then show ?thesis using 2 t feeds_Nil [OF ok] by (cases "as = []") (auto simp: builtin_text_def builtin_case_def Let_def)
  next
    case 3
    have "answers st (map_sum id (\<lambda>n. int_text (n - 1)) (number (arg_of as 0) (INT_MIN + 1) INT_MAX))
        (err_bind (number (arg_of as 0) (INT_MIN + 1) INT_MAX) (\<lambda>n. on_input (pbnum (heap E) (of_int (n - 1))) st))"
      by (rule number_answers, rule pbnum_feeds [OF ok]) auto
    then show ?thesis using 3 t feeds_Nil [OF ok] by (cases "as = []") (auto simp: builtin_text_def builtin_case_def Let_def)
  next
    case 4
    have "feeds st (ifelse_text as) (on_input (doifelse (heap E) as) st)"
      by (rule feeds_on_input [OF ok], rule doifelse_effect) (use ok in \<open>simp add: st_ok_def\<close>)
    then show ?thesis using 4 t by (auto simp: builtin_text_def builtin_case_def Let_def)
  next
    case 5
    have "length as \<ge> 2 \<Longrightarrow> feeds st (if view (tab st) (arg_of as 0) \<noteq> [] then arg_of as 1 else arg_of as 2)
        (with_definition (arg_of as 0) (\<lambda>r st. if r \<noteq> None then on_input (pbstr (heap E) (arg_of as 1)) st
          else if length as > 2 then on_input (pbstr (heap E) (arg_of as 2)) st else Inr st) st)"
      by (rule ifdef_feeds [OF ok]) (auto simp: arg_of_def)
    moreover have "builtin_case E full (df # nm # as) ty st =
        (if length as \<ge> 2 then with_definition (arg_of as 0) (\<lambda>r st. if r \<noteq> None then on_input (pbstr (heap E) (arg_of as 1)) st
          else if length as > 2 then on_input (pbstr (heap E) (arg_of as 2)) st else Inr st) st else Inr st)"
    proof -
      have n: "length (df # nm # as) > 3 \<longleftrightarrow> length as \<ge> 2" "length (df # nm # as) > 4 \<longleftrightarrow> length as > 2" by auto
      show ?thesis unfolding builtin_case_def Let_def n arg_of_call 5 by simp
    qed
    ultimately show ?thesis using 5 t feeds_Nil [OF ok]
      by (cases "length as < 2") (auto simp: builtin_text_def)
  next
    case 6
    then show ?thesis using t feeds_Nil [OF ok] substr_answers [OF ok, of as "heap E" df nm]
      by (cases "length as < 2") (auto simp: builtin_text_def builtin_case_def Let_def)
  next
    case 7
    have "drop 3 (df # nm # as) = drop 1 as" by (simp add: numeral_eq_Suc)
    then show ?thesis using 7 t shift_feeds [OF ok, of "quo st" "drop 1 as" "heap E"]
      by (auto simp: builtin_text_def builtin_case_def Let_def)
  next
    case 8
    have "feeds st (int_text (if length as < 2 then - 1 else index_text (arg_of as 0) (arg_of as 1)))
        (on_input (pbnum (heap E) (of_int (if length as < 2 then - 1 else index_text (arg_of as 0) (arg_of as 1)))) st)"
      by (rule pbnum_feeds [OF ok]) (use small_arg [OF sm, of 0] index_bounds [of "arg_of as 0" "arg_of as 1"] in auto)
    then show ?thesis using 8 t
      by (cases "length as < 2") (auto simp: builtin_text_def builtin_case_def Let_def doindex_index)
  next
    case 9
    then show ?thesis using t feeds_Nil [OF ok] nil [of 0] pbstr_feeds [OF ok, of "arg_of as 0" "heap E"]
        translit_feeds [OF ok sm, of "mimic_gnu E" "heap E"]
      by (cases "length as < 2"; cases "as = []") (auto simp: builtin_text_def builtin_case_def Let_def)
  next
    case 10
    then show ?thesis using t defns_feed [OF ok, of "rev as" "heap E"] by (auto simp: builtin_text_def builtin_case_def Let_def)
  next
    case 11
    then show ?thesis using t pbnum_word_feeds [OF ok, of "oindex (dvs st)" "heap E"]
      by (auto simp: builtin_text_def builtin_case_def Let_def)
  next
    case 12
    then show ?thesis using t pbnum_word_feeds [OF ok, of "sysval st" "heap E"]
      by (auto simp: builtin_text_def builtin_case_def Let_def)
  next
    case 13
    then show ?thesis using t quoted_feeds [OF ok, of "quo st" nm "heap E"]
      by (auto simp: builtin_text_def builtin_case_def Let_def)
  next
    case 14
    then show ?thesis using t eval_answers [OF ok, of as E "heap E"]
      by (cases "as = []") (auto simp: builtin_text_def builtin_case_def Let_def)
  qed
qed

end
