(* ===== verification/M4_Eval.thy ===== *)
theory M4_Eval
  imports M4_Builtin
begin

text \<open>
  What calls of macros do in \<open>m4\<close>: \<open>eval\<close> of \<open>src/src.freebsd/m4/eval.c\<close> against reference texts, and the
  invariant of the interpreter that every call keeps.
\<close>

text \<open>What is left of the arguments when a single empty one was dropped.\<close>

definition given :: "bool \<Rightarrow> c_string list \<Rightarrow> c_string list" where
  "given gnu as = (if as = [[]] \<and> \<not> gnu then [] else as)"

lemma adjust_given: "adjust_argv gnu (df # nm # as) = df # nm # given gnu as"
  by (cases "as") (auto simp: adjust_argv_def given_def numeral_2_eq_2)

lemma text_types:
  "builtin_text E st nm as ty = Some t \<Longrightarrow> ty \<noteq> INDIRTYPE \<and> ty \<noteq> BUILTINTYPE"
  by (auto simp: builtin_text_def split: if_splits)

lemma small_given: "small_args as \<Longrightarrow> small_args (given gnu as)"
  by (simp add: small_args_def given_def)

lemma eval_call_text:
  assumes "st_ok st" "small_args as" "td AND RECDEF = 0" "td \<noteq> MACROTYPE"
    "builtin_text E st nm (given (mimic_gnu E) as) (td AND TYPEMASK) = Some t"
  shows "answers st t (eval_call E (df # nm # as) td st)"
  using builtin_case_answers [OF assms(1) small_given [OF assms(2)] assms(5), of "df # nm # as" df] text_types [OF assms(5)] assms(3,4)
  by (simp add: eval_call.simps expand_builtin.simps adjust_given Let_def)

section \<open>The invariant\<close>

definition dvs_ok :: "diversions \<Rightarrow> bool" where
  "dvs_ok dv \<longleftrightarrow> outfile dv \<noteq> [] \<and> (\<forall>k. active dv = Some k \<longrightarrow> k < length (outfile dv) \<and> outfile dv ! k \<noteq> None)"

definition eval_ok :: "eval_state \<Rightarrow> bool" where
  "eval_ok st \<longleftrightarrow> st_ok st \<and> dvs_ok (dvs st)"

definition space :: "nat \<Rightarrow> m4 \<Rightarrow> bool" where
  "space k m \<longleftrightarrow> oh_size (macros m) * 2 ^ k \<le> 2 ^ 29"

lemma space_room: "space k m \<Longrightarrow> room m"
proof -
  assume "space k m"
  moreover have "oh_size (macros m) * 1 \<le> oh_size (macros m) * 2 ^ k" by (intro mult_le_mono) simp_all
  ultimately show ?thesis unfolding space_def room_def by linarith
qed

text \<open>The errors that a program may make; all others would be flaws of \<open>m4\<close>.\<close>

definition fair_error :: "bool \<Rightarrow> m4_error \<Rightarrow> bool" where
  "fair_error b e \<longleftrightarrow> e \<notin> {Diverges, No_such_level, Base_too_big, Bad_base} \<and> (e = Out_of_bounds \<longrightarrow> b)"

definition safe :: "bool \<Rightarrow> eval_result \<Rightarrow> bool" where
  "safe b r \<longleftrightarrow> (case r of Inl e \<Rightarrow> fair_error b e | Inr st \<Rightarrow> eval_ok st)"

lemma safe_Inr [simp]: "safe b (Inr st) = eval_ok st" and safe_Inl [simp]: "safe b (Inl e) = fair_error b e"
  by (simp_all add: safe_def)

lemma fair_errors [simp]:
  "fair_error b Null_definition" "fair_error b Recursive_definition" "fair_error b (Bad_number x)" "fair_error b Diversion_active"
  "fair_error b Overflow" "fair_error b Cannot_include" "fair_error b Botch" "fair_error b Undefined_macro" "fair_error b (Exit k)"
  "fair_error b Too_many_files" "fair_error b Out_of_bounds = b"
  by (simp_all add: fair_error_def)

lemma feeds_safe: "eval_ok st \<Longrightarrow> feeds st s r \<Longrightarrow> safe b r"
  by (auto simp: feeds_def eval_ok_def st_ok_def fed_def)

lemma safe_on_input:
  assumes "eval_ok st" "\<exists>i. f (inp st) = Inr i \<and> buf_ok i"
  shows "safe b (on_input f st)"
  using assms by (auto simp: on_input_def eval_ok_def st_ok_def)

lemma safe_bind:
  assumes "safe b r" "\<And>st. r = Inr st \<Longrightarrow> safe b (f st)"
  shows "safe b (err_bind r f)"
  using assms by (cases r) auto

lemma safe_number:
  assumes "\<And>n. lo \<le> n \<Longrightarrow> n \<le> hi \<Longrightarrow> safe b (f n)"
  shows "safe b (err_bind (number s lo hi) f)"
  using number_bounds [of s lo hi] assms by (cases "number s lo hi") (auto simp: number_def map_sum_def split: sum.splits)

lemma safe_on_table:
  assumes "eval_ok st" "\<exists>m. f (tab st) = Some m \<and> m4_ok m"
  shows "safe b (on_table f st)"
  using assms by (auto simp: on_table_def eval_ok_def st_ok_def)

lemma m4_ok_tab: "eval_ok st \<Longrightarrow> m4_ok (tab st)" and buf_ok_inp: "eval_ok st \<Longrightarrow> buf_ok (inp st)"
  and st_ok_eval: "eval_ok st \<Longrightarrow> st_ok st"
  by (simp_all add: eval_ok_def st_ok_def)

lemma safe_each:
  assumes "eval_ok st" "\<And>a st. eval_ok st \<Longrightarrow> safe b (f a st)"
  shows "safe b (each f as st)"
  using assms(1) by (induction "as" arbitrary: st) (auto intro!: safe_bind assms(2), metis assms(2) safe_Inr)

lemma safe_define:
  assumes "eval_ok st" "room (tab st)"
  shows "safe b (dodefine gnu n df st)" "safe b (dopushdef gnu n df st)"
proof -
  note m = m4_ok_tab [OF assms(1)]
  obtain m1 where m1: "macro_define n df (tab st) = Some m1" "m4_ok m1" using define_effect [OF m assms(2)] by metis
  obtain m2 where m2: "macro_pushdef n df (tab st) = Some m2" "m4_ok m2" using pushdef_effect [OF m assms(2)] by metis
  show "safe b (dodefine gnu n df st)" "safe b (dopushdef gnu n df st)"
    using safe_on_table [OF assms(1), of "macro_define n df"] safe_on_table [OF assms(1), of "macro_pushdef n df"] m1 m2
    by (simp_all add: dodefine_def dopushdef_def)
qed

lemma safe_undefine:
  assumes "eval_ok st"
  shows "safe b (on_table (macro_undefine n) st)" "safe b (on_table (macro_popdef n) st)"
proof -
  note m = m4_ok_tab [OF assms]
  obtain m1 where m1: "macro_undefine n (tab st) = Some m1" "m4_ok m1" using undefine_effect [OF m] by metis
  obtain m2 where m2: "macro_popdef n (tab st) = Some m2" "m4_ok m2" using popdef_effect [OF m] by metis
  show "safe b (on_table (macro_undefine n) st)" "safe b (on_table (macro_popdef n) st)"
    using safe_on_table [OF assms] m1 m2 by blast+
qed

lemma safe_with_definition:
  assumes "eval_ok st"
  shows "safe b (with_definition n (\<lambda>r st. Inr st) st)"
proof -
  have "feeds st [] (with_definition n (\<lambda>r st. Inr st) st)"
    by (rule with_definition_feeds) (use assms in \<open>auto simp: eval_ok_def st_ok_def intro!: feeds_Nil\<close>)
  then show ?thesis by (rule feeds_safe [OF assms])
qed

lemma lookup_size:
  assumes "m4_ok m" "lookup n m = Some (p, m1)"
  shows "oh_size (macros m1) = oh_size (macros m)" "m4_ok m1"
proof -
  have "ohash_ok (\<lambda>e. e) (macros m)" using assms(1) by (simp add: m4_ok_def names_ok_def)
  from qlookup_ok [OF this, of n] show "oh_size (macros m1) = oh_size (macros m)"
    using assms(2) by (auto simp: lookup_def)
  obtain m2 where "lookup n m = Some (if known m n then Some n else None, m2)" "m4_ok m2" using lookup_ok [OF assms(1)] by metis
  then show "m4_ok m1" using assms(2) by simp
qed

lemma traced_size:
  assumes "m4_ok m" "space (Suc k) m"
  obtains m' where "mark_traced (Some n) on m = Some m'" "m4_ok m'" "space k m'"
proof -
  obtain m' where m': "mark_traced (Some n) on m = Some m'" "m4_ok m'"
    using trace_effect [OF assms(1) space_room [OF assms(2)]] by metis
  then obtain m1 where m1: "create_entry n m = Some m1" "macros m' = macros m1" by (auto simp: mark_traced_def)
  have "names_ok m" using assms(1) by (simp add: m4_ok_def)
  from create_entry_size [OF this space_room [OF assms(2)] m1(1)] have "oh_size (macros m') * 2 ^ k \<le> 2 * oh_size (macros m) * 2 ^ k"
    unfolding m1(2) by (rule mult_le_mono1)
  also have "\<dots> = oh_size (macros m) * 2 ^ Suc k" by simp
  finally have "space k m'" using assms(2) unfolding space_def by linarith
  then show thesis using that m' by blast
qed

lemma safe_trace_each:
  "eval_ok st \<Longrightarrow> space (length as) (tab st) \<Longrightarrow> safe b (each (\<lambda>a. on_table (mark_traced (Some a) on)) as st)"
proof (induction "as" arbitrary: st)
  case (Cons a "as")
  have "space (Suc (length as)) (tab st)" using Cons.prems(2) by simp
  then obtain m where m: "mark_traced (Some a) on (tab st) = Some m" "m4_ok m" "space (length as) m"
    using traced_size [OF m4_ok_tab [OF Cons.prems(1)]] by metis
  then have "eval_ok (st\<lparr>tab := m\<rparr>)" using Cons.prems(1) by (simp add: eval_ok_def st_ok_def)
  from Cons.IH [OF this] m show ?case by (simp add: on_table_def)
qed simp

lemma safe_trace:
  assumes "eval_ok st" "space (length argv) (tab st)"
  shows "safe b (dotrace argv on st)"
proof -
  have "2 ^ (length argv - 2) \<le> (2 :: nat) ^ length argv" by (rule power_increasing) simp_all
  then have "space (length argv - 2) (tab st)" using assms(2) unfolding space_def by (meson le_trans mult_le_mono2)
  moreover obtain m where "mark_traced None on (tab st) = Some m" "m4_ok m"
    using trace_effect [OF m4_ok_tab [OF assms(1)] space_room [OF assms(2)]] by metis
  ultimately show ?thesis
    using safe_trace_each [OF assms(1), of "drop 2 argv"] safe_on_table [OF assms(1), of "mark_traced None on"]
    by (simp add: dotrace_def)
qed

lemma safe_include: "eval_ok st \<Longrightarrow> safe b (include_file E must a st)"
proof -
  assume ok: "eval_ok st"
  show ?thesis
  proof (cases "ilevel (inp st) + 1 = MAXINP")
    case True
    then show ?thesis by (simp add: include_file_def M4_Buf.doinclude_def)
  next
    case False
    show ?thesis
    proof (cases "fopen_path E a")
      case None
      then show ?thesis using False ok by (auto simp: include_file_def M4_Buf.doinclude_def eval_ok_def st_ok_def)
    next
      case (Some s)
      then show ?thesis using doinclude_effect [OF buf_ok_inp [OF ok] False, of s] ok
        by (auto simp: include_file_def eval_ok_def st_ok_def)
    qed
  qed
qed

lemma dnl_ok: "buf_ok i \<Longrightarrow> \<exists>i'. dnl i = Inr i' \<and> buf_ok i'"
proof (induction i rule: dnl.induct)
  case (1 i)
  obtain c i1 where g: "gpbc i = Inr (c, i1)" "buf_ok i1" using gpbc_effect [OF 1(2)] by blast
  show ?case
  proof (cases c)
    case None
    then show ?thesis using g by (simp add: dnl.simps [of i])
  next
    case (Some x)
    then show ?thesis using g 1(1) [OF g(1) refl Some] by (simp add: dnl.simps [of i])
  qed
qed

lemma pbunsigned_ok: "buf_ok i \<Longrightarrow> \<exists>i'. pbunsigned H n i = Inr i' \<and> buf_ok i'"
proof (induction H n i rule: pbunsigned.induct)
  case (1 H n i)
  obtain i1 where i1: "pushback H (Some (of_nat (n mod 10) + 48)) i = Inr i1" "buf_ok i1"
    using pushback_effect [OF 1(2)] fed_ok by blast
  then show ?case using 1(1) by (cases "n div 10 > 0") (simp_all add: pbunsigned.simps [of H n i])
qed

text \<open>Diversions.\<close>

lemma put_active_ok: "dvs_ok dv \<Longrightarrow> dvs_ok (put_active s dv)" "length (outfile (put_active s dv)) = length (outfile dv)"
  "active (put_active s dv) = active dv"
  by (auto simp: dvs_ok_def put_active_def split: option.split)

lemma dodivert_ok: "dvs_ok dv \<Longrightarrow> dodivert gnu n dv = Inl Overflow \<or> (\<exists>dv'. dodivert gnu n dv = Inr dv' \<and> dvs_ok dv')"
  by (auto simp: dodivert_def dvs_ok_def Let_def resizedivs_def)

lemma getdiv_ok:
  assumes "dvs_ok dv" "n < length (outfile dv)" "outfile dv ! n \<noteq> None"
  shows "getdiv n dv = Inl Diversion_active \<or> (\<exists>dv'. getdiv n dv = Inr dv' \<and> dvs_ok dv')"
  using assms put_active_ok(1) [OF assms(1)] by (auto simp: getdiv_def dvs_ok_def Let_def put_active_ok(2,3))

lemma getdivs_ok: "dvs_ok dv \<Longrightarrow> getdivs ns dv = Inl Diversion_active \<or> (\<exists>dv'. getdivs ns dv = Inr dv' \<and> dvs_ok dv')"
proof (induction ns arbitrary: dv)
  case (Cons n ns)
  show ?case
  proof (cases "n < length (outfile dv) \<and> outfile dv ! n \<noteq> None")
    case True
    then consider "getdiv n dv = Inl Diversion_active" | dv' where "getdiv n dv = Inr dv'" "dvs_ok dv'"
      using getdiv_ok [OF Cons.prems, of n] by blast
    then show ?thesis
    proof cases
      case (2 dv')
      then show ?thesis using Cons.IH [OF 2(2)] True by simp
    qed (use True in simp)
  next
    case False
    then have "getdivs (n # ns) dv = getdivs ns dv" by auto
    then show ?thesis using Cons by simp
  qed
qed simp

lemma undivert_args_ok:
  "dvs_ok dv \<Longrightarrow> undivert_args gnu file as dv = Inl Diversion_active \<or> (\<exists>dv'. undivert_args gnu file as dv = Inr dv' \<and> dvs_ok dv')"
proof (induction "as" arbitrary: dv)
  case (Cons a "as")
  show ?case
  proof (cases "number a 1 INT_MAX")
    case (Inl e)
    have "dvs_ok (if e = Bad_number Invalid \<and> gnu then case file a of None \<Rightarrow> dv | Some s \<Rightarrow> put_active s dv else dv)"
      using Cons.prems put_active_ok(1) by (simp split: option.split)
    then show ?thesis using Cons.IH Inl by simp
  next
    case (Inr n)
    consider "getdivs [nat n] dv = Inl Diversion_active" | dv' where "getdivs [nat n] dv = Inr dv'" "dvs_ok dv'"
      using getdivs_ok [OF Cons.prems, of "[nat n]"] by blast
    then show ?thesis
    proof cases
      case (2 dv')
      then show ?thesis using Cons.IH [OF 2(2)] Inr by (simp del: getdivs.simps)
    qed (use Inr in \<open>simp del: getdivs.simps\<close>)
  qed
qed simp

lemma doundivert_ok:
  "dvs_ok dv \<Longrightarrow> doundivert gnu file argv dv = Inl Diversion_active \<or> (\<exists>dv'. doundivert gnu file argv dv = Inr dv' \<and> dvs_ok dv')"
  unfolding doundivert_def using undivert_args_ok getdivs_ok by simp

lemma safe_dvs:
  assumes "eval_ok st" "(\<exists>e. r = Inl e \<and> fair_error b e) \<or> (\<exists>dv. r = Inr dv \<and> dvs_ok dv)"
  shows "safe b (map_sum id (\<lambda>dv. st\<lparr>dvs := dv\<rparr>) r)"
  using assms by (auto simp: eval_ok_def st_ok_def)

lemma safe_divert:
  assumes "eval_ok st"
  shows "safe b (err_bind (if c then number s INT_MIN INT_MAX else Inr 0) (\<lambda>n.
        if n \<noteq> 0 then map_sum id (\<lambda>dv. st\<lparr>dvs := dv\<rparr>) (dodivert gnu n (dvs st))
        else Inr (st\<lparr>dvs := (dvs st)\<lparr>active := None, oindex := 0\<rparr>\<rparr>)))"
proof -
  have dv: "dvs_ok (dvs st)" using assms by (simp add: eval_ok_def)
  have zero: "eval_ok (st\<lparr>dvs := (dvs st)\<lparr>active := None, oindex := 0\<rparr>\<rparr>)" using assms by (simp add: eval_ok_def st_ok_def dvs_ok_def)
  have n: "safe b (if n \<noteq> 0 then map_sum id (\<lambda>dv. st\<lparr>dvs := dv\<rparr>) (dodivert gnu n (dvs st))
        else Inr (st\<lparr>dvs := (dvs st)\<lparr>active := None, oindex := 0\<rparr>\<rparr>))" for n
    using safe_dvs [OF assms, of "dodivert gnu n (dvs st)" b] dodivert_ok [OF dv, of gnu n] zero by auto
  show ?thesis
  proof (cases c)
    case True
    then show ?thesis using safe_number [of INT_MIN INT_MAX b] n by simp
  next
    case False
    then show ?thesis by (simp only: if_False err_bind_simps) (rule n)
  qed
qed

section \<open>Every built-in keeps the invariant\<close>

text \<open>What the parts outside of the model must do.\<close>

definition fair_env :: "m4_env \<Rightarrow> bool" where
  "fair_env E \<longleftrightarrow> (\<forall>ty argv st. eval_ok st \<longrightarrow> safe False (other E ty argv st)) \<and>
     (\<forall>s e. expr E s = Inl e \<longrightarrow> fair_error False e)"

lemma fair_mono: "fair_error False e \<Longrightarrow> fair_error b e"
  by (simp add: fair_error_def)

lemma safe_mono: "safe False r \<Longrightarrow> safe b r"
  using fair_mono by (auto simp: safe_def split: sum.splits)

lemma answers_safe:
  assumes "eval_ok st" "answers st t r" "\<And>e. t = Inl e \<Longrightarrow> fair_error b e"
  shows "safe b r"
  using assms feeds_safe [OF assms(1)] by (cases t) auto

lemma text_errors:
  assumes "fair_env E" "builtin_text E st nm as ty = Some (Inl e)"
  shows "fair_error (ty = SUBSTRTYPE) e"
proof -
  have num: "number s lo hi = Inl e \<Longrightarrow> fair_error b e" for s lo hi b
    by (auto simp: number_def map_sum_def split: sum.splits)
  have ex: "expr E s = Inl e \<Longrightarrow> fair_error b e" for s b
    using assms(1) fair_mono by (auto simp: fair_env_def)
  show ?thesis
    using assms(2) num ex unfolding builtin_text_def
    by (auto simp: substr_text_def Let_def err_bind_Inl map_sum_def split: if_splits sum.splits)
qed

lemma builtin_case_safe:
  assumes ok: "eval_ok st" and sm: "small_args as" and sp: "space (Suc (Suc (length as))) (tab st)" and E: "fair_env E"
  shows "safe (ty = SUBSTRTYPE) (builtin_case E full (df # nm # as) ty st)"
proof (cases "builtin_text E st nm as ty")
  case (Some t)
  show ?thesis
    by (rule answers_safe [OF ok builtin_case_answers [OF st_ok_eval [OF ok] sm Some]]) (use text_errors [OF E] Some in simp)
next
  case None
  note rm = space_room [OF sp]
  have oth: "safe b (other E ty (df # nm # as) st)" for b using E ok safe_mono by (simp add: fair_env_def)
  have quo: "eval_ok (st\<lparr>quo := q\<rparr>)" "eval_ok (st\<lparr>scommt := s, ecommt := e\<rparr>)" "eval_ok (st\<lparr>wraps := w\<rparr>)" for q s e w
    using ok by (simp_all add: eval_ok_def st_ok_def)
  have ne: "ty \<noteq> SUBSTRTYPE" "ty \<noteq> LENTYPE" "ty \<noteq> INCRTYPE" "ty \<noteq> DECRTYPE" "ty \<noteq> IFELSETYPE" "ty \<noteq> IFDEFTYPE"
    "ty \<noteq> SHIFTTYPE" "ty \<noteq> INDEXTYPE" "ty \<noteq> TRANSLITTYPE" "ty \<noteq> DEFNTYPE" "ty \<noteq> DIVNUMTYPE" "ty \<noteq> SYSVALTYPE" "ty \<noteq> SELFTYPE"
    "ty \<noteq> EVALTYPE"
    using None by (auto simp: builtin_text_def)
  have paste: "safe b (dopaste E must a st)" for b must a
    using ok put_active_ok(1) by (simp add: dopaste_def eval_ok_def st_ok_def split: option.split)
  have line: "safe b (on_input (pbunsigned (heap E) n) st)" "safe b (on_input dnl st)" for b n
    using pbunsigned_ok [OF buf_ok_inp [OF ok]] dnl_ok [OF buf_ok_inp [OF ok]] by (simp_all add: safe_on_input [OF ok])
  have dump: "safe b (dodumpdef (df # nm # as) st)" for b
    unfolding dodumpdef_def by (rule safe_each [OF ok]) (rule safe_with_definition)
  have undef: "safe b (each (\<lambda>a. on_table (macro_undefine a)) (drop 2 (df # nm # as)) st)"
    "safe b (each (\<lambda>a. on_table (macro_popdef a)) (drop 2 (df # nm # as)) st)" for b
    by (rule safe_each [OF ok], rule safe_undefine, assumption)+
  have undiv: "safe b (map_sum id (\<lambda>dv. st\<lparr>dvs := dv\<rparr>) (doundivert gnu fo argv (dvs st)))" for b gnu fo argv
    using doundivert_ok [of "dvs st" gnu fo argv] ok by (intro safe_dvs [OF ok]) (auto simp: eval_ok_def)
  have com: "eval_ok (dochangecom argv st)" "eval_ok (dochangequote argv st)" for argv
    using quo by (simp_all add: dochangecom_def dochangequote_def)
  have tr: "safe b (dotrace (df # nm # as) on st)" for b on by (rule safe_trace [OF ok]) (use sp in simp)
  note facts = safe_define [OF ok rm] dump tr safe_include [OF ok] paste com safe_divert [OF ok] undiv undef line quo oth ok
  have if_safe: "safe b (if c then r else r')" if "c \<Longrightarrow> safe b r" "\<not> c \<Longrightarrow> safe b r'" for b c r r' using that by simp
  show ?thesis
    unfolding builtin_case_def Let_def
    by (intro if_safe) (use ne facts in simp_all)
qed

definition again :: "u32 \<Rightarrow> bool" where
  "again td \<longleftrightarrow> td AND TYPEMASK \<in> {SUBSTRTYPE, INDIRTYPE, BUILTINTYPE}"

lemma safe_weaken: "safe b r \<Longrightarrow> (b \<Longrightarrow> b') \<Longrightarrow> safe b' r"
  by (auto simp: safe_def fair_error_def split: sum.splits)

lemma call_again:
  assumes ok: "eval_ok st" and l: "lookup n (tab st) = Some (p, m)" and sp: "space (Suc k) (tab st)"
  shows "eval_ok (st\<lparr>tab := m\<rparr>)" "space k m"
proof -
  note sz = lookup_size [OF m4_ok_tab [OF ok] l]
  show "eval_ok (st\<lparr>tab := m\<rparr>)" using ok sz(2) by (simp add: eval_ok_def st_ok_def)
  show "space k m" using sp unfolding space_def sz(1) by simp
qed

lemma lookup_runs: "eval_ok st \<Longrightarrow> \<exists>p m. lookup n (tab st) = Some (p, m)"
  using lookup_ok [OF m4_ok_tab, of st n] by blast

lemma eval_call_safe:
  assumes "eval_ok st" "fair_env E" "small_args as" "length as + 2 < 2 ^ 31" "space (length as + 2) (tab st)"
  shows "safe (again td) (eval_call E (df # nm # as) td st)"
  using assms
proof (induction "length as" arbitrary: "as" df nm td st rule: less_induct)
  case less
  let ?as = "given (mimic_gnu E) as"
  have len: "length ?as \<le> length as" by (simp add: given_def)
  have sp: "space (Suc (Suc (length ?as))) (tab st)"
  proof -
    have "2 ^ Suc (Suc (length ?as)) \<le> (2 :: nat) ^ (length as + 2)" using len by (intro power_increasing) simp_all
    then show ?thesis using less.prems(5) unfolding space_def by (meson le_trans mult_le_mono2)
  qed
  note sm = small_given [OF less.prems(3), of "mimic_gnu E"]
  have rest: "safe b (eval_call E (x # ?as) td' st')" if as': "?as \<noteq> []" and st': "eval_ok st'" "space (Suc (length ?as)) (tab st')" and b: "b" for b x td' st'
  proof -
    obtain n as' where a: "?as = n # as'" using as' by (cases "?as") auto
    have "safe (again td') (eval_call E (x # n # as') td' st')"
    proof (rule less.hyps)
      show "length as' < length as" using a len by simp
      show "small_args as'" using sm a by (simp add: small_args_def)
      show "length as' + 2 < 2 ^ 31" using a len less.prems(4) by simp
      show "space (length as' + 2) (tab st')" using st'(2) a by simp
    qed (use st'(1) less.prems(2) in simp_all)
    then show ?thesis using a b safe_weaken by fastforce
  qed
  consider (rec) "td AND RECDEF \<noteq> 0" | (user) "td AND RECDEF = 0" "td = MACROTYPE"
    | (builtin) "td AND RECDEF = 0" "td \<noteq> MACROTYPE" by blast
  then show ?case
  proof cases
    case rec
    then show ?thesis by (simp add: eval_call.simps)
  next
    case user
    have "\<exists>i. expand_macro (heap E) (quo st) (df # nm # as) (inp st) = Inr i \<and> buf_ok i"
      using expand_loop_effect [OF buf_ok_inp [OF less.prems(1)], of "df # nm # as" "heap E" "quo st" "rev df"] less.prems(4) fed_ok
      by (fastforce simp: expand_macro_def)
    from safe_on_input [OF less.prems(1), of "expand_macro (heap E) (quo st) (df # nm # as)", OF this, of "again td"]
    show ?thesis using user by (simp add: eval_call.simps)
  next
    case builtin
    let ?ty = "td AND TYPEMASK" and ?argv = "df # nm # ?as"
    have eq: "eval_call E (df # nm # as) td st =
        (if ?ty = INDIRTYPE \<and> ?as \<noteq> [] then doindir E ?argv st
         else if ?ty = BUILTINTYPE \<and> ?as \<noteq> [] then dobuiltin E ?argv st
         else builtin_case E (df # nm # as) ?argv ?ty st)"
      using builtin by (simp add: eval_call.simps expand_builtin.simps adjust_given Let_def numeral_2_eq_2)
    obtain p m where l: "lookup (?argv ! 2) (tab st) = Some (p, m)" using lookup_runs [OF less.prems(1)] by blast
    have st1: "eval_ok (st\<lparr>tab := m\<rparr>)" "space (Suc (length ?as)) (tab (st\<lparr>tab := m\<rparr>))"
      using call_again [OF less.prems(1) l sp] by simp_all
    have two: "?argv ! 2 = ?as ! 0" "drop 2 ?argv = ?as" by (simp_all add: numeral_2_eq_2)
    consider (indir) "?ty = INDIRTYPE" "?as \<noteq> []" | (bu) "?ty = BUILTINTYPE" "?as \<noteq> []"
      | (plain) "\<not> (?ty = INDIRTYPE \<and> ?as \<noteq> [])" "\<not> (?ty = BUILTINTYPE \<and> ?as \<noteq> [])" by blast
    then show ?thesis
    proof cases
      case indir
      have "again td" using indir(1) by (simp add: again_def)
      then have "safe (again td) (doindir E ?argv st)"
        using rest [OF indir(2) st1] l two indir(2) by (auto simp: doindir.simps split: option.split list.split)
      then show ?thesis using indir by (simp add: eq)
    next
      case bu
      have "again td" using bu(1) by (simp add: again_def)
      moreover have "macro_getbuiltin (?argv ! 2) (tab st) =
          Some (case p of None \<Rightarrow> None | Some n \<Rightarrow> if builtin_type (nodes m n) = MACROTYPE then None else Some n, m)"
        using l by (simp add: macro_getbuiltin_def)
      ultimately have "safe (again td) (dobuiltin E ?argv st)"
        using rest [OF bu(2) st1] two bu(2) by (auto simp: dobuiltin.simps split: option.split)
      then show ?thesis using bu by (simp add: eq)
    next
      case plain
      have "safe (?ty = SUBSTRTYPE) (builtin_case E (df # nm # as) ?argv ?ty st)"
        by (rule builtin_case_safe [OF less.prems(1) sm sp less.prems(2)])
      then show ?thesis unfolding eq using plain by (auto intro: safe_weaken simp: again_def)
    qed
  qed
qed

text \<open>
  C34. A call of a built-in macro that only makes text -- \<open>len\<close>, \<open>incr\<close>, \<open>decr\<close>, \<open>ifelse\<close>, \<open>ifdef\<close>, \<open>substr\<close>,
  \<open>shift\<close>, \<open>index\<close>, \<open>translit\<close>, \<open>defn\<close>, \<open>divnum\<close>, \<open>sysval\<close>, \<open>eval\<close> and the name of the macro itself -- puts exactly the text of the
  reference definition before the input and changes no definition, or fails exactly where the
  reference does.
\<close>

theorem builtin_calls_expand:
  assumes "st_ok st" "small_args as" "td AND RECDEF = 0" "td \<noteq> MACROTYPE"
    "builtin_text E st nm (given (mimic_gnu E) as) (td AND TYPEMASK) = Some t"
  shows "case t of Inl e \<Rightarrow> eval_call E (df # nm # as) td st = Inl e
    | Inr s \<Rightarrow> \<exists>st'. eval_call E (df # nm # as) td st = Inr st' \<and> st_ok st' \<and>
        streams (inp st') = (s @ hd (streams (inp st))) # tl (streams (inp st)) \<and>
        view (tab st') = view (tab st) \<and> st' = st\<lparr>inp := inp st', tab := tab st'\<rparr>"
proof (cases t)
  case (Inl e)
  then show ?thesis using eval_call_text [OF assms] by simp
next
  case (Inr s)
  have "feeds st s (eval_call E (df # nm # as) td st)" using eval_call_text [OF assms, of df] Inr by simp
  then obtain i m where r: "eval_call E (df # nm # as) td st = Inr (st\<lparr>inp := i, tab := m\<rparr>)" "fed (inp st) s i" "m4_ok m"
    "view m = view (tab st)" by (auto simp: feeds_def)
  then show ?thesis
    unfolding Inr sum.case using assms(1)
    by (intro exI [of _ "st\<lparr>inp := i, tab := m\<rparr>"]) (simp add: fed_def st_ok_def)
qed

definition start_state :: "u8 list \<Rightarrow> eval_state" where
  "start_state s =
     \<lparr>inp = initspaces \<lparr>place = int, junk = \<lambda>i. 0\<rparr> s, tab = init_macros, quo = \<lparr>lquote = bytes ''`'', rquote = [39]\<rparr>,
      scommt = bytes ''#'', ecommt = [10], wraps = [], mapvec = id,
      dvs = \<lparr>oindex = 0, outfile = replicate 10 None, active = None, printed = []\<rparr>, sysval = 0, exit_code = 0\<rparr>"

definition bare_env :: m4_env where
  "bare_env = \<lparr>heap = \<lparr>place = int, junk = \<lambda>i. 0\<rparr>, mimic_gnu = True, fatal_warns = False, fopen_path = \<lambda>s. None,
     fopen = \<lambda>s. None, expr = \<lambda>s. Inr 0, other = \<lambda>ty argv st. Inr st\<rparr>"

lemma start_ok: "eval_ok (start_state s)" "space 19 (tab (start_state s))"
proof -
  show "eval_ok (start_state s)"
    unfolding eval_ok_def st_ok_def dvs_ok_def by (simp add: start_state_def init_m4_ok initspaces_effect)
  show "space 19 (tab (start_state s))"
    by (simp add: space_def start_state_def init_macros_def ohash_init_def Let_def u32_of_def MINSIZE_def)
qed

lemma bare_fair: "fair_env bare_env"
  by (simp add: fair_env_def bare_env_def)

theorem builtin_calls_expand_witness:
  "\<exists>st'. eval_call bare_env ([] # bytes ''translit'' # map bytes [''m4 rules'', ''a-z'', ''A-Z'']) TRANSLITTYPE (start_state (bytes ''!'')) = Inr st' \<and>
     streams (inp st') = [bytes ''M4 RULES!'']"
proof -
  define st "as" where "st = start_state (bytes ''!'')" and "as = map bytes [''m4 rules'', ''a-z'', ''A-Z'']"
  have ok: "st_ok st" using start_ok(1) by (simp add: st_def eval_ok_def)
  have sm: "small_args as" by (simp add: small_args_def as_def bytes_def byte_of_def)
  have ty: "TRANSLITTYPE AND RECDEF = 0" "TRANSLITTYPE \<noteq> MACROTYPE" by code_simp+
  have given: "given (mimic_gnu bare_env) as = as" by (simp add: given_def as_def)
  have e: "concat (map (translit_char (translit_set True (bytes ''a-z'')) (translit_set True (bytes ''A-Z''))) (bytes ''m4 rules'')) = bytes ''M4 RULES''"
    by code_simp
  have args: "length as = 3" "arg_of as 0 = bytes ''m4 rules''" "arg_of as 1 = bytes ''a-z''" "arg_of as 2 = bytes ''A-Z''"
    by (simp_all add: as_def arg_of_def numeral_2_eq_2)
  have "TRANSLITTYPE AND TYPEMASK = TRANSLITTYPE" by code_simp
  then have "builtin_text bare_env st (bytes ''translit'') (given (mimic_gnu bare_env) as) (TRANSLITTYPE AND TYPEMASK) =
      Some (Inr (bytes ''M4 RULES''))"
    using args e unfolding builtin_text_def given by (simp only:) (simp add: bare_env_def)
  from builtin_calls_expand [OF ok sm ty this, of "[]"]
  show ?thesis
    unfolding st_def [symmetric] as_def [symmetric] sum.case
    by (auto simp: st_def start_state_def initspaces_effect)
qed



end
