(* ===== verification/M4_Main.thy ===== *)
theory M4_Main
  imports M4_Eval M4_Args
begin

text \<open>
  The main loop of \<open>m4\<close>, \<open>macro\<close> of \<open>src/src.freebsd/m4/main.c\<close>: quotes, comments, names, and the calls whose
  arguments are being collected.

  The loop is written over the operations on the stack of calls, a record \<open>stack_ops\<close>.  The code's are
  \<open>code_stack\<close>: the array \<open>mstack\<close> with the frame pointer \<open>fp\<close> and the string space of \<open>M4_Args\<close>.  The
  specification's are \<open>spec_stack\<close>: a list of calls with their arguments.  That the loop does the same with both is
  shown in \<open>M4_Loop\<close>.

  The positions of quotes and parentheses, which only error messages use, line synchronisation and
  tracing are left out.  \<open>inspect\<close> compares the end of the token with \<open>ep\<close>, a pointer into another
  object, which never equals it.
\<close>

section \<open>Characters\<close>

definition is_alpha :: "u8 \<Rightarrow> bool" where
  "is_alpha c \<longleftrightarrow> 65 \<le> c \<and> c \<le> 90 \<or> 97 \<le> c \<and> c \<le> 122"

definition is_alnum :: "u8 \<Rightarrow> bool" where
  "is_alnum c \<longleftrightarrow> is_alpha c \<or> 48 \<le> c \<and> c \<le> 57"

definition is_space :: "u8 \<Rightarrow> bool" where
  "is_space c \<longleftrightarrow> c = 32 \<or> 9 \<le> c \<and> c \<le> 13"

abbreviation UNDERSCORE :: u8 where "UNDERSCORE \<equiv> 95"
abbreviation LPAREN :: u8 where "LPAREN \<equiv> 40"
abbreviation RPAREN :: u8 where "RPAREN \<equiv> 41"
abbreviation MAXTOK :: nat where "MAXTOK \<equiv> 512"
abbreviation NEEDARGS :: u32 where "NEEDARGS \<equiv> 1024"

section \<open>State\<close>

record 'f main_state =
  ev :: eval_state
  frm :: 'f

record 'f stack_ops =
  in_call :: "'f \<Rightarrow> bool"
  save :: "heap \<Rightarrow> u8 \<Rightarrow> 'f \<Rightarrow> 'f m4_result"
  parlev :: "'f \<Rightarrow> int"
  set_parlev :: "int \<Rightarrow> 'f \<Rightarrow> 'f"
  open_call :: "u32 \<Rightarrow> u32 \<Rightarrow> dptr \<Rightarrow> c_string \<Rightarrow> 'f \<Rightarrow> 'f"
  new_arg :: "'f \<Rightarrow> 'f"
  call_args :: "'f \<Rightarrow> (dptr \<times> c_string list \<times> u32) m4_result"
  close_call :: "'f \<Rightarrow> 'f"
  live :: "'f \<Rightarrow> dptr list"

section \<open>Looking ahead\<close>

text \<open>
  \<open>rest\<close> is what is left of the token, \<open>seen\<close> what has been read of it after its first character, the last
  one first.
\<close>

fun do_look_ahead :: "heap \<Rightarrow> u8 list \<Rightarrow> u8 list \<Rightarrow> input \<Rightarrow> (bool \<times> input) m4_result" where
  "do_look_ahead H seen [] i = Inr (True, i)"
| "do_look_ahead H seen (c # rest) i =
     err_bind (gpbc i) (\<lambda>(t, i).
       if t = Some c then do_look_ahead H (c # seen) rest i
       else err_bind (pushback H t i) (\<lambda>i. map_sum id (Pair False) (push_chars H seen i)))"

text \<open>A NUL in the input matches an empty token, whose second character is then read.\<close>

definition look_ahead :: "heap \<Rightarrow> u8 option \<Rightarrow> c_string \<Rightarrow> input \<Rightarrow> (bool \<times> input) m4_result" where
  "look_ahead H t token i =
     (case t of
        None \<Rightarrow> Inr (False, i)
      | Some c \<Rightarrow>
          (case token of
             [] \<Rightarrow> if c = 0 then Inl Out_of_bounds else Inr (False, i)
           | a # rest \<Rightarrow> if c = a then do_look_ahead H [] rest i else Inr (False, i)))"

text \<open>How much is left to read of the innermost file and of what was pushed back onto it.\<close>

definition left :: "input \<Rightarrow> nat" where
  "left i = nat (bp i - bufbase i) + length (contents (infile i ! ilevel i))"

lemma map_sum_Inr: "map_sum id f r = Inr y \<longleftrightarrow> (\<exists>x. r = Inr x \<and> y = f x)"
  by (cases r) auto

lemma left_gpbc: "gpbc i = Inr (Some c, i') \<Longrightarrow> left i' < left i"
  using gpbc_shrinks by (simp add: left_def)

lemma left_gpbc_le: "gpbc i = Inr (t, i') \<Longrightarrow> left i' + of_bool (t \<noteq> None) \<le> left i"
proof (cases t)
  case None
  moreover assume "gpbc i = Inr (t, i')"
  ultimately show ?thesis
    by (auto simp: gpbc_def obtain_char_def left_def split: if_splits list.splits)
next
  case (Some c)
  moreover assume "gpbc i = Inr (t, i')"
  ultimately show ?thesis using left_gpbc [of i c i'] by simp
qed

lemma left_enlarge: "left (enlarge_bufspace H i) = left i"
  by (simp add: left_def enlarge_bufspace_def Let_def)

lemma left_pushback: "pushback H t i = Inr i' \<Longrightarrow> left i' \<le> left i + of_bool (t \<noteq> None)"
  using left_enlarge [of H i]
  by (auto simp: pushback_def put_at_bp_def left_def split: option.splits if_splits)

lemma left_push_chars: "push_chars H cs i = Inr i' \<Longrightarrow> left i' \<le> left i + length cs"
proof (induction cs arbitrary: i)
  case (Cons c cs)
  then obtain i1 where "pushback H (if c = - 1 then None else Some c) i = Inr i1" "push_chars H cs i1 = Inr i'"
    by (auto simp: err_bind_Inr)
  then show ?case using left_pushback [of H _ i i1] Cons.IH [of i1] by (fastforce split: if_splits)
qed simp

lemma left_do_look_ahead: "do_look_ahead H seen rest i = Inr (b, i') \<Longrightarrow> left i' \<le> left i + length seen"
proof (induction H seen rest i rule: do_look_ahead.induct)
  case (2 H seen c rest i)
  from 2(2) obtain t i1 where g: "gpbc i = Inr (t, i1)"
    "(if t = Some c then do_look_ahead H (c # seen) rest i1
      else err_bind (pushback H t i1) (\<lambda>i. map_sum id (Pair False) (push_chars H seen i))) = Inr (b, i')"
    by (auto simp: err_bind_Inr)
  note l = left_gpbc_le [OF g(1)]
  show ?case
  proof (cases "t = Some c")
    case True
    then show ?thesis using g l 2(1) [OF g(1) refl True] by simp
  next
    case False
    then obtain i2 where i2: "pushback H t i1 = Inr i2" "push_chars H seen i2 = Inr i'"
      using g(2) by (auto simp: err_bind_Inr map_sum_Inr)
    then show ?thesis using left_pushback [OF i2(1)] left_push_chars [OF i2(2)] l by simp
  qed
qed simp

lemma left_look_ahead: "look_ahead H t token i = Inr (b, i') \<Longrightarrow> left i' \<le> left i"
  using left_do_look_ahead [of H "[]"] by (auto simp: look_ahead_def split: option.splits list.splits if_splits)

definition with_input :: "(input \<Rightarrow> ('a \<times> input) m4_result) \<Rightarrow> 'f main_state \<Rightarrow> ('a \<times> 'f main_state) m4_result" where
  "with_input f st = map_sum id (\<lambda>(a, i). (a, st\<lparr>ev := (ev st)\<lparr>inp := i\<rparr>\<rparr>)) (f (inp (ev st)))"

definition rest_of :: "'f main_state \<Rightarrow> nat" where
  "rest_of st = left (inp (ev st))"

lemma with_input_Inr: "with_input f st = Inr (a, st') \<longleftrightarrow> (\<exists>i. f (inp (ev st)) = Inr (a, i) \<and> st' = st\<lparr>ev := (ev st)\<lparr>inp := i\<rparr>\<rparr>)"
  by (auto simp: with_input_def map_sum_Inr split: prod.splits)

lemma rest_gpbc: "with_input gpbc st = Inr (t, st') \<Longrightarrow> rest_of st' + of_bool (t \<noteq> None) \<le> rest_of st"
  unfolding with_input_Inr rest_of_def using left_gpbc_le by fastforce

lemma rest_look: "with_input (look_ahead H t token) st = Inr (b, st') \<Longrightarrow> rest_of st' \<le> rest_of st"
  unfolding with_input_Inr rest_of_def using left_look_ahead by fastforce

lemma look_EOF: "with_input (look_ahead H None token) st = Inr (False, st)"
  by (simp add: with_input_def look_ahead_def)

section \<open>Output\<close>

text \<open>Outside of a call a character goes to the output, inside to the argument.\<close>

definition output_char :: "'f stack_ops \<Rightarrow> heap \<Rightarrow> u8 \<Rightarrow> 'f main_state \<Rightarrow> 'f main_state m4_result" where
  "output_char F H c st =
     (if \<not> in_call F (frm st) then Inr (st\<lparr>ev := (ev st)\<lparr>dvs := put_active [c] (dvs (ev st))\<rparr>\<rparr>)
      else map_sum id (\<lambda>f. st\<lparr>frm := f\<rparr>) (save F H c (frm st)))"

fun outputstr :: "'f stack_ops \<Rightarrow> heap \<Rightarrow> c_string \<Rightarrow> 'f main_state \<Rightarrow> 'f main_state m4_result" where
  "outputstr F H [] st = Inr st"
| "outputstr F H (c # s) st = err_bind (output_char F H c st) (outputstr F H s)"

lemma rest_output: "output_char F H c st = Inr st' \<Longrightarrow> rest_of st' = rest_of st"
  by (auto simp: output_char_def rest_of_def map_sum_Inr split: if_splits)

lemma rest_outputstr: "outputstr F H s st = Inr st' \<Longrightarrow> rest_of st' = rest_of st"
  by (induction s arbitrary: st) (auto simp: err_bind_Inr dest: rest_output)

lemma hit_less:
  assumes "with_input gpbc st = Inr (l, s1)" "rest_of s2 \<le> rest_of s1" "with_input (look_ahead H l token) s2 = Inr (True, s3)"
  shows "rest_of s3 < rest_of st"
proof -
  have "l \<noteq> None"
  proof
    assume "l = None"
    then show False using assms(3) look_EOF [of H token s2] by simp
  qed
  then show ?thesis using rest_gpbc [OF assms(1)] rest_look [OF assms(3)] assms(2) by simp
qed

lemma char_less: "with_input gpbc st = Inr (Some c, s1) \<Longrightarrow> rest_of s2 \<le> rest_of s1 \<Longrightarrow> rest_of s2 < rest_of st"
  using rest_gpbc by fastforce

section \<open>Quotes and comments\<close>

function quote_loop :: "'f stack_ops \<Rightarrow> heap \<Rightarrow> nat \<Rightarrow> 'f main_state \<Rightarrow> 'f main_state m4_result" where
  "quote_loop F H nlpar st =
     err_bind (with_input gpbc st) (\<lambda>(l, st).
     err_bind (with_input (look_ahead H l (rquote (quo (ev st)))) st) (\<lambda>(hit, st).
       if hit then
         if nlpar - 1 > 0 then err_bind (outputstr F H (rquote (quo (ev st))) st) (quote_loop F H (nlpar - 1))
         else Inr st
       else err_bind (with_input (look_ahead H l (lquote (quo (ev st)))) st) (\<lambda>(hit, st).
         if hit then err_bind (outputstr F H (lquote (quo (ev st))) st) (quote_loop F H (nlpar + 1))
         else case l of
           None \<Rightarrow> Inl (Exit 1)
         | Some c \<Rightarrow> err_bind (output_char F H c st) (quote_loop F H nlpar))))"
  by pat_completeness auto
termination
proof (relation "measure (\<lambda>(F, H, nlpar, st). rest_of st)", goal_cases)
  case (2 F H nlpar st x l s1 y hit s2 z)
  then have g: "with_input gpbc st = Inr (l, s1)" "with_input (look_ahead H l (rquote (quo (ev s1)))) s1 = Inr (True, s2)"
    "rest_of z = rest_of s2" by (auto dest: rest_outputstr)
  then show ?case using hit_less [OF g(1) order_refl g(2)] by simp
next
  case (3 F H nlpar st x l s1 y hit s2 z hit' s3 w)
  then have g: "with_input gpbc st = Inr (l, s1)" "with_input (look_ahead H l (rquote (quo (ev s1)))) s1 = Inr (False, s2)"
    "with_input (look_ahead H l (lquote (quo (ev s2)))) s2 = Inr (True, s3)" "rest_of w = rest_of s3" by (auto dest: rest_outputstr)
  then show ?case using hit_less [OF g(1) rest_look [OF g(2)] g(3)] by simp
next
  case (4 F H nlpar st x l s1 y hit s2 z hit' s3 c w)
  then have g: "with_input gpbc st = Inr (Some c, s1)" "rest_of s2 \<le> rest_of s1" "rest_of s3 \<le> rest_of s2" "rest_of w = rest_of s3"
    by (auto dest: rest_output rest_look)
  then show ?case using char_less [OF g(1), of s3] by simp
qed simp

text \<open>A comment ends with its closing token or with the file.\<close>

function comment_loop :: "'f stack_ops \<Rightarrow> heap \<Rightarrow> 'f main_state \<Rightarrow> 'f main_state m4_result" where
  "comment_loop F H st =
     err_bind (with_input gpbc st) (\<lambda>(t, st).
     err_bind (with_input (look_ahead H t (ecommt (ev st))) st) (\<lambda>(hit, st).
       if hit then outputstr F H (ecommt (ev st)) st
       else case t of
         None \<Rightarrow> Inr st
       | Some c \<Rightarrow> err_bind (output_char F H c st) (comment_loop F H)))"
  by pat_completeness auto
termination
proof (relation "measure (\<lambda>(F, H, st). rest_of st)", goal_cases)
  case (2 F H st x t s1 y hit s2 c z)
  then have g: "with_input gpbc st = Inr (Some c, s1)" "rest_of s2 \<le> rest_of s1" "rest_of z = rest_of s2"
    by (auto dest: rest_output rest_look)
  then show ?case using char_less [OF g(1), of s2] by simp
qed simp

declare quote_loop.simps [simp del] comment_loop.simps [simp del]

section \<open>Names\<close>

text \<open>The characters of a name after those in \<open>tok\<close>; the one that ends it is pushed back.\<close>

function read_name :: "heap \<Rightarrow> c_string \<Rightarrow> input \<Rightarrow> (c_string \<times> input) m4_result" where
  "read_name H tok i =
     err_bind (gpbc i) (\<lambda>(c, i).
       case c of
         None \<Rightarrow> Inr (tok, i)
       | Some x \<Rightarrow>
           if (is_alnum x \<or> x = UNDERSCORE) \<and> length tok < MAXTOK then read_name H (tok @ [x]) i
           else map_sum id (Pair tok) (pushback H c i))"
  by pat_completeness auto
termination
  by (relation "measure (\<lambda>(H, tok, i). left i)") (auto dest: left_gpbc)

definition inspect :: "heap \<Rightarrow> u8 \<Rightarrow> 'f main_state \<Rightarrow> ((c_string \<times> c_string option) \<times> 'f main_state) m4_result" where
  "inspect H c st =
     err_bind (with_input (read_name H [c]) st) (\<lambda>(name, st).
       case lookup name (tab (ev st)) of
         None \<Rightarrow> Inl Diverges
       | Some (p, m) \<Rightarrow>
           Inr ((name, case p of None \<Rightarrow> None | Some n \<Rightarrow> if d (nodes m n) = [] then None else Some n),
                st\<lparr>ev := (ev st)\<lparr>tab := m\<rparr>\<rparr>))"

text \<open>White space after a parenthesis or a comma; it is saved inside of nested parentheses.\<close>

function skip_space :: "'f stack_ops \<Rightarrow> heap \<Rightarrow> bool \<Rightarrow> 'f main_state \<Rightarrow> 'f main_state m4_result" where
  "skip_space F H saving st =
     err_bind (with_input gpbc st) (\<lambda>(l, st).
       case l of
         None \<Rightarrow> Inr st
       | Some c \<Rightarrow>
           if is_space c then
             err_bind (if saving then map_sum id (\<lambda>f. st\<lparr>frm := f\<rparr>) (save F H c (frm st)) else Inr st) (skip_space F H saving)
           else map_sum id (\<lambda>i. st\<lparr>ev := (ev st)\<lparr>inp := i\<rparr>\<rparr>) (pushback H l (inp (ev st))))"
  by pat_completeness auto
termination
proof (relation "measure (\<lambda>(F, H, saving, st). rest_of st)", goal_cases)
  case (2 F H saving st x l s1 c y)
  then have "rest_of y = rest_of s1" by (auto simp: rest_of_def map_sum_Inr split: if_splits)
  then show ?case using 2 char_less [of st c s1 y] by simp
qed simp

declare read_name.simps [simp del] skip_space.simps [simp del]

section \<open>Calls\<close>

definition save_char :: "'f stack_ops \<Rightarrow> heap \<Rightarrow> u8 \<Rightarrow> 'f main_state \<Rightarrow> 'f main_state m4_result" where
  "save_char F H c st = map_sum id (\<lambda>f. st\<lparr>frm := f\<rparr>) (save F H c (frm st))"

definition is_traced :: "m4 \<Rightarrow> c_string \<Rightarrow> u32" where
  "is_traced m n = (if nd_trace (nodes m n) = FLAG_NO_TRACE then trace_flags m AND TRACE_ALL else nd_trace (nodes m n))"

text \<open>
  The end of a call.  The definition that its frame points to is read by \<open>expand_macro\<close> only; \<open>calls\<close> of the
  table are the definitions on the stack.
\<close>

definition call_eval :: "'f stack_ops \<Rightarrow> m4_env \<Rightarrow> bool \<Rightarrow> 'f main_state \<Rightarrow> 'f main_state m4_result" where
  "call_eval F E brackets st =
     err_bind (call_args F (frm st)) (\<lambda>(p, as, td).
       if td = MACROTYPE \<and> (\<exists>a \<in> set (freed (tab (ev st))). addr_of p = Some a) then Inl Use_after_free
       else err_bind (eval_call E (str_of p # (if brackets then as else take 1 as)) td
                (ev st\<lparr>tab := (tab (ev st))\<lparr>calls := map Macro (live F (frm st))\<rparr>\<rparr>))
              (\<lambda>e. Inr (st\<lparr>ev := e, frm := close_call F (frm st)\<rparr>)))"

definition name_case :: "'f stack_ops \<Rightarrow> m4_env \<Rightarrow> u8 \<Rightarrow> 'f main_state \<Rightarrow> 'f main_state m4_result" where
  "name_case F E c st =
     (let H = heap E in
      err_bind (inspect H c st) (\<lambda>((name, p), st).
        case p of
          None \<Rightarrow> outputstr F H name st
        | Some n \<Rightarrow>
            err_bind (with_input gpbc st) (\<lambda>(l, st).
            err_bind (with_input (\<lambda>i. map_sum id (Pair ()) (pushback H l i)) st) (\<lambda>(u, st).
              let r = hd (d (nodes (tab (ev st)) n)) in
              if l \<noteq> Some LPAREN \<and> mtype r AND NEEDARGS \<noteq> 0 then outputstr F H name st
              else
                let st = st\<lparr>frm := open_call F (mtype r) (is_traced (tab (ev st)) n) (defn r) n (frm st)\<rparr> in
                if l \<noteq> Some LPAREN \<and> parlev F (frm st) = 0
                then err_bind (save_char F H 0 st) (call_eval F E False)
                else Inr st))))"

definition paren_case :: "'f stack_ops \<Rightarrow> m4_env \<Rightarrow> u8 \<Rightarrow> 'f main_state \<Rightarrow> 'f main_state m4_result" where
  "paren_case F E c st =
     (let H = heap E; lev = parlev F (frm st) in
      if c = LPAREN then
        err_bind (if lev > 0 then save_char F H c st else Inr st) (\<lambda>st.
        err_bind (skip_space F H (lev > 0) st) (\<lambda>st.
          Inr (st\<lparr>frm := set_parlev F (parlev F (frm st) + 1) (frm st)\<rparr>)))
      else if c = RPAREN then
        let st = st\<lparr>frm := set_parlev F (lev - 1) (frm st)\<rparr> in
        if lev - 1 > 0 then save_char F H c st
        else err_bind (save_char F H 0 st) (call_eval F E True)
      else if c = COMMA then
        if lev = 1 then
          err_bind (save_char F H 0 st) (\<lambda>st.
          err_bind (skip_space F H False st) (\<lambda>st. Inr (st\<lparr>frm := new_arg F (frm st)\<rparr>)))
        else save_char F H c st
      else
        err_bind (with_input (look_ahead H (Some c) (scommt (ev st))) st) (\<lambda>(hit, st).
          if hit then err_bind (outputstr F H (scommt (ev st)) st) (comment_loop F H)
          else save_char F H c st))"

section \<open>The main loop\<close>

text \<open>The end of a file; the flag says whether to go on.\<close>

definition file_end :: "'f stack_ops \<Rightarrow> m4_env \<Rightarrow> 'f main_state \<Rightarrow> (bool \<times> 'f main_state) m4_result" where
  "file_end F E st =
     (if \<not> mimic_gnu E \<and> in_call F (frm st) \<and> ilevel (inp (ev st)) = 0 then Inl (Exit 1)
      else if ilevel (inp (ev st)) = 0 then Inr (False, st)
      else with_input (\<lambda>i. map_sum id (Pair True) (end_include i)) st)"

definition macro_step :: "'f stack_ops \<Rightarrow> m4_env \<Rightarrow> 'f main_state \<Rightarrow> (bool \<times> 'f main_state) m4_result" where
  "macro_step F E st =
     (let H = heap E; go = map_sum id (Pair True) in
      err_bind (with_input gpbc st) (\<lambda>(t, st).
      err_bind (with_input (look_ahead H t (lquote (quo (ev st)))) st) (\<lambda>(hit, st).
        if hit then go (quote_loop F H 1 st)
        else
          err_bind (if \<not> in_call F (frm st) then with_input (look_ahead H t (scommt (ev st))) st else Inr (False, st)) (\<lambda>(hit, st).
            if hit then go (err_bind (outputstr F H (scommt (ev st)) st) (comment_loop F H))
            else case t of
              None \<Rightarrow> file_end F E st
            | Some c \<Rightarrow>
                go (if c = UNDERSCORE \<or> is_alpha c then name_case F E c st
                    else if \<not> in_call F (frm st) then output_char F H c st
                    else paren_case F E c st)))))"

text \<open>A program need not end; \<open>macro_rounds n\<close> is the loop for at most \<open>n\<close> rounds.\<close>

fun macro_rounds :: "'f stack_ops \<Rightarrow> m4_env \<Rightarrow> nat \<Rightarrow> 'f main_state \<Rightarrow> (bool \<times> 'f main_state) m4_result" where
  "macro_rounds F E 0 st = Inr (True, st)"
| "macro_rounds F E (Suc n) st =
     err_bind (macro_step F E st) (\<lambda>(more, st). if more then macro_rounds F E n st else Inr (False, st))"

section \<open>The stack of the code\<close>

type_synonym code_frames = "dptr frames \<times> int"

fun sfra :: "dptr entry \<Rightarrow> int" where
  "sfra (Sfra n) = n"
| "sfra e = 0"

definition string_at :: "dptr frames \<Rightarrow> int \<Rightarrow> c_string m4_result" where
  "string_at st p =
     (let s = drop (nat (p - strspace st)) (strmem st)
      in if strspace st \<le> p \<and> 0 \<in> set s then Inr (takeWhile (\<lambda>c. c \<noteq> 0) s) else Inl Out_of_bounds)"

fun entry_strings :: "dptr frames \<Rightarrow> dptr entry list \<Rightarrow> c_string list m4_result" where
  "entry_strings st [] = Inr []"
| "entry_strings st (e # es) =
     err_bind (case e of Strspace p \<Rightarrow> string_at st p | Other s \<Rightarrow> Inr s | Macro q \<Rightarrow> Inr (str_of q) | Sfra n \<Rightarrow> Inl Out_of_bounds)
       (\<lambda>s. map_sum id ((#) s) (entry_strings st es))"

fun code_open_call :: "u32 \<Rightarrow> u32 \<Rightarrow> dptr \<Rightarrow> c_string \<Rightarrow> code_frames \<Rightarrow> code_frames" where
  "code_open_call ty tr df name (st, fp) =
     (let st = pushf 0 (pushf (uint tr) (pushf (uint ty) (pushf fp st)));
          fp = int (length (mstack st)) - 1;
          st = st\<lparr>mstack := mstack st @ [Macro df, Other name]\<rparr>
      in (pushs st, fp))"

fun code_call_args :: "code_frames \<Rightarrow> (dptr \<times> c_string list \<times> u32) m4_result" where
  "code_call_args (st, fp) =
     (if fp < 2 then Inl Out_of_bounds
      else case drop (nat (fp + 1)) (mstack st) of
        Macro p # rest \<Rightarrow> map_sum id (\<lambda>as. (p, as, of_int (sfra (mstack st ! nat (fp - 2))))) (entry_strings st rest)
      | _ \<Rightarrow> Inl Out_of_bounds)"

text \<open>\<open>ep = PREVEP; sp = PREVSP; fp = PREVFP\<close>.\<close>

fun code_close_call :: "code_frames \<Rightarrow> code_frames" where
  "code_close_call (st, fp) =
     (case mstack st ! nat (fp + 3) of
        Strspace p \<Rightarrow> (st\<lparr>ep := p, mstack := take (nat (fp - 3)) (mstack st)\<rparr>, sfra (mstack st ! nat (fp - 3)))
      | _ \<Rightarrow> (st, fp))"

definition code_stack :: "code_frames stack_ops" where
  "code_stack =
     \<lparr>in_call = \<lambda>(st, fp). mstack st \<noteq> [],
      save = \<lambda>H c (st, fp). map_sum id (\<lambda>st. (st, fp)) (chrsave H c st),
      parlev = \<lambda>(st, fp). if nat fp < length (mstack st) then sfra (mstack st ! nat fp) else 0,
      set_parlev = \<lambda>n (st, fp). (st\<lparr>mstack := (mstack st)[nat fp := Sfra n]\<rparr>, fp),
      open_call = code_open_call,
      new_arg = \<lambda>(st, fp). (pushs st, fp),
      call_args = code_call_args,
      close_call = code_close_call,
      live = \<lambda>(st, fp). concat (map (\<lambda>e. case e of Macro p \<Rightarrow> [p] | _ \<Rightarrow> []) (mstack st))\<rparr>"

section \<open>The stack of the specification\<close>

text \<open>A call: the text of its current argument and then of those before it, each with the NUL that ends it.\<close>

record call =
  c_type :: u32
  c_traced :: u32
  c_parlev :: int
  c_def :: dptr
  c_name :: c_string
  c_args :: "u8 list list"

definition cstr :: "u8 list \<Rightarrow> c_string" where
  "cstr s = takeWhile (\<lambda>c. c \<noteq> 0) s"

fun spec_save :: "u8 \<Rightarrow> call list \<Rightarrow> call list" where
  "spec_save c [] = []"
| "spec_save c (f # fs) = f\<lparr>c_args := (hd (c_args f) @ [c]) # tl (c_args f)\<rparr> # fs"

definition spec_stack :: "call list stack_ops" where
  "spec_stack =
     \<lparr>in_call = \<lambda>fs. fs \<noteq> [],
      save = \<lambda>H c fs. Inr (spec_save c fs),
      parlev = \<lambda>fs. case fs of [] \<Rightarrow> 0 | f # fs \<Rightarrow> c_parlev f,
      set_parlev = \<lambda>n fs. case fs of [] \<Rightarrow> [] | f # fs \<Rightarrow> f\<lparr>c_parlev := n\<rparr> # fs,
      open_call = \<lambda>ty tr df name fs. \<lparr>c_type = ty, c_traced = tr, c_parlev = 0, c_def = df, c_name = name, c_args = [[]]\<rparr> # fs,
      new_arg = \<lambda>fs. case fs of [] \<Rightarrow> [] | f # fs \<Rightarrow> f\<lparr>c_args := [] # c_args f\<rparr> # fs,
      call_args = \<lambda>fs. case fs of [] \<Rightarrow> Inl Out_of_bounds | f # fs \<Rightarrow> Inr (c_def f, c_name f # rev (map cstr (c_args f)), c_type f),
      close_call = tl,
      live = \<lambda>fs. map c_def (rev fs)\<rparr>"

end
