(* ===== verification/M4_Stack.thy ===== *)
theory M4_Stack
  imports M4_Main
begin

text \<open>
  The stack of calls of \<open>m4\<close> as a list of calls: \<open>stack_rel\<close> relates the array \<open>mstack\<close>, the frame pointer
  and the string space to the calls with their arguments, and every operation of \<open>code_stack\<close> keeps the relation
  to the operation of \<open>spec_stack\<close>.
\<close>

section \<open>The relation between the stacks\<close>

definition flat :: "call \<Rightarrow> u8 list" where
  "flat f = concat (rev (c_args f))"

definition texts :: "u8 list list \<Rightarrow> (dptr entry + u8 list) list" where
  "texts as = map (\<lambda>i. Inr (concat (drop i (rev as)))) [0..<length as]"

text \<open>The entries of the stack, outermost call first, and the index of the innermost frame.\<close>

fun layout :: "call list \<Rightarrow> (dptr entry + u8 list) list" and frame_index :: "call list \<Rightarrow> int" where
  "layout [] = []"
| "layout (f # fs) =
     map (map_sum id (\<lambda>t. t @ flat f)) (layout fs) @
     map Inl [Sfra (frame_index fs), Sfra (uint (c_type f)), Sfra (uint (c_traced f)), Sfra (c_parlev f), Macro (c_def f), Other (c_name f)] @
     texts (c_args f)"
| "frame_index [] = 0"
| "frame_index (f # fs) = int (length (layout fs)) + 3"

definition stack_rel :: "code_frames \<Rightarrow> call list \<Rightarrow> bool" where
  "stack_rel s fs \<longleftrightarrow> str_ok (fst s) \<and> args (fst s) = layout fs \<and> snd s = frame_index fs \<and>
     (\<forall>f \<in> set fs. c_args f \<noteq> [] \<and> (\<forall>a \<in> set (tl (c_args f)). 0 \<in> set a))"

definition closed :: "call list \<Rightarrow> bool" where
  "closed fs \<longleftrightarrow> (case fs of [] \<Rightarrow> False | f # _ \<Rightarrow> 0 \<in> set (hd (c_args f)))"

lemma texts_save: "as \<noteq> [] \<Longrightarrow> texts ((hd as @ s) # tl as) = map (map_sum id (\<lambda>t. t @ s)) (texts as)"
  by (cases "as") (auto simp: texts_def)

lemma texts_new: "texts ([] # as) = texts as @ [Inr []]"
  by (auto simp: texts_def)

lemma flat_save: "c_args f \<noteq> [] \<Longrightarrow> flat (f\<lparr>c_args := (hd (c_args f) @ s) # tl (c_args f)\<rparr>) = flat f @ s"
  by (cases "c_args f") (simp_all add: flat_def)

lemma layout_length [simp]: "length (layout (f # fs)) = length (layout fs) + 6 + length (c_args f)"
  by (simp add: texts_def)

lemma layout_save:
  "\<forall>f \<in> set fs. c_args f \<noteq> [] \<Longrightarrow> layout (spec_save c fs) = map (map_sum id (\<lambda>t. t @ [c])) (layout fs)"
  by (cases fs) (simp_all add: texts_save flat_save sum.map_comp o_def id_def)

lemma length_args: "length (args st) = length (mstack st)"
  by (simp add: args_def)

lemma rel_nonempty: "stack_rel (st, fp) fs \<Longrightarrow> mstack st = [] \<longleftrightarrow> fs = []"
  using length_args [of st] by (cases fs) (auto simp: stack_rel_def)

lemma shown_Inl: "shown st e = Inl e' \<Longrightarrow> e = e'"
  by (cases e) auto

lemma shown_Inls: "map (shown st) h = map Inl es \<Longrightarrow> h = es"
proof (induction h arbitrary: es)
  case (Cons e h)
  then show ?case by (cases es) (auto dest: shown_Inl)
qed simp

lemma map_three:
  assumes "map g xs = a @ b @ c"
  obtains a' b' c' where "xs = a' @ b' @ c'" "map g a' = a" "map g b' = b" "map g c' = c"
  using assms by (auto simp: map_eq_append_conv append_eq_map_conv)

text \<open>The entries of the innermost frame.\<close>

lemma frame_entries:
  assumes "stack_rel (st, fp) (f # fs)"
  obtains low ss where "mstack st = low @ [Sfra (frame_index fs), Sfra (uint (c_type f)), Sfra (uint (c_traced f)), Sfra (c_parlev f),
      Macro (c_def f), Other (c_name f)] @ ss" "length low = length (layout fs)" "map (shown st) low = map (map_sum id (\<lambda>t. t @ flat f)) (layout fs)"
    "map (shown st) ss = texts (c_args f)" "fp = int (length low) + 3"
proof -
  let ?h = "[Sfra (frame_index fs), Sfra (uint (c_type f)), Sfra (uint (c_traced f)), Sfra (c_parlev f), Macro (c_def f), Other (c_name f)]"
  have "map (shown st) (mstack st) = map (map_sum id (\<lambda>t. t @ flat f)) (layout fs) @ map Inl ?h @ texts (c_args f)"
    using assms by (simp add: stack_rel_def args_def)
  then obtain low h ss where m: "mstack st = low @ h @ ss" "map (shown st) low = map (map_sum id (\<lambda>t. t @ flat f)) (layout fs)"
    "map (shown st) h = map Inl ?h" "map (shown st) ss = texts (c_args f)"
    by (rule map_three)
  have "length low = length (layout fs)" using m(2) by (metis length_map)
  moreover have "h = ?h" using m(3) by (rule shown_Inls)
  moreover have "fp = frame_index (f # fs)" using assms by (simp add: stack_rel_def)
  ultimately show thesis using that m by simp
qed

lemma rel_save:
  assumes "stack_rel s fs"
  shows "\<exists>s'. save code_stack H c s = Inr s' \<and> stack_rel s' (spec_save c fs)"
proof -
  obtain st fp where s: "s = (st, fp)" by (cases s)
  have ok: "str_ok st" "args st = layout fs" "fp = frame_index fs" and ne: "\<forall>f \<in> set fs. c_args f \<noteq> [] \<and> (\<forall>a \<in> set (tl (c_args f)). 0 \<in> set a)"
    using assms by (auto simp: stack_rel_def s)
  obtain st' where st': "chrsave H c st = Inr st'" "str_ok st'" "args st' = map (map_sum id (\<lambda>t. t @ [c])) (args st)"
    using chrsave_effect [OF ok(1)] by blast
  have "frame_index (spec_save c fs) = frame_index fs" by (cases fs) simp_all
  moreover have "\<forall>f \<in> set (spec_save c fs). c_args f \<noteq> [] \<and> (\<forall>a \<in> set (tl (c_args f)). 0 \<in> set a)"
    using ne by (cases fs) auto
  ultimately have "stack_rel (st', fp) (spec_save c fs)"
    using st' ok ne layout_save [of fs c] by (simp add: stack_rel_def)
  then show ?thesis using st'(1) by (auto simp: s code_stack_def)
qed

lemma closed_save: "fs \<noteq> [] \<Longrightarrow> closed (spec_save 0 fs)"
  by (cases fs) (simp_all add: closed_def)

lemma str_ok_update: "str_ok st \<Longrightarrow> str_ok (st\<lparr>mstack := (mstack st)[k := Sfra n]\<rparr>)"
  using set_update_subset_insert [of "mstack st" k "Sfra n"] by (fastforce simp: str_ok_def)

lemma rel_parlev: "stack_rel s fs \<Longrightarrow> parlev code_stack s = parlev spec_stack fs"
proof (cases fs)
  case Nil
  moreover assume "stack_rel s fs"
  ultimately show ?thesis using rel_nonempty [of "fst s" "snd s" fs] by (cases s) (simp add: code_stack_def spec_stack_def)
next
  case (Cons f fs')
  moreover assume "stack_rel s fs"
  moreover obtain st fp where s: "s = (st, fp)" by (cases s)
  ultimately have "stack_rel (st, fp) (f # fs')" by simp
  then show ?thesis by (rule frame_entries) (simp add: s Cons code_stack_def spec_stack_def nth_append nat_add_distrib numeral_3_eq_3)
qed

lemma rel_set_parlev: "stack_rel s fs \<Longrightarrow> stack_rel (set_parlev code_stack n s) (set_parlev spec_stack n fs)"
proof (cases fs)
  case Nil
  assume r: "stack_rel s fs"
  obtain st fp where s: "s = (st, fp)" by (cases s)
  have "mstack st = []" using r rel_nonempty [of st fp fs] Nil s by simp
  then have "st\<lparr>mstack := (mstack st)[nat fp := Sfra n]\<rparr> = st" by simp
  then show ?thesis using r Nil s by (simp add: code_stack_def spec_stack_def)
next
  case (Cons f fs')
  assume r: "stack_rel s fs"
  obtain st fp where s: "s = (st, fp)" by (cases s)
  from r have r: "stack_rel (st, fp) (f # fs')" by (simp add: s Cons)
  let ?st = "st\<lparr>mstack := (mstack st)[nat fp := Sfra n]\<rparr>"
  from r obtain low ss where m: "mstack st = low @ [Sfra (frame_index fs'), Sfra (uint (c_type f)), Sfra (uint (c_traced f)), Sfra (c_parlev f),
      Macro (c_def f), Other (c_name f)] @ ss" "length low = length (layout fs')" "map (shown st) low = map (map_sum id (\<lambda>t. t @ flat f)) (layout fs')"
    "map (shown st) ss = texts (c_args f)" "fp = int (length low) + 3" by (rule frame_entries)
  have sh: "shown ?st = shown st"
  proof
    show "shown ?st e = shown st e" for e by (cases e) (simp_all add: text_from_def)
  qed
  have mst: "mstack ?st = low @ [Sfra (frame_index fs'), Sfra (uint (c_type f)), Sfra (uint (c_traced f)), Sfra n,
      Macro (c_def f), Other (c_name f)] @ ss"
    by (simp add: m(1,5) nat_add_distrib list_update_append numeral_3_eq_3)
  have "args ?st = layout (f\<lparr>c_parlev := n\<rparr> # fs')"
    unfolding args_def mst sh using m(3,4) by (simp add: flat_def)
  moreover have "str_ok ?st" using r by (intro str_ok_update) (simp add: stack_rel_def)
  ultimately show ?thesis using r by (auto simp: s Cons stack_rel_def code_stack_def spec_stack_def)
qed

section \<open>The operations on the stack\<close>

lemma shown_cong: "strspace st' = strspace st \<Longrightarrow> strmem st' = strmem st \<Longrightarrow> ep st' = ep st \<Longrightarrow> shown st' = shown st"
proof
  show "strspace st' = strspace st \<Longrightarrow> strmem st' = strmem st \<Longrightarrow> ep st' = ep st \<Longrightarrow> shown st' e = shown st e" for e
    by (cases e) (simp_all add: text_from_def)
qed

lemma push_entries:
  assumes "str_ok st" "\<forall>p. Strspace p \<notin> set es"
  shows "str_ok (st\<lparr>mstack := mstack st @ es\<rparr>)" "args (st\<lparr>mstack := mstack st @ es\<rparr>) = args st @ map Inl es"
proof -
  show "str_ok (st\<lparr>mstack := mstack st @ es\<rparr>)" using assms by (auto simp: str_ok_def)
  have "shown st e = Inl e" if "e \<in> set es" for e
  proof (cases e)
    case (Strspace p)
    then show ?thesis using that assms(2) by simp
  qed simp_all
  then have "map (shown st) es = map Inl es" by simp
  then show "args (st\<lparr>mstack := mstack st @ es\<rparr>) = args st @ map Inl es"
    using shown_cong [of "st\<lparr>mstack := mstack st @ es\<rparr>" st] by (simp add: args_def)
qed

lemma map_sum_same: "map (map_sum id (\<lambda>t. t)) xs = xs"
proof -
  have "map_sum id (\<lambda>t. t) x = x" for x :: "'a + 'b" by (cases x) simp_all
  then show ?thesis by (intro map_idI)
qed

lemma rel_open:
  assumes "stack_rel s fs"
  shows "stack_rel (open_call code_stack ty tr df name s) (open_call spec_stack ty tr df name fs)"
proof -
  obtain st fp where s: "s = (st, fp)" by (cases s)
  have r: "str_ok st" "args st = layout fs" "fp = frame_index fs" "\<forall>f \<in> set fs. c_args f \<noteq> [] \<and> (\<forall>a \<in> set (tl (c_args f)). 0 \<in> set a)"
    using assms by (auto simp: s stack_rel_def)
  let ?es = "[Sfra fp, Sfra (uint ty), Sfra (uint tr), Sfra 0, Macro df, Other name]"
  let ?st = "st\<lparr>mstack := mstack st @ ?es\<rparr>"
  have p: "str_ok ?st" "args ?st = args st @ map Inl ?es" by (rule push_entries [OF r(1)], simp)+
  note q = pushs_effect [OF p(1)]
  have "code_open_call ty tr df name (st, fp) = (pushs ?st, int (length (mstack st)) + 3)"
    by (simp add: pushf_def Let_def)
  moreover have "length (mstack st) = length (layout fs)" using r(2) length_args [of st] by simp
  moreover have "args (pushs ?st) = layout (\<lparr>c_type = ty, c_traced = tr, c_parlev = 0, c_def = df, c_name = name, c_args = [[]]\<rparr> # fs)"
    unfolding q(2) p(2) using r by (simp add: flat_def texts_def map_sum_same)
  ultimately show ?thesis using q(1) r(4) by (simp add: s stack_rel_def code_stack_def spec_stack_def)
qed

lemma rel_new_arg:
  assumes "stack_rel s fs" "closed fs"
  shows "stack_rel (new_arg code_stack s) (new_arg spec_stack fs)"
proof -
  obtain f fs' where fs: "fs = f # fs'" "0 \<in> set (hd (c_args f))" using assms(2) by (cases fs) (auto simp: closed_def)
  obtain st fp where s: "s = (st, fp)" by (cases s)
  have r: "str_ok st" "args st = layout fs" "fp = frame_index fs" "\<forall>f \<in> set fs. c_args f \<noteq> [] \<and> (\<forall>a \<in> set (tl (c_args f)). 0 \<in> set a)"
    using assms(1) by (auto simp: s stack_rel_def)
  note q = pushs_effect [OF r(1)]
  have "args (pushs st) = layout (f\<lparr>c_args := [] # c_args f\<rparr> # fs')"
    unfolding q(2) r(2) by (simp add: fs texts_new flat_def)
  moreover have "c_args f \<noteq> []" "\<forall>a \<in> set (c_args f). 0 \<in> set a" using r(4) fs by (cases "c_args f"; auto)+
  ultimately show ?thesis using q(1) r fs by (auto simp: s stack_rel_def code_stack_def spec_stack_def)
qed

lemma string_at_text:
  assumes "str_ok st" "Strspace p \<in> set (mstack st)" "0 \<in> set (text_from st p)"
  shows "string_at st p = Inr (cstr (text_from st p))"
proof -
  let ?s = "drop (nat (p - strspace st)) (strmem st)" and ?n = "nat (ep st - p)"
  have z: "0 \<in> set (take ?n ?s)" using assms(3) by (simp add: text_from_def)
  have "takeWhile (\<lambda>c. c \<noteq> 0) (take ?n ?s @ drop ?n ?s) = takeWhile (\<lambda>c. c \<noteq> 0) (take ?n ?s)"
    using z by (intro takeWhile_append1) auto
  then have "takeWhile (\<lambda>c. c \<noteq> 0) ?s = takeWhile (\<lambda>c. c \<noteq> 0) (take ?n ?s)" by (simp only: append_take_drop_id)
  moreover have "0 \<in> set ?s" using z by (rule in_set_takeD)
  moreover have "strspace st \<le> p" using assms(1,2) by (simp add: str_ok_def)
  ultimately show ?thesis by (simp add: string_at_def text_from_def cstr_def Let_def)
qed

lemma entry_strings_texts:
  assumes "str_ok st" "set ss \<subseteq> set (mstack st)" "map (shown st) ss = map Inr ts" "\<forall>t \<in> set ts. 0 \<in> set t"
  shows "entry_strings st ss = Inr (map cstr ts)"
  using assms(2-4)
proof (induction ss arbitrary: ts)
  case (Cons e ss)
  then obtain t ts' where t: "ts = t # ts'" "shown st e = Inr t" "map (shown st) ss = map Inr ts'" by (cases ts) auto
  then obtain p where p: "e = Strspace p" "text_from st p = t" by (cases e) auto
  then have "string_at st p = Inr (cstr t)" using string_at_text [OF assms(1), of p] Cons.prems t by auto
  then show ?case using Cons.IH [OF _ t(3)] Cons.prems t(1) p(1) by simp
qed simp

lemma texts_Inr: "texts as = map Inr (map (\<lambda>i. concat (drop i (rev as))) [0..<length as])"
  by (simp add: texts_def)

lemma cstr_texts:
  assumes "\<forall>a \<in> set as. 0 \<in> set a"
  shows "map cstr (map (\<lambda>i. concat (drop i (rev as))) [0..<length as]) = rev (map cstr as)"
proof (rule nth_equalityI)
  fix i assume "i < length (map cstr (map (\<lambda>i. concat (drop i (rev as))) [0..<length as]))"
  then have i: "i < length as" by simp
  have "0 \<in> set (rev as ! i)" using assms i by (metis length_rev nth_mem set_rev)
  moreover have "drop i (rev as) = rev as ! i # drop (Suc i) (rev as)" using i by (simp add: Cons_nth_drop_Suc)
  ultimately have "cstr (concat (drop i (rev as))) = cstr (rev as ! i)"
    unfolding cstr_def by (simp only: concat.simps) (rule takeWhile_append1, auto)
  then show "map cstr (map (\<lambda>i. concat (drop i (rev as))) [0..<length as]) ! i = rev (map cstr as) ! i"
    using i by (simp add: rev_map)
qed simp

lemma texts_closed:
  assumes "\<forall>a \<in> set as. 0 \<in> set a" "t \<in> set (map (\<lambda>i. concat (drop i (rev as))) [0..<length as])"
  shows "0 \<in> set t"
proof -
  obtain i where i: "i < length as" "t = concat (drop i (rev as))" using assms(2) by auto
  have "drop i (rev as) = rev as ! i # drop (Suc i) (rev as)" using i by (simp add: Cons_nth_drop_Suc)
  moreover have "0 \<in> set (rev as ! i)" using assms(1) i by (metis length_rev nth_mem set_rev)
  ultimately show ?thesis using i(2) by simp
qed

lemma rel_call_args:
  assumes "stack_rel s fs" "closed fs"
  shows "call_args code_stack s = call_args spec_stack fs"
proof -
  obtain f fs' where fs: "fs = f # fs'" "0 \<in> set (hd (c_args f))" using assms(2) by (cases fs) (auto simp: closed_def)
  obtain st fp where s: "s = (st, fp)" by (cases s)
  have r: "stack_rel (st, fp) (f # fs')" using assms(1) by (simp add: s fs)
  then obtain low ss where m: "mstack st = low @ [Sfra (frame_index fs'), Sfra (uint (c_type f)), Sfra (uint (c_traced f)), Sfra (c_parlev f),
      Macro (c_def f), Other (c_name f)] @ ss" "length low = length (layout fs')" "map (shown st) low = map (map_sum id (\<lambda>t. t @ flat f)) (layout fs')"
    "map (shown st) ss = texts (c_args f)" "fp = int (length low) + 3" by (rule frame_entries)
  have ok: "str_ok st" and cl: "\<forall>a \<in> set (c_args f). 0 \<in> set a"
    using r fs by (cases "c_args f"; auto simp: stack_rel_def)+
  have "set ss \<subseteq> set (mstack st)" unfolding m(1) by auto
  then have "entry_strings st ss = Inr (rev (map cstr (c_args f)))"
    using entry_strings_texts [OF ok _ m(4) [unfolded texts_Inr]] texts_closed [OF cl] cstr_texts [OF cl] by simp
  moreover have "nat (fp + 1) = length low + 4" "nat (fp - 2) = length low + 1" using m(5) by simp_all
  ultimately show ?thesis
    using m(5) by (simp add: s fs code_stack_def spec_stack_def m(1) nth_append)
qed

lemma shown_low: "shown st e = map_sum id h x \<Longrightarrow> shown st e = Inl e' \<Longrightarrow> x = Inl e'"
  by (cases x) auto

lemma rel_close:
  assumes "stack_rel s (f # fs)"
  shows "stack_rel (close_call code_stack s) fs"
proof -
  obtain st fp where s: "s = (st, fp)" by (cases s)
  have r: "stack_rel (st, fp) (f # fs)" using assms(1) by (simp add: s)
  then obtain low ss where m: "mstack st = low @ [Sfra (frame_index fs), Sfra (uint (c_type f)), Sfra (uint (c_traced f)), Sfra (c_parlev f),
      Macro (c_def f), Other (c_name f)] @ ss" "length low = length (layout fs)" "map (shown st) low = map (map_sum id (\<lambda>t. t @ flat f)) (layout fs)"
    "map (shown st) ss = texts (c_args f)" "fp = int (length low) + 3" by (rule frame_entries)
  have ok: "str_ok st" and ne: "c_args f \<noteq> []" using r by (simp_all add: stack_rel_def)
  have "texts (c_args f) = Inr (flat f) # tl (texts (c_args f))"
    using ne by (cases "length (c_args f)") (simp_all add: texts_def flat_def upt_conv_Cons del: upt_Suc)
  then have "map (shown st) ss = Inr (flat f) # tl (texts (c_args f))" using m(4) by simp
  then obtain e ss' where e: "ss = e # ss'" "shown st e = Inr (flat f)" by (cases ss) auto
  then obtain p where p: "e = Strspace p" "text_from st p = flat f" by (cases e) auto
  let ?st = "st\<lparr>ep := p, mstack := low\<rparr>"
  have "nat (fp + 3) = length low + 6" "nat (fp - 3) = length low" using m(5) by simp_all
  then have close: "close_call code_stack s = (?st, frame_index fs)"
    by (simp add: s code_stack_def m(1) e(1) p(1) nth_append)
  have pin: "Strspace p \<in> set (mstack st)" unfolding m(1) e(1) p(1) by simp
  have bd: "strspace st \<le> p" "p \<le> ep st" "length (text_from st q) = nat (ep st - q)"
    if "Strspace q \<in> set (mstack st)" for q
    using that pin ok by (auto simp: str_ok_def text_from_def)
  have low: "q \<le> p \<and> shown ?st (Strspace q) = x" if "(Strspace q, x) \<in> set (zip low (layout fs))" for q x
  proof -
    obtain i where i: "i < length low" "low ! i = Strspace q" "layout fs ! i = x" using \<open>_ \<in> set (zip _ _)\<close> by (auto simp: set_zip)
    have "Strspace q \<in> set low" using i by (metis nth_mem)
    then have qin: "Strspace q \<in> set (mstack st)" unfolding m(1) by simp
    have "shown st (Strspace q) = map_sum id (\<lambda>t. t @ flat f) x"
      using arg_cong [OF m(3), of "\<lambda>l. l ! i"] i m(2) by simp
    then obtain t where t: "x = Inr t" "text_from st q = t @ flat f" by (cases x) auto
    have len: "nat (ep st - q) = length t + nat (ep st - p)" using bd(3) [OF qin] bd(3) [OF pin] t(2) p(2) by simp
    moreover have "q \<le> ep st" using ok qin by (simp add: str_ok_def)
    ultimately have n: "nat (p - q) = length t" "q \<le> p" using bd(2) [OF pin] by linarith+
    then have "text_from ?st q = take (length t) (text_from st q)" using len by (simp add: text_from_def min_def)
    then show ?thesis using t n by simp
  qed
  have "map (shown ?st) low = layout fs"
  proof (rule nth_equalityI)
    fix i assume "i < length (map (shown ?st) low)"
    then have i: "i < length low" by simp
    have sh: "shown st (low ! i) = map_sum id (\<lambda>t. t @ flat f) (layout fs ! i)"
      using arg_cong [OF m(3), of "\<lambda>l. l ! i"] i m(2) by simp
    show "map (shown ?st) low ! i = layout fs ! i"
    proof (cases "low ! i")
      case (Strspace q)
      then have "(low ! i, layout fs ! i) \<in> set (zip low (layout fs))" using i m(2) nth_mem [of i "zip low (layout fs)"] by simp
      then show ?thesis using low [of q "layout fs ! i"] i Strspace by simp
    next
      case (Macro q)
      then show ?thesis using shown_low [OF sh] i by simp
    next
      case (Other t)
      then show ?thesis using shown_low [OF sh] i by simp
    next
      case (Sfra n)
      then show ?thesis using shown_low [OF sh] i by simp
    qed
  qed (simp add: m(2))
  then have "args ?st = layout fs" by (simp add: args_def)
  moreover have "str_ok ?st"
  proof -
    have "strspace st \<le> q \<and> q \<le> p" if q: "Strspace q \<in> set low" for q
    proof -
      obtain i where i: "i < length low" "low ! i = Strspace q" using q by (auto simp: in_set_conv_nth)
      then have "(Strspace q, layout fs ! i) \<in> set (zip low (layout fs))" using m(2) nth_mem [of i "zip low (layout fs)"] by simp
      then show ?thesis using low bd(1) q ok m(1) by (auto simp: str_ok_def)
    qed
    then show ?thesis using ok bd [OF pin] by (auto simp: str_ok_def)
  qed
  ultimately show ?thesis using r unfolding close by (simp add: stack_rel_def)
qed

lemma rel_live:
  assumes "stack_rel s fs"
  shows "live code_stack s = live spec_stack fs"
proof -
  obtain st fp where s: "s = (st, fp)" by (cases s)
  let ?g = "\<lambda>e. case e of Inl (Macro p) \<Rightarrow> [p] | _ \<Rightarrow> []"
  have sh: "(case e of Macro p \<Rightarrow> [p] | _ \<Rightarrow> []) = ?g (shown st e)" for e by (cases e) simp_all
  have id: "?g (map_sum id h x) = ?g x" for h and x :: "dptr entry + u8 list" by (cases x) simp_all
  have lay: "concat (map ?g (layout fs)) = map c_def (rev fs)" for fs
    by (induction fs) (simp_all add: o_def id texts_def)
  have "live code_stack s = concat (map ?g (args st))" by (simp add: s code_stack_def args_def o_def sh)
  also have "\<dots> = live spec_stack fs" using assms lay by (simp add: s stack_rel_def spec_stack_def)
  finally show ?thesis .
qed

end
