(* ===== verification/M4_Loop.thy ===== *)
theory M4_Loop
  imports M4_Stack
begin

text \<open>
  The main loop of \<open>m4\<close> on two stacks.  The locale \<open>like_stacks\<close> is what the loop relies on, that the operations
  on two stacks keep a relation between them; inside it each part of the loop is shown to do the same with both.
  It is interpreted on the stack of the code and that of the specification.
\<close>

section \<open>Two stacks that behave alike\<close>

text \<open>The results are related: the same error, or related values.\<close>

abbreviation res_rel :: "('a \<Rightarrow> 'b \<Rightarrow> bool) \<Rightarrow> 'a m4_result \<Rightarrow> 'b m4_result \<Rightarrow> bool" where
  "res_rel R \<equiv> rel_sum (=) R"

definition main_rel :: "('f \<Rightarrow> 'g \<Rightarrow> bool) \<Rightarrow> 'f main_state \<Rightarrow> 'g main_state \<Rightarrow> bool" where
  "main_rel R a b \<longleftrightarrow> ev a = ev b \<and> R (frm a) (frm b)"

abbreviation with_rel :: "('f \<Rightarrow> 'g \<Rightarrow> bool) \<Rightarrow> 'a \<times> 'f main_state \<Rightarrow> 'a \<times> 'g main_state \<Rightarrow> bool" where
  "with_rel R \<equiv> rel_prod (=) (main_rel R)"

lemma rel_bind:
  assumes "rel_sum (=) R x y" "\<And>a b. x = Inr a \<Longrightarrow> y = Inr b \<Longrightarrow> R a b \<Longrightarrow> rel_sum (=) S (f a) (g b)"
  shows "rel_sum (=) S (err_bind x f) (err_bind y g)"
  using assms by (cases x; cases y) auto

lemma rel_map: "rel_sum (=) R x y \<Longrightarrow> (\<And>a b. R a b \<Longrightarrow> S (f a) (g b)) \<Longrightarrow> rel_sum (=) S (map_sum id f x) (map_sum id g y)"
  by (cases x; cases y) auto

lemma rel_bind_pair:
  assumes "rel_sum (=) (rel_prod (=) S) x y"
    "\<And>c a b. x = Inr (c, a) \<Longrightarrow> y = Inr (c, b) \<Longrightarrow> S a b \<Longrightarrow> rel_sum (=) T (f c a) (g c b)"
  shows "rel_sum (=) T (err_bind x (case_prod f)) (err_bind y (case_prod g))"
  using assms(1) by (rule rel_bind) (auto intro: assms(2))

lemma rel_with_input: "main_rel R a b \<Longrightarrow> f = g \<Longrightarrow> res_rel (with_rel R) (with_input f a) (with_input g b)"
  unfolding with_input_def main_rel_def
  by (cases "f (inp (ev b))") auto

lemma rel_if:
  "c = c' \<Longrightarrow> (c \<Longrightarrow> rel_sum (=) S x y) \<Longrightarrow> (\<not> c \<Longrightarrow> rel_sum (=) S x' y') \<Longrightarrow> rel_sum (=) S (if c then x else x') (if c' then y else y')"
  by simp

lemma main_rel_ev: "main_rel R a b \<Longrightarrow> ev a = ev b"
  by (simp add: main_rel_def)

lemma skip_space_frm: "skip_space F H False st = Inr st' \<Longrightarrow> frm st' = frm st"
proof (induction "rest_of st" arbitrary: st rule: less_induct)
  case less
  from less.prems obtain l s1 where w: "with_input gpbc st = Inr (l, s1)"
    and q: "(case l of None \<Rightarrow> Inr s1 | Some c \<Rightarrow> if is_space c then skip_space F H False s1
       else map_sum id (\<lambda>i. s1\<lparr>ev := (ev s1)\<lparr>inp := i\<rparr>\<rparr>) (pushback H l (inp (ev s1)))) = Inr st'"
    unfolding skip_space.simps [of F H False st] err_bind_Inr by (auto cong: option.case_cong if_cong)
  have f: "frm s1 = frm st" using w by (auto simp: with_input_Inr)
  show ?case
  proof (cases "\<exists>c. l = Some c \<and> is_space c")
    case True
    then show ?thesis using less.hyps [of s1] char_less [of st _ s1 s1] w q f by auto
  next
    case False
    then show ?thesis using q f by (auto simp: map_sum_Inr split: option.splits if_splits)
  qed
qed

locale like_stacks =
  fixes F :: "'f stack_ops" and G :: "'g stack_ops" and R :: "'f \<Rightarrow> 'g \<Rightarrow> bool" and closed :: "'g \<Rightarrow> bool"
  assumes in_call: "R s t \<Longrightarrow> in_call F s = in_call G t"
    and save: "R s t \<Longrightarrow> res_rel R (save F H c s) (save G H c t)"
    and save_closed: "save G H 0 t = Inr t' \<Longrightarrow> in_call G t \<Longrightarrow> closed t'"
    and parlev: "R s t \<Longrightarrow> parlev F s = parlev G t"
    and set_parlev: "R s t \<Longrightarrow> R (set_parlev F n s) (set_parlev G n t)"
    and set_parlev_call: "in_call G (set_parlev G n t) = in_call G t"
    and open_call: "R s t \<Longrightarrow> R (open_call F ty tr df name s) (open_call G ty tr df name t)"
    and opened: "in_call G (open_call G ty tr df name t)"
    and new_arg: "R s t \<Longrightarrow> closed t \<Longrightarrow> R (new_arg F s) (new_arg G t)"
    and call_args: "R s t \<Longrightarrow> closed t \<Longrightarrow> call_args F s = call_args G t"
    and close_call: "R s t \<Longrightarrow> closed t \<Longrightarrow> R (close_call F s) (close_call G t)"
    and live: "R s t \<Longrightarrow> live F s = live G t"
begin

lemma alike_in_call: "main_rel R a b \<Longrightarrow> in_call F (frm a) = in_call G (frm b)"
  using in_call by (auto simp: main_rel_def)

lemma alike_parlev: "main_rel R a b \<Longrightarrow> parlev F (frm a) = parlev G (frm b)"
  using parlev by (auto simp: main_rel_def)

lemma alike_save_char: "main_rel R a b \<Longrightarrow> res_rel (main_rel R) (save_char F H c a) (save_char G H c b)"
  unfolding save_char_def main_rel_def by (rule rel_map [OF save]) auto

lemma alike_output_char: "main_rel R a b \<Longrightarrow> res_rel (main_rel R) (output_char F H c a) (output_char G H c b)"
  using alike_in_call [of a b] alike_save_char [of a b H c] by (simp add: output_char_def save_char_def main_rel_def)

lemma alike_outputstr: "main_rel R a b \<Longrightarrow> s = s' \<Longrightarrow> res_rel (main_rel R) (outputstr F H s a) (outputstr G H s' b)"
proof (induction s arbitrary: s' a b)
  case (Cons c s)
  show ?case unfolding Cons.prems(2) [symmetric] outputstr.simps
    by (rule rel_bind [OF alike_output_char [OF Cons.prems(1)]]) (rule Cons.IH [OF _ refl])
qed simp

lemma alike_quote_loop: "main_rel R a b \<Longrightarrow> res_rel (main_rel R) (quote_loop F H n a) (quote_loop G H n b)"
proof (induction "rest_of a" arbitrary: n a b rule: less_induct)
  case less
  show ?case
    unfolding quote_loop.simps [of F H n a] quote_loop.simps [of G H n b]
    apply (rule rel_bind_pair [OF rel_with_input [OF less.prems refl]])
    subgoal premises g for l s1 t1
      apply (rule rel_bind_pair [OF rel_with_input [OF g(3)]], simp only: main_rel_ev [OF g(3)])
      subgoal premises h for hit s2 t2
        apply (rule rel_if [OF refl], rule rel_if [OF refl], rule rel_bind [OF alike_outputstr [OF h(3)]])
        subgoal by (simp only: main_rel_ev [OF h(3)])
        subgoal premises q for s3 t3
          by (rule less.hyps [OF _ q(5)]) (use hit_less [OF g(1) order_refl] h(1) q(1) rest_outputstr [OF q(3)] in simp)
        subgoal by (simp add: h(3))
        apply (rule rel_bind_pair [OF rel_with_input [OF h(3)]], simp only: main_rel_ev [OF h(3)])
        subgoal premises k for hit' s3 t3
          apply (rule rel_if [OF refl], rule rel_bind [OF alike_outputstr [OF k(4)]])
          subgoal by (simp only: main_rel_ev [OF k(4)])
          subgoal premises q for s4 t4
            by (rule less.hyps [OF _ q(4)]) (use hit_less [OF g(1) rest_look [OF h(1)]] k(2) q(1) rest_outputstr [OF q(2)] in simp)
          apply (cases l)
          subgoal by simp
          subgoal premises q for c
            unfolding q(2) option.case
            apply (rule rel_bind [OF alike_output_char [OF k(4)]])
            subgoal premises u for s4 t4
              by (rule less.hyps [OF _ u(3)])
                (use char_less [of a c s1 s4] g(1) q(2) rest_look [OF h(1)] rest_look [OF k(2)] rest_output [OF u(1)] in simp)
            done
          done
        done
      done
    done
qed

lemma alike_comment_loop: "main_rel R a b \<Longrightarrow> res_rel (main_rel R) (comment_loop F H a) (comment_loop G H b)"
proof (induction "rest_of a" arbitrary: a b rule: less_induct)
  case less
  show ?case
    unfolding comment_loop.simps [of F H a] comment_loop.simps [of G H b]
    apply (rule rel_bind_pair [OF rel_with_input [OF less.prems refl]])
    subgoal premises g for t s1 t1
      apply (rule rel_bind_pair [OF rel_with_input [OF g(3)]], simp only: main_rel_ev [OF g(3)])
      subgoal premises h for hit s2 t2
        apply (rule rel_if [OF refl], rule alike_outputstr [OF h(3)], simp only: main_rel_ev [OF h(3)])
        apply (cases t)
        subgoal by (simp add: h(3))
        subgoal premises q for c
          unfolding q(2) option.case
          apply (rule rel_bind [OF alike_output_char [OF h(3)]])
          subgoal premises u for s3 t3
            by (rule less.hyps [OF _ u(3)])
              (use char_less [of a c s1 s3] g(1) q(2) rest_look [OF h(1)] rest_output [OF u(1)] in simp)
          done
        done
      done
    done
qed

lemma rest_save: "map_sum id (\<lambda>f. st\<lparr>frm := f\<rparr>) r = Inr st' \<Longrightarrow> rest_of st' = rest_of st"
  by (auto simp: map_sum_Inr rest_of_def)

lemma alike_skip_space: "main_rel R a b \<Longrightarrow> res_rel (main_rel R) (skip_space F H saving a) (skip_space G H saving b)"
proof (induction "rest_of a" arbitrary: a b rule: less_induct)
  case less
  show ?case
    unfolding skip_space.simps [of F H saving a] skip_space.simps [of G H saving b]
    apply (rule rel_bind_pair [OF rel_with_input [OF less.prems refl]])
    subgoal premises g for l s1 t1
      apply (cases l)
      subgoal by (simp add: g(3))
      subgoal premises q for c
        unfolding q option.case
        apply (rule rel_if [OF refl], rule rel_bind)
        apply (rule rel_if [OF refl], rule alike_save_char [OF g(3), unfolded save_char_def], simp add: g(3))
        subgoal premises u for s2 t2
          by (rule less.hyps [OF _ u(4)])
            (use char_less [of a c s1 s2] g(1) q u(2) rest_save [of s1 "save F H c (frm s1)" s2] in \<open>auto split: if_splits\<close>)
        subgoal using g(3) unfolding main_rel_def by (cases "pushback H (Some c) (inp (ev t1))") auto
        done
      done
    done
qed

lemma alike_inspect: "main_rel R a b \<Longrightarrow> res_rel (with_rel R) (inspect H c a) (inspect H c b)"
  unfolding inspect_def
  apply (rule rel_bind_pair, erule rel_with_input, rule refl)
  subgoal premises p for name s1 t1
    using p(4) unfolding main_rel_def by (auto split: option.split)
  done

lemma alike_call_eval:
  assumes "main_rel R a b" "closed (frm b)"
  shows "res_rel (main_rel R) (call_eval F E br a) (call_eval G E br b)"
proof -
  have r: "ev a = ev b" "R (frm a) (frm b)" using assms(1) by (simp_all add: main_rel_def)
  have "res_rel (main_rel R) (err_bind x (\<lambda>e. Inr (a\<lparr>ev := e, frm := close_call F (frm a)\<rparr>)))
      (err_bind x (\<lambda>e. Inr (b\<lparr>ev := e, frm := close_call G (frm b)\<rparr>)))" for x
    using close_call [OF r(2) assms(2)] by (cases x) (simp_all add: main_rel_def)
  note bind = this
  show ?thesis
  proof (cases "call_args G (frm b)")
    case (Inr t)
    obtain p as td where t: "t = (p, as, td)" by (cases t)
    show ?thesis unfolding call_eval_def call_args [OF r(2) assms(2)] live [OF r(2)] r(1) Inr t err_bind_simps prod.case
      by (rule rel_if [OF refl _ bind]) simp
  qed (simp add: call_eval_def call_args [OF r(2) assms(2)])
qed

lemma closed_saved:
  assumes "save_char G H 0 b = Inr b'" "in_call G (frm b)"
  shows "closed (frm b')"
proof -
  obtain f where "save G H 0 (frm b) = Inr f" "b' = b\<lparr>frm := f\<rparr>" using assms(1) by (auto simp: save_char_def map_sum_Inr)
  then show ?thesis using save_closed assms(2) by simp
qed

lemma alike_end_call:
  assumes "main_rel R a b" "in_call G (frm b)"
  shows "res_rel (main_rel R) (err_bind (save_char F H 0 a) (call_eval F E br)) (err_bind (save_char G H 0 b) (call_eval G E br))"
  by (rule rel_bind [OF alike_save_char [OF assms(1)]]) (rule alike_call_eval, assumption, rule closed_saved [OF _ assms(2)])

lemma alike_name_case: "main_rel R a b \<Longrightarrow> res_rel (main_rel R) (name_case F E c a) (name_case G E c b)"
  unfolding name_case_def Let_def
  apply (rule rel_bind_pair, erule alike_inspect)
  subgoal premises g for np s1 t1
    apply (cases np; cases "snd np")
    subgoal using alike_outputstr [OF g(4) refl] by simp
    subgoal premises q for name p n
      unfolding q(1) prod.case q(2) [unfolded q(1) snd_conv] option.case
      apply (rule rel_bind_pair [OF rel_with_input [OF g(4) refl]])
      apply (rule rel_bind_pair, erule rel_with_input, rule refl)
      subgoal premises h for l s2 t2 u s3 t3
        unfolding main_rel_ev [OF h(6)]
        apply (rule rel_if [OF refl], rule alike_outputstr [OF h(6) refl])
        apply (rule rel_if)
        subgoal using parlev [OF open_call, of "frm s3" "frm t3"] h(6) by (simp add: main_rel_def)
        subgoal by (rule alike_end_call) (use open_call opened h(6) in \<open>simp_all add: main_rel_def\<close>)
        subgoal using open_call h(6) by (simp add: main_rel_def)
        done
      done
    done
  done

lemma alike_paren_case:
  assumes r: "main_rel R a b" and c: "in_call G (frm b)"
  shows "res_rel (main_rel R) (paren_case F E x a) (paren_case G E x b)"
proof -
  let ?H = "heap E" and ?lev = "parlev G (frm b)"
  have rs: "main_rel R (a\<lparr>frm := set_parlev F n (frm a)\<rparr>) (b\<lparr>frm := set_parlev G n (frm b)\<rparr>)"
    if "main_rel R a b" for a b n using that set_parlev by (simp add: main_rel_def)
  have lp: "res_rel (main_rel R)
      (err_bind (if ?lev > 0 then save_char F ?H x a else Inr a) (\<lambda>st. err_bind (skip_space F ?H (?lev > 0) st) (\<lambda>st.
         Inr (st\<lparr>frm := set_parlev F (parlev F (frm st) + 1) (frm st)\<rparr>))))
      (err_bind (if ?lev > 0 then save_char G ?H x b else Inr b) (\<lambda>st. err_bind (skip_space G ?H (?lev > 0) st) (\<lambda>st.
         Inr (st\<lparr>frm := set_parlev G (parlev G (frm st) + 1) (frm st)\<rparr>))))"
    apply (rule rel_bind, rule rel_if [OF refl], rule alike_save_char [OF r], simp add: r)
    apply (rule rel_bind, erule alike_skip_space)
    subgoal for a1 b1 a2 b2 using rs [of a2 b2] alike_parlev [of a2 b2] by simp
    done
  have co: "res_rel (main_rel R)
      (err_bind (save_char F ?H 0 a) (\<lambda>st. err_bind (skip_space F ?H False st) (\<lambda>st. Inr (st\<lparr>frm := new_arg F (frm st)\<rparr>))))
      (err_bind (save_char G ?H 0 b) (\<lambda>st. err_bind (skip_space G ?H False st) (\<lambda>st. Inr (st\<lparr>frm := new_arg G (frm st)\<rparr>))))"
    apply (rule rel_bind [OF alike_save_char [OF r]])
    apply (rule rel_bind, erule alike_skip_space)
    subgoal for a1 b1 a2 b2
      using new_arg [of "frm a2" "frm b2"] closed_saved [OF _ c] skip_space_frm [of G ?H b1 b2] by (simp add: main_rel_def)
    done
  have de: "res_rel (main_rel R)
      (err_bind (with_input (look_ahead ?H (Some x) (scommt (ev a))) a) (\<lambda>(hit, st).
          if hit then err_bind (outputstr F ?H (scommt (ev st)) st) (comment_loop F ?H) else save_char F ?H x st))
      (err_bind (with_input (look_ahead ?H (Some x) (scommt (ev b))) b) (\<lambda>(hit, st).
          if hit then err_bind (outputstr G ?H (scommt (ev st)) st) (comment_loop G ?H) else save_char G ?H x st))"
    apply (rule rel_bind_pair [OF rel_with_input [OF r]], simp only: main_rel_ev [OF r])
    subgoal premises h for hit s t
      by (rule rel_if [OF refl rel_bind [OF alike_outputstr [OF h(3)] alike_comment_loop]])
        (simp_all add: main_rel_ev [OF h(3)] alike_save_char [OF h(3)])
    done
  have rp: "res_rel (main_rel R)
      (if ?lev - 1 > 0 then save_char F ?H x (a\<lparr>frm := set_parlev F (?lev - 1) (frm a)\<rparr>)
       else err_bind (save_char F ?H 0 (a\<lparr>frm := set_parlev F (?lev - 1) (frm a)\<rparr>)) (call_eval F E True))
      (if ?lev - 1 > 0 then save_char G ?H x (b\<lparr>frm := set_parlev G (?lev - 1) (frm b)\<rparr>)
       else err_bind (save_char G ?H 0 (b\<lparr>frm := set_parlev G (?lev - 1) (frm b)\<rparr>)) (call_eval G E True))"
    by (rule rel_if [OF refl alike_save_char [OF rs [OF r]] alike_end_call [OF rs [OF r]]]) (simp add: set_parlev_call c)
  show ?thesis unfolding paren_case_def Let_def alike_parlev [OF r]
    by (rule rel_if [OF refl lp rel_if [OF refl rp rel_if [OF refl rel_if [OF refl co alike_save_char [OF r]] de]]])
qed

lemma alike_file_end: "main_rel R a b \<Longrightarrow> res_rel (with_rel R) (file_end F E a) (file_end G E b)"
  unfolding file_end_def
  using rel_with_input [of R a b, OF _ refl [of "\<lambda>i. map_sum id (Pair True) (end_include i)"]]
  by (simp add: alike_in_call main_rel_ev)

lemma alike_macro_step:
  assumes r: "main_rel R a b"
  shows "res_rel (with_rel R) (macro_step F E a) (macro_step G E b)"
proof -
  have go: "res_rel (with_rel R) (map_sum id (Pair True) x) (map_sum id (Pair True) y)" if "res_rel (main_rel R) x y" for x y
    using that by (rule rel_map) simp
  show ?thesis
    unfolding macro_step_def Let_def
    apply (rule rel_bind_pair [OF rel_with_input [OF r refl]])
    subgoal premises g for t s1 t1
      apply (rule rel_bind_pair [OF rel_with_input [OF g(3)]], simp only: main_rel_ev [OF g(3)])
      subgoal premises h for hit s2 t2
        apply (rule rel_if [OF refl go [OF alike_quote_loop [OF h(3)]]])
        apply (rule rel_bind_pair [where S = "main_rel R"])
         apply (rule rel_if)
        subgoal by (simp only: alike_in_call [OF h(3)])
        subgoal by (rule rel_with_input [OF h(3)]) (simp only: main_rel_ev [OF h(3)])
        subgoal by (simp add: h(3))
        subgoal premises k for hit' s3 t3
          apply (rule rel_if [OF refl go [OF rel_bind [OF alike_outputstr [OF k(4)] alike_comment_loop]]])
          subgoal by (simp only: main_rel_ev [OF k(4)])
          subgoal by assumption
          apply (cases t)
          subgoal using alike_file_end [OF k(4)] by simp
          subgoal for c
            using go [OF alike_name_case [OF k(4)]] go [OF alike_output_char [OF k(4)]] go [OF alike_paren_case [OF k(4)]] alike_in_call [OF k(4)]
            by simp
          done
        done
      done
    done
qed

lemma alike_macro_rounds: "main_rel R a b \<Longrightarrow> res_rel (with_rel R) (macro_rounds F E n a) (macro_rounds G E n b)"
proof (induction n arbitrary: a b)
  case (Suc n)
  show ?case unfolding macro_rounds.simps
    by (rule rel_bind_pair [OF alike_macro_step [OF Suc.prems]]) (simp add: Suc.IH)
qed simp

end

interpretation m4: like_stacks code_stack spec_stack stack_rel closed
proof
  fix s :: code_frames and t :: "call list"
  show "stack_rel s t \<Longrightarrow> in_call code_stack s = in_call spec_stack t"
    using rel_nonempty by (cases s) (simp add: code_stack_def spec_stack_def)
  show "stack_rel s t \<Longrightarrow> res_rel stack_rel (save code_stack H c s) (save spec_stack H c t)" for H c
    using rel_save [of s t H c] by (auto simp: spec_stack_def)
  show "stack_rel s t \<Longrightarrow> closed t \<Longrightarrow> stack_rel (close_call code_stack s) (close_call spec_stack t)"
    using rel_close [of s] by (cases t) (auto simp: spec_stack_def closed_def)
  show "closed t'" if "save spec_stack H 0 t = Inr t'" "in_call spec_stack t" for H t'
    using that closed_save [of t] by (auto simp: spec_stack_def)
  show "in_call spec_stack (set_parlev spec_stack n t) = in_call spec_stack t" for n
    by (cases t) (simp_all add: spec_stack_def)
  show "in_call spec_stack (open_call spec_stack ty tr df name t)" for ty tr df name
    by (simp add: spec_stack_def)
qed (simp_all add: rel_parlev rel_set_parlev rel_open rel_new_arg rel_call_args rel_live)

section \<open>The main loop\<close>

lemma init_stack: "stack_rel (init_strspace H, 0) []"
  by (simp add: stack_rel_def str_ok_def init_strspace_def args_def Let_def)

text \<open>
  C36. From an empty stack the main loop of the code, with its array of pointers into a string space that moves, does in any
  number of rounds what the loop on a list of calls with their arguments does: it fails with the same error, or it has the
  same output, definitions and input left to read, and goes on or stops alike.
\<close>

theorem main_loop_refines:
  "map_sum id (map_prod id ev) (macro_rounds code_stack E n \<lparr>ev = e, frm = (init_strspace (heap E), 0)\<rparr>) =
   map_sum id (map_prod id ev) (macro_rounds spec_stack E n \<lparr>ev = e, frm = []\<rparr>)"
proof -
  have "stack_rel (init_strspace (heap E), 0) []" by (simp add: init_stack)
  then have "res_rel (with_rel stack_rel) (macro_rounds code_stack E n \<lparr>ev = e, frm = (init_strspace (heap E), 0)\<rparr>)
      (macro_rounds spec_stack E n \<lparr>ev = e, frm = []\<rparr>)"
    by (intro m4.alike_macro_rounds) (simp add: main_rel_def)
  then show ?thesis
    by (cases "macro_rounds code_stack E n \<lparr>ev = e, frm = (init_strspace (heap E), 0)\<rparr>";
        cases "macro_rounds spec_stack E n \<lparr>ev = e, frm = []\<rparr>") (auto simp: main_rel_def)
qed

end
