(* ===== verification/M4_Rounds.thy ===== *)
theory M4_Rounds
  imports M4_Loop
begin

text \<open>
  What one round of the main loop does on the stack of the specification, said of the text that is left to read: a
  character that means nothing, a quoted text, a parenthesis, a comma.  The pieces of an argument and the rounds that
  read them are put together at the end.
\<close>

section \<open>Reading\<close>

definition reads :: "'f main_state \<Rightarrow> u8 list \<Rightarrow> u8 list list \<Rightarrow> bool" where
  "reads st s ss \<longleftrightarrow> buf_ok (inp (ev st)) \<and> streams (inp (ev st)) = s # ss"

text \<open>\<open>past st s ss\<close> are the states that differ from \<open>st\<close> only in that \<open>s\<close> is left to read.\<close>

definition past :: "'f main_state \<Rightarrow> u8 list \<Rightarrow> u8 list list \<Rightarrow> 'f main_state \<Rightarrow> bool" where
  "past st s ss st' \<longleftrightarrow> (\<exists>i. buf_ok i \<and> streams i = s # ss \<and> st' = st\<lparr>ev := (ev st)\<lparr>inp := i\<rparr>\<rparr>)"

lemma pastD:
  assumes "past st s ss st'"
  shows "reads st' s ss" "frm st' = frm st" "quo (ev st') = quo (ev st)" "scommt (ev st') = scommt (ev st)"
    "ecommt (ev st') = ecommt (ev st)" "dvs (ev st') = dvs (ev st)" "tab (ev st') = tab (ev st)"
  using assms by (auto simp: past_def reads_def)

lemma past_trans: "past st s ss st' \<Longrightarrow> past st' s' ss' st'' \<Longrightarrow> past st s' ss' st''"
  by (auto simp: past_def)

lemma past_refl: "reads st s ss \<Longrightarrow> past st s ss st"
  unfolding past_def reads_def by (intro exI [of _ "inp (ev st)"]) simp

lemma read_char:
  assumes "reads st (c # s) ss"
  obtains st' where "with_input gpbc st = Inr (Some c, st')" "past st s ss st'"
  using gpbc_effect [of "inp (ev st)"] assms that by (auto simp: reads_def with_input_Inr past_def)

lemma push_back:
  assumes "reads st s ss"
  obtains i where "pushback H (Some c) (inp (ev st)) = Inr i" "past st (c # s) ss (st\<lparr>ev := (ev st)\<lparr>inp := i\<rparr>\<rparr>)"
  using pushback_effect [of "inp (ev st)" H c] assms that by (auto simp: reads_def fed_def past_def)

text \<open>A token that does not begin with the character, or is that character.\<close>

definition starts :: "c_string \<Rightarrow> u8 \<Rightarrow> bool" where
  "starts tok c \<longleftrightarrow> (case tok of [] \<Rightarrow> c = 0 | a # _ \<Rightarrow> a = c)"

lemma no_token: "\<not> starts tok c \<Longrightarrow> with_input (look_ahead H (Some c) tok) st = Inr (False, st)"
  by (auto simp: with_input_def look_ahead_def starts_def split: list.splits)

lemma token_found: "with_input (look_ahead H (Some c) [c]) st = Inr (True, st)"
  by (simp add: with_input_def look_ahead_def)

section \<open>Writing\<close>

definition emit :: "u8 list \<Rightarrow> call list main_state \<Rightarrow> call list main_state" where
  "emit w st = (if frm st = [] then st\<lparr>ev := (ev st)\<lparr>dvs := put_active w (dvs (ev st))\<rparr>\<rparr> else st\<lparr>frm := fold spec_save w (frm st)\<rparr>)"

lemma put_active_append: "put_active t (put_active s dv) = put_active (s @ t) dv"
proof (cases "active dv")
  case (Some k)
  then show ?thesis by (cases "k < length (outfile dv)") (simp_all add: put_active_def option.map_comp o_def list_update_beyond)
qed (simp add: put_active_def)

lemma put_active_Nil [simp]: "put_active [] dv = dv"
  by (simp add: put_active_def option.map_ident split: option.split)

lemma spec_save_nonempty [simp]: "fold spec_save w fs = [] \<longleftrightarrow> fs = []"
proof (induction w arbitrary: fs)
  case (Cons c w)
  show ?case by (cases fs) (simp_all add: Cons.IH)
qed simp

lemma emit_Nil [simp]: "emit [] st = st"
  by (simp add: emit_def)

lemma emit_append: "emit t (emit s st) = emit (s @ t) st"
  by (auto simp: emit_def put_active_append)

lemma emit_frm [simp]: "frm (emit w st) = [] \<longleftrightarrow> frm st = []"
  by (simp add: emit_def)

lemma output_emit: "output_char spec_stack H c st = Inr (emit [c] st)"
  by (simp add: output_char_def emit_def spec_stack_def)

lemma outputstr_emit: "outputstr spec_stack H w st = Inr (emit w st)"
  by (induction w arbitrary: st) (simp_all add: output_emit emit_append)

text \<open>\<open>after st w s ss\<close>: \<open>w\<close> has been written and \<open>s\<close> is left to read.\<close>

definition after :: "call list main_state \<Rightarrow> u8 list \<Rightarrow> u8 list \<Rightarrow> u8 list list \<Rightarrow> call list main_state \<Rightarrow> bool" where
  "after st w s ss st' \<longleftrightarrow> (\<exists>st1. past st s ss st1 \<and> st' = emit w st1)"

lemma reads_emit [simp]: "reads (emit w st) s ss = reads st s ss"
  by (simp add: reads_def emit_def)

lemma after_trans:
  assumes "after st w s ss st'" "after st' w' s' ss' st''"
  shows "after st (w @ w') s' ss' st''"
proof -
  obtain i where i: "buf_ok i" "streams i = s # ss" "st' = emit w (st\<lparr>ev := (ev st)\<lparr>inp := i\<rparr>\<rparr>)"
    using assms(1) by (auto simp: after_def past_def)
  obtain j where j: "buf_ok j" "streams j = s' # ss'" "st'' = emit w' (st'\<lparr>ev := (ev st')\<lparr>inp := j\<rparr>\<rparr>)"
    using assms(2) by (auto simp: after_def past_def)
  have "st'\<lparr>ev := (ev st')\<lparr>inp := j\<rparr>\<rparr> = emit w (st\<lparr>ev := (ev st)\<lparr>inp := j\<rparr>\<rparr>)"
    unfolding i(3) by (simp add: emit_def)
  then have "st'' = emit (w @ w') (st\<lparr>ev := (ev st)\<lparr>inp := j\<rparr>\<rparr>)" by (simp only: j(3) emit_append)
  then show ?thesis unfolding after_def past_def using j(1,2) by blast
qed

lemma after_past: "past st s ss st' \<Longrightarrow> after st [] s ss st'"
  by (simp add: after_def)

lemma after_emit: "past st s ss st' \<Longrightarrow> after st w s ss (emit w st')"
  by (auto simp: after_def)

lemma afterD:
  assumes "after st w s ss st'"
  shows "reads st' s ss" "frm st' = [] \<longleftrightarrow> frm st = []" "quo (ev st') = quo (ev st)" "scommt (ev st') = scommt (ev st)"
proof -
  obtain st1 where st1: "past st s ss st1" "st' = emit w st1" using assms by (auto simp: after_def)
  note p = pastD [OF st1(1)]
  show "reads st' s ss" "frm st' = [] \<longleftrightarrow> frm st = []" using p(1,2) by (simp_all add: st1(2))
  show "quo (ev st') = quo (ev st)" "scommt (ev st') = scommt (ev st)" using p(3,4) by (simp_all add: st1(2) emit_def)
qed

section \<open>Quoted text\<close>

fun balanced :: "u8 \<Rightarrow> u8 \<Rightarrow> nat \<Rightarrow> u8 list \<Rightarrow> bool" where
  "balanced l r k [] = (k = 0)"
| "balanced l r k (c # cs) =
     (if c = r then k > 0 \<and> balanced l r (k - 1) cs else balanced l r (if c = l then k + 1 else k) cs)"

lemma quote_loop_text:
  assumes "reads st (q @ r # s) ss" "balanced l r k q" "lquote (quo (ev st)) = [l]" "rquote (quo (ev st)) = [r]" "l \<noteq> r"
  shows "\<exists>st'. quote_loop spec_stack H (Suc k) st = Inr st' \<and> after st q s ss st'"
  using assms
proof (induction q arbitrary: k st)
  case Nil
  then obtain st1 where st1: "with_input gpbc st = Inr (Some r, st1)" "past st s ss st1"
    by (auto elim: read_char)
  note p = pastD [OF st1(2)]
  have "quote_loop spec_stack H (Suc 0) st = Inr st1"
    unfolding quote_loop.simps [of spec_stack H "Suc 0" st] by (simp add: st1(1) p Nil.prems token_found)
  then show ?case using Nil.prems(2) after_past [OF st1(2)] by auto
next
  case (Cons c q)
  then obtain st1 where st1: "with_input gpbc st = Inr (Some c, st1)" "past st (q @ r # s) ss st1"
    by (auto elim: read_char)
  note p = pastD [OF st1(2)]
  let ?st2 = "emit [c] st1"
  have q2: "reads ?st2 (q @ r # s) ss" "lquote (quo (ev ?st2)) = [l]" "rquote (quo (ev ?st2)) = [r]"
    using p(1) by (simp, use p(3) Cons.prems in \<open>simp_all add: emit_def\<close>)
  have nt: "\<not> starts [a] c" if "c \<noteq> a" for a using that by (simp add: starts_def)
  have step: "quote_loop spec_stack H (Suc k) st = quote_loop spec_stack H (Suc k') ?st2"
    if "k' = (if c = r then k - 1 else if c = l then k + 1 else k)" "c = r \<longrightarrow> k > 0" for k'
    unfolding quote_loop.simps [of spec_stack H "Suc k" st]
    using that p Cons.prems by (auto simp: st1(1) token_found no_token [OF nt] outputstr_emit output_emit)
  have "\<exists>k'. k' = (if c = r then k - 1 else if c = l then k + 1 else k) \<and> (c = r \<longrightarrow> k > 0) \<and> balanced l r k' q"
    using Cons.prems(2) by auto
  then obtain k' where k: "k' = (if c = r then k - 1 else if c = l then k + 1 else k)" "c = r \<longrightarrow> k > 0" "balanced l r k' q" by blast
  obtain st' where "quote_loop spec_stack H (Suc k') ?st2 = Inr st'" "after ?st2 q s ss st'"
    using Cons.IH [OF q2(1) k(3) q2(2,3) Cons.prems(5)] by blast
  then show ?case using step [OF k(1,2)] after_trans [OF after_emit [OF st1(2), of "[c]"]] by fastforce
qed

section \<open>One round\<close>

definition plain :: "eval_state \<Rightarrow> u8 \<Rightarrow> bool" where
  "plain e c \<longleftrightarrow> c \<noteq> 0 \<and> c \<noteq> UNDERSCORE \<and> \<not> is_alpha c \<and> \<not> starts (lquote (quo e)) c \<and> \<not> starts (scommt e) c"

lemma round_start:
  assumes "reads st (c # s) ss" "\<not> starts (lquote (quo (ev st))) c" "\<not> starts (scommt (ev st)) c"
  obtains st1 where "past st s ss st1" "macro_step spec_stack E st = map_sum id (Pair True)
      (if c = UNDERSCORE \<or> is_alpha c then name_case spec_stack E c st1
       else if \<not> in_call spec_stack (frm st) then output_char spec_stack (heap E) c st1
       else paren_case spec_stack E c st1)"
proof -
  obtain st1 where st1: "with_input gpbc st = Inr (Some c, st1)" "past st s ss st1" using assms(1) by (rule read_char)
  note p = pastD [OF st1(2)] and nt = no_token [OF assms(2)] no_token [OF assms(3)]
  show thesis
    by (rule that [OF st1(2)])
      (simp only: macro_step_def st1(1) p nt Let_def err_bind_simps prod.case if_False if_cancel option.case)
qed

lemma spec_in_call [simp]: "in_call spec_stack fs \<longleftrightarrow> fs \<noteq> []"
  by (simp add: spec_stack_def)

lemma round_char:
  assumes "reads st (c # s) ss" "plain (ev st) c" "frm st \<noteq> [] \<longrightarrow> c \<noteq> LPAREN \<and> c \<noteq> RPAREN \<and> (c = COMMA \<longrightarrow> parlev spec_stack (frm st) \<noteq> 1)"
  shows "\<exists>st'. macro_step spec_stack E st = Inr (True, st') \<and> after st [c] s ss st'"
proof -
  have c: "c \<noteq> UNDERSCORE" "\<not> is_alpha c" "\<not> starts (lquote (quo (ev st))) c" "\<not> starts (scommt (ev st)) c"
    using assms(2) by (simp_all add: plain_def)
  obtain st1 where st1: "past st s ss st1" "macro_step spec_stack E st = map_sum id (Pair True)
      (if c = UNDERSCORE \<or> is_alpha c then name_case spec_stack E c st1
       else if \<not> in_call spec_stack (frm st) then output_char spec_stack (heap E) c st1
       else paren_case spec_stack E c st1)" by (rule round_start [OF assms(1) c(3,4)])
  note p = pastD [OF st1(1)]
  have "frm st \<noteq> [] \<Longrightarrow> save_char spec_stack H c st1 = Inr (emit [c] st1)" for H
    by (simp add: save_char_def emit_def p spec_stack_def)
  then have "macro_step spec_stack E st = Inr (True, emit [c] st1)"
    using st1(2) assms(3) c p by (auto simp: output_emit paren_case_def Let_def no_token)
  then show ?thesis using after_emit [OF st1(1)] by blast
qed

definition delims :: "eval_state \<Rightarrow> u8 \<Rightarrow> u8 \<Rightarrow> bool" where
  "delims e l r \<longleftrightarrow> lquote (quo e) = [l] \<and> rquote (quo e) = [r] \<and> l \<noteq> r"

lemma round_quote:
  assumes "reads st (l # q @ r # s) ss" "delims (ev st) l r" "balanced l r 0 q"
  shows "\<exists>st'. macro_step spec_stack E st = Inr (True, st') \<and> after st q s ss st'"
proof -
  obtain st1 where st1: "with_input gpbc st = Inr (Some l, st1)" "past st (q @ r # s) ss st1" using assms(1) by (rule read_char)
  note p = pastD [OF st1(2)]
  have q: "lquote (quo (ev st1)) = [l]" "rquote (quo (ev st1)) = [r]" "l \<noteq> r" using assms(2) p by (simp_all add: delims_def)
  obtain st' where st': "quote_loop spec_stack (heap E) (Suc 0) st1 = Inr st'" "after st1 q s ss st'"
    using quote_loop_text [OF p(1) assms(3) q] by blast
  have "macro_step spec_stack E st = Inr (True, st')"
    by (simp add: macro_step_def st1(1) q token_found st'(1) Let_def)
  then show ?thesis using after_trans [OF after_past [OF st1(2)] st'(2)] by auto
qed

section \<open>Parentheses\<close>

definition gather :: "call list main_state \<Rightarrow> u8 list \<Rightarrow> int \<Rightarrow> u8 list \<Rightarrow> u8 list list \<Rightarrow> call list main_state \<Rightarrow> bool" where
  "gather st w p s ss st' \<longleftrightarrow> frm st \<noteq> [] \<and> (\<exists>st1. after st w s ss st1 \<and> st' = st1\<lparr>frm := set_parlev spec_stack p (frm st1)\<rparr>)"

lemma spec_parlev [simp]:
  "parlev spec_stack (set_parlev spec_stack p fs) = (if fs = [] then 0 else p)"
  "set_parlev spec_stack (parlev spec_stack fs) fs = fs"
  "set_parlev spec_stack p (set_parlev spec_stack p' fs) = set_parlev spec_stack p fs"
  "set_parlev spec_stack p fs = [] \<longleftrightarrow> fs = []"
  by (cases fs; simp add: spec_stack_def)+

lemma spec_save_parlev: "spec_save c (set_parlev spec_stack p fs) = set_parlev spec_stack p (spec_save c fs)"
  by (cases fs) (simp_all add: spec_stack_def)

lemma fold_save_parlev: "fold spec_save w (set_parlev spec_stack p fs) = set_parlev spec_stack p (fold spec_save w fs)"
  by (induction w arbitrary: fs) (simp_all add: spec_save_parlev)

lemma parlev_save [simp]: "parlev spec_stack (fold spec_save w fs) = parlev spec_stack fs"
proof (induction w arbitrary: fs)
  case (Cons c w)
  show ?case by (simp add: Cons.IH) (cases fs; simp add: spec_stack_def)
qed simp

lemma gatherD:
  assumes "gather st w p s ss st'"
  shows "reads st' s ss" "frm st' \<noteq> []" "parlev spec_stack (frm st') = p" "quo (ev st') = quo (ev st)" "scommt (ev st') = scommt (ev st)"
    "frm st \<noteq> []"
  using assms afterD [of st w s ss] by (auto simp: gather_def reads_def)

lemma gather_after: "frm st \<noteq> [] \<Longrightarrow> after st w s ss st' \<Longrightarrow> gather st w (parlev spec_stack (frm st)) s ss st'"
proof -
  assume a: "frm st \<noteq> []" "after st w s ss st'"
  have "parlev spec_stack (frm st') = parlev spec_stack (frm st)" using a by (auto simp: after_def past_def emit_def)
  then show ?thesis unfolding gather_def using a by (metis (no_types, lifting) main_state.surjective main_state.update_convs(2) spec_parlev(2))
qed

lemma gather_paren: "gather st w p s ss st' \<Longrightarrow> gather st w p' s ss (st'\<lparr>frm := set_parlev spec_stack p' (frm st')\<rparr>)"
  by (auto simp: gather_def)

lemma gather_trans:
  assumes "gather st w p s ss st'" "gather st' w' p' s' ss' st''"
  shows "gather st (w @ w') p' s' ss' st''"
proof -
  obtain st1 where st1: "after st w s ss st1" "st' = st1\<lparr>frm := set_parlev spec_stack p (frm st1)\<rparr>" and ne: "frm st \<noteq> []"
    using assms(1) by (auto simp: gather_def)
  obtain st2 where st2: "after st' w' s' ss' st2" "st'' = st2\<lparr>frm := set_parlev spec_stack p' (frm st2)\<rparr>"
    using assms(2) by (auto simp: gather_def)
  obtain i where i: "buf_ok i" "streams i = s' # ss'" "st2 = emit w' (st'\<lparr>ev := (ev st')\<lparr>inp := i\<rparr>\<rparr>)"
    using st2(1) by (auto simp: after_def past_def)
  let ?st = "emit w' (st1\<lparr>ev := (ev st1)\<lparr>inp := i\<rparr>\<rparr>)"
  have n1: "frm st1 \<noteq> []" using afterD(2) [OF st1(1)] ne by simp
  have "after st1 w' s' ss' ?st" unfolding after_def past_def using i(1,2) by blast
  then have "after st (w @ w') s' ss' ?st" by (rule after_trans [OF st1(1)])
  moreover have "st'' = ?st\<lparr>frm := set_parlev spec_stack p' (frm ?st)\<rparr>"
    unfolding st2(2) i(3) st1(2) using n1 by (simp add: emit_def fold_save_parlev)
  ultimately show ?thesis using ne unfolding gather_def by blast
qed

lemma spec_save_op [simp]: "save spec_stack H c fs = Inr (spec_save c fs)"
  by (simp add: spec_stack_def)

lemma skip_spaces:
  assumes "reads st (w @ c # s) ss" "\<forall>x \<in> set w. is_space x" "\<not> is_space c" "frm st \<noteq> []"
  shows "\<exists>st'. skip_space spec_stack H saving st = Inr st' \<and> after st (if saving then w else []) (c # s) ss st'"
  using assms
proof (induction w arbitrary: st)
  case Nil
  then obtain st1 where st1: "with_input gpbc st = Inr (Some c, st1)" "past st s ss st1" by (auto elim: read_char)
  obtain i where i: "pushback H (Some c) (inp (ev st1)) = Inr i" "past st1 (c # s) ss (st1\<lparr>ev := (ev st1)\<lparr>inp := i\<rparr>\<rparr>)"
    using pastD(1) [OF st1(2)] by (rule push_back)
  have "skip_space spec_stack H saving st = Inr (st1\<lparr>ev := (ev st1)\<lparr>inp := i\<rparr>\<rparr>)"
    unfolding skip_space.simps [of spec_stack H saving st] by (simp add: st1(1) Nil.prems(3) i(1))
  then show ?case using after_past [OF past_trans [OF st1(2) i(2)]] by auto
next
  case (Cons x w)
  then obtain st1 where st1: "with_input gpbc st = Inr (Some x, st1)" "past st (w @ c # s) ss st1" by (auto elim: read_char)
  note p = pastD [OF st1(2)]
  let ?v = "if saving then [x] else []"
  let ?st2 = "emit ?v st1"
  have "skip_space spec_stack H saving st = skip_space spec_stack H saving ?st2"
    unfolding skip_space.simps [of spec_stack H saving st] using Cons.prems
    by (cases saving) (simp_all add: st1(1) p, simp add: emit_def p)
  moreover obtain st' where st': "skip_space spec_stack H saving ?st2 = Inr st'" "after ?st2 (if saving then w else []) (c # s) ss st'"
    using Cons.IH [of ?st2] p Cons.prems by auto
  moreover have "after st (if saving then x # w else []) (c # s) ss st'"
    using after_trans [OF after_emit [OF st1(2), of ?v] st'(2)] by (simp split: if_splits)
  ultimately show ?case by auto
qed

lemma round_paren:
  assumes "reads st (c # s) ss" "c \<in> {LPAREN, RPAREN, COMMA}" "frm st \<noteq> []"
    "\<not> starts (lquote (quo (ev st))) c" "\<not> starts (scommt (ev st)) c"
  obtains st1 where "past st s ss st1" "macro_step spec_stack E st = map_sum id (Pair True) (paren_case spec_stack E c st1)"
proof -
  obtain st1 where st1: "past st s ss st1" "macro_step spec_stack E st = map_sum id (Pair True)
      (if c = UNDERSCORE \<or> is_alpha c then name_case spec_stack E c st1
       else if \<not> in_call spec_stack (frm st) then output_char spec_stack (heap E) c st1
       else paren_case spec_stack E c st1)" by (rule round_start [OF assms(1,4,5)])
  then show thesis using that assms(2,3) by (auto simp: is_alpha_def)
qed

lemma save_emit: "frm st \<noteq> [] \<Longrightarrow> save_char spec_stack H c st = Inr (emit [c] st)"
  by (simp add: save_char_def emit_def)

lemma round_open:
  assumes "reads st (LPAREN # w @ c # s) ss" "\<forall>x \<in> set w. is_space x" "\<not> is_space c" "frm st \<noteq> []"
    "\<not> starts (lquote (quo (ev st))) LPAREN" "\<not> starts (scommt (ev st)) LPAREN"
  shows "\<exists>st'. macro_step spec_stack E st = Inr (True, st') \<and>
    gather st (if parlev spec_stack (frm st) > 0 then LPAREN # w else []) (parlev spec_stack (frm st) + 1) (c # s) ss st'"
proof -
  let ?lev = "parlev spec_stack (frm st)"
  obtain st1 where st1: "past st (w @ c # s) ss st1" "macro_step spec_stack E st = map_sum id (Pair True) (paren_case spec_stack E LPAREN st1)"
    by (rule round_paren [OF assms(1) _ assms(4-6)]) simp
  note p = pastD [OF st1(1)]
  let ?v = "if ?lev > 0 then [LPAREN] else []"
  let ?st2 = "emit ?v st1"
  obtain st3 where st3: "skip_space spec_stack (heap E) (?lev > 0) ?st2 = Inr st3" "after ?st2 (if ?lev > 0 then w else []) (c # s) ss st3"
    using skip_spaces [of ?st2 w c s ss "heap E" "?lev > 0"] p(1,2) assms(2-4) by auto
  have a: "after st (?v @ (if ?lev > 0 then w else [])) (c # s) ss st3"
    by (rule after_trans [OF after_emit [OF st1(1)] st3(2)])
  have lev: "parlev spec_stack (frm st3) = ?lev" using gatherD(3) [OF gather_after [OF assms(4) a]] .
  have "paren_case spec_stack E LPAREN st1 = Inr (st3\<lparr>frm := set_parlev spec_stack (?lev + 1) (frm st3)\<rparr>)"
    using save_emit [of st1 "heap E" LPAREN] assms(4) st3(1) lev by (simp add: paren_case_def Let_def p split: if_splits)
  then show ?thesis
    using gather_paren [OF gather_after [OF assms(4) a], of "?lev + 1"] st1(2) by (auto split: if_splits)
qed

lemma round_close:
  assumes "reads st (RPAREN # s) ss" "frm st \<noteq> []" "parlev spec_stack (frm st) > 1"
    "\<not> starts (lquote (quo (ev st))) RPAREN" "\<not> starts (scommt (ev st)) RPAREN"
  shows "\<exists>st'. macro_step spec_stack E st = Inr (True, st') \<and> gather st [RPAREN] (parlev spec_stack (frm st) - 1) s ss st'"
proof -
  let ?lev = "parlev spec_stack (frm st)"
  obtain st1 where st1: "past st s ss st1" "macro_step spec_stack E st = map_sum id (Pair True) (paren_case spec_stack E RPAREN st1)"
    by (rule round_paren [OF assms(1) _ assms(2,4,5)]) simp
  note p = pastD [OF st1(1)]
  let ?st2 = "(emit [RPAREN] st1)\<lparr>frm := set_parlev spec_stack (?lev - 1) (frm (emit [RPAREN] st1))\<rparr>"
  have "emit [RPAREN] (st1\<lparr>frm := set_parlev spec_stack (?lev - 1) (frm st1)\<rparr>) = ?st2"
    using assms(2) p(2) by (simp add: emit_def spec_save_parlev)
  then have "paren_case spec_stack E RPAREN st1 = Inr ?st2"
    using assms(2,3) p(2) save_emit [of "st1\<lparr>frm := set_parlev spec_stack (?lev - 1) (frm st1)\<rparr>"] by (simp add: paren_case_def Let_def)
  then show ?thesis
    using gather_paren [OF gather_after [OF assms(2) after_emit [OF st1(1)]]] st1(2) by auto
qed

text \<open>A comma between arguments.\<close>

lemma new_arg_frame: "new_arg spec_stack (f # fs) = f\<lparr>c_args := [] # c_args f\<rparr> # fs"
  by (simp add: spec_stack_def)

lemma round_comma:
  assumes "reads st (COMMA # w @ c # s) ss" "\<forall>x \<in> set w. is_space x" "\<not> is_space c" "frm st \<noteq> []" "parlev spec_stack (frm st) = 1"
    "\<not> starts (lquote (quo (ev st))) COMMA" "\<not> starts (scommt (ev st)) COMMA"
  shows "\<exists>st'. macro_step spec_stack E st = Inr (True, st'\<lparr>frm := new_arg spec_stack (frm st')\<rparr>) \<and> after st [0] (c # s) ss st'"
proof -
  obtain st1 where st1: "past st (w @ c # s) ss st1" "macro_step spec_stack E st = map_sum id (Pair True) (paren_case spec_stack E COMMA st1)"
    by (rule round_paren [OF assms(1) _ assms(4,6,7)]) simp
  note p = pastD [OF st1(1)]
  obtain st3 where st3: "skip_space spec_stack (heap E) False (emit [0] st1) = Inr st3" "after (emit [0] st1) [] (c # s) ss st3"
    using skip_spaces [of "emit [0] st1" w c s ss "heap E" False] p(1,2) assms(2-4) by auto
  have "paren_case spec_stack E COMMA st1 = Inr (st3\<lparr>frm := new_arg spec_stack (frm st3)\<rparr>)"
    using save_emit [of st1 "heap E" 0] assms(4,5) st3(1) by (simp add: paren_case_def Let_def p)
  then show ?thesis using after_trans [OF after_emit [OF st1(1)] st3(2)] st1(2) by auto
qed

section \<open>Arguments\<close>

text \<open>
  The pieces of an argument: a character that means nothing, a quoted text, a parenthesis with the white space
  after it, and its end.
\<close>

datatype piece = Ch u8 | Qt "u8 list" | Op "u8 list" | Cl

fun piece_src :: "u8 \<Rightarrow> u8 \<Rightarrow> piece \<Rightarrow> u8 list" where
  "piece_src l r (Ch c) = [c]"
| "piece_src l r (Qt q) = l # q @ [r]"
| "piece_src l r (Op w) = LPAREN # w"
| "piece_src l r Cl = [RPAREN]"

fun piece_val :: "piece \<Rightarrow> u8 list" where
  "piece_val (Ch c) = [c]"
| "piece_val (Qt q) = q"
| "piece_val (Op w) = LPAREN # w"
| "piece_val Cl = [RPAREN]"

definition source :: "u8 \<Rightarrow> u8 \<Rightarrow> piece list \<Rightarrow> u8 list" where
  "source l r ps = concat (map (piece_src l r) ps)"

definition val :: "piece list \<Rightarrow> u8 list" where
  "val ps = concat (map piece_val ps)"

definition unspaced :: "piece list \<Rightarrow> bool" where
  "unspaced ps \<longleftrightarrow> (case ps of Ch c # _ \<Rightarrow> \<not> is_space c | _ \<Rightarrow> True)"

text \<open>Pieces inside \<open>n\<close> parentheses besides those of the call.\<close>

fun arg_ok :: "eval_state \<Rightarrow> u8 \<Rightarrow> u8 \<Rightarrow> nat \<Rightarrow> piece list \<Rightarrow> bool" where
  "arg_ok e l r n [] = (n = 0)"
| "arg_ok e l r n (Ch c # ps) = (plain e c \<and> c \<noteq> LPAREN \<and> c \<noteq> RPAREN \<and> (c = COMMA \<longrightarrow> n > 0) \<and> arg_ok e l r n ps)"
| "arg_ok e l r n (Qt q # ps) = (balanced l r 0 q \<and> 0 \<notin> set q \<and> arg_ok e l r n ps)"
| "arg_ok e l r n (Op w # ps) = ((\<forall>x \<in> set w. is_space x) \<and> unspaced ps \<and> arg_ok e l r (n + 1) ps)"
| "arg_ok e l r n (Cl # ps) = (n > 0 \<and> arg_ok e l r (n - 1) ps)"

definition usual :: "eval_state \<Rightarrow> u8 \<Rightarrow> u8 \<Rightarrow> bool" where
  "usual e l r \<longleftrightarrow> delims e l r \<and> \<not> is_space l \<and> (\<forall>c \<in> {LPAREN, RPAREN, COMMA}. c \<noteq> l \<and> \<not> starts (scommt e) c)"

inductive runs :: "m4_env \<Rightarrow> call list main_state \<Rightarrow> call list main_state \<Rightarrow> bool" for E where
  runs_refl: "runs E st st"
| runs_step: "macro_step spec_stack E st = Inr (True, st') \<Longrightarrow> runs E st' st'' \<Longrightarrow> runs E st st''"

lemma runs_trans: "runs E st st' \<Longrightarrow> runs E st' st'' \<Longrightarrow> runs E st st''"
  by (induction rule: runs.induct) (auto intro: runs_step)

lemma runs_rounds: "runs E st st' \<Longrightarrow> \<exists>k. \<forall>n. macro_rounds spec_stack E (k + n) st = macro_rounds spec_stack E n st'"
proof (induction rule: runs.induct)
  case (runs_step st st' st'')
  then obtain k where "\<forall>n. macro_rounds spec_stack E (k + n) st' = macro_rounds spec_stack E n st''" by blast
  then show ?case using runs_step(1) by (intro exI [of _ "Suc k"]) simp
qed (auto intro: exI [of _ 0])

lemma plain_cong: "quo e' = quo e \<Longrightarrow> scommt e' = scommt e \<Longrightarrow> plain e' = plain e"
  by (simp add: fun_eq_iff plain_def)

lemma arg_ok_cong:
  assumes "quo e' = quo e" "scommt e' = scommt e"
  shows "arg_ok e' l r n ps = arg_ok e l r n ps"
  using assms by (induction e l r n ps rule: arg_ok.induct) (simp_all add: plain_def)

lemma usual_cong: "quo e' = quo e \<Longrightarrow> scommt e' = scommt e \<Longrightarrow> usual e' l r = usual e l r"
  by (simp add: usual_def delims_def)

lemma source_head:
  assumes "unspaced ps" "\<not> is_space l" "\<not> is_space c"
  obtains x t where "source l r ps @ c # s = x # t" "\<not> is_space x"
proof (cases ps)
  case (Cons p ps')
  then show thesis using that assms by (cases p) (auto simp: source_def unspaced_def is_space_def)
qed (use that assms in \<open>simp add: source_def\<close>)

lemma gather_refl: "reads st s ss \<Longrightarrow> frm st \<noteq> [] \<Longrightarrow> gather st [] (parlev spec_stack (frm st)) s ss st"
  by (rule gather_after) (auto intro: after_past past_refl)

lemma gather_usual:
  assumes "gather st w p s ss st'"
  shows "arg_ok (ev st') l r n ps = arg_ok (ev st) l r n ps" "usual (ev st') l r = usual (ev st) l r"
  by (rule arg_ok_cong [OF gatherD(4,5) [OF assms]], rule usual_cong [OF gatherD(4,5) [OF assms]])

text \<open>One round for each piece.\<close>

lemma run_argument:
  assumes "arg_ok (ev st) l r n ps" "usual (ev st) l r" "reads st (source l r ps @ c # s) ss" "\<not> is_space c"
    "frm st \<noteq> []" "parlev spec_stack (frm st) = int n + 1"
  shows "\<exists>st'. runs E st st' \<and> gather st (val ps) 1 (c # s) ss st'"
  using assms
proof (induction ps arbitrary: n st)
  case Nil
  then show ?case using gather_refl [of st "c # s" ss] runs_refl by (auto simp: source_def val_def)
next
  case (Cons p ps)
  have further: "\<exists>st'. runs E st st' \<and> gather st (val (p # ps)) 1 (c # s) ss st'"
    if step: "macro_step spec_stack E st = Inr (True, st1)" and ga: "gather st (piece_val p) (int n' + 1) (source l r ps @ c # s) ss st1"
      and ok: "arg_ok (ev st) l r n' ps" for st1 n'
  proof -
    note g = gatherD [OF ga] and u = gather_usual [OF ga]
    obtain st' where st': "runs E st1 st'" "gather st1 (val ps) 1 (c # s) ss st'"
      using Cons.IH [of st1 n'] ok Cons.prems(2,4) g u by auto
    have "gather st (val (p # ps)) 1 (c # s) ss st'" using gather_trans [OF ga st'(2)] by (simp add: val_def)
    then show ?thesis using runs_step [OF step st'(1)] by blast
  qed
  have d: "delims (ev st) l r" "\<not> is_space l" "\<And>x. x \<in> {LPAREN, RPAREN, COMMA} \<Longrightarrow> \<not> starts (lquote (quo (ev st))) x \<and> \<not> starts (scommt (ev st)) x"
    using Cons.prems(2) by (auto simp: usual_def delims_def starts_def)
  note lev = gather_after [OF Cons.prems(5), unfolded Cons.prems(6)]
  show ?case
  proof (cases p)
    case (Ch x)
    then obtain st1 where "macro_step spec_stack E st = Inr (True, st1)" "after st [x] (source l r ps @ c # s) ss st1"
      using round_char [of st x "source l r ps @ c # s" ss E] Cons.prems by (auto simp: source_def)
    then show ?thesis using further [of st1 n] lev Cons.prems(1) Ch by simp
  next
    case (Qt q)
    then obtain st1 where "macro_step spec_stack E st = Inr (True, st1)" "after st q (source l r ps @ c # s) ss st1"
      using round_quote [of st l q r "source l r ps @ c # s" ss E] Cons.prems d(1) by (auto simp: source_def)
    then show ?thesis using further [of st1 n] lev Cons.prems(1) Qt by simp
  next
    case (Op w)
    then have "unspaced ps" using Cons.prems(1) by simp
    then obtain x t where x: "source l r ps @ c # s = x # t" "\<not> is_space x"
      by (rule source_head [OF _ d(2) Cons.prems(4)])
    then obtain st1 where "macro_step spec_stack E st = Inr (True, st1)" "gather st (LPAREN # w) (int (n + 1) + 1) (source l r ps @ c # s) ss st1"
      using round_open [of st w x t ss E] Cons.prems Op d(3) by (auto simp: source_def add_ac)
    then show ?thesis using further [of st1 "n + 1"] Cons.prems(1) Op by simp
  next
    case Cl
    then obtain st1 where "macro_step spec_stack E st = Inr (True, st1)" "gather st [RPAREN] (int n) (source l r ps @ c # s) ss st1"
      using round_close [of st "source l r ps @ c # s" ss E] Cons.prems d(3) by (auto simp: source_def)
    then show ?thesis using further [of st1 "n - 1"] Cons.prems(1) Cl by (simp add: of_nat_diff)
  qed
qed

end
