(* ===== verification/M4_Call.thy ===== *)
theory M4_Call
  imports M4_Rounds
begin

text \<open>
  A whole call of a macro in the input of \<open>m4\<close>, from its name to its last parenthesis, and text outside of calls.
  The properties are of the loop on the stack of the code, by the simulation of \<open>M4_Loop\<close>.
\<close>

section \<open>A whole call\<close>

text \<open>The arguments after the first, and the parenthesis that ends them.\<close>

fun args_src :: "u8 \<Rightarrow> u8 \<Rightarrow> (u8 list \<times> piece list) list \<Rightarrow> u8 list" where
  "args_src l r [] = [RPAREN]"
| "args_src l r ((w, ps) # as) = COMMA # w @ source l r ps @ args_src l r as"

definition add_arg :: "u8 list \<times> piece list \<Rightarrow> u8 list list \<Rightarrow> u8 list list" where
  "add_arg a xs = val (snd a) # (hd xs @ [0]) # tl xs"

lemma add_arg_ne: "add_arg a xs \<noteq> []"
  by (simp add: add_arg_def)

definition in_arg :: "eval_state \<Rightarrow> u8 \<Rightarrow> u8 \<Rightarrow> u8 list \<times> piece list \<Rightarrow> bool" where
  "in_arg e l r a \<longleftrightarrow> (\<forall>x \<in> set (fst a). is_space x) \<and> unspaced (snd a) \<and> arg_ok e l r 0 (snd a)"

lemma fold_save: "c_args f \<noteq> [] \<Longrightarrow> fold spec_save w (f # fs) = f\<lparr>c_args := (hd (c_args f) @ w) # tl (c_args f)\<rparr> # fs"
  by (induction w arbitrary: f) simp_all

lemma set_parlev_frame: "set_parlev spec_stack p (f # fs) = f\<lparr>c_parlev := p\<rparr> # fs"
  by (simp add: spec_stack_def)

lemma parlev_frame: "parlev spec_stack (f # fs) = c_parlev f"
  by (simp add: spec_stack_def)

lemma after_frame:
  assumes "after \<lparr>ev = e, frm = f # fs\<rparr> w s ss st'" "c_args f \<noteq> []"
  obtains i where "buf_ok i" "streams i = s # ss"
    "st' = \<lparr>ev = e\<lparr>inp := i\<rparr>, frm = f\<lparr>c_args := (hd (c_args f) @ w) # tl (c_args f)\<rparr> # fs\<rparr>"
proof -
  obtain i where i: "buf_ok i" "streams i = s # ss" "st' = emit w \<lparr>ev = e\<lparr>inp := i\<rparr>, frm = f # fs\<rparr>"
    using assms(1) by (auto simp: after_def past_def)
  then show thesis using that [OF i(1,2)] by (simp add: emit_def fold_save [OF assms(2)])
qed

lemma gather_frame:
  assumes "gather \<lparr>ev = e, frm = f # fs\<rparr> w p s ss st'" "c_args f \<noteq> []"
  obtains i where "buf_ok i" "streams i = s # ss"
    "st' = \<lparr>ev = e\<lparr>inp := i\<rparr>, frm = f\<lparr>c_parlev := p, c_args := (hd (c_args f) @ w) # tl (c_args f)\<rparr> # fs\<rparr>"
proof -
  obtain st1 where st1: "after \<lparr>ev = e, frm = f # fs\<rparr> w s ss st1" "st' = st1\<lparr>frm := set_parlev spec_stack p (frm st1)\<rparr>"
    using assms(1) by (auto simp: gather_def)
  obtain i where "buf_ok i" "streams i = s # ss"
    "st1 = \<lparr>ev = e\<lparr>inp := i\<rparr>, frm = f\<lparr>c_args := (hd (c_args f) @ w) # tl (c_args f)\<rparr> # fs\<rparr>"
    by (rule after_frame [OF st1(1) assms(2)])
  then show thesis using that st1(2) by (simp add: set_parlev_frame)
qed

lemma usual_inp: "usual (e\<lparr>inp := i\<rparr>) l r = usual e l r" "arg_ok (e\<lparr>inp := i\<rparr>) l r n ps = arg_ok e l r n ps"
proof -
  show "usual (e\<lparr>inp := i\<rparr>) l r = usual e l r" by (rule usual_cong) simp_all
  show "arg_ok (e\<lparr>inp := i\<rparr>) l r n ps = arg_ok e l r n ps" by (rule arg_ok_cong) simp_all
qed

lemma usualD:
  assumes "usual e l r" "c \<in> {LPAREN, RPAREN, COMMA}"
  shows "\<not> starts (lquote (quo e)) c" "\<not> starts (scommt e) c"
  using assms by (auto simp: usual_def delims_def starts_def)

lemma args_src_head: "\<exists>c t. args_src l r as @ s = c # t \<and> \<not> is_space c"
  by (cases as) (auto simp: is_space_def)

lemma run_arguments:
  assumes "usual e l r" "\<forall>a \<in> set as. in_arg e l r a" "buf_ok i" "streams i = (args_src l r as @ s) # ss" "c_parlev f = 1" "c_args f \<noteq> []"
  shows "\<exists>j. buf_ok j \<and> streams j = (RPAREN # s) # ss \<and>
    runs E \<lparr>ev = e\<lparr>inp := i\<rparr>, frm = f # fs\<rparr> \<lparr>ev = e\<lparr>inp := j\<rparr>, frm = f\<lparr>c_args := fold add_arg as (c_args f)\<rparr> # fs\<rparr>"
  using assms(2-)
proof (induction as arbitrary: i f)
  case Nil
  then show ?case using runs_refl by auto
next
  case (Cons a as)
  obtain w ps where a: "a = (w, ps)" by (cases a)
  have ok: "\<forall>x \<in> set w. is_space x" "unspaced ps" "arg_ok e l r 0 ps" using Cons.prems(1) by (auto simp: in_arg_def a)
  have d: "\<not> is_space l" using assms(1) by (simp add: usual_def)
  obtain c t where c: "args_src l r as @ s = c # t" "\<not> is_space c" using args_src_head by metis
  obtain x u where x: "source l r ps @ c # t = x # u" "\<not> is_space x" by (rule source_head [OF ok(2) d c(2)])
  let ?st = "\<lparr>ev = e\<lparr>inp := i\<rparr>, frm = f # fs\<rparr>"
  have "reads ?st (COMMA # w @ x # u) ss" using Cons.prems(2,3) by (simp add: reads_def a c(1) x(1))
  then obtain st1 where st1: "macro_step spec_stack E ?st = Inr (True, st1\<lparr>frm := new_arg spec_stack (frm st1)\<rparr>)" "after ?st [0] (x # u) ss st1"
    using round_comma [of ?st w x u ss E] ok(1) x(2) usualD [OF assms(1), of COMMA] Cons.prems(4) by (auto simp: parlev_frame)
  obtain i1 where i1: "buf_ok i1" "streams i1 = (x # u) # ss"
    "st1 = \<lparr>ev = e\<lparr>inp := i\<rparr>\<lparr>inp := i1\<rparr>, frm = f\<lparr>c_args := (hd (c_args f) @ [0]) # tl (c_args f)\<rparr> # fs\<rparr>"
    by (rule after_frame [OF st1(2) Cons.prems(5)])
  let ?f = "f\<lparr>c_args := [] # (hd (c_args f) @ [0]) # tl (c_args f)\<rparr>"
  let ?st1 = "\<lparr>ev = e\<lparr>inp := i1\<rparr>, frm = ?f # fs\<rparr>"
  have step: "macro_step spec_stack E ?st = Inr (True, ?st1)" using st1(1) by (simp add: i1(3) new_arg_frame)
  have "reads ?st1 (source l r ps @ c # t) ss" using i1(1,2) by (simp add: reads_def x(1))
  then obtain st2 where st2: "runs E ?st1 st2" "gather ?st1 (val ps) 1 (c # t) ss st2"
    using run_argument [of ?st1 l r 0 ps c t ss E] ok(3) assms(1) c(2) Cons.prems(4) by (auto simp: usual_inp parlev_frame)
  obtain i2 where i2: "buf_ok i2" "streams i2 = (c # t) # ss" "st2 = \<lparr>ev = e\<lparr>inp := i1\<rparr>\<lparr>inp := i2\<rparr>,
      frm = ?f\<lparr>c_parlev := 1, c_args := (hd (c_args ?f) @ val ps) # tl (c_args ?f)\<rparr> # fs\<rparr>"
    by (rule gather_frame [OF st2(2)]) simp_all
  let ?g = "f\<lparr>c_args := add_arg a (c_args f)\<rparr>"
  have "st2 = \<lparr>ev = e\<lparr>inp := i2\<rparr>, frm = ?g # fs\<rparr>" using Cons.prems(4) by (simp add: i2(3) add_arg_def a)
  moreover obtain j where "buf_ok j" "streams j = (RPAREN # s) # ss"
    "runs E \<lparr>ev = e\<lparr>inp := i2\<rparr>, frm = ?g # fs\<rparr> \<lparr>ev = e\<lparr>inp := j\<rparr>, frm = ?g\<lparr>c_args := fold add_arg as (c_args ?g)\<rparr> # fs\<rparr>"
    using Cons.IH [of i2 ?g] Cons.prems(1,4) i2(1,2) c(1) by (auto simp: add_arg_ne)
  ultimately show ?case using runs_step [OF step runs_trans [OF st2(1)]] by auto
qed

lemma cstr_val: "0 \<notin> set v \<Longrightarrow> cstr (v @ [0]) = v"
  unfolding cstr_def by (subst takeWhile_append2) auto

lemma val_no_zero: "arg_ok e l r n ps \<Longrightarrow> 0 \<notin> set (val ps)"
proof (induction e l r n ps rule: arg_ok.induct)
  case (4 e l r n w ps)
  then show ?case by (fastforce simp: val_def is_space_def)
qed (auto simp: val_def plain_def)

lemma cstr_arguments:
  assumes "\<forall>a \<in> set as. 0 \<notin> set (val (snd a))" "xs \<noteq> []"
  shows "rev (map cstr ((hd (fold add_arg as xs) @ [0]) # tl (fold add_arg as xs))) =
    rev (map cstr ((hd xs @ [0]) # tl xs)) @ map (val \<circ> snd) as"
  using assms
proof (induction as arbitrary: xs)
  case (Cons a as)
  then show ?case using Cons.IH [of "add_arg a xs"] by (simp add: add_arg_def cstr_val)
qed simp

lemma round_end:
  assumes "buf_ok i" "streams i = (RPAREN # s) # ss" "usual e l r" "c_parlev f = 1" "c_args f \<noteq> []"
  obtains j where "buf_ok j" "streams j = s # ss" "macro_step spec_stack E \<lparr>ev = e\<lparr>inp := i\<rparr>, frm = f # fs\<rparr> =
    map_sum id (Pair True) (call_eval spec_stack E True \<lparr>ev = e\<lparr>inp := j\<rparr>, frm = f\<lparr>c_parlev := 0, c_args := (hd (c_args f) @ [0]) # tl (c_args f)\<rparr> # fs\<rparr>)"
proof -
  let ?st = "\<lparr>ev = e\<lparr>inp := i\<rparr>, frm = f # fs\<rparr>"
  have "reads ?st (RPAREN # s) ss" using assms(1,2) by (simp add: reads_def)
  then obtain st1 where st1: "past ?st s ss st1" "macro_step spec_stack E ?st = map_sum id (Pair True) (paren_case spec_stack E RPAREN st1)"
    by (rule round_paren) (use usualD [OF assms(3), of RPAREN] in simp_all)
  then obtain j where j: "buf_ok j" "streams j = s # ss" "st1 = \<lparr>ev = e\<lparr>inp := j\<rparr>, frm = f # fs\<rparr>"
    by (auto simp: past_def)
  show thesis
    by (rule that [OF j(1,2)])
      (simp add: st1(2) j(3) paren_case_def Let_def parlev_frame assms(4) set_parlev_frame save_emit emit_def)
qed

definition is_name :: "u8 list \<Rightarrow> bool" where
  "is_name n \<longleftrightarrow> (case n of [] \<Rightarrow> False
     | c # cs \<Rightarrow> (c = UNDERSCORE \<or> is_alpha c) \<and> (\<forall>x \<in> set cs. is_alnum x \<or> x = UNDERSCORE) \<and> length n \<le> MAXTOK)"

lemma read_name_text:
  assumes "buf_ok i" "streams i = (cs @ x # s) # ss" "\<forall>y \<in> set cs. is_alnum y \<or> y = UNDERSCORE"
    "\<not> (is_alnum x \<or> x = UNDERSCORE)" "length tok + length cs \<le> MAXTOK"
  shows "\<exists>j. read_name H tok i = Inr (tok @ cs, j) \<and> buf_ok j \<and> streams j = (x # s) # ss"
  using assms
proof (induction cs arbitrary: i tok)
  case Nil
  obtain i1 where i1: "gpbc i = Inr (Some x, i1)" "buf_ok i1" "streams i1 = s # ss"
    using gpbc_effect [OF Nil.prems(1)] Nil.prems(2) by auto
  obtain j where "pushback H (Some x) i1 = Inr j" "fed i1 [x] j" using pushback_effect [OF i1(2)] by blast
  then show ?case using i1 Nil.prems(4) by (auto simp: read_name.simps [of H tok i] fed_def)
next
  case (Cons c cs)
  obtain i1 where i1: "gpbc i = Inr (Some c, i1)" "buf_ok i1" "streams i1 = (cs @ x # s) # ss"
    using gpbc_effect [OF Cons.prems(1)] Cons.prems(2) by auto
  obtain j where "read_name H (tok @ [c]) i1 = Inr ((tok @ [c]) @ cs, j)" "buf_ok j" "streams j = (x # s) # ss"
    using Cons.IH [OF i1(2,3), of "tok @ [c]"] Cons.prems(3-5) by auto
  then show ?case using Cons.prems(3,5) by (simp add: read_name.simps [of H tok i] i1(1))
qed

lemma round_name:
  assumes "buf_ok (inp e)" "streams (inp e) = (name @ LPAREN # s) # ss" "is_name name"
    "\<not> starts (lquote (quo e)) (hd name)" "\<not> starts (scommt e) (hd name)" "m4_ok (tab e)" "d (nodes (tab e) name) = r # rs"
  obtains j m where "buf_ok j" "streams j = (LPAREN # s) # ss" "m = (tab e)\<lparr>macros := macros m\<rparr>"
    "abs_ohash (\<lambda>e. e) (macros m) = abs_ohash (\<lambda>e. e) (macros (tab e))"
    "macro_step spec_stack E \<lparr>ev = e, frm = fs\<rparr> = Inr (True, \<lparr>ev = e\<lparr>inp := j, tab := m\<rparr>,
       frm = \<lparr>c_type = mtype r, c_traced = is_traced m name, c_parlev = 0, c_def = defn r, c_name = name, c_args = [[]]\<rparr> # fs\<rparr>)"
proof -
  let ?st = "\<lparr>ev = e, frm = fs\<rparr>" and ?H = "heap E"
  obtain c cs where n: "name = c # cs" "c = UNDERSCORE \<or> is_alpha c" "\<forall>x \<in> set cs. is_alnum x \<or> x = UNDERSCORE" "length name \<le> MAXTOK"
    using assms(3) by (auto simp: is_name_def split: list.splits)
  have "reads ?st (c # cs @ LPAREN # s) ss" using assms(1,2) by (simp add: reads_def n(1))
  then obtain st1 where st1: "past ?st (cs @ LPAREN # s) ss st1" "macro_step spec_stack E ?st = map_sum id (Pair True)
      (if c = UNDERSCORE \<or> is_alpha c then name_case spec_stack E c st1
       else if \<not> in_call spec_stack (frm ?st) then output_char spec_stack ?H c st1
       else paren_case spec_stack E c st1)"
    by (rule round_start) (use assms(4,5) n(1) in simp_all)
  then obtain i where i: "buf_ok i" "streams i = (cs @ LPAREN # s) # ss" "st1 = \<lparr>ev = e\<lparr>inp := i\<rparr>, frm = fs\<rparr>"
    by (auto simp: past_def)
  obtain i1 where i1: "read_name ?H [c] i = Inr (name, i1)" "buf_ok i1" "streams i1 = (LPAREN # s) # ss"
    using read_name_text [OF i(1,2) n(3), of "[c]" ?H] n(1,4) by (auto simp: is_alnum_def is_alpha_def)
  have known: "known (tab e) name" using unknown_view [OF assms(6), of name] assms(7) by auto
  obtain m where m: "lookup name (tab e) = Some (Some name, m)" "m = (tab e)\<lparr>macros := macros m\<rparr>"
    "abs_ohash (\<lambda>e. e) (macros m) = abs_ohash (\<lambda>e. e) (macros (tab e))"
    by (rule lookup_ok [OF assms(6), of name]) (simp add: known)
  have dm: "d (nodes m name) = r # rs" by (subst m(2)) (simp add: assms(7))
  let ?st2 = "\<lparr>ev = e\<lparr>inp := i1, tab := m\<rparr>, frm = fs\<rparr>"
  have ins: "inspect ?H c st1 = Inr ((name, Some name), ?st2)"
    using dm by (simp add: inspect_def with_input_def i(3) i1(1) m(1))
  have "reads ?st2 (LPAREN # s) ss" using i1(2,3) by (simp add: reads_def)
  then obtain st3 where st3: "with_input gpbc ?st2 = Inr (Some LPAREN, st3)" "past ?st2 s ss st3" by (rule read_char)
  obtain j where j: "pushback ?H (Some LPAREN) (inp (ev st3)) = Inr j" "past st3 (LPAREN # s) ss (st3\<lparr>ev := (ev st3)\<lparr>inp := j\<rparr>\<rparr>)"
    by (rule push_back [OF pastD(1) [OF st3(2)]])
  have jj: "buf_ok j" "streams j = (LPAREN # s) # ss" using pastD(1) [OF j(2)] by (simp_all add: reads_def)
  have st4: "st3\<lparr>ev := (ev st3)\<lparr>inp := j\<rparr>\<rparr> = \<lparr>ev = e\<lparr>inp := j, tab := m\<rparr>, frm = fs\<rparr>" using st3(2) by (auto simp: past_def)
  have w: "with_input (\<lambda>i. map_sum id (Pair ()) (pushback ?H (Some LPAREN) i)) st3 = Inr ((), \<lparr>ev = e\<lparr>inp := j, tab := m\<rparr>, frm = fs\<rparr>)"
    using j(1) st4 by (simp add: with_input_def)
  have "name_case spec_stack E c st1 = Inr \<lparr>ev = e\<lparr>inp := j, tab := m\<rparr>,
       frm = \<lparr>c_type = mtype r, c_traced = is_traced m name, c_parlev = 0, c_def = defn r, c_name = name, c_args = [[]]\<rparr> # fs\<rparr>"
    by (simp add: name_case_def Let_def ins st3(1) w dm) (simp add: spec_stack_def)
  then show thesis using that [OF jj m(2,3)] st1(2) n(2) by simp
qed

text \<open>The source of a call with its arguments, each with the white space before it.\<close>

fun call_src :: "u8 \<Rightarrow> u8 \<Rightarrow> u8 list \<Rightarrow> (u8 list \<times> piece list) list \<Rightarrow> u8 list" where
  "call_src l r name [] = []"
| "call_src l r name ((w, ps) # as) = name @ LPAREN # w @ source l r ps @ args_src l r as"

lemma run_parens:
  assumes u: "usual e l r" and j: "buf_ok j" "streams j = (LPAREN # w @ source l r ps @ args_src l r as @ s) # ss"
    and f: "c_parlev f = 0" "c_args f = [[]]" and as: "in_arg e l r (w, ps)" "\<forall>a \<in> set as. in_arg e l r a"
  shows "\<exists>i. buf_ok i \<and> streams i = (RPAREN # s) # ss \<and> runs E \<lparr>ev = e\<lparr>inp := j\<rparr>, frm = f # fs\<rparr>
    \<lparr>ev = e\<lparr>inp := i\<rparr>, frm = f\<lparr>c_parlev := 1, c_args := fold add_arg as [val ps]\<rparr> # fs\<rparr>"
proof -
  have ok: "\<forall>x \<in> set w. is_space x" "unspaced ps" "arg_ok e l r 0 ps" using as(1) by (simp_all add: in_arg_def)
  have d: "\<not> is_space l" using u by (simp add: usual_def)
  obtain c t where c: "args_src l r as @ s = c # t" "\<not> is_space c" using args_src_head by metis
  obtain x y where x: "source l r ps @ c # t = x # y" "\<not> is_space x" by (rule source_head [OF ok(2) d c(2)])
  let ?st = "\<lparr>ev = e\<lparr>inp := j\<rparr>, frm = f # fs\<rparr>"
  have "reads ?st (LPAREN # w @ x # y) ss" using j by (simp add: reads_def c(1) x(1))
  then obtain st1 where st1: "macro_step spec_stack E ?st = Inr (True, st1)" "gather ?st [] 1 (x # y) ss st1"
    using round_open [of ?st w x y ss E] ok(1) x(2) usualD [OF u, of LPAREN] f by (auto simp: parlev_frame)
  obtain i1 where i1: "buf_ok i1" "streams i1 = (x # y) # ss" "st1 = \<lparr>ev = e\<lparr>inp := i1\<rparr>, frm = f\<lparr>c_parlev := 1\<rparr> # fs\<rparr>"
    by (rule gather_frame [OF st1(2)]) (simp_all add: f)
  have "reads st1 (source l r ps @ c # t) ss" using i1 by (simp add: reads_def x(1))
  then obtain st2 where st2: "runs E st1 st2" "gather st1 (val ps) 1 (c # t) ss st2"
    using run_argument [of st1 l r 0 ps c t ss E] ok(3) c(2) u i1(3) by (auto simp: usual_inp parlev_frame)
  obtain i2 where i2: "buf_ok i2" "streams i2 = (c # t) # ss" "st2 = \<lparr>ev = e\<lparr>inp := i2\<rparr>, frm = f\<lparr>c_parlev := 1, c_args := [val ps]\<rparr> # fs\<rparr>"
    by (rule gather_frame [OF st2(2) [unfolded i1(3)]]) (simp_all add: f)
  obtain i where "buf_ok i" "streams i = (RPAREN # s) # ss"
    "runs E st2 \<lparr>ev = e\<lparr>inp := i\<rparr>, frm = f\<lparr>c_parlev := 1, c_args := fold add_arg as [val ps]\<rparr> # fs\<rparr>"
    using run_arguments [OF u as(2), of i2 s ss "f\<lparr>c_parlev := 1, c_args := [val ps]\<rparr>" E fs] i2 c(1) by auto
  then show ?thesis using runs_step [OF st1(1) runs_trans [OF st2(1)]] by blast
qed

lemma eval_frame:
  assumes "rev (map cstr (c_args f)) = as" "\<forall>a \<in> set (freed (tab e)). addr_of (c_def f) \<noteq> Some a"
  shows "call_eval spec_stack E True \<lparr>ev = e, frm = f # fs\<rparr> = map_sum id (\<lambda>e'. \<lparr>ev = e', frm = fs\<rparr>)
    (eval_call E (str_of (c_def f) # c_name f # as) (c_type f) (e\<lparr>tab := (tab e)\<lparr>calls := map Macro (map c_def (rev fs) @ [c_def f])\<rparr>\<rparr>))"
  using assms
  by (cases "eval_call E (str_of (c_def f) # c_name f # as) (c_type f) (e\<lparr>tab := (tab e)\<lparr>calls := map Macro (map c_def (rev fs) @ [c_def f])\<rparr>\<rparr>)")
    (auto simp: call_eval_def spec_stack_def)

lemma not_freed:
  assumes "m4_ok m" "d (nodes m n) = df # ds"
  shows "\<forall>a \<in> set (freed m). addr_of (defn df) \<noteq> Some a"
proof (intro ballI notI)
  fix a assume "a \<in> set (freed m)" "addr_of (defn df) = Some a"
  then have "a \<in> set (owned m n)" by (cases "defn df") (simp_all add: owned_def assms(2))
  with \<open>a \<in> set (freed m)\<close> show False using assms(1) heap_okD(3) by (fastforce simp: m4_ok_def mem_def)
qed

lemma spec_call:
  assumes "buf_ok (inp e)" "m4_ok (tab e)" "streams (inp e) = (call_src l r name as @ s) # ss" "usual e l r" "is_name name"
    "\<not> starts (lquote (quo e)) (hd name)" "\<not> starts (scommt e) (hd name)" "d (nodes (tab e) name) = df # ds"
    "as \<noteq> []" "\<forall>a \<in> set as. in_arg e l r a"
  shows "\<exists>k i m. buf_ok i \<and> streams i = s # ss \<and> m = (tab e)\<lparr>macros := macros m, calls := map Macro (map c_def (rev fs) @ [defn df])\<rparr> \<and>
    abs_ohash (\<lambda>e. e) (macros m) = abs_ohash (\<lambda>e. e) (macros (tab e)) \<and>
    macro_rounds spec_stack E k \<lparr>ev = e, frm = fs\<rparr> = map_sum id (\<lambda>e'. (True, \<lparr>ev = e', frm = fs\<rparr>))
      (eval_call E (str_of (defn df) # name # map (val \<circ> snd) as) (mtype df) (e\<lparr>inp := i, tab := m\<rparr>))"
proof -
  obtain w ps as' where as: "as = (w, ps) # as'" using assms(9) by (cases as) auto
  have "streams (inp e) = (name @ LPAREN # (w @ source l r ps @ args_src l r as' @ s)) # ss" using assms(3) by (simp add: as)
  then obtain j m where j: "buf_ok j" "streams j = (LPAREN # w @ source l r ps @ args_src l r as' @ s) # ss" "m = (tab e)\<lparr>macros := macros m\<rparr>"
    "abs_ohash (\<lambda>e. e) (macros m) = abs_ohash (\<lambda>e. e) (macros (tab e))"
    "macro_step spec_stack E \<lparr>ev = e, frm = fs\<rparr> = Inr (True, \<lparr>ev = e\<lparr>inp := j, tab := m\<rparr>,
       frm = \<lparr>c_type = mtype df, c_traced = is_traced m name, c_parlev = 0, c_def = defn df, c_name = name, c_args = [[]]\<rparr> # fs\<rparr>)"
    by (rule round_name [OF assms(1) _ assms(5-7,2,8)])
  let ?f = "\<lparr>c_type = mtype df, c_traced = is_traced m name, c_parlev = 0, c_def = defn df, c_name = name, c_args = [[]]\<rparr>"
  let ?e = "e\<lparr>tab := m\<rparr>" and ?xs = "fold add_arg as' [val ps]"
  have swap: "e\<lparr>inp := i, tab := m\<rparr> = ?e\<lparr>inp := i\<rparr>" for i by simp
  have u: "usual ?e l r" "\<And>a. in_arg ?e l r a = in_arg e l r a"
    using usual_cong [of ?e e l r] arg_ok_cong [of ?e e l r] assms(4) by (simp_all add: in_arg_def)
  obtain i3 where i3: "buf_ok i3" "streams i3 = (RPAREN # s) # ss" "runs E \<lparr>ev = ?e\<lparr>inp := j\<rparr>, frm = ?f # fs\<rparr>
      \<lparr>ev = ?e\<lparr>inp := i3\<rparr>, frm = ?f\<lparr>c_parlev := 1, c_args := ?xs\<rparr> # fs\<rparr>"
    using run_parens [OF u(1) j(1,2), of ?f E fs] assms(10) u(2) as by auto
  have ne: "?xs \<noteq> []" by (induction as' rule: rev_induct) (simp_all add: add_arg_ne)
  let ?h = "?f\<lparr>c_parlev := 0, c_args := (hd ?xs @ [0]) # tl ?xs\<rparr>"
  obtain i where i: "buf_ok i" "streams i = s # ss" "macro_step spec_stack E \<lparr>ev = ?e\<lparr>inp := i3\<rparr>, frm = ?f\<lparr>c_parlev := 1, c_args := ?xs\<rparr> # fs\<rparr> =
    map_sum id (Pair True) (call_eval spec_stack E True \<lparr>ev = ?e\<lparr>inp := i\<rparr>, frm = ?h # fs\<rparr>)"
    by (rule round_end [OF i3(1,2) u(1), of "?f\<lparr>c_parlev := 1, c_args := ?xs\<rparr>"]) (simp_all add: ne)
  let ?m = "m\<lparr>calls := map Macro (map c_def (rev fs) @ [defn df])\<rparr>"
  let ?v = "eval_call E (str_of (defn df) # name # map (val \<circ> snd) as) (mtype df) (e\<lparr>inp := i, tab := ?m\<rparr>)"
  have "\<forall>a \<in> set as. 0 \<notin> set (val (snd a))" using assms(10) val_no_zero by (auto simp: in_arg_def)
  then have args: "rev (map cstr (c_args ?h)) = map (val \<circ> snd) as"
    using cstr_arguments [of as' "[val ps]"] by (simp add: as cstr_val)
  have "freed m = freed (tab e)" by (subst j(3)) simp
  then have fr: "\<forall>a \<in> set (freed (tab (?e\<lparr>inp := i\<rparr>))). addr_of (c_def ?h) \<noteq> Some a" using not_freed [OF assms(2,8)] by simp
  have call: "call_eval spec_stack E True \<lparr>ev = ?e\<lparr>inp := i\<rparr>, frm = ?h # fs\<rparr> = map_sum id (\<lambda>e'. \<lparr>ev = e', frm = fs\<rparr>) ?v"
    unfolding eval_frame [OF args fr] by simp
  obtain k where k: "\<forall>n. macro_rounds spec_stack E (k + n) \<lparr>ev = e, frm = fs\<rparr> =
      macro_rounds spec_stack E n \<lparr>ev = ?e\<lparr>inp := i3\<rparr>, frm = ?f\<lparr>c_parlev := 1, c_args := ?xs\<rparr> # fs\<rparr>"
    using runs_rounds [OF runs_step [OF j(5) [unfolded swap] i3(3)]] by blast
  have "macro_rounds spec_stack E (k + 1) \<lparr>ev = e, frm = fs\<rparr> = map_sum id (\<lambda>e'. (True, \<lparr>ev = e', frm = fs\<rparr>)) ?v"
    unfolding k [rule_format, of 1] using i(3) call by (cases ?v) simp_all
  moreover have "?m = (tab e)\<lparr>macros := macros ?m, calls := map Macro (map c_def (rev fs) @ [defn df])\<rparr>" by (subst j(3)) simp
  ultimately show ?thesis using i(1,2) j(4) by (intro exI [of _ "k + 1"] exI [of _ i] exI [of _ ?m]) simp
qed

section \<open>Text outside of calls\<close>

definition outside :: "eval_state \<Rightarrow> u8 \<Rightarrow> u8 \<Rightarrow> piece \<Rightarrow> bool" where
  "outside e l r p = (case p of Ch c \<Rightarrow> plain e c | Qt q \<Rightarrow> balanced l r 0 q | _ \<Rightarrow> False)"

lemma run_text:
  assumes "delims (ev st) l r" "\<forall>p \<in> set ps. outside (ev st) l r p" "reads st (source l r ps @ s) ss" "frm st = []"
  shows "\<exists>st'. runs E st st' \<and> after st (val ps) s ss st'"
  using assms
proof (induction ps arbitrary: st)
  case Nil
  then show ?case using runs_refl after_past [OF past_refl] by (fastforce simp: source_def val_def)
next
  case (Cons p ps)
  have "\<exists>st1. macro_step spec_stack E st = Inr (True, st1) \<and> after st (piece_val p) (source l r ps @ s) ss st1"
    using round_char [of st _ "source l r ps @ s" ss E] round_quote [of st l _ r "source l r ps @ s" ss E] Cons.prems
    by (cases p) (auto simp: outside_def source_def)
  then obtain st1 where st1: "macro_step spec_stack E st = Inr (True, st1)" "after st (piece_val p) (source l r ps @ s) ss st1" by blast
  note a = afterD [OF st1(2)]
  have "outside (ev st1) l r = outside (ev st) l r"
    by (simp add: fun_eq_iff outside_def plain_cong [OF a(3,4)] cong: piece.case_cong)
  then have "\<forall>p \<in> set ps. outside (ev st1) l r p" using Cons.prems(2) by simp
  then obtain st' where st': "runs E st1 st'" "after st1 (val ps) s ss st'"
    using Cons.IH [of st1] Cons.prems(1,4) a by (auto simp: delims_def)
  have "after st (val (p # ps)) s ss st'" using after_trans [OF st1(2) st'(2)] by (simp add: val_def)
  then show ?case using runs_step [OF st1(1) st'(1)] by blast
qed

text \<open>
  C38. Outside of a call, text without names is copied to the current output, comments apart, with one level of quotes
  taken off: whatever a quoted text holds, names and calls too, is not looked at.
\<close>

theorem text_is_copied:
  assumes "stack_rel s []" "buf_ok (inp e)" "streams (inp e) = (source l r ps @ rest) # ss" "delims e l r" "\<forall>p \<in> set ps. outside e l r p"
  shows "\<exists>k i s'. macro_rounds code_stack E k \<lparr>ev = e, frm = s\<rparr> = Inr (True, \<lparr>ev = e\<lparr>inp := i, dvs := put_active (val ps) (dvs e)\<rparr>, frm = s'\<rparr>) \<and>
    buf_ok i \<and> streams i = rest # ss \<and> stack_rel s' []"
proof -
  have "reads \<lparr>ev = e, frm = []\<rparr> (source l r ps @ rest) ss" using assms(2,3) by (simp add: reads_def)
  then obtain st where st: "runs E \<lparr>ev = e, frm = []\<rparr> st" "after \<lparr>ev = e, frm = []\<rparr> (val ps) rest ss st"
    using run_text [of "\<lparr>ev = e, frm = []\<rparr>" l r ps rest ss E] assms(4,5) by auto
  then obtain i where i: "buf_ok i" "streams i = rest # ss" "st = \<lparr>ev = e\<lparr>inp := i, dvs := put_active (val ps) (dvs e)\<rparr>, frm = []\<rparr>"
    by (auto simp: after_def past_def emit_def)
  obtain k where "\<forall>n. macro_rounds spec_stack E (k + n) \<lparr>ev = e, frm = []\<rparr> = macro_rounds spec_stack E n st" using runs_rounds [OF st(1)] by blast
  from this [rule_format, of 0] have k: "macro_rounds spec_stack E k \<lparr>ev = e, frm = []\<rparr> = Inr (True, st)" by simp
  have "res_rel (with_rel stack_rel) (macro_rounds code_stack E k \<lparr>ev = e, frm = s\<rparr>) (macro_rounds spec_stack E k \<lparr>ev = e, frm = []\<rparr>)"
    using assms(1) by (intro m4.alike_macro_rounds) (simp add: main_rel_def)
  then obtain c where c: "macro_rounds code_stack E k \<lparr>ev = e, frm = s\<rparr> = Inr (True, c)" "main_rel stack_rel c st"
    unfolding k by (cases "macro_rounds code_stack E k \<lparr>ev = e, frm = s\<rparr>") auto
  then have "c = \<lparr>ev = e\<lparr>inp := i, dvs := put_active (val ps) (dvs e)\<rparr>, frm = frm c\<rparr> \<and> stack_rel (frm c) []"
    by (cases c) (simp add: main_rel_def i(3))
  then show ?thesis using c(1) i(1,2) by metis
qed

theorem text_is_copied_witness:
  "\<exists>k i s'. macro_rounds code_stack bare_env k \<lparr>ev = start_state (bytes ''1 `incr(2)'' @ [39]), frm = (init_strspace (heap bare_env), 0)\<rparr> =
     Inr (True, \<lparr>ev = (start_state (bytes ''1 `incr(2)'' @ [39]))\<lparr>inp := i,
       dvs := put_active (bytes ''1 incr(2)'') (dvs (start_state (bytes ''1 `incr(2)'' @ [39])))\<rparr>, frm = s'\<rparr>) \<and>
     buf_ok i \<and> streams i = [[]] \<and> stack_rel s' []"
proof -
  define s where "s = bytes ''1 `incr(2)'' @ [39]"
  define ps where "ps = [Ch 49, Ch 32, Qt (bytes ''incr(2)'')]"
  have src: "s = source 96 39 ps @ []" unfolding s_def ps_def by (simp add: source_def bytes_def byte_of_def)
  have v: "val ps = bytes ''1 incr(2)''" by (simp add: ps_def val_def bytes_def byte_of_def)
  have "delims (start_state s) 96 39" "\<forall>p \<in> set ps. outside (start_state s) 96 39 p"
    by (simp_all add: ps_def delims_def outside_def plain_def starts_def is_alpha_def start_state_def bytes_def byte_of_def)
  moreover have "buf_ok (inp (start_state s))" "streams (inp (start_state s)) = [source 96 39 ps @ []]"
    unfolding src [symmetric] by (simp_all add: start_state_def initspaces_effect)
  ultimately show ?thesis unfolding s_def [symmetric] v [symmetric] by (intro text_is_copied [OF init_stack]) auto
qed



end
