(* ===== verification/Spec2Isabelle.thy ===== *)
theory Spec2Isabelle
  imports Sandbox_Props Strmode B64 Numbers Vis Heapsort Ohash Sh_Start M4_Call
begin

text \<open>
  A verification development of astroutils, a userland for Linux made of FreeBSD tools on a
  compatibility layer.

  \<^bold>\<open>The program.\<close>  The tools under \<open>src/src.freebsd\<close> and \<open>src/src.custom\<close> are separate commands.  What
  they share is the layer below them: \<open>src/src.compat\<close>, the repository's own code, of which the
  sandbox shim \<open>capsicum.c\<close> is the largest and the most delicate part, and
  \<open>src/src.freebsd/compat\<close>, the library routines the tools expect from their C library.  The
  development models that layer, and the computing parts of two tools: the arithmetic and the
  variables of the shell \<open>src/src.freebsd/sh\<close>, and the macro processor \<open>src/src.freebsd/m4\<close>.  A tool
  calls the shim at its start -- it limits its descriptors and enters one of three sandbox modes --
  and calls the library routines on its arguments and its data.

  \<^bold>\<open>Theories and sources.\<close>
  \<^item> \<open>Prelude\<close>: machine types, collections of simplification rules, generic lemmas.
  \<^item> The sandbox shim, \<open>src/src.compat/capsicum.c\<close>:
    \<open>Bpf\<close> (the instruction buffer, the \<open>E_*\<close> macros, and the kernel's machine that runs the filters),
    \<open>Platform\<close> (system call numbers and constants of a build target),
    \<open>Namespace\<close> (\<open>install_namespace_filter\<close>), \<open>Fd_Limits\<close> (the registry of limits and the filters
    of denied calls), \<open>Arg1_Limits\<close> (the filters of allowed ioctl and fcntl commands),
    \<open>Sandbox\<close> (the state and every public call down to its system calls, against an arbitrary
    kernel), \<open>Sandbox_Safety\<close> and \<open>Sandbox_Run\<close> (invariants, sequences of calls),
    \<open>Sandbox_Props\<close> (the properties of the whole shim).
  \<^item> The shell, \<open>src/src.freebsd/sh\<close>: \<open>Sh_Lex\<close> (\<open>arith_yylex.c\<close>, the tokens of arithmetic expressions),
    \<open>Sh_Arith\<close> (\<open>arith_yacc.c\<close>, the parser that evaluates as it reads, and \<open>let\<close>), \<open>Sh_Expr\<close> (expressions
    as trees, and the reference evaluator), \<open>Sh_Vars\<close> (\<open>var.c\<close>, the table of variables), \<open>Sh_Locals\<close>
    and \<open>Sh_Shell\<close> (saved variables, and the scope of a command substitution of \<open>eval.c\<close>), \<open>Sh_Start\<close> (\<open>initvar\<close>).
  \<^item> The macro processor, \<open>src/src.freebsd/m4\<close>: \<open>M4_Buf\<close> (\<open>misc.c\<close>, the text that is pushed back and the
    included files), \<open>M4_Expand\<close> (\<open>eval.c\<close>, user-defined macros), \<open>M4_Args\<close> (\<open>misc.c\<close>, the strings of the
    calls being read), \<open>M4_Macros\<close> (\<open>look.c\<close>, the table of macros), \<open>M4_Table\<close> (who owns which text),
    \<open>M4_Translit\<close> and \<open>M4_Builtin\<close> (\<open>eval.c\<close>, \<open>indir\<close> and \<open>builtin\<close> of \<open>gnum4.c\<close>, the built-in macros and the
    diversions), \<open>M4_Eval\<close> (\<open>eval\<close>, the invariant of the interpreter), \<open>M4_Main\<close> (\<open>main.c\<close>, the main loop and
    the stack of calls), \<open>M4_Stack\<close> and \<open>M4_Loop\<close> (the simulation of that stack by a list of calls), \<open>M4_Rounds\<close>
    and \<open>M4_Call\<close> (what the loop does with text and with calls).
  \<^item> \<open>Setmode\<close>: \<open>src/src.freebsd/compat/setmode.c\<close>, the compiler and the interpreter of file modes.
  \<^item> \<open>Strmode\<close>: \<open>src/src.freebsd/compat/strmode.c\<close>, the text of a mode.
  \<^item> \<open>B64\<close>: \<open>src/src.compat/b64.c\<close>, base64 in both directions.
  \<^item> \<open>Numbers\<close>: \<open>src/src.compat/strtonum.c\<close>, \<open>src/src.freebsd/compat/expand_number.c\<close> and
    \<open>humanize_number.c\<close>.
  \<^item> \<open>Unvis\<close> and \<open>Vis\<close>: \<open>src/src.freebsd/compat/unvis.c\<close> and \<open>vis.c\<close>, the decoder and the encoder of
    visual text, and the loop of the tool \<open>src/src.freebsd/unvis/unvis.c\<close>.
  \<^item> \<open>Heapsort\<close>: \<open>src/src.freebsd/compat/heapsort.c\<close>.
  \<^item> \<open>Ohash\<close>: \<open>src/src.freebsd/compat/ohash.c\<close>, the open hash table in which \<open>m4\<close> keeps its macros.

  \<^bold>\<open>How code becomes definitions.\<close>  A structure is a record, a set of codes a datatype, a C integer a
  word of its width or an integer whose overflow is written out.  A function that fails returns a
  sum with the error on the left; undefined behaviour the code could run into -- a write or a read
  outside an array, a signed overflow, a failed assertion, a second \<open>free\<close> -- is an error or a recorded
  fault of its own, so that its absence is a theorem.  Code that is not in the repository is a
  parameter: the kernel's answers to the shim, the multibyte conversions of the C library, the
  success of allocations and the place where they put a block, the umask, the environment, the files that
  \<open>m4\<close> includes.  So are the built-ins of \<open>m4\<close> that run commands or use regular expressions, and the value of an
  expression, which a parser made by \<open>yacc\<close> computes.

  \<^bold>\<open>What is shown.\<close>
  \<^item> C1--C4: the filter programs the shim builds, with their jumps and their patching, decide every
    system call as the policies say; what they leave open is stated as well.
  \<^item> C5--C10: in all reachable states the tables are within bounds and an entered sandbox has its
    filter; calls only tighten; entering fails closed; the limits are enforced, and where they are
    not.  The argument over sequences of calls is made once in the locale \<open>monotone_system\<close>, which is
    interpreted on the steps of the shim.
  \<^item> C11--C17: the shell's arithmetic computes what a reference evaluator on trees computes and always
    returns; variables read back, reach the environment, and are restored after a substitution; and
    the flaws of local variables.  What arithmetic needs of variables is the locale
    \<open>variable_store\<close>, interpreted on the shell's table.
  \<^item> C18--C19: the compression of a compiled mode preserves its meaning, and the command array is never
    overrun.
  \<^item> C20--C21: base64 succeeds exactly when it fits, and comes back.
  \<^item> C22--C23: number conversions are exact, and scaled texts fit their buffers.
  \<^item> C24--C27: what \<open>vis\<close> encodes, \<open>unvis\<close> decodes; both stay within their buffers and tables; the tool
    and the library agree.
  \<^item> C28: \<open>heapsort\<close> sorts, for any comparison function that is a total preorder.
  \<^item> C29--C38: the input of \<open>m4\<close> refines a stack of streams; a macro call puts its expansion before it;
    the table of macros is a map from names to
    stacks of definitions that frees nothing twice; which operations free a text a call still uses; the
    built-ins that make text make that of a reference; every call keeps the invariant of the interpreter;
    the main loop on the array of stack entries and the string space that moves does what it does on a list of calls,
    evaluates a call with its arguments split and unquoted, and copies other text.  What the loop relies on is the
    locale \<open>like_stacks\<close>, interpreted on the two stacks.
  \<^item> C39--C40: the hash table refines a map from names to entries, through deletions, moves and
    resizes, and its loops end; a table left without a free slot by failed allocations makes the
    lookup of an absent name run forever.  What a client may rely on is the locale \<open>name_table\<close>,
    interpreted on the table; the macros of \<open>m4\<close> rest on that interpretation.

  Lemmas of each theory show more: the operators of arithmetic modulo \<open>2 ^ 64\<close>, an argument of \<open>m4\<close> that stays
  while the string space moves, the calls denied in all sandbox modes and the order of the modes, two
  corners of symbolic modes, octal modes and file types, the text of a mode, the decoder's bounds, what
  \<open>strtonum\<close> accepts, the inputs \<open>vis\<close> gets wrong.

  \<^bold>\<open>Bounds, loops and fuel.\<close>  Only the main loop of \<open>m4\<close>, which a recursive macro keeps
  running, is counted in rounds; the properties of it hold for any number of rounds, or say that some number is enough.
  Other loops are recursions with a measure: the length of
  the rest of the input, the scale still left in \<open>autoscale\<close>, the rows of the entity table still
  ahead; the decoder's jump back with a pushed character ends because the ground state never
  pushes.  Loops that need not end are partial functions, and that they return is part of the
  theorems: the probing loops of the hash table, on every table in order, because the size is a
  power of two, the step is odd and a slot is free; the parser of arithmetic, on every text; the
  return from a function to the variables it saved; the loop that makes room for a string in \<open>m4\<close>.  Tables of
  up to \<open>2 ^ 29\<close> slots are considered, beyond which the products of the 32-bit counters would wrap.
  Sizes are natural numbers where the code compares before it subtracts.

  \<^bold>\<open>Not modelled.\<close>  The tools (editors, a telnet client and some two hundred smaller commands) apart
  from the parts named above: their work is terminal and file I/O, process control, or regular
  expressions of the C library.  The tests and the fuzzing harnesses.  What the kernel does with a
  landlock ruleset.  Locales other than the C locale, except for the multibyte conversions in \<open>Vis\<close>.
\<close>

end
